(* ===== verification/Linkr_Prelude.thy ===== *)
theory Linkr_Prelude
  imports Complex_Main "HOL-Library.Word"
begin

text \<open>
  Shared vocabulary of the development: JavaScript numbers with their three
  non-finite values, the 32 bit conversions of the JavaScript bit operators,
  bytes and their little-endian groups, reads beyond the end of an array, the
  result type of code that may throw, and the generic interfaces (locales) that
  several components implement.
\<close>

unbundle bit_operations_syntax

named_theorems js_simps "evaluation of JavaScript number operations"

subsection \<open>Results of code that may throw\<close>

type_synonym ('e, 'a) result = "'e + 'a"

definition bindR :: "('e + 'a) \<Rightarrow> ('a \<Rightarrow> 'e + 'b) \<Rightarrow> 'e + 'b" where
  "bindR r f = (case r of Inl e \<Rightarrow> Inl e | Inr a \<Rightarrow> f a)"

lemma bindR_simps [simp]: "bindR (Inl e) f = Inl e" "bindR (Inr a) f = f a"
  by (simp_all add: bindR_def)

lemma bindR_Inr_iff: "bindR r f = Inr b \<longleftrightarrow> (\<exists>a. r = Inr a \<and> f a = Inr b)"
  by (cases r) auto

lemma bindR_Inl_iff: "bindR r f = Inl e \<longleftrightarrow> r = Inl e \<or> (\<exists>a. r = Inr a \<and> f a = Inl e)"
  by (cases r) auto

text \<open>Throws \<open>e\<close> when the check fails, otherwise continues.\<close>

definition guardR :: "bool \<Rightarrow> 'e \<Rightarrow> ('e + 'a) \<Rightarrow> 'e + 'a" where
  "guardR ok e k = (if ok then k else Inl e)"

lemma guardR_simps [simp]: "guardR True e k = k" "guardR False e k = Inl e"
  by (simp_all add: guardR_def)

lemma guardR_Inr_iff: "guardR ok e k = Inr b \<longleftrightarrow> ok \<and> k = Inr b"
  by (simp add: guardR_def)

text \<open>A \<open>for ... of\<close> loop whose body may throw.\<close>

fun foldR :: "('s \<Rightarrow> 'x \<Rightarrow> 'e + 's) \<Rightarrow> 's \<Rightarrow> 'x list \<Rightarrow> 'e + 's" where
  "foldR f s [] = Inr s"
| "foldR f s (x # xs) = bindR (f s x) (\<lambda>s'. foldR f s' xs)"

lemma foldR_append: "foldR f s (xs @ ys) = bindR (foldR f s xs) (\<lambda>s'. foldR f s' ys)"
proof (induction xs arbitrary: s)
  case (Cons x xs)
  then show ?case by (cases "f s x") simp_all
qed simp

text \<open>\<open>findIndex\<close>, with \<open>-1\<close> as \<open>None\<close>, and \<open>splice(i, 1)\<close>.\<close>

fun find_index :: "('x \<Rightarrow> bool) \<Rightarrow> 'x list \<Rightarrow> nat option" where
  "find_index P [] = None"
| "find_index P (x # xs) = (if P x then Some 0 else map_option Suc (find_index P xs))"

definition remove_at :: "nat \<Rightarrow> 'x list \<Rightarrow> 'x list" where
  "remove_at i xs = take i xs @ drop (i + 1) xs"

lemma find_index_Some:
  "find_index P xs = Some i \<Longrightarrow> i < length xs \<and> P (xs ! i)"
  by (induction xs arbitrary: i) (auto split: if_splits)

lemma find_index_cong: "map f xs = map g ys \<Longrightarrow> (\<And>x y. f x = g y \<Longrightarrow> P x = Q y) \<Longrightarrow>
    find_index P xs = find_index Q ys"
proof (induction xs arbitrary: ys)
  case (Cons x xs)
  then show ?case by (cases ys) auto
qed simp

subsection \<open>Strings\<close>

text \<open>Strings are lists of Latin-1 code units. Decimal numerals and \<open>trim\<close>.\<close>

fun string_of_nat :: "nat \<Rightarrow> string" where
  "string_of_nat n =
     (if n < 10 then [char_of (48 + n)] else string_of_nat (n div 10) @ [char_of (48 + n mod 10)])"

declare string_of_nat.simps [simp del]

text \<open>\<open>`${n}`\<close> of an integer.\<close>

definition string_of_int :: "int \<Rightarrow> string" where
  "string_of_int n = (if n < 0 then ''-'' @ string_of_nat (nat (- n)) else string_of_nat (nat n))"

text \<open>The code unit of a character, decimal digits and their value.\<close>

definition code :: "char \<Rightarrow> nat" where
  "code c = of_char c"

definition is_digit :: "char \<Rightarrow> bool" where
  "is_digit c \<longleftrightarrow> 48 \<le> code c \<and> code c \<le> 57"

definition digits_value :: "string \<Rightarrow> nat" where
  "digits_value ds = foldl (\<lambda>n d. n * 10 + (code d - 48)) 0 ds"

lemma code_char_of [simp]: "n < 256 \<Longrightarrow> code (char_of n) = n"
  by (simp add: code_def)

lemma char_of_code [simp]: "char_of (code c) = c"
  by (simp add: code_def)

lemma is_digit_char [simp]: "k \<le> 9 \<Longrightarrow> is_digit (char_of (48 + k :: nat))"
  by (simp add: is_digit_def)

lemma string_of_nat_digits: "list_all is_digit (string_of_nat n) \<and> string_of_nat n \<noteq> []"
proof (induction n rule: string_of_nat.induct)
  case (1 n)
  have "n mod 10 \<le> 9" by simp
  with 1 show ?case by (subst (1 2) string_of_nat.simps) (simp del: of_nat_add)
qed

lemma digits_value_snoc: "digits_value (ds @ [d]) = digits_value ds * 10 + (code d - 48)"
  by (simp add: digits_value_def)

lemma digits_value_string: "digits_value (string_of_nat n) = n"
proof (induction n rule: string_of_nat.induct)
  case (1 n)
  show ?case
  proof (cases "n < 10")
    case True
    then show ?thesis by (subst string_of_nat.simps) (simp add: digits_value_def)
  next
    case False
    with 1 show ?thesis by (subst string_of_nat.simps) (simp add: digits_value_snoc)
  qed
qed


text \<open>UTF-8 of a Latin-1 character, \<open>TextEncoder\<close>.\<close>

definition utf8_bytes :: "char \<Rightarrow> nat list" where
  "utf8_bytes c = (if code c < 128 then [code c] else [192 + code c div 64, 128 + code c mod 64])"

definition js_space :: "char \<Rightarrow> bool" where
  "js_space c \<longleftrightarrow> (of_char c :: nat) \<in> {9, 10, 11, 12, 13, 32, 160}"

definition js_trim :: "string \<Rightarrow> string" where
  "js_trim s = rev (dropWhile js_space (rev (dropWhile js_space s)))"

lemma js_trim_eq_Nil: "js_trim s = [] \<longleftrightarrow> list_all js_space s"
proof (cases "dropWhile js_space s")
  case Nil
  then show ?thesis by (auto simp: js_trim_def list_all_iff dropWhile_eq_Nil_conv dest: set_dropWhileD)
next
  case (Cons c cs)
  then have c: "\<not> js_space c" by (metis dropWhile_eq_Cons_conv)
  have "c \<in> set s" using Cons by (metis list.set_intros(1) set_dropWhileD)
  with c Cons show ?thesis by (auto simp: js_trim_def list_all_iff dropWhile_eq_Nil_conv)
qed

subsection \<open>JavaScript numbers\<close>

text \<open>
  A number is one of the three non-finite values or a finite value. Finite values
  are exact rationals: the code modelled here only combines values on which the
  double arithmetic is exact (integers below \<open>2 ^ 53\<close>, comparisons, truncation);
  \<open>-0\<close> and \<open>0\<close> are one value.
\<close>

datatype jsnum = NaN | PosInf | NegInf | Fin rat

fun isFinite :: "jsnum \<Rightarrow> bool" where
  "isFinite (Fin _) = True"
| "isFinite _ = False"

fun isInteger :: "jsnum \<Rightarrow> bool" where
  "isInteger (Fin r) = (of_int \<lfloor>r\<rfloor> = r)"
| "isInteger _ = False"

definition rat_trunc :: "rat \<Rightarrow> int" where
  "rat_trunc r = (if 0 \<le> r then \<lfloor>r\<rfloor> else \<lceil>r\<rceil>)"

fun js_trunc :: "jsnum \<Rightarrow> jsnum" where
  "js_trunc (Fin r) = Fin (of_int (rat_trunc r))"
| "js_trunc x = x"

fun js_round :: "jsnum \<Rightarrow> jsnum" where
  "js_round (Fin r) = Fin (of_int \<lfloor>r + 1/2\<rfloor>)"
| "js_round x = x"

fun js_lt :: "jsnum \<Rightarrow> jsnum \<Rightarrow> bool" where
  "js_lt NaN _ = False"
| "js_lt _ NaN = False"
| "js_lt NegInf y = (y \<noteq> NegInf)"
| "js_lt _ NegInf = False"
| "js_lt PosInf _ = False"
| "js_lt (Fin _) PosInf = True"
| "js_lt (Fin a) (Fin b) = (a < b)"

definition js_eq :: "jsnum \<Rightarrow> jsnum \<Rightarrow> bool" where
  "js_eq x y \<longleftrightarrow> x = y \<and> x \<noteq> NaN"

definition js_le :: "jsnum \<Rightarrow> jsnum \<Rightarrow> bool" where
  "js_le x y \<longleftrightarrow> js_lt x y \<or> js_eq x y"

definition js_min :: "jsnum \<Rightarrow> jsnum \<Rightarrow> jsnum" where
  "js_min x y = (if x = NaN \<or> y = NaN then NaN else if js_lt x y then x else y)"

definition js_max :: "jsnum \<Rightarrow> jsnum \<Rightarrow> jsnum" where
  "js_max x y = (if x = NaN \<or> y = NaN then NaN else if js_lt x y then y else x)"

abbreviation js_int :: "int \<Rightarrow> jsnum" where
  "js_int i \<equiv> Fin (of_int i)"

lemma isInteger_iff: "isInteger x \<longleftrightarrow> (\<exists>i. x = js_int i)"
proof (cases x)
  case (Fin r)
  then show ?thesis by (metis isInteger.simps(1) floor_of_int jsnum.inject)
qed auto

lemma rat_trunc_of_int [simp]: "rat_trunc (of_int i) = i"
  by (simp add: rat_trunc_def)

lemma rat_trunc_of_nat [simp]: "rat_trunc (of_nat n) = int n"
  using rat_trunc_of_int [of "int n"] by simp

lemma rat_trunc_numeral [simp]: "rat_trunc (numeral n) = numeral n" "rat_trunc 0 = 0" "rat_trunc 1 = 1"
  by (simp_all add: rat_trunc_def)

lemma js_eq_Fin [simp]: "js_eq (Fin a) (Fin b) \<longleftrightarrow> a = b"
  by (simp add: js_eq_def)

lemma js_le_Fin [simp]: "js_le (Fin a) (Fin b) \<longleftrightarrow> a \<le> b"
  by (auto simp: js_le_def)

lemma js_min_Fin [simp]: "js_min (Fin a) (Fin b) = Fin (min a b)"
  by (simp add: js_min_def min_def)

lemma js_max_Fin [simp]: "js_max (Fin a) (Fin b) = Fin (max a b)"
  by (auto simp: js_max_def max_def)

lemma isFinite_iff: "isFinite x \<longleftrightarrow> (\<exists>r. x = Fin r)"
  by (cases x) auto

lemma isInteger_isFinite: "isInteger x \<Longrightarrow> isFinite x"
  by (cases x) auto

lemma isInteger_js_int [simp]: "isInteger (js_int i)"
  by simp

lemma js_le_FinD:
  "js_le (Fin a) x \<Longrightarrow> x \<noteq> PosInf \<Longrightarrow> \<exists>b. x = Fin b \<and> a \<le> b"
  by (cases x) (auto simp: js_le_def js_eq_def)

lemma js_range_Fin:
  "js_le (Fin a) x \<Longrightarrow> js_le x (Fin b) \<Longrightarrow> \<exists>r. x = Fin r \<and> a \<le> r \<and> r \<le> b"
  by (cases x) (auto simp: js_le_def js_eq_def)

fun js_add :: "jsnum \<Rightarrow> jsnum \<Rightarrow> jsnum" where
  "js_add (Fin a) (Fin b) = Fin (a + b)"
| "js_add NaN y = NaN"
| "js_add x NaN = NaN"
| "js_add PosInf NegInf = NaN"
| "js_add NegInf PosInf = NaN"
| "js_add (Fin _) y = y"
| "js_add x y = x"

fun js_neg :: "jsnum \<Rightarrow> jsnum" where
  "js_neg (Fin a) = Fin (- a)"
| "js_neg PosInf = NegInf"
| "js_neg NegInf = PosInf"
| "js_neg NaN = NaN"

definition js_sub :: "jsnum \<Rightarrow> jsnum \<Rightarrow> jsnum" where
  "js_sub x y = js_add x (js_neg y)"

lemma js_sub_Fin [simp]: "js_sub (Fin a) (Fin b) = Fin (a - b)"
  by (simp add: js_sub_def)

text \<open>
  A total order on numbers that agrees with \<open><\<close> on everything but \<open>NaN\<close>, which it puts
  last; \<open>sort\<close> on a list without \<open>NaN\<close> is what a numeric comparator sorts to.
\<close>

instantiation jsnum :: linorder
begin

fun less_eq_jsnum :: "jsnum \<Rightarrow> jsnum \<Rightarrow> bool" where
  "less_eq_jsnum NegInf _ = True"
| "less_eq_jsnum (Fin a) (Fin b) = (a \<le> b)"
| "less_eq_jsnum (Fin _) y = (y \<noteq> NegInf)"
| "less_eq_jsnum PosInf y = (y = PosInf \<or> y = NaN)"
| "less_eq_jsnum NaN y = (y = NaN)"

definition less_jsnum :: "jsnum \<Rightarrow> jsnum \<Rightarrow> bool" where
  "less_jsnum x y \<longleftrightarrow> x \<le> y \<and> \<not> y \<le> x"

instance
proof
  fix x y z :: jsnum
  show "x < y \<longleftrightarrow> x \<le> y \<and> \<not> y \<le> x" by (rule less_jsnum_def)
  show "x \<le> x" by (cases x) simp_all
  show "x \<le> y \<Longrightarrow> y \<le> z \<Longrightarrow> x \<le> z" by (cases x; cases y; cases z) simp_all
  show "x \<le> y \<Longrightarrow> y \<le> x \<Longrightarrow> x = y" by (cases x; cases y) simp_all
  show "x \<le> y \<or> y \<le> x" by (cases x; cases y) (simp_all add: linear)
qed

end

lemma js_lt_iff_less: "x \<noteq> NaN \<Longrightarrow> y \<noteq> NaN \<Longrightarrow> js_lt x y \<longleftrightarrow> x < y"
  by (cases x; cases y) (auto simp: less_jsnum_def)

lemma js_le_iff_less_eq: "x \<noteq> NaN \<Longrightarrow> y \<noteq> NaN \<Longrightarrow> js_le x y \<longleftrightarrow> x \<le> y"
  by (auto simp: js_le_def js_eq_def js_lt_iff_less order.order_iff_strict)

lemma less_Fin [simp]: "Fin a < Fin b \<longleftrightarrow> a < b"
  by (auto simp: less_jsnum_def)

subsection \<open>32 bit conversions and bytes\<close>

type_synonym u8 = "8 word"
type_synonym u16 = "16 word"
type_synonym u32 = "32 word"
type_synonym bytes = "u8 list"

text \<open>\<open>ToInt32\<close>, which every operand of a JavaScript bit operator goes through.\<close>

fun toInt32 :: "jsnum \<Rightarrow> u32" where
  "toInt32 (Fin r) = word_of_int (rat_trunc r)"
| "toInt32 _ = 0"

text \<open>The byte \<open>(x >> n) & 0xff\<close>, stored into a \<open>Uint8Array\<close>; \<open>>>\<close> keeps the sign.\<close>

definition byte_of :: "u32 \<Rightarrow> nat \<Rightarrow> u8" where
  "byte_of x n = ucast (signed_drop_bit n x AND 255)"

text \<open>\<open>data[i]\<close>, undefined beyond the end.\<close>

definition nth_opt :: "'a list \<Rightarrow> nat \<Rightarrow> 'a option" where
  "nth_opt xs i = (if i < length xs then Some (xs ! i) else None)"

text \<open>A byte as operand of a bit operator: undefined converts to 0.\<close>

definition bits_at :: "bytes \<Rightarrow> nat \<Rightarrow> u32" where
  "bits_at bs i = (case nth_opt bs i of None \<Rightarrow> 0 | Some b \<Rightarrow> ucast b)"

definition le16 :: "bytes \<Rightarrow> nat \<Rightarrow> u32" where
  "le16 bs i = bits_at bs i OR push_bit 8 (bits_at bs (i + 1))"

definition le24 :: "bytes \<Rightarrow> nat \<Rightarrow> u32" where
  "le24 bs i = bits_at bs i OR push_bit 8 (bits_at bs (i + 1)) OR push_bit 16 (bits_at bs (i + 2))"

definition le32 :: "bytes \<Rightarrow> nat \<Rightarrow> u32" where
  "le32 bs i = bits_at bs i OR push_bit 8 (bits_at bs (i + 1)) OR push_bit 16 (bits_at bs (i + 2))
     OR push_bit 24 (bits_at bs (i + 3))"

lemma nth_opt_Some [simp]: "i < length xs \<Longrightarrow> nth_opt xs i = Some (xs ! i)"
  by (simp add: nth_opt_def)

lemma nth_opt_None [simp]: "length xs \<le> i \<Longrightarrow> nth_opt xs i = None"
  by (simp add: nth_opt_def)

lemma nth_opt_Cons [simp]: "nth_opt (x # xs) 0 = Some x" "nth_opt (x # xs) (Suc i) = nth_opt xs i"
  by (simp_all add: nth_opt_def)

lemma nth_opt_Nil [simp]: "nth_opt [] i = None"
  by (simp add: nth_opt_def)

lemma nth_opt_numeral [simp]:
  "nth_opt (x # xs) (numeral n) = nth_opt xs (pred_numeral n)"
  by (simp add: numeral_eq_Suc)

lemma nth_opt_one [simp]: "nth_opt (x # xs) 1 = nth_opt xs 0"
  by (simp add: nth_opt_def)

lemma nth_opt_append_left: "i < length xs \<Longrightarrow> nth_opt (xs @ ys) i = nth_opt xs i"
  by (simp add: nth_opt_def nth_append)

lemma nth_opt_eq_Some_iff: "nth_opt xs i = Some x \<longleftrightarrow> i < length xs \<and> xs ! i = x"
  by (simp add: nth_opt_def)

lemma bit_byte_of: "n \<le> 24 \<Longrightarrow> bit (byte_of x n) i \<longleftrightarrow> i < 8 \<and> bit x (n + i)"
proof -
  assume n: "n \<le> 24"
  have m: "(255 :: u32) = mask 8"
    by (simp add: mask_eq_exp_minus_1)
  show ?thesis
    using n unfolding byte_of_def m
    by (auto simp: bit_simps bit_signed_drop_bit_iff dest: bit_imp_le_length)
qed

text \<open>Reading back the bytes of a 32 bit value: the little-endian round trip.\<close>

lemma le16_bytes:
  assumes "bits_at bs i = ucast (byte_of x 0)" "bits_at bs (i + 1) = ucast (byte_of x 8)"
  shows "le16 bs i = take_bit 16 x"
proof (rule bit_word_eqI)
  fix k
  assume "k < LENGTH(32)"
  then show "bit (le16 bs i) k = bit (take_bit 16 x) k"
    using assms by (auto simp: le16_def bit_simps bit_byte_of)
qed

lemma le24_bytes:
  assumes "bits_at bs i = ucast (byte_of x 0)" "bits_at bs (i + 1) = ucast (byte_of x 8)"
    "bits_at bs (i + 2) = ucast (byte_of x 16)"
  shows "le24 bs i = take_bit 24 x"
proof (rule bit_word_eqI)
  fix k
  assume "k < LENGTH(32)"
  then show "bit (le24 bs i) k = bit (take_bit 24 x) k"
    using assms
    by (cases "k < 8"; cases "k < 16") (auto simp: le24_def bit_simps bit_byte_of)
qed

lemma le32_bytes:
  assumes "bits_at bs i = ucast (byte_of x 0)" "bits_at bs (i + 1) = ucast (byte_of x 8)"
    "bits_at bs (i + 2) = ucast (byte_of x 16)" "bits_at bs (i + 3) = ucast (byte_of x 24)"
  shows "le32 bs i = x"
proof (rule bit_word_eqI)
  fix k
  assume "k < LENGTH(32)"
  then show "bit (le32 bs i) k = bit x k"
    using assms
    by (cases "k < 8"; cases "k < 16"; cases "k < 24") (auto simp: le32_def bit_simps bit_byte_of)
qed

lemma bits_at_Cons [simp]: "bits_at (b # bs) 0 = ucast b" "bits_at (b # bs) (Suc i) = bits_at bs i"
  by (simp_all add: bits_at_def)

lemma bits_at_Nil [simp]: "bits_at [] i = 0"
  by (simp add: bits_at_def)

lemma bits_at_numeral [simp]: "bits_at (b # bs) (numeral n) = bits_at bs (pred_numeral n)"
  by (simp add: bits_at_def)

lemma bits_at_one [simp]: "bits_at (b # bs) 1 = bits_at bs 0"
  by (simp add: bits_at_def)

text \<open>The bytes of a group, read back from the array.\<close>

lemma bits_at_nth: "i < length bs \<Longrightarrow> bits_at bs i = ucast (bs ! i)"
  by (simp add: bits_at_def)

lemma byte_of_le16:
  assumes "i + 1 < length bs"
  shows "byte_of (le16 bs i) 0 = bs ! i" "byte_of (le16 bs i) 8 = bs ! (i + 1)"
proof -
  have beyond: "\<not> bit (b :: u8) (8 + k)" for b k
    using bit_imp_le_length [of b "8 + k"] by auto
  show "byte_of (le16 bs i) 0 = bs ! i" "byte_of (le16 bs i) 8 = bs ! (i + 1)"
    using assms by (auto intro!: bit_word_eqI simp: bit_byte_of le16_def bits_at_nth bit_simps beyond)
qed

lemma take_bit_le16: "take_bit 16 (le16 bs i) = le16 bs i"
  by (rule bit_word_eqI)
    (auto simp: le16_def bits_at_def bit_simps split: option.splits dest: bit_imp_le_length)

lemma take_bit_le24: "take_bit 24 (le24 bs i) = le24 bs i"
  by (rule bit_word_eqI)
    (auto simp: le24_def bits_at_def bit_simps split: option.splits dest: bit_imp_le_length)

lemma unat_less_of_take_bit:
  assumes "take_bit n (x :: u32) = x"
  shows "unat x < 2 ^ n"
proof -
  have "unat (take_bit n x) = take_bit n (unat x)"
    by (simp add: unsigned_take_bit_eq)
  then show ?thesis
    using assms by (metis take_bit_nat_less_exp)
qed

lemma unat_le16_less: "unat (le16 bs i) < 65536"
  using unat_less_of_take_bit [OF take_bit_le16] by simp

lemma unat_le24_less: "unat (le24 bs i) < 16777216"
  using unat_less_of_take_bit [OF take_bit_le24] by simp

lemma bits_at_append: "bits_at (pre @ bs) (length pre + i) = bits_at bs i"
  by (simp add: bits_at_def nth_opt_def)

lemma le16_append: "le16 (pre @ bs) (length pre + i) = le16 bs i"
  unfolding le16_def add.assoc bits_at_append by (rule refl)

lemma le16_drop: "i \<le> length bs \<Longrightarrow> le16 bs (i + j) = le16 (drop i bs) j"
  using le16_append [of "take i bs" "drop i bs" j] by (simp add: min.absorb2)

lemma take_bit_small_word:
  assumes "0 \<le> v" "v < 2 ^ n"
  shows "take_bit n (word_of_int v :: u32) = word_of_int v"
proof -
  have "take_bit n v = v"
    using assms by (simp add: take_bit_int_eq_self)
  then show ?thesis
    by (intro bit_word_eqI) (metis bit_take_bit_iff bit_word_of_int_iff)
qed

lemma uint_word_of_int_small: "0 \<le> v \<Longrightarrow> v < 2 ^ 32 \<Longrightarrow> uint (word_of_int v :: u32) = v"
  by (simp add: uint_word_of_int)

lemma sint_word_of_int_small: "0 \<le> v \<Longrightarrow> v < 2 ^ 31 \<Longrightarrow> sint (word_of_int v :: u32) = v"
  by (simp add: sint_uint uint_word_of_int signed_take_bit_int_eq_self)

subsection \<open>Interfaces\<close>

text \<open>
  A machine with an invariant and an order its steps respect. \<open>foldl step\<close> runs it over
  a list of events; the invariant and the order carry over to runs.
\<close>

locale guarded_machine =
  fixes step :: "'s \<Rightarrow> 'e \<Rightarrow> 's" and inv :: "'s \<Rightarrow> bool" and le :: "'s \<Rightarrow> 's \<Rightarrow> bool"
  assumes inv_step: "inv s \<Longrightarrow> inv (step s e)"
    and le_step: "inv s \<Longrightarrow> le s (step s e)"
    and le_refl: "le s s"
    and le_trans: "le s t \<Longrightarrow> le t u \<Longrightarrow> le s u"
begin

lemma inv_run: "inv s \<Longrightarrow> inv (foldl step s es)"
  by (induction es arbitrary: s) (simp_all add: inv_step)

lemma le_run: "inv s \<Longrightarrow> le s (foldl step s es)"
proof (induction es arbitrary: s)
  case (Cons e es)
  have "le (step s e) (foldl step (step s e) es)"
    using Cons.prems by (intro Cons.IH inv_step)
  with Cons.prems show ?case
    by (simp add: le_trans [OF le_step])
qed (simp add: le_refl)

end

text \<open>
  A consumer of an input stream that may stop with an error. Feeding is compatible with
  concatenation, so how the input is cut into chunks does not matter.
\<close>

fun feed_chunks ::
  "('s \<Rightarrow> 'b list \<Rightarrow> 's \<times> 'e option) \<Rightarrow> 's \<Rightarrow> 'b list list \<Rightarrow> 's \<times> 'e option" where
  "feed_chunks feed s [] = (s, None)"
| "feed_chunks feed s (c # cs) =
     (case feed s c of (s', None) \<Rightarrow> feed_chunks feed s' cs | (s', Some e) \<Rightarrow> (s', Some e))"

locale stream_consumer =
  fixes feed :: "'s \<Rightarrow> 'b list \<Rightarrow> 's \<times> 'e option"
  assumes feed_append: "feed s xs = (s', None) \<Longrightarrow> feed s (xs @ ys) = feed s' ys"
begin

lemma feed_chunks_concat:
  "feed_chunks feed s cs = (s', None) \<Longrightarrow> cs \<noteq> [] \<Longrightarrow> feed s (concat cs) = (s', None)"
proof (induction cs arbitrary: s)
  case (Cons c cs)
  from Cons.prems(1) obtain s1 where c: "feed s c = (s1, None)"
    and rest: "feed_chunks feed s1 cs = (s', None)"
    by (auto split: prod.splits option.splits)
  show ?case
  proof (cases "cs = []")
    case True
    with c rest show ?thesis by simp
  next
    case False
    with rest Cons.IH have "feed s1 (concat cs) = (s', None)" by blast
    with feed_append [OF c] show ?thesis by simp
  qed
qed simp

lemma same_input_same_result:
  assumes "feed_chunks feed s cs = (s1, None)" "feed_chunks feed s ds = (s2, None)"
    "concat cs = concat ds" "cs \<noteq> []" "ds \<noteq> []"
  shows "s1 = s2"
  using feed_chunks_concat [OF assms(1,4)] feed_chunks_concat [OF assms(2,5)] assms(3) by simp

end

end
