(* ===== verification/Sigrok_Config.thy ===== *)
theory Sigrok_Config
  imports Linkr_Prelude
begin

text \<open>
  The CONFIG request of the Sigrok wire protocol (\<open>web/src/lib/sigrokClient.ts\<close>):
  the range checks on its fields, the two payload layouts (12 and 16 bytes) and the
  choice between them. The lemmas say that a payload is produced exactly when every
  field fits, and that the fields can be read back from it.
\<close>

subsection \<open>Protocol constants\<close>

definition SIGROK_MAGIC :: u8 where [simp]: "SIGROK_MAGIC = 0x72"
definition SIGROK_PROTOCOL_VERSION :: u8 where [simp]: "SIGROK_PROTOCOL_VERSION = 2"
definition SIGROK_HEADER_BYTES :: nat where [simp]: "SIGROK_HEADER_BYTES = 9"
definition SIGROK_SAMPLE_INDEX_BITS :: nat where [simp]: "SIGROK_SAMPLE_INDEX_BITS = 24"
definition SIGROK_SAMPLE_INDEX_MODULO :: int where
  [simp]: "SIGROK_SAMPLE_INDEX_MODULO = push_bit SIGROK_SAMPLE_INDEX_BITS 1"

text \<open>\<open>SigrokFrameType\<close>, as the byte on the wire.\<close>

definition HELLO_REQ :: u8 where [simp]: "HELLO_REQ = 0x01"
definition HELLO_RESP :: u8 where [simp]: "HELLO_RESP = 0x02"
definition CAPS_REQ :: u8 where [simp]: "CAPS_REQ = 0x03"
definition CAPS_RESP :: u8 where [simp]: "CAPS_RESP = 0x04"
definition CONFIG_REQ :: u8 where [simp]: "CONFIG_REQ = 0x05"
definition CONFIG_RESP :: u8 where [simp]: "CONFIG_RESP = 0x06"
definition START_REQ :: u8 where [simp]: "START_REQ = 0x07"
definition START_RESP :: u8 where [simp]: "START_RESP = 0x08"
definition STOP_REQ :: u8 where [simp]: "STOP_REQ = 0x09"
definition STOP_RESP :: u8 where [simp]: "STOP_RESP = 0x0a"
definition CONFIG_V2_REQ :: u8 where [simp]: "CONFIG_V2_REQ = 0x0b"
definition EVENT :: u8 where [simp]: "EVENT = 0x10"
definition DATA :: u8 where [simp]: "DATA = 0x11"
definition ERROR :: u8 where [simp]: "ERROR = 0x7f"

text \<open>The errors thrown by the codec, one constructor per \<open>throw\<close>.\<close>

datatype rle_name = RLE_name | BIT_PACK_RLE_name | SINGLE_BITS_RLE_name

datatype sigrok_error =
    UintRange string nat
  | ConfigV2NotAdvertised
  | SamplesRequireConfigV2
  | MaskSelectsNoChannels
  | BitPackLength
  | SingleBitsChannels
  | SingleBitsLength
  | SingleBitsTailPadding
  | PaletteLength
  | PaletteNotDistinct
  | PaletteTailPadding
  | RleTruncated rle_name
  | RleZeroRun rle_name
  | RleOverrun rle_name
  | RleCountMismatch rle_name
  | UnsupportedCompression u8
  | DataPayloadShort

record SigrokConfigReq =
  reqModeId :: jsnum
  reqTriggerType :: jsnum
  reqTriggerChannel :: jsnum
  reqChannelMask :: jsnum
  reqSamplerateKhz :: jsnum
  reqPreSamples :: jsnum
  reqPostSamples :: jsnum

subsection \<open>Range checks\<close>

definition assertUintRange :: "jsnum \<Rightarrow> nat \<Rightarrow> string \<Rightarrow> sigrok_error + unit" where
  "assertUintRange value bits fieldName =
     (let max = js_int (if bits = 32 then 0xffffffff else push_bit bits 1 - 1)
      in if \<not> isInteger value \<or> js_lt value (Fin 0) \<or> js_lt max value
         then Inl (UintRange fieldName bits) else Inr ())"

definition configNeedsV2 :: "SigrokConfigReq \<Rightarrow> bool" where
  "configNeedsV2 config \<longleftrightarrow>
     js_lt (Fin 0xffff) (reqPreSamples config) \<or> js_lt (Fin 0xffff) (reqPostSamples config)"

text \<open>A sequence of checks stops at the first that throws.\<close>

fun assertAll :: "(jsnum \<times> nat \<times> string) list \<Rightarrow> sigrok_error + unit" where
  "assertAll [] = Inr ()"
| "assertAll ((v, b, f) # rest) = bindR (assertUintRange v b f) (\<lambda>_. assertAll rest)"

subsection \<open>Payloads\<close>

definition configFieldsV1 :: "SigrokConfigReq \<Rightarrow> (jsnum \<times> nat \<times> string) list" where
  "configFieldsV1 config =
    [(reqModeId config, 8, ''modeId''), (reqTriggerType config, 8, ''triggerType''),
     (reqTriggerChannel config, 8, ''triggerChannel''), (reqChannelMask config, 16, ''channelMask''),
     (reqSamplerateKhz config, 24, ''samplerateKhz''), (reqPreSamples config, 16, ''preSamples''),
     (reqPostSamples config, 16, ''postSamples'')]"

definition configFieldsV2 :: "SigrokConfigReq \<Rightarrow> (jsnum \<times> nat \<times> string) list" where
  "configFieldsV2 config =
    [(reqModeId config, 8, ''modeId''), (reqTriggerType config, 8, ''triggerType''),
     (reqTriggerChannel config, 8, ''triggerChannel''), (reqChannelMask config, 16, ''channelMask''),
     (reqSamplerateKhz config, 24, ''samplerateKhz''), (reqPreSamples config, 32, ''preSamples''),
     (reqPostSamples config, 32, ''postSamples'')]"

definition buildSigrokConfigPayloadV1 :: "SigrokConfigReq \<Rightarrow> sigrok_error + bytes" where
  "buildSigrokConfigPayloadV1 config =
     bindR (assertAll (configFieldsV1 config)) (\<lambda>_. Inr
       [ucast (toInt32 (reqModeId config)),
        ucast (toInt32 (reqTriggerType config)),
        ucast (toInt32 (reqTriggerChannel config)),
        byte_of (toInt32 (reqChannelMask config)) 0,
        byte_of (toInt32 (reqChannelMask config)) 8,
        byte_of (toInt32 (reqSamplerateKhz config)) 0,
        byte_of (toInt32 (reqSamplerateKhz config)) 8,
        byte_of (toInt32 (reqSamplerateKhz config)) 16,
        byte_of (toInt32 (reqPreSamples config)) 0,
        byte_of (toInt32 (reqPreSamples config)) 8,
        byte_of (toInt32 (reqPostSamples config)) 0,
        byte_of (toInt32 (reqPostSamples config)) 8])"

definition buildSigrokConfigPayloadV2 :: "SigrokConfigReq \<Rightarrow> sigrok_error + bytes" where
  "buildSigrokConfigPayloadV2 config =
     bindR (assertAll (configFieldsV2 config)) (\<lambda>_. Inr
       [ucast (toInt32 (reqModeId config)),
        ucast (toInt32 (reqTriggerType config)),
        ucast (toInt32 (reqTriggerChannel config)),
        byte_of (toInt32 (reqChannelMask config)) 0,
        byte_of (toInt32 (reqChannelMask config)) 8,
        byte_of (toInt32 (reqSamplerateKhz config)) 0,
        byte_of (toInt32 (reqSamplerateKhz config)) 8,
        byte_of (toInt32 (reqSamplerateKhz config)) 16,
        byte_of (toInt32 (reqPreSamples config)) 0,
        byte_of (toInt32 (reqPreSamples config)) 8,
        byte_of (toInt32 (reqPreSamples config)) 16,
        byte_of (toInt32 (reqPreSamples config)) 24,
        byte_of (toInt32 (reqPostSamples config)) 0,
        byte_of (toInt32 (reqPostSamples config)) 8,
        byte_of (toInt32 (reqPostSamples config)) 16,
        byte_of (toInt32 (reqPostSamples config)) 24])"

datatype SigrokConfigEncoding = Auto | V1 | V2

text \<open>The request's frame type and payload; \<open>options.encoding ?? "auto"\<close> is the option's default.\<close>

definition buildSigrokConfigFrameRequest ::
  "SigrokConfigReq \<Rightarrow> bool \<Rightarrow> SigrokConfigEncoding option \<Rightarrow> sigrok_error + (u8 \<times> bytes)" where
  "buildSigrokConfigFrameRequest config supportsConfigV2 encodingOption =
     (let encoding = (case encodingOption of None \<Rightarrow> Auto | Some e \<Rightarrow> e);
          v1 = bindR (buildSigrokConfigPayloadV1 config) (\<lambda>p. Inr (CONFIG_REQ, p));
          v2 = bindR (buildSigrokConfigPayloadV2 config) (\<lambda>p. Inr (CONFIG_V2_REQ, p))
      in if encoding = V1 then v1
         else if encoding = V2 then
           (if \<not> supportsConfigV2 then Inl ConfigV2NotAdvertised else v2)
         else if \<not> configNeedsV2 config then v1
         else if \<not> supportsConfigV2 then Inl SamplesRequireConfigV2
         else v2)"

subsection \<open>When the checks pass\<close>

definition fits_uint :: "nat \<Rightarrow> jsnum \<Rightarrow> bool" where
  "fits_uint bits v \<longleftrightarrow> (\<exists>i. v = js_int i \<and> 0 \<le> i \<and> i < 2 ^ bits)"

lemma assertUintRange_Inr:
  assumes "bits \<le> 32"
  shows "assertUintRange v bits f = Inr () \<longleftrightarrow> fits_uint bits v"
proof -
  have m: "(if bits = 32 then 0xffffffff else push_bit bits 1 - 1) = (2 ^ bits - 1 :: int)"
    by (simp add: push_bit_eq_mult)
  have "assertUintRange v bits f = Inr () \<longleftrightarrow>
      isInteger v \<and> \<not> js_lt v (Fin 0) \<and> \<not> js_lt (js_int (2 ^ bits - 1)) v"
    unfolding assertUintRange_def m Let_def by auto
  also have "\<dots> \<longleftrightarrow> fits_uint bits v"
  proof (cases "isInteger v")
    case True
    then obtain i where v: "v = js_int i" by (auto simp: isInteger_iff)
    have "\<not> js_lt v (Fin 0) \<longleftrightarrow> 0 \<le> i"
      using v by (simp add: not_less)
    moreover have "\<not> js_lt (js_int (2 ^ bits - 1)) v \<longleftrightarrow> i < 2 ^ bits"
      unfolding v js_lt.simps of_int_less_iff by auto
    ultimately show ?thesis
      using True v by (auto simp: fits_uint_def)
  qed (auto simp: fits_uint_def)
  finally show ?thesis .
qed

lemma assertAll_Inr:
  "\<forall>(v, b, f) \<in> set xs. b \<le> 32 \<Longrightarrow>
   assertAll xs = Inr () \<longleftrightarrow> (\<forall>(v, b, f) \<in> set xs. fits_uint b v)"
  by (induction xs rule: assertAll.induct) (auto simp: bindR_Inr_iff assertUintRange_Inr)

lemma fits_uint_toInt32:
  assumes "fits_uint bits v" "bits \<le> 32"
  shows "take_bit bits (toInt32 v) = toInt32 v"
proof -
  from assms obtain i where v: "v = js_int i" and r: "0 \<le> i" "i < 2 ^ bits"
    by (auto simp: fits_uint_def)
  from r show ?thesis unfolding v by (simp add: take_bit_small_word)
qed

lemma fits_uint_uint:
  assumes "fits_uint bits v" "bits \<le> 32"
  shows "v = js_int (uint (toInt32 v))"
proof -
  from assms obtain i where v: "v = js_int i" and r: "0 \<le> i" "i < 2 ^ bits"
    by (auto simp: fits_uint_def)
  have "(2::int) ^ bits \<le> 2 ^ 32"
    using assms(2) by (intro power_increasing) auto
  then have "i < 2 ^ 32" using r by linarith
  then show ?thesis using r unfolding v by (simp add: uint_word_of_int_small)
qed

lemma configV1_checks:
  "assertAll (configFieldsV1 c) = Inr () \<longleftrightarrow>
     fits_uint 8 (reqModeId c) \<and> fits_uint 8 (reqTriggerType c) \<and> fits_uint 8 (reqTriggerChannel c) \<and>
     fits_uint 16 (reqChannelMask c) \<and> fits_uint 24 (reqSamplerateKhz c) \<and>
     fits_uint 16 (reqPreSamples c) \<and> fits_uint 16 (reqPostSamples c)"
  by (subst assertAll_Inr) (auto simp: configFieldsV1_def)

lemma configV2_checks:
  "assertAll (configFieldsV2 c) = Inr () \<longleftrightarrow>
     fits_uint 8 (reqModeId c) \<and> fits_uint 8 (reqTriggerType c) \<and> fits_uint 8 (reqTriggerChannel c) \<and>
     fits_uint 16 (reqChannelMask c) \<and> fits_uint 24 (reqSamplerateKhz c) \<and>
     fits_uint 32 (reqPreSamples c) \<and> fits_uint 32 (reqPostSamples c)"
  by (subst assertAll_Inr) (auto simp: configFieldsV2_def)

subsection \<open>Reading a payload back\<close>

text \<open>
  The layout the firmware reads: single bytes, then little-endian groups. This is the
  specification side of the two layouts.
\<close>

definition readConfigV1 :: "bytes \<Rightarrow> SigrokConfigReq" where
  "readConfigV1 p =
     \<lparr>reqModeId = js_int (uint (bits_at p 0)), reqTriggerType = js_int (uint (bits_at p 1)),
      reqTriggerChannel = js_int (uint (bits_at p 2)), reqChannelMask = js_int (uint (le16 p 3)),
      reqSamplerateKhz = js_int (uint (le24 p 5)), reqPreSamples = js_int (uint (le16 p 8)),
      reqPostSamples = js_int (uint (le16 p 10))\<rparr>"

definition readConfigV2 :: "bytes \<Rightarrow> SigrokConfigReq" where
  "readConfigV2 p =
     \<lparr>reqModeId = js_int (uint (bits_at p 0)), reqTriggerType = js_int (uint (bits_at p 1)),
      reqTriggerChannel = js_int (uint (bits_at p 2)), reqChannelMask = js_int (uint (le16 p 3)),
      reqSamplerateKhz = js_int (uint (le24 p 5)), reqPreSamples = js_int (uint (le32 p 8)),
      reqPostSamples = js_int (uint (le32 p 12))\<rparr>"

definition readConfig :: "u8 \<Rightarrow> bytes \<Rightarrow> SigrokConfigReq" where
  "readConfig t p = (if t = CONFIG_V2_REQ then readConfigV2 p else readConfigV1 p)"

lemma ucast_byte_take_bit: "(ucast (ucast (x :: u32) :: u8) :: u32) = take_bit 8 x"
  by (rule bit_word_eqI) (auto simp: bit_simps)

lemma fits_group: "fits_uint n v \<Longrightarrow> n \<le> 32 \<Longrightarrow> x = take_bit n (toInt32 v) \<Longrightarrow> js_int (uint x) = v"
  by (metis fits_uint_toInt32 fits_uint_uint)

lemma readConfigV1_build:
  assumes "buildSigrokConfigPayloadV1 c = Inr p"
  shows "length p = 12 \<and> readConfigV1 p = c"
proof -
  from assms have fits: "assertAll (configFieldsV1 c) = Inr ()"
    and p: "p = [ucast (toInt32 (reqModeId c)), ucast (toInt32 (reqTriggerType c)),
      ucast (toInt32 (reqTriggerChannel c)),
      byte_of (toInt32 (reqChannelMask c)) 0, byte_of (toInt32 (reqChannelMask c)) 8,
      byte_of (toInt32 (reqSamplerateKhz c)) 0, byte_of (toInt32 (reqSamplerateKhz c)) 8,
      byte_of (toInt32 (reqSamplerateKhz c)) 16,
      byte_of (toInt32 (reqPreSamples c)) 0, byte_of (toInt32 (reqPreSamples c)) 8,
      byte_of (toInt32 (reqPostSamples c)) 0, byte_of (toInt32 (reqPostSamples c)) 8]"
    by (auto simp: buildSigrokConfigPayloadV1_def bindR_Inr_iff)
  have bytes: "bits_at p 0 = take_bit 8 (toInt32 (reqModeId c))"
    "bits_at p 1 = take_bit 8 (toInt32 (reqTriggerType c))"
    "bits_at p 2 = take_bit 8 (toInt32 (reqTriggerChannel c))"
    unfolding ucast_byte_take_bit [symmetric] by (simp_all add: p)
  have groups: "le16 p 3 = take_bit 16 (toInt32 (reqChannelMask c))"
    "le24 p 5 = take_bit 24 (toInt32 (reqSamplerateKhz c))"
    "le16 p 8 = take_bit 16 (toInt32 (reqPreSamples c))"
    "le16 p 10 = take_bit 16 (toInt32 (reqPostSamples c))"
    by (subst le16_bytes le24_bytes; simp add: p)+
  have "js_int (uint (bits_at p 0)) = reqModeId c" "js_int (uint (bits_at p 1)) = reqTriggerType c"
    "js_int (uint (bits_at p 2)) = reqTriggerChannel c" "js_int (uint (le16 p 3)) = reqChannelMask c"
    "js_int (uint (le24 p 5)) = reqSamplerateKhz c" "js_int (uint (le16 p 8)) = reqPreSamples c"
    "js_int (uint (le16 p 10)) = reqPostSamples c"
    by (rule fits_group; insert fits[unfolded configV1_checks] bytes groups; simp; fail)+
  then have "readConfigV1 p = c"
    unfolding readConfigV1_def by (simp only:) simp
  then show ?thesis by (simp add: p)
qed

lemma readConfigV2_build:
  assumes "buildSigrokConfigPayloadV2 c = Inr p"
  shows "length p = 16 \<and> readConfigV2 p = c"
proof -
  from assms have fits: "assertAll (configFieldsV2 c) = Inr ()"
    and p: "p = [ucast (toInt32 (reqModeId c)), ucast (toInt32 (reqTriggerType c)),
      ucast (toInt32 (reqTriggerChannel c)),
      byte_of (toInt32 (reqChannelMask c)) 0, byte_of (toInt32 (reqChannelMask c)) 8,
      byte_of (toInt32 (reqSamplerateKhz c)) 0, byte_of (toInt32 (reqSamplerateKhz c)) 8,
      byte_of (toInt32 (reqSamplerateKhz c)) 16,
      byte_of (toInt32 (reqPreSamples c)) 0, byte_of (toInt32 (reqPreSamples c)) 8,
      byte_of (toInt32 (reqPreSamples c)) 16, byte_of (toInt32 (reqPreSamples c)) 24,
      byte_of (toInt32 (reqPostSamples c)) 0, byte_of (toInt32 (reqPostSamples c)) 8,
      byte_of (toInt32 (reqPostSamples c)) 16, byte_of (toInt32 (reqPostSamples c)) 24]"
    by (auto simp: buildSigrokConfigPayloadV2_def bindR_Inr_iff)
  have bytes: "bits_at p 0 = take_bit 8 (toInt32 (reqModeId c))"
    "bits_at p 1 = take_bit 8 (toInt32 (reqTriggerType c))"
    "bits_at p 2 = take_bit 8 (toInt32 (reqTriggerChannel c))"
    unfolding ucast_byte_take_bit [symmetric] by (simp_all add: p)
  have groups: "le16 p 3 = take_bit 16 (toInt32 (reqChannelMask c))"
    "le24 p 5 = take_bit 24 (toInt32 (reqSamplerateKhz c))"
    "le32 p 8 = take_bit 32 (toInt32 (reqPreSamples c))"
    "le32 p 12 = take_bit 32 (toInt32 (reqPostSamples c))"
    by (subst le16_bytes le24_bytes le32_bytes; simp add: p take_bit_word_eq_self)+
  have "js_int (uint (bits_at p 0)) = reqModeId c" "js_int (uint (bits_at p 1)) = reqTriggerType c"
    "js_int (uint (bits_at p 2)) = reqTriggerChannel c" "js_int (uint (le16 p 3)) = reqChannelMask c"
    "js_int (uint (le24 p 5)) = reqSamplerateKhz c" "js_int (uint (le32 p 8)) = reqPreSamples c"
    "js_int (uint (le32 p 12)) = reqPostSamples c"
    by (rule fits_group; insert fits[unfolded configV2_checks] bytes groups; simp; fail)+
  then have "readConfigV2 p = c"
    unfolding readConfigV2_def by (simp only:) simp
  then show ?thesis by (simp add: p)
qed

lemma buildSigrokConfigPayloadV1_Inr_iff:
  "(\<exists>p. buildSigrokConfigPayloadV1 c = Inr p) \<longleftrightarrow> assertAll (configFieldsV1 c) = Inr ()"
  by (auto simp: buildSigrokConfigPayloadV1_def bindR_Inr_iff)

lemma buildSigrokConfigPayloadV2_Inr_iff:
  "(\<exists>p. buildSigrokConfigPayloadV2 c = Inr p) \<longleftrightarrow> assertAll (configFieldsV2 c) = Inr ()"
  by (auto simp: buildSigrokConfigPayloadV2_def bindR_Inr_iff)

lemma configNeedsV2_fits:
  assumes "fits_uint 32 (reqPreSamples c)" "fits_uint 32 (reqPostSamples c)"
  shows "configNeedsV2 c \<longleftrightarrow> \<not> (fits_uint 16 (reqPreSamples c) \<and> fits_uint 16 (reqPostSamples c))"
proof -
  have *: "js_lt (Fin 0xffff) v \<longleftrightarrow> \<not> fits_uint 16 v" if "fits_uint 32 v" for v
  proof -
    from that obtain i where v: "v = js_int i" and "0 \<le> i" by (auto simp: fits_uint_def)
    have "js_lt (Fin 0xffff) v \<longleftrightarrow> 65535 < i"
      unfolding v js_lt.simps by linarith
    with v \<open>0 \<le> i\<close> show ?thesis by (auto simp: fits_uint_def)
  qed
  show ?thesis using *[OF assms(1)] *[OF assms(2)] by (auto simp: configNeedsV2_def)
qed

text \<open>
  Wire round trip of the CONFIG request. Whatever encoding is chosen (v1, v2 or
  automatic), a request that is built at all reads back, field by field, to the
  configuration it was built from, has the exact length of its layout, and uses the
  v2 frame type only when the server advertised support.
\<close>

lemma config_request_roundtrip:
  assumes "buildSigrokConfigFrameRequest config cap enc = Inr (t, p)"
  shows "readConfig t p = config \<and> length p = (if t = CONFIG_V2_REQ then 16 else 12) \<and>
    t \<in> {CONFIG_REQ, CONFIG_V2_REQ} \<and> (t = CONFIG_V2_REQ \<longrightarrow> cap)"
  using assms readConfigV1_build readConfigV2_build
  by (auto simp: buildSigrokConfigFrameRequest_def readConfig_def Let_def bindR_Inr_iff
      split: if_splits option.splits)

lemma config_request_roundtrip_witness:
  "readConfig 0x0b [1, 0, 3, 8, 0, 0xa0, 0x86, 1, 0, 0, 0, 0, 0xa0, 0x86, 1, 0] =
     \<lparr>reqModeId = Fin 1, reqTriggerType = Fin 0, reqTriggerChannel = Fin 3, reqChannelMask = Fin 8,
      reqSamplerateKhz = Fin 100000, reqPreSamples = Fin 0, reqPostSamples = Fin 100000\<rparr>"
proof -
  let ?c = "\<lparr>reqModeId = Fin 1, reqTriggerType = Fin 0, reqTriggerChannel = Fin 3, reqChannelMask = Fin 8,
      reqSamplerateKhz = Fin 100000, reqPreSamples = Fin 0, reqPostSamples = Fin 100000\<rparr>"
  have "buildSigrokConfigFrameRequest ?c True None =
      Inr (0x0b, [1, 0, 3, 8, 0, 0xa0, 0x86, 1, 0, 0, 0, 0, 0xa0, 0x86, 1, 0])"
    by code_simp
  from config_request_roundtrip [OF this] show ?thesis by simp
qed

text \<open>
  The automatic encoding is complete and never downgrades. With field values that
  fit their widths, automatic encoding succeeds exactly when the server supports the
  layout the sample counts need, and it picks v2 exactly when a sample count exceeds
  16 bits.
\<close>

lemma config_request_auto_complete:
  assumes "fits_uint 8 (reqModeId config)" "fits_uint 8 (reqTriggerType config)"
    "fits_uint 8 (reqTriggerChannel config)" "fits_uint 16 (reqChannelMask config)"
    "fits_uint 24 (reqSamplerateKhz config)" "fits_uint 32 (reqPreSamples config)"
    "fits_uint 32 (reqPostSamples config)"
  shows "(if configNeedsV2 config \<and> \<not> cap
          then buildSigrokConfigFrameRequest config cap None = Inl SamplesRequireConfigV2
          else \<exists>p. buildSigrokConfigFrameRequest config cap None =
                 Inr (if configNeedsV2 config then CONFIG_V2_REQ else CONFIG_REQ, p))"
proof -
  have v2: "\<exists>p. buildSigrokConfigPayloadV2 config = Inr p"
    unfolding buildSigrokConfigPayloadV2_Inr_iff configV2_checks using assms by simp
  have v1: "\<not> configNeedsV2 config \<Longrightarrow> \<exists>p. buildSigrokConfigPayloadV1 config = Inr p"
    unfolding buildSigrokConfigPayloadV1_Inr_iff configV1_checks
    using assms configNeedsV2_fits by blast
  from v1 v2 show ?thesis
    by (auto simp: buildSigrokConfigFrameRequest_def)
qed

lemma config_request_auto_complete_witness:
  "buildSigrokConfigFrameRequest
     \<lparr>reqModeId = Fin 1, reqTriggerType = Fin 0, reqTriggerChannel = Fin 3, reqChannelMask = Fin 8,
      reqSamplerateKhz = Fin 100000, reqPreSamples = Fin 0, reqPostSamples = Fin 100000\<rparr> False None
     = Inl SamplesRequireConfigV2"
proof -
  let ?c = "\<lparr>reqModeId = Fin 1, reqTriggerType = Fin 0, reqTriggerChannel = Fin 3, reqChannelMask = Fin 8,
      reqSamplerateKhz = Fin 100000, reqPreSamples = Fin 0, reqPostSamples = Fin 100000\<rparr>"
  have fits: "fits_uint n (Fin (numeral k))" if "(numeral k :: int) < 2 ^ n" for n k
    unfolding fits_uint_def using that by (intro exI [of _ "numeral k"]) simp
  have fits0: "fits_uint n (Fin 0)" "0 < n \<Longrightarrow> fits_uint n (Fin 1)" for n
    unfolding fits_uint_def by (force intro: exI [of _ 0], force intro: exI [of _ 1])
  have "configNeedsV2 ?c" by code_simp
  then show ?thesis
    using config_request_auto_complete [of ?c False] by (simp add: fits fits0)
qed

end
