(* ===== verification/Sigrok_Samples.thy ===== *)
theory Sigrok_Samples
  imports Sigrok_Config
begin

text \<open>
  Decompression of DATA frame payloads (\<open>web/src/lib/sigrokClient.ts\<close>): the packed
  sample width, the five non-raw encodings and their dispatch. Each decoder is
  characterised against an encoder of the format: it accepts exactly the encodings and
  expands them to the samples that were encoded.
\<close>

subsection \<open>Channel masks\<close>

function countChannelBits :: "u32 \<Rightarrow> nat" where
  "countChannelBits remaining =
     (if remaining = 0 then 0
      else unat (remaining AND 1) + countChannelBits (drop_bit 1 remaining))"
  by pat_completeness auto
termination
proof (relation "measure unat")
  fix w :: u32
  assume "w \<noteq> 0"
  then have "0 < unat w" by (simp add: unat_gt_0)
  then have "unat w div 2 < unat w" by simp
  moreover have "unat (drop_bit 1 w) = unat w div 2"
    by (subst unat_drop_bit_eq) (simp add: drop_bit_eq_div)
  ultimately show "(drop_bit 1 w, w) \<in> measure unat"
    unfolding in_measure by (simp only:)
qed simp

declare countChannelBits.simps [simp del]

record packed_width =
  activeChannelCount :: nat
  bytesPerSample :: nat

definition getPackedSampleWidth :: "u32 \<Rightarrow> sigrok_error + packed_width" where
  "getPackedSampleWidth channelMask =
     (let activeChannelCount = countChannelBits channelMask
      in if activeChannelCount \<le> 0 then Inl MaskSelectsNoChannels
         else Inr \<lparr>activeChannelCount = activeChannelCount,
                   bytesPerSample = (activeChannelCount + 7) div 8\<rparr>)"

subsection \<open>Decoders\<close>

definition decodeBitPackSamples :: "bytes \<Rightarrow> nat \<Rightarrow> u32 \<Rightarrow> sigrok_error + bytes" where
  "decodeBitPackSamples packed sampleCount channelMask =
     bindR (getPackedSampleWidth channelMask) (\<lambda>w.
       let expectedPackedBytes = sampleCount * bytesPerSample w
       in if length packed \<noteq> expectedPackedBytes then Inl BitPackLength else Inr packed)"

text \<open>\<open>x & ~((1 << n) - 1)\<close>, the bits of a byte from position \<open>n\<close> up.\<close>

definition tail_bits :: "nat \<Rightarrow> u8 \<Rightarrow> u8" where
  "tail_bits n x = x AND NOT (push_bit n 1 - 1)"

definition decodeSingleBitsSamples :: "bytes \<Rightarrow> nat \<Rightarrow> u32 \<Rightarrow> sigrok_error + bytes" where
  "decodeSingleBitsSamples packed sampleCount channelMask =
     bindR (getPackedSampleWidth channelMask) (\<lambda>w.
       if activeChannelCount w \<noteq> 1 then Inl SingleBitsChannels
       else if length packed \<noteq> (sampleCount + 7) div 8 then Inl SingleBitsLength
       else let trailingBits = sampleCount mod 8 in
         if trailingBits \<noteq> 0 \<and> tail_bits trailingBits (packed ! (length packed - 1)) \<noteq> 0
         then Inl SingleBitsTailPadding
         else Inr (map (\<lambda>sampleIndex.
                drop_bit (sampleIndex mod 8) (packed ! (sampleIndex div 8)) AND 1) [0..<sampleCount]))"

definition decodePackedPalette2Samples :: "bytes \<Rightarrow> nat \<Rightarrow> u32 \<Rightarrow> sigrok_error + bytes" where
  "decodePackedPalette2Samples packed sampleCount channelMask =
     bindR (getPackedSampleWidth channelMask) (\<lambda>w.
       let bps = bytesPerSample w;
           selectorLength = (sampleCount + 7) div 8;
           paletteBytes = bps * 2
       in if length packed \<noteq> paletteBytes + selectorLength then Inl PaletteLength
       else let palette0 = take bps packed;
                palette1 = take (paletteBytes - bps) (drop bps packed)
       in if list_all (\<lambda>index. nth_opt palette0 index = nth_opt palette1 index)
               [0..<length palette0]
          then Inl PaletteNotDistinct
       else let selectors = drop paletteBytes packed;
                trailingBits = sampleCount mod 8
       in if trailingBits \<noteq> 0 \<and> tail_bits trailingBits (selectors ! (length selectors - 1)) \<noteq> 0
          then Inl PaletteTailPadding
          else Inr (concat (map (\<lambda>sampleIndex.
                 if (selectors ! (sampleIndex div 8)) AND push_bit (sampleIndex mod 8) 1 \<noteq> 0
                 then palette1 else palette0) [0..<sampleCount])))"

text \<open>
  The loop of \<open>decodeRleSamples\<close>: \<open>packedOffset\<close> advances by one tuple, the output
  is written from the left.
\<close>

function rle_loop ::
  "rle_name \<Rightarrow> bytes \<Rightarrow> nat \<Rightarrow> nat \<Rightarrow> nat \<Rightarrow> nat \<Rightarrow> bytes \<Rightarrow> sigrok_error + bytes" where
  "rle_loop name packed bps sampleCount packedOffset expandedSamples decoded =
     (if packedOffset < length packed then
        (if packedOffset + (bps + 2) > length packed then Inl (RleTruncated name)
         else let runValue = take bps (drop packedOffset packed);
                  runCount = unat (le16 packed (packedOffset + bps))
         in if runCount = 0 then Inl (RleZeroRun name)
         else if expandedSamples + runCount > sampleCount then Inl (RleOverrun name)
         else rle_loop name packed bps sampleCount (packedOffset + (bps + 2))
                (expandedSamples + runCount) (decoded @ concat (replicate runCount runValue)))
      else if expandedSamples \<noteq> sampleCount then Inl (RleCountMismatch name)
      else Inr decoded)"
  by pat_completeness auto
termination
  by (relation "measure (\<lambda>(name, packed, bps, n, off, ex, dec). length packed - off)") auto

declare rle_loop.simps [simp del]

definition decodeRleSamples ::
  "bytes \<Rightarrow> nat \<Rightarrow> u32 \<Rightarrow> rle_name \<Rightarrow> sigrok_error + bytes" where
  "decodeRleSamples packed sampleCount channelMask name =
     bindR (getPackedSampleWidth channelMask)
       (\<lambda>w. rle_loop name packed (bytesPerSample w) sampleCount 0 0 [])"

record SigrokDataMeta =
  metaSampleIndex :: nat
  metaSampleCount :: nat
  metaCompression :: u8
  metaChannelMask :: u32

definition decodeSigrokDataSamples :: "SigrokDataMeta \<Rightarrow> bytes \<Rightarrow> sigrok_error + bytes" where
  "decodeSigrokDataSamples meta packed =
     (if metaCompression meta = 0 then Inr packed
      else if metaCompression meta = 1 then
        decodeBitPackSamples packed (metaSampleCount meta) (metaChannelMask meta)
      else if metaCompression meta = 2 then
        decodeRleSamples packed (metaSampleCount meta) (metaChannelMask meta) RLE_name
      else if metaCompression meta = 3 then
        decodeRleSamples packed (metaSampleCount meta) (metaChannelMask meta) BIT_PACK_RLE_name
      else if metaCompression meta = 4 then
        decodeSingleBitsSamples packed (metaSampleCount meta) (metaChannelMask meta)
      else if metaCompression meta = 5 then
        bindR (decodeRleSamples packed ((metaSampleCount meta + 7) div 8) 1 SINGLE_BITS_RLE_name)
          (\<lambda>dense. decodeSingleBitsSamples dense (metaSampleCount meta) (metaChannelMask meta))
      else if metaCompression meta = 6 then
        decodePackedPalette2Samples packed (metaSampleCount meta) (metaChannelMask meta)
      else Inl (UnsupportedCompression (metaCompression meta)))"

subsection \<open>The channel count is the number of set bits\<close>

lemma card_bits_shift:
  "card {i. bit (w :: u32) i} = of_bool (bit w 0) + card {i. bit (drop_bit 1 w) i}"
proof -
  have "{i. bit w i} = (if bit w 0 then {0} else {}) \<union> Suc ` {i. bit (drop_bit 1 w) i}"
    by (auto simp: bit_drop_bit_eq image_iff split: nat.splits) (metis not0_implies_Suc)+
  moreover have "finite {i. bit (drop_bit 1 w) i}"
    by (rule finite_subset [of _ "{..<32}"]) (auto dest: bit_imp_le_length)
  ultimately show ?thesis
    by (auto simp: card_insert_if card_image)
qed

lemma countChannelBits_card: "countChannelBits w = card {i. bit w i}"
proof (induction w rule: countChannelBits.induct)
  case (1 w)
  show ?case
  proof (cases "w = 0")
    case True
    then show ?thesis by (subst countChannelBits.simps) (simp add: bot_fun_def)
  next
    case False
    have "unat (w AND 1) = of_bool (bit w 0)"
      by (simp add: and_one_eq bit_0 mod_2_eq_odd)
    with False "1.IH" show ?thesis
      by (subst countChannelBits.simps) (simp add: card_bits_shift [of w])
  qed
qed

lemma countChannelBits_eq_0: "countChannelBits w = 0 \<longleftrightarrow> w = 0"
proof -
  have "finite {i. bit w i}"
    by (rule finite_subset [of _ "{..<32}"]) (auto dest: bit_imp_le_length)
  then have "countChannelBits w = 0 \<longleftrightarrow> (\<forall>i. \<not> bit w i)"
    by (auto simp: countChannelBits_card card_eq_0_iff)
  also have "\<dots> \<longleftrightarrow> w = 0"
    by (auto intro: bit_word_eqI)
  finally show ?thesis .
qed

definition sample_bytes :: "u32 \<Rightarrow> nat" where
  "sample_bytes w = (countChannelBits w + 7) div 8"

lemma sample_bytes_pos: "w \<noteq> 0 \<Longrightarrow> 0 < sample_bytes w"
proof -
  assume "w \<noteq> 0"
  then have "0 < countChannelBits w" by (metis countChannelBits_eq_0 not_gr_zero)
  then have "8 \<le> countChannelBits w + 7" by linarith
  then show ?thesis by (simp add: sample_bytes_def div_greater_zero_iff)
qed

lemma getPackedSampleWidth_eq:
  "getPackedSampleWidth w = (if w = 0 then Inl MaskSelectsNoChannels
     else Inr \<lparr>activeChannelCount = countChannelBits w, bytesPerSample = sample_bytes w\<rparr>)"
  by (auto simp: getPackedSampleWidth_def Let_def sample_bytes_def countChannelBits_eq_0)

subsection \<open>Run-length encoding\<close>

definition rle_tuple :: "bytes \<times> nat \<Rightarrow> bytes" where
  "rle_tuple r = fst r @ [byte_of (of_nat (snd r)) 0, byte_of (of_nat (snd r)) 8]"

definition rle_encode :: "(bytes \<times> nat) list \<Rightarrow> bytes" where
  "rle_encode runs = concat (map rle_tuple runs)"

definition rle_expand :: "(bytes \<times> nat) list \<Rightarrow> bytes" where
  "rle_expand runs = concat (map (\<lambda>r. concat (replicate (snd r) (fst r))) runs)"

definition rle_run_ok :: "nat \<Rightarrow> bytes \<times> nat \<Rightarrow> bool" where
  "rle_run_ok bps r \<longleftrightarrow> length (fst r) = bps \<and> 0 < snd r \<and> snd r < 65536"

lemma length_rle_expand:
  "list_all (rle_run_ok bps) runs \<Longrightarrow> length (rle_expand runs) = sum_list (map snd runs) * bps"
  by (induction runs)
    (auto simp: rle_expand_def rle_run_ok_def algebra_simps length_concat sum_list_replicate)

lemma rle_tuple_count:
  assumes "rle_run_ok bps r"
  shows "unat (le16 (rle_tuple r @ rest) bps) = snd r"
proof -
  have "le16 (fst r @ ([byte_of (of_nat (snd r)) 0, byte_of (of_nat (snd r)) 8] @ rest)) (length (fst r) + 0)
      = take_bit 16 (of_nat (snd r))"
    unfolding le16_append by (rule le16_bytes) simp_all
  moreover have "unat (take_bit 16 (of_nat (snd r) :: u32)) = snd r"
    using assms by (simp add: rle_run_ok_def unsigned_take_bit_eq take_bit_nat_eq_self
        unat_of_nat)
  ultimately show ?thesis
    using assms by (simp add: rle_tuple_def rle_run_ok_def)
qed

lemma rle_loop_encode:
  assumes "list_all (rle_run_ok bps) runs" "ex + sum_list (map snd runs) = n"
  shows "rle_loop nm (pre @ rle_encode runs) bps n (length pre) ex dec = Inr (dec @ rle_expand runs)"
  using assms
proof (induction runs arbitrary: pre ex dec)
  case Nil
  then show ?case
    by (subst rle_loop.simps) (simp add: rle_encode_def rle_expand_def)
next
  case (Cons r runs)
  define packed where "packed = pre @ rle_encode (r # runs)"
  have r: "rle_run_ok bps r" and len: "length (rle_tuple r) = bps + 2"
    using Cons.prems by (auto simp: rle_tuple_def rle_run_ok_def)
  have enc: "packed = (pre @ rle_tuple r) @ rle_encode runs"
    by (simp add: rle_encode_def packed_def)
  have val: "take bps (drop (length pre) packed) = fst r"
    using r by (simp add: enc rle_tuple_def rle_run_ok_def)
  have cnt: "unat (le16 packed (length pre + bps)) = snd r"
    using rle_tuple_count [OF r, of "rle_encode runs"] by (simp add: enc le16_append)
  have fits: "length pre + (bps + 2) \<le> length packed"
    using len by (simp add: enc)
  have "rle_loop nm packed bps n (length pre) ex dec =
     rle_loop nm packed bps n (length pre + (bps + 2)) (ex + snd r)
       (dec @ concat (replicate (snd r) (fst r)))"
    using Cons.prems r fits
    by (subst rle_loop.simps) (simp add: val cnt rle_run_ok_def Let_def)
  also have "\<dots> = rle_loop nm ((pre @ rle_tuple r) @ rle_encode runs) bps n
       (length (pre @ rle_tuple r)) (ex + snd r) (dec @ concat (replicate (snd r) (fst r)))"
    using len by (simp add: enc)
  also have "\<dots> = Inr ((dec @ concat (replicate (snd r) (fst r))) @ rle_expand runs)"
    using Cons.prems by (intro Cons.IH) auto
  finally show ?case by (simp add: rle_expand_def packed_def)
qed

text \<open>What one accepted tuple looks like in the packed bytes.\<close>

lemma split_at2: "k + 1 < length xs \<Longrightarrow> xs = take k xs @ xs ! k # xs ! (k + 1) # drop (k + 2) xs"
  by (simp add: Cons_nth_drop_Suc)

lemma rle_tuple_read:
  assumes "off + (bps + 2) \<le> length packed"
  shows "drop off packed =
     rle_tuple (take bps (drop off packed), unat (le16 packed (off + bps))) @ drop (off + (bps + 2)) packed"
proof -
  let ?d = "drop off packed"
  have len: "bps + 1 < length ?d" using assms by simp
  have le: "le16 packed (off + bps) = le16 ?d bps"
    using assms by (intro le16_drop) simp
  note split_at2 [OF len]
  then show ?thesis
    using byte_of_le16 [OF len] unfolding le rle_tuple_def by (simp add: add.commute)
qed

lemma rle_loop_decode:
  assumes "rle_loop nm packed bps n off ex dec = Inr out" "off \<le> length packed"
  shows "\<exists>runs. list_all (rle_run_ok bps) runs \<and> ex + sum_list (map snd runs) = n \<and>
           drop off packed = rle_encode runs \<and> out = dec @ rle_expand runs"
  using assms
proof (induction nm packed bps n off ex dec rule: rle_loop.induct)
  case (1 nm packed bps n off ex dec)
  show ?case
  proof (cases "off < length packed")
    case False
    with "1.prems" have "ex = n" "out = dec" "drop off packed = []"
      by (auto simp: rle_loop.simps [of nm packed bps n off] split: if_splits)
    then show ?thesis
      by (intro exI [of _ "[]"]) (simp add: rle_encode_def rle_expand_def)
  next
    case True
    let ?v = "take bps (drop off packed)" and ?k = "unat (le16 packed (off + bps))"
    from True "1.prems" have fits: "off + (bps + 2) \<le> length packed" and k: "?k \<noteq> 0"
      and over: "\<not> ex + ?k > n"
      and rec: "rle_loop nm packed bps n (off + (bps + 2)) (ex + ?k)
        (dec @ concat (replicate ?k ?v)) = Inr out"
      by (auto simp: rle_loop.simps [of nm packed bps n off] Let_def split: if_splits)
    from "1.IH" [OF True _ refl refl k over rec] fits obtain runs where
      runs: "list_all (rle_run_ok bps) runs" "ex + ?k + sum_list (map snd runs) = n"
        "drop (off + (bps + 2)) packed = rle_encode runs"
        "out = (dec @ concat (replicate ?k ?v)) @ rle_expand runs"
      by auto
    have "drop off packed = rle_encode ((?v, ?k) # runs)"
      using rle_tuple_read [OF fits] runs(3) by (simp add: rle_encode_def)
    moreover have "rle_run_ok bps (?v, ?k)"
      using k fits unat_le16_less [of packed "off + bps"] by (simp add: rle_run_ok_def)
    ultimately show ?thesis
      using runs by (intro exI [of _ "(?v, ?k) # runs"]) (simp add: rle_expand_def)
  qed
qed

lemma decodeRleSamples_iff:
  assumes "w \<noteq> 0"
  shows "decodeRleSamples packed n w nm = Inr out \<longleftrightarrow>
    (\<exists>runs. list_all (rle_run_ok (sample_bytes w)) runs \<and> sum_list (map snd runs) = n \<and>
       packed = rle_encode runs \<and> out = rle_expand runs)"
proof -
  have "decodeRleSamples packed n w nm = rle_loop nm packed (sample_bytes w) n 0 0 []"
    using assms by (simp add: decodeRleSamples_def getPackedSampleWidth_eq)
  moreover have "rle_loop nm packed (sample_bytes w) n 0 0 [] = Inr out \<Longrightarrow> ?thesis"
    using rle_loop_decode [of nm packed "sample_bytes w" n 0 0 "[]" out] calculation by auto
  moreover have "list_all (rle_run_ok (sample_bytes w)) runs \<Longrightarrow> sum_list (map snd runs) = n \<Longrightarrow>
      rle_loop nm (rle_encode runs) (sample_bytes w) n 0 0 [] = Inr (rle_expand runs)" for runs
    using rle_loop_encode [of "sample_bytes w" runs 0 n nm "[]" "[]"] by simp
  ultimately show ?thesis by auto
qed

lemma decodeRleSamples_length:
  assumes "decodeRleSamples packed n w nm = Inr out"
  shows "w \<noteq> 0 \<and> length out = n * sample_bytes w"
proof -
  from assms have "w \<noteq> 0"
    by (auto simp: decodeRleSamples_def getPackedSampleWidth_eq split: if_splits)
  with assms show ?thesis
    by (auto simp: decodeRleSamples_iff length_rle_expand)
qed

subsection \<open>Single-bit packing\<close>

text \<open>The encoder: eight samples per byte, least significant bit first, zero padding.\<close>

definition pack_bits :: "bool list \<Rightarrow> bytes" where
  "pack_bits bs = map (\<lambda>j. horner_sum of_bool 2 (take 8 (drop (8 * j) bs))) [0..<(length bs + 7) div 8]"

lemma bit_pack_bits:
  assumes "j < (length bs + 7) div 8"
  shows "bit (pack_bits bs ! j) k \<longleftrightarrow> k < 8 \<and> 8 * j + k < length bs \<and> bs ! (8 * j + k)"
proof -
  have "bit (pack_bits bs ! j) k \<longleftrightarrow>
      k < min 8 (length (take 8 (drop (8 * j) bs))) \<and> take 8 (drop (8 * j) bs) ! k"
    using assms by (simp add: pack_bits_def bit_horner_sum_bit_word_iff)
  then show ?thesis
    using assms by (auto simp: add.commute)
qed

lemma tail_bits_eq_0: "n < 8 \<Longrightarrow> tail_bits n x = 0 \<longleftrightarrow> (\<forall>k. n \<le> k \<longrightarrow> \<not> bit x k)"
proof -
  assume n: "n < 8"
  have m: "(push_bit n 1 - 1 :: u8) = mask n"
    by (simp add: mask_eq_exp_minus_1 push_bit_eq_mult)
  have b: "bit (tail_bits n x) k \<longleftrightarrow> n \<le> k \<and> bit x k" for k
    unfolding tail_bits_def m by (auto simp: bit_simps dest: bit_imp_le_length)
  show ?thesis
    using b by (metis bit_0_eq bit_word_eqI bot_apply bot_bool_def)
qed

lemma bit_sample: "drop_bit k (x :: u8) AND 1 = of_bool (bit x k)"
  by (simp add: and_one_eq mod_2_eq_odd flip: bit_iff_odd_drop_bit)

lemma decodeSingleBits_Inr_iff:
  "decodeSingleBitsSamples packed n w = Inr out \<longleftrightarrow>
     countChannelBits w = 1 \<and> length packed = (n + 7) div 8 \<and>
     (n mod 8 \<noteq> 0 \<longrightarrow> tail_bits (n mod 8) (packed ! (length packed - 1)) = 0) \<and>
     out = map (\<lambda>i. of_bool (bit (packed ! (i div 8)) (i mod 8))) [0..<n]"
  using countChannelBits_eq_0 [of w]
  by (auto simp: decodeSingleBitsSamples_def getPackedSampleWidth_eq Let_def bit_sample)

lemma ceil_div_8: "(n :: nat) mod 8 \<noteq> 0 \<Longrightarrow> (n + 7) div 8 = n div 8 + 1"
  using div_mult_mod_eq [of n 8] div_mult_mod_eq [of "n + 7" 8] mod_less_divisor [of 8 n]
    mod_less_divisor [of 8 "n + 7"]
  by linarith

lemma ceil_div_8_exact: "(n :: nat) mod 8 = 0 \<Longrightarrow> (n + 7) div 8 = n div 8"
  using div_mult_mod_eq [of n 8] by linarith

lemma div_8_less: "(i :: nat) < n \<Longrightarrow> i div 8 < (n + 7) div 8"
  by linarith

text \<open>
  The shape test both bit-packed formats make: right number of bytes and zero padding.
  It accepts exactly the packings of \<open>n\<close> bits, and the bits are read off by position.
\<close>

definition packed_ok :: "nat \<Rightarrow> bytes \<Rightarrow> bool" where
  "packed_ok n packed \<longleftrightarrow> length packed = (n + 7) div 8 \<and>
     (n mod 8 \<noteq> 0 \<longrightarrow> tail_bits (n mod 8) (packed ! (length packed - 1)) = 0)"

definition unpack_bits :: "nat \<Rightarrow> bytes \<Rightarrow> bool list" where
  "unpack_bits n packed = map (\<lambda>i. bit (packed ! (i div 8)) (i mod 8)) [0..<n]"

lemma length_pack_bits [simp]: "length (pack_bits bs) = (length bs + 7) div 8"
  by (simp add: pack_bits_def)

lemma length_unpack_bits [simp]: "length (unpack_bits n packed) = n"
  by (simp add: unpack_bits_def)

lemma packed_ok_pack_bits: "packed_ok (length bs) (pack_bits bs)"
proof -
  have "tail_bits (length bs mod 8) (pack_bits bs ! (length (pack_bits bs) - 1)) = 0"
    if "length bs mod 8 \<noteq> 0"
  proof -
    define j where "j = length (pack_bits bs) - 1"
    have j: "j < (length bs + 7) div 8" "8 * j + length bs mod 8 = length bs"
      using ceil_div_8 [OF that] by (simp_all add: j_def)
    have "\<not> bit (pack_bits bs ! j) k" if "length bs mod 8 \<le> k" for k
      unfolding bit_pack_bits [OF j(1)] using that j(2) by linarith
    then show ?thesis
      unfolding j_def [symmetric] by (simp add: tail_bits_eq_0)
  qed
  then show ?thesis by (simp add: packed_ok_def)
qed

lemma unpack_pack_bits [simp]: "unpack_bits (length bs) (pack_bits bs) = bs"
  unfolding unpack_bits_def by (rule nth_equalityI) (simp_all add: bit_pack_bits div_8_less)

lemma pack_unpack_bits:
  assumes "packed_ok n packed"
  shows "pack_bits (unpack_bits n packed) = packed"
proof (rule nth_equalityI)
  show "length (pack_bits (unpack_bits n packed)) = length packed"
    using assms by (simp add: packed_ok_def unpack_bits_def)
next
  fix j
  assume "j < length (pack_bits (unpack_bits n packed))"
  then have j: "j < (n + 7) div 8" by (simp add: unpack_bits_def)
  show "pack_bits (unpack_bits n packed) ! j = packed ! j"
  proof (rule bit_word_eqI)
    fix k
    assume "k < LENGTH(8)"
    then have k: "k < 8" by simp
    have "\<not> bit (packed ! j) k" if out: "n \<le> 8 * j + k"
    proof -
      have "n div 8 \<le> j" using out k by linarith
      with j have m: "n mod 8 \<noteq> 0" using ceil_div_8_exact [of n] by auto
      with j \<open>n div 8 \<le> j\<close> have jl: "j = n div 8" "j = length packed - 1"
        using ceil_div_8 [OF m] assms by (auto simp: packed_ok_def)
      then have "n mod 8 \<le> k" using out div_mult_mod_eq [of n 8] by linarith
      moreover have "tail_bits (n mod 8) (packed ! j) = 0"
        using assms m unfolding packed_ok_def jl(2) by blast
      ultimately show ?thesis by (simp add: tail_bits_eq_0)
    qed
    moreover have "j < (length (unpack_bits n packed) + 7) div 8"
      using j by (simp add: unpack_bits_def)
    note bit_pack_bits [OF this, of k]
    moreover have "unpack_bits n packed ! (8 * j + k) = bit (packed ! j) k" if "8 * j + k < n"
      using that k by (simp add: unpack_bits_def)
    moreover have "length (unpack_bits n packed) = n"
      by (simp add: unpack_bits_def)
    ultimately show "bit (pack_bits (unpack_bits n packed) ! j) k = bit (packed ! j) k"
      using k by (metis not_le)
  qed
qed

lemma packed_ok_iff:
  "packed_ok n packed \<longleftrightarrow> (\<exists>bs. length bs = n \<and> packed = pack_bits bs)"
proof
  assume "packed_ok n packed"
  then have "length (unpack_bits n packed) = n \<and> packed = pack_bits (unpack_bits n packed)"
    by (simp add: pack_unpack_bits)
  then show "\<exists>bs. length bs = n \<and> packed = pack_bits bs" by blast
qed (auto simp: packed_ok_pack_bits)

lemma decodeSingleBits_unfold:
  "decodeSingleBitsSamples packed n w = Inr out \<longleftrightarrow>
     countChannelBits w = 1 \<and> packed_ok n packed \<and> out = map of_bool (unpack_bits n packed)"
  by (auto simp: decodeSingleBits_Inr_iff packed_ok_def unpack_bits_def)

lemma bit_test: "(x :: u8) AND push_bit k 1 \<noteq> 0 \<longleftrightarrow> bit x k"
  by (simp add: push_bit_eq_mult and_exp_eq_0_iff_not_bit)

lemma palette_same:
  "length ys = length xs \<Longrightarrow>
     list_all (\<lambda>i. nth_opt xs i = nth_opt ys i) [0..<length xs] \<longleftrightarrow> xs = ys"
  by (auto simp: list_all_iff intro: nth_equalityI)

lemma palette_pick:
  "map (\<lambda>i. if (sel ! (i div 8)) AND push_bit (i mod 8) 1 \<noteq> 0 then v1 else v0) [0..<n] =
     map (\<lambda>b. if b then v1 else v0) (unpack_bits n sel)"
  unfolding bit_test by (simp add: unpack_bits_def comp_def)

lemma decodePalette_unfold:
  assumes "w \<noteq> 0"
  shows "decodePackedPalette2Samples packed n w = Inr out \<longleftrightarrow>
    (\<exists>v0 v1 sel. length v0 = sample_bytes w \<and> length v1 = sample_bytes w \<and> v0 \<noteq> v1 \<and>
       packed = v0 @ v1 @ sel \<and> packed_ok n sel \<and>
       out = concat (map (\<lambda>b. if b then v1 else v0) (unpack_bits n sel)))" (is "_ = ?spec")
proof -
  let ?bps = "sample_bytes w"
  let ?v0 = "take ?bps packed" and ?v1 = "take (?bps * 2 - ?bps) (drop ?bps packed)"
  let ?sel = "drop (?bps * 2) packed"
  have half: "?bps * 2 - ?bps = ?bps" by (simp add: mult_2_right)
  define v0 where "v0 = ?v0"
  define v1 where "v1 = ?v1"
  define sel where "sel = ?sel"
  have "decodePackedPalette2Samples packed n w =
      (if length packed \<noteq> ?bps * 2 + (n + 7) div 8 then Inl PaletteLength
       else if list_all (\<lambda>i. nth_opt v0 i = nth_opt v1 i) [0..<length v0] then Inl PaletteNotDistinct
       else if n mod 8 \<noteq> 0 \<and> tail_bits (n mod 8) (sel ! (length sel - 1)) \<noteq> 0
         then Inl PaletteTailPadding
       else Inr (concat (map (\<lambda>b. if b then v1 else v0) (unpack_bits n sel))))"
    unfolding v0_def v1_def sel_def palette_pick [symmetric]
    by (simp only: decodePackedPalette2Samples_def getPackedSampleWidth_eq assms if_False
        bindR_simps Let_def packed_width.simps)
  moreover have "length v1 = length v0" "length sel = (n + 7) div 8"
    if "length packed = ?bps * 2 + (n + 7) div 8"
    using that by (simp_all add: v0_def v1_def sel_def)
  ultimately have "decodePackedPalette2Samples packed n w = Inr out \<longleftrightarrow>
      length packed = ?bps * 2 + (n + 7) div 8 \<and> v0 \<noteq> v1 \<and> packed_ok n sel \<and>
      out = concat (map (\<lambda>b. if b then v1 else v0) (unpack_bits n sel))"
    by (cases "length packed = ?bps * 2 + (n + 7) div 8") (auto simp: palette_same packed_ok_def)
  then have "decodePackedPalette2Samples packed n w = Inr out \<longleftrightarrow>
      length packed = ?bps * 2 + (n + 7) div 8 \<and> ?v0 \<noteq> ?v1 \<and> packed_ok n ?sel \<and>
      out = concat (map (\<lambda>b. if b then ?v1 else ?v0) (unpack_bits n ?sel))"
    unfolding v0_def v1_def sel_def .
  also have "\<dots> \<longleftrightarrow> ?spec"
  proof
    assume l: "length packed = ?bps * 2 + (n + 7) div 8 \<and> ?v0 \<noteq> ?v1 \<and> packed_ok n ?sel \<and>
      out = concat (map (\<lambda>b. if b then ?v1 else ?v0) (unpack_bits n ?sel))"
    have "packed = ?v0 @ ?v1 @ ?sel"
      using append_take_drop_id [of ?bps packed] append_take_drop_id [of ?bps "drop ?bps packed"]
      by (simp add: mult_2_right)
    with l show ?spec
      by (intro exI [of _ ?v0] exI [of _ ?v1] exI [of _ ?sel]) auto
  qed (auto simp: packed_ok_def half cong: if_cong)
  finally show ?thesis .
qed

subsection \<open>Properties\<close>

text \<open>
  C9: The run-length decoder accepts exactly the run-length encodings. For a mask that
  selects channels, decoding succeeds with \<open>out\<close> if and only if the packed bytes are
  the concatenation of tuples (sample value, 16 bit count), every count positive, the
  counts adding up to the advertised sample count, and \<open>out\<close> repeats each value its
  count of times. Truncated tuples, zero runs and wrong totals are all rejected.
\<close>

theorem decodeRle_characterised:
  assumes "w \<noteq> 0"
  shows "decodeRleSamples packed n w nm = Inr out \<longleftrightarrow>
    (\<exists>runs. list_all (rle_run_ok (sample_bytes w)) runs \<and> sum_list (map snd runs) = n \<and>
       packed = rle_encode runs \<and> out = rle_expand runs)"
  using assms by (rule decodeRleSamples_iff)

theorem decodeRle_characterised_witness:
  "decodeRleSamples [7, 2, 0, 9, 1, 0] 3 1 RLE_name = Inr [7, 7, 9]"
proof -
  let ?runs = "[([7], 2), ([9], 1)] :: (bytes \<times> nat) list"
  have one: "sample_bytes 1 = 1" by code_simp
  have "list_all (rle_run_ok (sample_bytes 1)) ?runs \<and> sum_list (map snd ?runs) = 3"
    by (simp add: one rle_run_ok_def)
  moreover have "[7, 2, 0, 9, 1, 0] = rle_encode ?runs" by code_simp
  moreover have "[7, 7, 9] = rle_expand ?runs" by code_simp
  moreover have "(1 :: u32) \<noteq> 0" by simp
  ultimately show ?thesis
    unfolding decodeRle_characterised [OF \<open>(1 :: u32) \<noteq> 0\<close>] by blast
qed

text \<open>
  The single-bit decoder inverts bit packing, and accepts nothing else. For a
  one-channel mask, decoding succeeds with \<open>out\<close> exactly when the packed bytes are
  the least-significant-first packing of \<open>n\<close> bits with zero padding, and \<open>out\<close> lists
  these bits as bytes 0 and 1.
\<close>

lemma decodeSingleBits_characterised:
  assumes "countChannelBits w = 1"
  shows "decodeSingleBitsSamples packed n w = Inr out \<longleftrightarrow>
    (\<exists>bs. length bs = n \<and> packed = pack_bits bs \<and> out = map of_bool bs)"
  using assms by (auto simp: decodeSingleBits_unfold packed_ok_iff)

lemma decodeSingleBits_characterised_witness:
  "decodeSingleBitsSamples [5] 3 4 = Inr [1, 0, 1]"
proof -
  have one: "countChannelBits 4 = 1" by code_simp
  have "length [True, False, True] = 3 \<and> [5] = pack_bits [True, False, True] \<and>
      [1 :: u8, 0, 1] = map of_bool [True, False, True]"
    by code_simp
  then show ?thesis
    unfolding decodeSingleBits_characterised [OF one] by (intro exI)
qed

text \<open>
  The two-value palette decoder accepts exactly a palette of two distinct values
  followed by a packed selector per sample, and picks the second value where the selector
  bit is set.
\<close>

lemma decodePalette_characterised:
  assumes "w \<noteq> 0"
  shows "decodePackedPalette2Samples packed n w = Inr out \<longleftrightarrow>
    (\<exists>v0 v1 sel. length v0 = sample_bytes w \<and> length v1 = sample_bytes w \<and> v0 \<noteq> v1 \<and>
       length sel = n \<and> packed = v0 @ v1 @ pack_bits sel \<and>
       out = concat (map (\<lambda>b. if b then v1 else v0) sel))"
proof -
  let ?f = "\<lambda>v0 v1 sel. concat (map (\<lambda>b. if b then v1 else v0) sel)"
  have "(\<exists>sel. packed = v0 @ v1 @ sel \<and> packed_ok n sel \<and> out = ?f v0 v1 (unpack_bits n sel)) \<longleftrightarrow>
      (\<exists>sel. length sel = n \<and> packed = v0 @ v1 @ pack_bits sel \<and> out = ?f v0 v1 sel)" for v0 v1
    by (force simp: packed_ok_iff)
  then show ?thesis
    unfolding decodePalette_unfold [OF assms] by (simp only: ex_simps)
qed

lemma decodePalette_characterised_witness:
  "decodePackedPalette2Samples [10, 20, 5] 3 1 = Inr [20, 10, 20]"
proof -
  have "length [10 :: u8] = sample_bytes 1 \<and> length [20 :: u8] = sample_bytes 1 \<and>
     [10 :: u8] \<noteq> [20] \<and> length [True, False, True] = 3 \<and>
     [10, 20, 5] = [10] @ [20] @ pack_bits [True, False, True] \<and>
     [20, 10, 20] = concat (map (\<lambda>b. if b then [20] else [10 :: u8]) [True, False, True])"
    by code_simp
  moreover have "(1 :: u32) \<noteq> 0" by simp
  ultimately show ?thesis
    unfolding decodePalette_characterised [OF \<open>(1 :: u32) \<noteq> 0\<close>] by (intro exI)
qed

text \<open>
  Whatever the compression, a DATA frame that decodes holds exactly the advertised
  number of samples: the decoded length is the sample count times the packed sample
  width of the channel mask, for every compression but RAW (whose payload is passed on
  as it is).
\<close>

lemma decodeSigrokDataSamples_length:
  assumes "decodeSigrokDataSamples meta packed = Inr out" "metaCompression meta \<noteq> 0"
  shows "metaChannelMask meta \<noteq> 0 \<and>
    length out = metaSampleCount meta * sample_bytes (metaChannelMask meta)"
proof -
  have single: "w \<noteq> 0 \<and> length out = n * sample_bytes w"
    if "decodeSingleBitsSamples p n w = Inr out" for p n w
    using that countChannelBits_eq_0 [of w]
    by (auto simp: decodeSingleBits_unfold sample_bytes_def)
  have palette: "w \<noteq> 0 \<and> length out = n * sample_bytes w"
    if d: "decodePackedPalette2Samples p n w = Inr out" for p n w
  proof -
    have w: "w \<noteq> 0"
      using d by (auto simp: decodePackedPalette2Samples_def getPackedSampleWidth_eq)
    from d obtain v0 v1 sel where v: "length v0 = sample_bytes w" "length v1 = sample_bytes w"
      and out: "out = concat (map (\<lambda>b. if b then v1 else v0) (unpack_bits n sel))"
      by (auto simp: decodePalette_unfold [OF w])
    have "length (concat (map (\<lambda>b. if b then v1 else v0) bs)) = length bs * sample_bytes w" for bs
      using v by (induction bs) auto
    with w out show ?thesis by simp
  qed
  have bitpack: "w \<noteq> 0 \<and> length out = n * sample_bytes w"
    if "decodeBitPackSamples p n w = Inr out" for p n w
    using that
    by (auto simp: decodeBitPackSamples_def getPackedSampleWidth_eq Let_def split: if_splits)
  show ?thesis
    using assms single palette bitpack decodeRleSamples_length
    by (auto simp: decodeSigrokDataSamples_def bindR_Inr_iff split: if_splits)
qed

lemma decodeSigrokDataSamples_length_witness:
  "length [1 :: u8, 0, 1] = 3 * sample_bytes 4"
proof -
  let ?m = "\<lparr>metaSampleIndex = 0, metaSampleCount = 3, metaCompression = 4, metaChannelMask = 4\<rparr>"
  have "decodeSigrokDataSamples ?m [5] = Inr [1, 0, 1]" by code_simp
  from decodeSigrokDataSamples_length [OF this] show ?thesis by simp
qed

end
