(* ===== verification/Sigrok_Frames.thy ===== *)
theory Sigrok_Frames
  imports Sigrok_Samples
begin

text \<open>
  Framing of the Sigrok protocol (\<open>web/src/lib/sigrokClient.ts\<close>): building a frame,
  parsing its 9 byte header and its payload. A field read beyond the end of the payload
  is JavaScript's undefined: None for a plain read, 0 as an operand of \<open>|\<close> and \<open><<\<close>.
\<close>

record SigrokHeader =
  magic :: u8
  version :: u8
  frameType :: u8
  headerId :: int
  payloadLen :: nat

record SigrokHelloResp =
  protocolVersion :: "u8 option"
  serverFlags :: "u8 option"
  helloModeCount :: "u8 option"
  maxPayloadLen :: int

record SigrokModeCaps =
  capsModeId :: "u8 option"
  modeFlags :: "u8 option"
  channelCount :: "u8 option"
  sampleBytes :: "u8 option"
  maxSamplerateKhz :: int
  capsCompression :: "u8 option"

record SigrokCapsResp =
  modeCount :: "u8 option"
  modes :: "SigrokModeCaps list"

record SigrokAck =
  ackSessionId :: int
  ackState :: "u8 option"
  actualRateKhz :: int

record SigrokEvent =
  eventSessionId :: int
  typeDetail :: "u8 option"
  eventSampleIndex :: int

record SigrokError =
  errorCode :: "u8 option"
  detail :: int

datatype SigrokFrame =
    HelloRespFrame int SigrokHelloResp
  | CapsRespFrame int SigrokCapsResp
  | AckFrame u8 int SigrokAck
  | EventFrame int SigrokEvent
  | DataFrame int SigrokDataMeta bytes
  | ErrorFrame int SigrokError

fun frame_id :: "SigrokFrame \<Rightarrow> int" where
  "frame_id (HelloRespFrame i _) = i"
| "frame_id (CapsRespFrame i _) = i"
| "frame_id (AckFrame _ i _) = i"
| "frame_id (EventFrame i _) = i"
| "frame_id (DataFrame i _ _) = i"
| "frame_id (ErrorFrame i _) = i"

fun frame_type :: "SigrokFrame \<Rightarrow> u8" where
  "frame_type (HelloRespFrame _ _) = HELLO_RESP"
| "frame_type (CapsRespFrame _ _) = CAPS_RESP"
| "frame_type (AckFrame t _ _) = t"
| "frame_type (EventFrame _ _) = EVENT"
| "frame_type (DataFrame _ _ _) = DATA"
| "frame_type (ErrorFrame _ _) = ERROR"

subsection \<open>Building and parsing\<close>

definition buildSigrokFrame :: "int \<Rightarrow> u8 \<Rightarrow> bytes \<Rightarrow> bytes" where
  "buildSigrokFrame fid type payload =
     (let i = word_of_int fid :: u32; n = word_of_int (int (length payload)) :: u32
      in [SIGROK_MAGIC, SIGROK_PROTOCOL_VERSION, type,
          byte_of i 0, byte_of i 8, byte_of i 16, byte_of i 24,
          byte_of n 0, byte_of n 8] @ payload)"

text \<open>\<open>id\<close> is the value of a 32 bit bit operation, so it is signed.\<close>

definition parseSigrokHeader :: "bytes \<Rightarrow> SigrokHeader option" where
  "parseSigrokHeader data =
     (if length data < SIGROK_HEADER_BYTES then None
      else if data ! 0 \<noteq> SIGROK_MAGIC then None
      else Some \<lparr>magic = data ! 0, version = data ! 1, frameType = data ! 2,
             headerId = sint (le32 data 3), payloadLen = unat (le16 data 7)\<rparr>)"

definition parseModeCaps :: "bytes \<Rightarrow> nat \<Rightarrow> SigrokModeCaps" where
  "parseModeCaps payload i =
     (let offset = 1 + i * 8
      in \<lparr>capsModeId = nth_opt payload offset,
          modeFlags = nth_opt payload (offset + 1),
          channelCount = nth_opt payload (offset + 2),
          sampleBytes = nth_opt payload (offset + 3),
          maxSamplerateKhz = sint (le24 payload (offset + 4)),
          capsCompression = nth_opt payload (offset + 7)\<rparr>)"

definition parseSigrokFrame :: "SigrokHeader \<Rightarrow> bytes \<Rightarrow> sigrok_error + SigrokFrame option" where
  "parseSigrokFrame header data =
     (let payload = drop SIGROK_HEADER_BYTES data; t = frameType header; fid = headerId header
      in if t = HELLO_RESP then
           Inr (Some (HelloRespFrame fid
             \<lparr>protocolVersion = nth_opt payload 0, serverFlags = nth_opt payload 1,
              helloModeCount = nth_opt payload 2, maxPayloadLen = sint (le16 payload 3)\<rparr>))
         else if t = CAPS_RESP then
           (let count = (case nth_opt payload 0 of None \<Rightarrow> 0 | Some b \<Rightarrow> unat b)
            in Inr (Some (CapsRespFrame fid
                 \<lparr>modeCount = nth_opt payload 0, modes = map (parseModeCaps payload) [0..<count]\<rparr>)))
         else if t = CONFIG_RESP \<or> t = START_RESP \<or> t = STOP_RESP then
           Inr (Some (AckFrame t fid
             \<lparr>ackSessionId = sint (le16 payload 0), ackState = nth_opt payload 2,
              actualRateKhz = sint (le24 payload 3)\<rparr>))
         else if t = EVENT then
           Inr (Some (EventFrame fid
             \<lparr>eventSessionId = sint (le16 payload 0), typeDetail = nth_opt payload 2,
              eventSampleIndex = sint (le24 payload 3)\<rparr>))
         else if t = DATA then
           (if length payload < 8 then Inl DataPayloadShort
            else let meta = \<lparr>metaSampleIndex = unat (le24 payload 0),
                             metaSampleCount = unat (le16 payload 3),
                             metaCompression = payload ! 5,
                             metaChannelMask = le16 payload 6\<rparr>
                 in bindR (decodeSigrokDataSamples meta (drop 8 payload))
                      (\<lambda>samples. Inr (Some (DataFrame fid meta samples))))
         else if t = ERROR then
           Inr (Some (ErrorFrame fid
             \<lparr>errorCode = nth_opt payload 0, detail = sint (le16 payload 1)\<rparr>))
         else Inr None)"

definition sigrokEventCodeName :: "int \<Rightarrow> string + int" where
  "sigrokEventCodeName eventCode =
     (if eventCode = 1 then Inl ''ARMED'' else if eventCode = 2 then Inl ''TRIGGERED''
      else if eventCode = 3 then Inl ''RUNNING'' else if eventCode = 4 then Inl ''STOPPED''
      else if eventCode = 5 then Inl ''OVERRUN'' else if eventCode = 6 then Inl ''ERROR''
      else Inr eventCode)"

subsection \<open>Lemmas\<close>

lemma length_buildSigrokFrame [simp]:
  "length (buildSigrokFrame i t p) = SIGROK_HEADER_BYTES + length p"
  by (simp add: buildSigrokFrame_def Let_def)

lemma drop_header_build [simp]: "drop 9 (buildSigrokFrame i t p) = p"
  by (simp add: buildSigrokFrame_def Let_def)

lemma le32_build: "le32 (buildSigrokFrame i t p @ rest) 3 = word_of_int i"
  by (rule le32_bytes) (simp_all add: buildSigrokFrame_def Let_def)

lemma le16_build:
  "length p < 65536 \<Longrightarrow> unat (le16 (buildSigrokFrame i t p @ rest) 7) = length p"
proof -
  assume l: "length p < 65536"
  have "le16 (buildSigrokFrame i t p @ rest) 7 = take_bit 16 (word_of_int (int (length p)))"
    by (rule le16_bytes) (simp_all add: buildSigrokFrame_def Let_def)
  also have "\<dots> = word_of_int (int (length p))"
    using l by (intro take_bit_small_word) simp_all
  finally show ?thesis using l by (simp add: unat_of_nat)
qed

definition build_header :: "int \<Rightarrow> u8 \<Rightarrow> bytes \<Rightarrow> SigrokHeader" where
  "build_header i t p = \<lparr>magic = SIGROK_MAGIC, version = SIGROK_PROTOCOL_VERSION, frameType = t,
     headerId = sint (word_of_int i :: u32), payloadLen = length p\<rparr>"

lemma parseSigrokHeader_build:
  assumes "length p < 65536"
  shows "parseSigrokHeader (buildSigrokFrame i t p @ rest) = Some (build_header i t p)"
proof -
  let ?d = "buildSigrokFrame i t p @ rest"
  have "?d ! 0 = SIGROK_MAGIC" "?d ! 1 = SIGROK_PROTOCOL_VERSION" "?d ! 2 = t"
    by (simp_all add: buildSigrokFrame_def Let_def)
  then show ?thesis
    unfolding parseSigrokHeader_def build_header_def le32_build le16_build [OF assms]
    by (simp del: SIGROK_MAGIC_def SIGROK_PROTOCOL_VERSION_def)
qed

text \<open>
  Header round trip. A frame built from a request id below \<open>2 ^ 31\<close>, any type and
  a payload of at most 65535 bytes parses, even with further bytes behind it, to exactly
  its magic, version 2, type, id and payload length; and its payload starts after the
  header.
\<close>

lemma frame_header_roundtrip:
  assumes "0 \<le> fid" "fid < 2 ^ 31" "length payload < 65536"
  shows "\<exists>h. parseSigrokHeader (buildSigrokFrame fid type payload @ rest) = Some h \<and>
    magic h = SIGROK_MAGIC \<and> version h = SIGROK_PROTOCOL_VERSION \<and> frameType h = type \<and>
    headerId h = fid \<and> payloadLen h = length payload \<and>
    drop SIGROK_HEADER_BYTES (buildSigrokFrame fid type payload) = payload"
  using assms by (simp add: parseSigrokHeader_build build_header_def sint_word_of_int_small)

lemma frame_header_roundtrip_witness:
  "\<exists>h. parseSigrokHeader (buildSigrokFrame 300 CONFIG_REQ [1, 2] @ [0x72]) = Some h \<and>
    headerId h = 300 \<and> payloadLen h = 2"
  using frame_header_roundtrip [of 300 "[1, 2]" CONFIG_REQ "[0x72]"] by auto



end
