(* ===== verification/Sigrok_Client.thy ===== *)
theory Sigrok_Client
  imports Sigrok_Frames
begin

text \<open>
  The connection state machine of \<open>class SigrokClient\<close> (\<open>web/src/lib/sigrokClient.ts\<close>).
  The class fields are a record; a socket is named by the connection generation of the
  attempt that opened it. Callbacks and method calls are operations on the record.
  What leaves the client (listener events, sockets, settled promises) is appended to a
  log. A settled request queues its continuation in \<open>microtasks\<close>; the queue is drained
  before the next callback or call runs, as the event loop does. Listeners are taken to
  be passive: they observe events and do not call back into the client.
\<close>

subsection \<open>State\<close>

datatype client_state = Disconnected | Connecting | Ready | Configured | Armed | Running

datatype ready_state = CONNECTING | OPEN | CLOSING | CLOSED

datatype client_error =
    ClientDisconnected
  | WebSocketClosed
  | ConnectionTimeout
  | ConnectionFailed
  | ConnectionCancelled
  | SocketConstructorFailed
  | NotConnected
  | RequestTimeout
  | UnexpectedResponse string
  | InvalidRequest sigrok_error

text \<open>What a pending request continues with; the attempt's number for the handshake.\<close>

datatype purpose =
    HelloOf nat
  | CapsOf nat
  | CapsCall
  | ConfigureCall
  | StartCall
  | StopCall

datatype client_output =
    StateEvent client_state
  | FrameEvent SigrokFrame
  | DataEvent SigrokDataMeta bytes
  | ErrorEvent SigrokError
  | SocketOpened nat
  | SocketClosed nat
  | Sent bytes
  | ConnectResolved nat
  | ConnectRejected nat client_error
  | CallResolved purpose SigrokFrame
  | CallRejected purpose client_error

record client =
  ws :: "nat option"
  connectionGeneration :: nat
  connectCancellation :: "nat option"
  connectTimeout :: "nat option"
  cstate :: client_state
  nextId :: int
  pendingRequests :: "(int \<times> purpose) list"
  buffer :: bytes
  disconnecting :: bool
  hello :: "SigrokHelloResp option"
  caps :: "SigrokCapsResp option"
  settled :: "nat \<Rightarrow> bool"
  attemptTimer :: "nat \<Rightarrow> bool"
  readyState :: "nat \<Rightarrow> ready_state"
  microtasks :: "(purpose \<times> (client_error + SigrokFrame)) list"
  log :: "client_output list"

definition init_client :: client where
  "init_client = \<lparr>ws = None, connectionGeneration = 0, connectCancellation = None,
     connectTimeout = None, cstate = Disconnected, nextId = 1, pendingRequests = [],
     buffer = [], disconnecting = False, hello = None, caps = None,
     settled = (\<lambda>_. False), attemptTimer = (\<lambda>_. False), readyState = (\<lambda>_. CONNECTING),
     microtasks = [], log = []\<rparr>"

definition emit :: "client_output \<Rightarrow> client \<Rightarrow> client" where
  "emit ev c = c\<lparr>log := log c @ [ev]\<rparr>"

definition setState :: "client_state \<Rightarrow> client \<Rightarrow> client" where
  "setState st c = emit (StateEvent st) (c\<lparr>cstate := st\<rparr>)"

definition clearCapabilities :: "client \<Rightarrow> client" where
  "clearCapabilities c = c\<lparr>hello := None, caps := None\<rparr>"

record server_capabilities =
  srvFlags :: u8
  supportsConfigV2 :: bool
  supportsGenericPackedBurst :: bool

definition getServerCapabilities :: "client \<Rightarrow> server_capabilities" where
  "getServerCapabilities c =
     (let flags = (case hello c of None \<Rightarrow> 0
                   | Some h \<Rightarrow> (case serverFlags h of None \<Rightarrow> 0 | Some b \<Rightarrow> b))
      in \<lparr>srvFlags = flags,
          supportsConfigV2 = (flags AND push_bit 0 1 \<noteq> 0),
          supportsGenericPackedBurst = (flags AND push_bit 1 1 \<noteq> 0)\<rparr>)"

subsection \<open>Requests\<close>

definition lookup_pending :: "int \<Rightarrow> client \<Rightarrow> purpose option" where
  "lookup_pending i c = map_of (pendingRequests c) i"

definition delete_pending :: "int \<Rightarrow> client \<Rightarrow> client" where
  "delete_pending i c = c\<lparr>pendingRequests := filter (\<lambda>(k, _). k \<noteq> i) (pendingRequests c)\<rparr>"

definition settle :: "purpose \<Rightarrow> client_error + SigrokFrame \<Rightarrow> client \<Rightarrow> client" where
  "settle p r c = c\<lparr>microtasks := microtasks c @ [(p, r)]\<rparr>"

definition rejectAllPending :: "client_error \<Rightarrow> client \<Rightarrow> client" where
  "rejectAllPending err c =
     c\<lparr>microtasks := microtasks c @ map (\<lambda>(_, p). (p, Inl err)) (pendingRequests c),
       pendingRequests := []\<rparr>"

definition closeSocket :: "nat \<Rightarrow> client \<Rightarrow> client" where
  "closeSocket g c = emit (SocketClosed g) (c\<lparr>readyState := (readyState c)(g := CLOSING)\<rparr>)"

definition socketLive :: "nat \<Rightarrow> client \<Rightarrow> bool" where
  "socketLive g c \<longleftrightarrow> readyState c g = CONNECTING \<or> readyState c g = OPEN"

definition canSend :: "client \<Rightarrow> bool" where
  "canSend c \<longleftrightarrow> (case ws c of None \<Rightarrow> False | Some g \<Rightarrow> readyState c g = OPEN)"

definition sendRequest :: "purpose \<Rightarrow> u8 \<Rightarrow> bytes \<Rightarrow> client \<Rightarrow> client" where
  "sendRequest p type payload c =
     (let frame = buildSigrokFrame (nextId c) type payload;
          rid = nextId c;
          c1 = c\<lparr>nextId := nextId c + 1, pendingRequests := pendingRequests c @ [(rid, p)]\<rparr>
      in if canSend c1 then emit (Sent frame) c1
         else settle p (Inl NotConnected) (delete_pending rid c1))"

subsection \<open>Connecting and disconnecting\<close>

definition isCurrent :: "nat \<Rightarrow> client \<Rightarrow> bool" where
  "isCurrent g c \<longleftrightarrow> ws c = Some g \<and> connectionGeneration c = g"

definition clearAttempt :: "nat \<Rightarrow> client \<Rightarrow> client" where
  "clearAttempt g c =
     (let c1 = (if attemptTimer c g then
                  (if connectTimeout c = Some g then c\<lparr>connectTimeout := None\<rparr> else c)
                    \<lparr>attemptTimer := (attemptTimer c)(g := False)\<rparr>
                else if connectTimeout c \<noteq> None \<and> connectCancellation c = Some g
                then c\<lparr>connectTimeout := None\<rparr>
                else c)
      in if connectCancellation c1 = Some g then c1\<lparr>connectCancellation := None\<rparr> else c1)"

definition rejectConnect :: "nat \<Rightarrow> client_error \<Rightarrow> client \<Rightarrow> client" where
  "rejectConnect g err c =
     (if settled c g then c
      else emit (ConnectRejected g err)
             (clearAttempt g (c\<lparr>settled := (settled c)(g := True)\<rparr>)))"

definition failCurrentConnection :: "nat \<Rightarrow> client_error \<Rightarrow> client \<Rightarrow> client" where
  "failCurrentConnection g err c =
     (if \<not> isCurrent g c then rejectConnect g err c
      else
        let c1 = c\<lparr>connectionGeneration := connectionGeneration c + 1, ws := None, buffer := []\<rparr>;
            c2 = (if socketLive g c1 then closeSocket g c1 else c1);
            c3 = setState Disconnected (clearCapabilities c2);
            c4 = rejectAllPending err c3
        in rejectConnect g err c4)"

definition disconnect :: "client \<Rightarrow> client" where
  "disconnect c =
     (let c1 = c\<lparr>disconnecting := True, connectionGeneration := connectionGeneration c + 1,
               ws := None, connectCancellation := None\<rparr>;
          c2 = (case connectTimeout c1 of None \<Rightarrow> c1 | Some _ \<Rightarrow> c1\<lparr>connectTimeout := None\<rparr>);
          c3 = (case ws c of None \<Rightarrow> c2
                | Some g \<Rightarrow> if socketLive g c2 then closeSocket g c2 else c2);
          c4 = setState Disconnected (clearCapabilities (c3\<lparr>buffer := []\<rparr>));
          c5 = rejectAllPending ClientDisconnected c4
      in case connectCancellation c of None \<Rightarrow> c5
         | Some g \<Rightarrow> rejectConnect g ClientDisconnected c5)"

definition sendHello :: "nat \<Rightarrow> client \<Rightarrow> client" where
  "sendHello g c = sendRequest (HelloOf g) HELLO_REQ [] c"

definition getCaps :: "purpose \<Rightarrow> client \<Rightarrow> client" where
  "getCaps p c = sendRequest p CAPS_REQ [] c"

text \<open>The constructor of the socket may throw: \<open>ctorFails\<close>.\<close>

definition connect :: "bool \<Rightarrow> client \<Rightarrow> client" where
  "connect ctorFails c =
     (let c0 = (if ws c \<noteq> None \<or> connectCancellation c \<noteq> None then disconnect c else c);
          g = connectionGeneration c0 + 1;
          c1 = setState Connecting (clearCapabilities
                 (c0\<lparr>connectionGeneration := g, disconnecting := False, buffer := []\<rparr>))
      in if ctorFails then
           emit (ConnectRejected g SocketConstructorFailed) (setState Disconnected c1)
         else emit (SocketOpened g)
           (c1\<lparr>ws := Some g, settled := (settled c1)(g := False),
              connectCancellation := Some g, attemptTimer := (attemptTimer c1)(g := True),
              readyState := (readyState c1)(g := CONNECTING),
              connectTimeout := Some g\<rparr>))"

definition onConnectTimeout :: "nat \<Rightarrow> client \<Rightarrow> client" where
  "onConnectTimeout g c = failCurrentConnection g ConnectionTimeout c"

definition onopen :: "nat \<Rightarrow> client \<Rightarrow> client" where
  "onopen g c =
     (if \<not> isCurrent g c then
        rejectConnect g ConnectionCancelled (if readyState c g = OPEN then closeSocket g c else c)
      else sendHello g c)"

definition onclose :: "nat \<Rightarrow> client \<Rightarrow> client" where
  "onclose g c =
     (if \<not> isCurrent g c then c
      else
        let c1 = c\<lparr>connectionGeneration := connectionGeneration c + 1, ws := None, buffer := []\<rparr>;
            c2 = setState Disconnected (clearCapabilities c1)
        in rejectConnect g WebSocketClosed (rejectAllPending WebSocketClosed c2))"

definition onerror :: "nat \<Rightarrow> client \<Rightarrow> client" where
  "onerror g c = failCurrentConnection g ConnectionFailed c"

text \<open>\<open>disconnectGracefully\<close> up to its 100 ms wait, and after it.\<close>

definition disconnectGracefully :: "client \<Rightarrow> client" where
  "disconnectGracefully c =
     (let c1 = c\<lparr>disconnecting := True\<rparr>
      in if cstate c1 = Connecting then disconnect c1
         else if ws c1 = None then disconnect c1 else c1)"

definition disconnectGracefully_resume :: "nat \<Rightarrow> nat \<Rightarrow> client \<Rightarrow> client" where
  "disconnectGracefully_resume g generation c =
     (if ws c \<noteq> Some g \<or> connectionGeneration c \<noteq> generation then c else disconnect c)"

subsection \<open>Receiving\<close>

definition handleEvent :: "SigrokEvent \<Rightarrow> client \<Rightarrow> client" where
  "handleEvent ev c =
     (if typeDetail ev = Some 1 then setState Armed c
      else if typeDetail ev = Some 2 \<or> typeDetail ev = Some 3 then setState Running c
      else if typeDetail ev = Some 4 then setState Configured c
      else c)"

definition handleFrame :: "SigrokFrame \<Rightarrow> client \<Rightarrow> client" where
  "handleFrame frame c =
     (let c1 = (case frame of HelloRespFrame _ h \<Rightarrow> c\<lparr>hello := Some h\<rparr>
                | CapsRespFrame _ k \<Rightarrow> c\<lparr>caps := Some k\<rparr> | _ \<Rightarrow> c);
          c2 = emit (FrameEvent frame) c1;
          c3 = (case frame of DataFrame _ m s \<Rightarrow> emit (DataEvent m s) c2 | _ \<Rightarrow> c2);
          c4 = (case lookup_pending (frame_id frame) c3 of None \<Rightarrow> c3
                | Some p \<Rightarrow> settle p (Inr frame) (delete_pending (frame_id frame) c3))
      in case frame of EventFrame _ ev \<Rightarrow> handleEvent ev c4
         | ErrorFrame _ e \<Rightarrow> emit (ErrorEvent e) c4
         | _ \<Rightarrow> c4)"

lemma buffer_handleEvent [simp]: "buffer (handleEvent ev c) = buffer c"
  by (simp add: handleEvent_def setState_def emit_def)

lemma buffer_handleFrame [simp]: "buffer (handleFrame f c) = buffer c"
  by (simp add: handleFrame_def Let_def emit_def settle_def delete_pending_def
      split: SigrokFrame.splits option.splits)

text \<open>
  The receive loop: skip a byte until the header's magic, wait for the whole frame,
  hand it over. A payload error leaves the loop as an exception, after the frame's bytes
  have been consumed.
\<close>

function feed_loop :: "client \<Rightarrow> client \<times> sigrok_error option" where
  "feed_loop c =
     (if length (buffer c) < SIGROK_HEADER_BYTES then (c, None)
      else case parseSigrokHeader (buffer c) of
        None \<Rightarrow> feed_loop (c\<lparr>buffer := drop 1 (buffer c)\<rparr>)
      | Some header \<Rightarrow>
          let totalLen = SIGROK_HEADER_BYTES + payloadLen header
          in if length (buffer c) < totalLen then (c, None)
             else let frameData = take totalLen (buffer c);
                      c1 = c\<lparr>buffer := drop totalLen (buffer c)\<rparr>
                  in case parseSigrokFrame header frameData of
                       Inl e \<Rightarrow> (c1, Some e)
                     | Inr None \<Rightarrow> feed_loop c1
                     | Inr (Some frame) \<Rightarrow> feed_loop (handleFrame frame c1))"
  by pat_completeness auto
termination
  by (relation "measure (\<lambda>c. length (buffer c))") auto

declare feed_loop.simps [simp del]

definition feedBinaryData :: "client \<Rightarrow> bytes \<Rightarrow> client \<times> sigrok_error option" where
  "feedBinaryData c data =
     (if disconnecting c then (c, None) else feed_loop (c\<lparr>buffer := buffer c @ data\<rparr>))"

definition onmessage :: "nat \<Rightarrow> bytes \<Rightarrow> client \<Rightarrow> client" where
  "onmessage g data c = (if isCurrent g c then fst (feedBinaryData c data) else c)"

subsection \<open>Calls and continuations\<close>

definition configure ::
  "SigrokConfigReq \<Rightarrow> SigrokConfigEncoding option \<Rightarrow> client \<Rightarrow> client" where
  "configure config encoding c =
     (case buildSigrokConfigFrameRequest config (supportsConfigV2 (getServerCapabilities c)) encoding of
        Inl e \<Rightarrow> emit (CallRejected ConfigureCall (InvalidRequest e)) c
      | Inr (type, payload) \<Rightarrow> sendRequest ConfigureCall type payload c)"

definition start :: "client \<Rightarrow> client" where
  "start c = sendRequest StartCall START_REQ [] c"

definition stop :: "client \<Rightarrow> client" where
  "stop c = sendRequest StopCall STOP_REQ [] c"

text \<open>What follows the \<open>await\<close> of each request, in \<open>sendHello\<close>, \<open>onopen\<close>,
  \<open>getCaps\<close>, \<open>configure\<close>, \<open>start\<close> and \<open>stop\<close>.\<close>

definition continueHello :: "nat \<Rightarrow> client_error + SigrokFrame \<Rightarrow> client \<Rightarrow> client" where
  "continueHello g r c =
     (case r of Inl e \<Rightarrow> failCurrentConnection g e c
      | Inr (HelloRespFrame _ h) \<Rightarrow> getCaps (CapsOf g) (c\<lparr>hello := Some h\<rparr>)
      | Inr _ \<Rightarrow> failCurrentConnection g (UnexpectedResponse ''HELLO'') c)"

definition continueConnectCaps :: "nat \<Rightarrow> client_error + SigrokFrame \<Rightarrow> client \<Rightarrow> client" where
  "continueConnectCaps g r c =
     (case r of Inl e \<Rightarrow> failCurrentConnection g e c
      | Inr (CapsRespFrame _ k) \<Rightarrow>
          let c1 = c\<lparr>caps := Some k\<rparr>
          in if \<not> isCurrent g c1 then
               rejectConnect g ConnectionCancelled
                 (if readyState c1 g = OPEN then closeSocket g c1 else c1)
             else emit (ConnectResolved g) (setState Ready
                    (clearAttempt g (c1\<lparr>settled := (settled c1)(g := True)\<rparr>)))
      | Inr _ \<Rightarrow> failCurrentConnection g (UnexpectedResponse ''CAPS'') c)"

definition continueCall :: "purpose \<Rightarrow> client_error + SigrokFrame \<Rightarrow> client \<Rightarrow> client" where
  "continueCall p r c =
     (case r of Inl e \<Rightarrow> emit (CallRejected p e) c
      | Inr f \<Rightarrow>
        (case p of
           CapsCall \<Rightarrow> (case f of CapsRespFrame _ k \<Rightarrow> emit (CallResolved p f) (c\<lparr>caps := Some k\<rparr>)
             | _ \<Rightarrow> emit (CallRejected p (UnexpectedResponse ''CAPS'')) c)
         | ConfigureCall \<Rightarrow> (if frame_type f = CONFIG_RESP
             then emit (CallResolved p f) (setState Configured c)
             else emit (CallRejected p (UnexpectedResponse ''CONFIG'')) c)
         | StartCall \<Rightarrow> (if frame_type f = START_RESP then emit (CallResolved p f) c
             else emit (CallRejected p (UnexpectedResponse ''START'')) c)
         | StopCall \<Rightarrow> (if frame_type f = STOP_RESP
             then emit (CallResolved p f) (setState Configured c)
             else emit (CallRejected p (UnexpectedResponse ''STOP'')) c)
         | _ \<Rightarrow> c))"

definition continue :: "purpose \<Rightarrow> client_error + SigrokFrame \<Rightarrow> client \<Rightarrow> client" where
  "continue p r c =
     (case p of HelloOf g \<Rightarrow> continueHello g r c
      | CapsOf g \<Rightarrow> continueConnectCaps g r c
      | _ \<Rightarrow> continueCall p r c)"

text \<open>
  Draining the queue ends: a HELLO continuation may file one more request, and nothing
  else does, so the weighted number of open requests and queued continuations falls.
\<close>

fun weight :: "purpose \<Rightarrow> nat" where
  "weight (HelloOf _) = 2"
| "weight _ = 1"

definition potential :: "client \<Rightarrow> nat" where
  "potential c = sum_list (map (weight \<circ> snd) (pendingRequests c)) +
     sum_list (map (weight \<circ> fst) (microtasks c))"

lemma potential_simps [simp]:
  "potential (emit ev c) = potential c"
  "potential (setState st c) = potential c"
  "potential (clearCapabilities c) = potential c"
  "potential (closeSocket g c) = potential c"
  by (simp_all add: potential_def emit_def setState_def clearCapabilities_def closeSocket_def)

lemma potential_rejectAllPending [simp]: "potential (rejectAllPending e c) = potential c"
  by (simp add: potential_def rejectAllPending_def comp_def case_prod_unfold)

lemma potential_clearAttempt [simp]: "potential (clearAttempt g c) = potential c"
  by (simp add: potential_def clearAttempt_def Let_def)

lemma potential_rejectConnect [simp]: "potential (rejectConnect g e c) = potential c"
  by (simp add: rejectConnect_def) (simp add: potential_def)

lemma potential_failCurrentConnection [simp]:
  "potential (failCurrentConnection g e c) = potential c"
  by (simp add: failCurrentConnection_def Let_def) (simp add: potential_def)

lemma potential_sendRequest: "potential (sendRequest p t pl c) \<le> potential c + weight p"
proof -
  have "sum_list (map f (filter P xs)) \<le> sum_list (map f xs)" for f :: "int \<times> purpose \<Rightarrow> nat" and P xs
    by (induction xs) auto
  then show ?thesis
    by (simp add: sendRequest_def Let_def) (auto simp: potential_def settle_def delete_pending_def)
qed

lemma potential_continue: "potential (continue p r c) < potential c + weight p"
proof -
  have "potential (continueHello g r c) < potential c + 2" for g
    using potential_sendRequest [of "CapsOf g" CAPS_REQ "[]" "c\<lparr>hello := h\<rparr>" for h]
    by (auto simp: continueHello_def getCaps_def split: sum.splits SigrokFrame.splits)
      (simp add: potential_def le_imp_less_Suc)
  moreover have "potential (continueConnectCaps g r c) < potential c + 1" for g
    by (auto simp: continueConnectCaps_def Let_def split: sum.splits SigrokFrame.splits)
      (simp_all add: potential_def)
  moreover have "potential (continueCall p r c) < potential c + 1"
    by (auto simp: continueCall_def split: sum.splits SigrokFrame.splits purpose.splits)
      (simp_all add: potential_def)
  ultimately show ?thesis
    by (cases p) (simp_all add: continue_def)
qed

lemma potential_drain:
  assumes "microtasks c = (p, r) # rest"
  shows "potential (continue p r (c\<lparr>microtasks := rest\<rparr>)) < potential (c :: client)"
  using potential_continue [of p r "c\<lparr>microtasks := rest\<rparr>"] assms by (simp add: potential_def)

function drain :: "client \<Rightarrow> client" where
  "drain c =
     (case microtasks c of [] \<Rightarrow> c
      | (p, r) # rest \<Rightarrow> drain (continue p r (c\<lparr>microtasks := rest\<rparr>)))"
  by pat_completeness auto
termination
  by (relation "measure potential") (auto simp: potential_drain)

declare drain.simps [simp del]

subsection \<open>The event loop\<close>

datatype client_event =
    ConnectE bool
  | DisconnectE
  | DisconnectGracefullyE
  | ResumeDisconnectE nat nat
  | OpenE nat
  | MessageE nat bytes
  | CloseE nat
  | ErrorE nat
  | ConnectTimeoutE nat
  | RequestTimeoutE int
  | ConfigureE SigrokConfigReq "SigrokConfigEncoding option"
  | StartE
  | StopE
  | GetCapsE

definition requestTimeout :: "int \<Rightarrow> client \<Rightarrow> client" where
  "requestTimeout i c =
     (case lookup_pending i c of None \<Rightarrow> c
      | Some p \<Rightarrow> settle p (Inl RequestTimeout) (delete_pending i c))"

fun handle :: "client_event \<Rightarrow> client \<Rightarrow> client" where
  "handle (ConnectE ctorFails) c = connect ctorFails c"
| "handle DisconnectE c = disconnect c"
| "handle DisconnectGracefullyE c = disconnectGracefully c"
| "handle (ResumeDisconnectE g n) c = disconnectGracefully_resume g n c"
| "handle (OpenE g) c = onopen g (c\<lparr>readyState := (readyState c)(g := OPEN)\<rparr>)"
| "handle (MessageE g data) c = onmessage g data c"
| "handle (CloseE g) c = onclose g (c\<lparr>readyState := (readyState c)(g := CLOSED)\<rparr>)"
| "handle (ErrorE g) c = onerror g c"
| "handle (ConnectTimeoutE g) c = (if attemptTimer c g then onConnectTimeout g c else c)"
| "handle (RequestTimeoutE i) c = requestTimeout i c"
| "handle (ConfigureE config enc) c = configure config enc c"
| "handle StartE c = start c"
| "handle StopE c = stop c"
| "handle GetCapsE c = getCaps CapsCall c"

definition client_step :: "client \<Rightarrow> client_event \<Rightarrow> client" where
  "client_step c e = drain (handle e c)"

subsection \<open>Chunking of the input\<close>

lemma handleFrame_buffer:
  "handleFrame f (c\<lparr>buffer := b\<rparr>) = (handleFrame f c)\<lparr>buffer := b\<rparr>"
  by (cases f) (auto simp: handleFrame_def Let_def emit_def settle_def delete_pending_def
      lookup_pending_def handleEvent_def setState_def split: option.splits)

lemma bits_at_append_left: "i < length bs \<Longrightarrow> bits_at (bs @ ys) i = bits_at bs i"
  by (simp add: bits_at_def nth_opt_append_left del: nth_opt_Some)

lemma parseSigrokHeader_append:
  assumes "SIGROK_HEADER_BYTES \<le> length bs"
  shows "parseSigrokHeader (bs @ ys) = parseSigrokHeader bs"
proof -
  have "(bs @ ys) ! k = bs ! k" if "k < 9" for k
    using assms that by (simp add: nth_append)
  from this [of 0] this [of 1] this [of 2] show ?thesis
    using assms by (simp add: parseSigrokHeader_def le16_def le32_def bits_at_append_left)
qed

lemma feed_loop_append:
  "feed_loop c = (c', None) \<Longrightarrow>
   feed_loop (c\<lparr>buffer := buffer c @ ys\<rparr>) = feed_loop (c'\<lparr>buffer := buffer c' @ ys\<rparr>)"
proof (induction c arbitrary: c' rule: feed_loop.induct)
  case (1 c)
  let ?d = "c\<lparr>buffer := buffer c @ ys\<rparr>"
  show ?case
  proof (cases "length (buffer c) < SIGROK_HEADER_BYTES")
    case True
    with "1.prems" have "c' = c" by (simp add: feed_loop.simps [of c])
    then show ?thesis by simp
  next
    case False
    then have hd: "parseSigrokHeader (buffer ?d) = parseSigrokHeader (buffer c)"
      by (simp add: parseSigrokHeader_append)
    show ?thesis
    proof (cases "parseSigrokHeader (buffer c)")
      case None
      have "feed_loop (c\<lparr>buffer := drop 1 (buffer c)\<rparr>) = (c', None)"
        using "1.prems" False None by (simp add: feed_loop.simps [of c])
      from "1.IH"(1) [OF False None this]
      have "feed_loop (c\<lparr>buffer := drop 1 (buffer c) @ ys\<rparr>) = feed_loop (c'\<lparr>buffer := buffer c' @ ys\<rparr>)"
        by simp
      with False None hd show ?thesis
        by (subst feed_loop.simps) simp
    next
      case (Some header)
      let ?n = "SIGROK_HEADER_BYTES + payloadLen header"
      show ?thesis
      proof (cases "length (buffer c) < ?n")
        case True
        with "1.prems" False Some have "c' = c" by (simp add: feed_loop.simps [of c])
        then show ?thesis by simp
      next
        case long: False
        let ?c1 = "c\<lparr>buffer := drop ?n (buffer c)\<rparr>"
        have data: "take ?n (buffer ?d) = take ?n (buffer c)"
          using long by simp
        have step: "feed_loop ?d = (case parseSigrokFrame header (take ?n (buffer c)) of
             Inl e \<Rightarrow> (?c1\<lparr>buffer := buffer ?c1 @ ys\<rparr>, Some e)
           | Inr None \<Rightarrow> feed_loop (?c1\<lparr>buffer := buffer ?c1 @ ys\<rparr>)
           | Inr (Some f) \<Rightarrow> feed_loop (handleFrame f (?c1\<lparr>buffer := buffer ?c1 @ ys\<rparr>)))"
          using False long Some hd data
          by (subst feed_loop.simps) (simp add: Let_def split: sum.split option.split)
        have step0: "feed_loop c = (case parseSigrokFrame header (take ?n (buffer c)) of
             Inl e \<Rightarrow> (?c1, Some e) | Inr None \<Rightarrow> feed_loop ?c1
           | Inr (Some f) \<Rightarrow> feed_loop (handleFrame f ?c1))"
          using False long Some
          by (subst feed_loop.simps) (simp add: Let_def split: sum.split option.split)
        show ?thesis
        proof (cases "parseSigrokFrame header (take ?n (buffer c))")
          case (Inl e)
          with step0 "1.prems" show ?thesis by simp
        next
          case (Inr fo)
          show ?thesis
          proof (cases fo)
            case None
            with Inr step0 "1.prems" have "feed_loop ?c1 = (c', None)" by simp
            with "1.IH"(2) [OF False Some refl long refl refl] Inr None step show ?thesis by simp
          next
            case (Some f)
            with Inr step0 "1.prems" have "feed_loop (handleFrame f ?c1) = (c', None)" by simp
            with "1.IH"(3) [OF False \<open>parseSigrokHeader (buffer c) = Some header\<close> refl long refl refl]
              Inr Some step show ?thesis by (simp add: handleFrame_buffer)
          qed
        qed
      qed
    qed
  qed
qed

lemma disconnecting_handleFrame [simp]: "disconnecting (handleFrame f c) = disconnecting c"
  by (simp add: handleFrame_def Let_def emit_def settle_def delete_pending_def handleEvent_def
      setState_def split: SigrokFrame.splits option.splits)

lemma disconnecting_feed_loop: "disconnecting (fst (feed_loop c)) = disconnecting c"
  by (induction c rule: feed_loop.induct)
    (subst feed_loop.simps, auto simp: Let_def split: option.splits sum.splits)

interpretation sigrok_stream: stream_consumer feedBinaryData
proof
  fix c xs c' ys
  assume fed: "feedBinaryData c xs = (c', None)"
  show "feedBinaryData c (xs @ ys) = feedBinaryData c' ys"
  proof (cases "disconnecting c")
    case True
    with fed show ?thesis by (simp add: feedBinaryData_def)
  next
    case False
    with fed have loop: "feed_loop (c\<lparr>buffer := buffer c @ xs\<rparr>) = (c', None)"
      by (simp add: feedBinaryData_def)
    with False have "\<not> disconnecting c'"
      using disconnecting_feed_loop [of "c\<lparr>buffer := buffer c @ xs\<rparr>"] by simp
    with False feed_loop_append [OF loop] show ?thesis
      by (simp add: feedBinaryData_def)
  qed
qed



subsection \<open>Requests and the connection\<close>

definition ids :: "client \<Rightarrow> int set" where
  "ids c = fst ` set (pendingRequests c)"

definition conn_inv :: "client \<Rightarrow> bool" where
  "conn_inv c \<longleftrightarrow> (ws c = None \<longrightarrow> pendingRequests c = []) \<and>
     distinct (map fst (pendingRequests c)) \<and> (\<forall>i \<in> ids c. i < nextId c)"

definition conn_le :: "client \<Rightarrow> client \<Rightarrow> bool" where
  "conn_le c d \<longleftrightarrow> nextId c \<le> nextId d \<and> (\<forall>i \<in> ids d. i \<in> ids c \<or> nextId c \<le> i)"

definition conn_ok :: "client \<Rightarrow> client \<Rightarrow> bool" where
  "conn_ok c d \<longleftrightarrow> (conn_inv c \<longrightarrow> conn_inv d \<and> conn_le c d)"

definition conn_view :: "client \<Rightarrow> nat option \<times> (int \<times> purpose) list \<times> int" where
  "conn_view c = (ws c, pendingRequests c, nextId c)"

lemma conn_le_refl: "conn_le c c"
  by (simp add: conn_le_def)

lemma conn_le_trans: "conn_le c d \<Longrightarrow> conn_le d e \<Longrightarrow> conn_le c e"
  by (fastforce simp: conn_le_def)

lemma conn_ok_trans: "conn_ok c d \<Longrightarrow> conn_ok d e \<Longrightarrow> conn_ok c e"
  using conn_le_trans by (auto simp: conn_ok_def)

lemma conn_ok_same: "conn_view d = conn_view c \<Longrightarrow> conn_ok c d"
  by (auto simp: conn_ok_def conn_inv_def conn_le_def conn_view_def ids_def)

lemma conn_ok_lost: "pendingRequests d = [] \<Longrightarrow> nextId d = nextId c \<Longrightarrow> conn_ok c d"
  by (auto simp: conn_ok_def conn_inv_def conn_le_def ids_def)

text \<open>Operations that leave socket, open requests and id counter alone.\<close>

lemma conn_view_simps [simp]:
  "conn_view (emit ev c) = conn_view c"
  "conn_view (setState st c) = conn_view c"
  "conn_view (clearCapabilities c) = conn_view c"
  "conn_view (closeSocket g c) = conn_view c"
  "conn_view (settle p r c) = conn_view c"
  "conn_view (handleEvent e c) = conn_view c"
  by (simp_all add: conn_view_def emit_def setState_def clearCapabilities_def closeSocket_def
      settle_def handleEvent_def)

lemma conn_view_clearAttempt [simp]: "conn_view (clearAttempt g c) = conn_view c"
  by (simp add: clearAttempt_def Let_def conn_view_def)

lemma conn_view_updates [simp]:
  "conn_view (c\<lparr>hello := h\<rparr>) = conn_view c" "conn_view (c\<lparr>caps := k\<rparr>) = conn_view c"
  "conn_view (c\<lparr>settled := s\<rparr>) = conn_view c" "conn_view (c\<lparr>buffer := b\<rparr>) = conn_view c"
  "conn_view (c\<lparr>readyState := r\<rparr>) = conn_view c" "conn_view (c\<lparr>microtasks := m\<rparr>) = conn_view c"
  "conn_view (c\<lparr>disconnecting := x\<rparr>) = conn_view c"
  by (simp_all add: conn_view_def)

lemma conn_view_rejectConnect [simp]: "conn_view (rejectConnect g e c) = conn_view c"
  by (simp add: rejectConnect_def)

lemma conn_ok_update:
  "conn_view d = conn_view d' \<Longrightarrow> conn_ok c d' \<Longrightarrow> conn_ok c d"
  by (metis conn_ok_same conn_ok_trans)

lemma conn_lost_view: "snd (conn_view d) = ([], nextId c) \<Longrightarrow> conn_ok c d"
  by (rule conn_ok_lost) (simp_all add: conn_view_def)

lemma conn_view_rejectAllPending:
  "conn_view (rejectAllPending e c) = (ws c, [], nextId c)"
  by (simp add: rejectAllPending_def conn_view_def)

lemma nextId_simps [simp]:
  "nextId (emit ev c) = nextId c" "nextId (setState st c) = nextId c"
  "nextId (clearCapabilities c) = nextId c" "nextId (closeSocket g c) = nextId c"
  by (simp_all add: emit_def setState_def clearCapabilities_def closeSocket_def)

lemma conn_ok_failCurrentConnection: "conn_ok c (failCurrentConnection g e c)"
proof (cases "isCurrent g c")
  case True
  then show ?thesis
    by (intro conn_lost_view) (simp add: failCurrentConnection_def Let_def conn_view_rejectAllPending)
next
  case False
  then show ?thesis by (intro conn_ok_same) (simp add: failCurrentConnection_def)
qed

lemma conn_ok_onclose: "conn_ok c (onclose g c)"
proof (cases "isCurrent g c")
  case True
  then show ?thesis
    by (intro conn_lost_view) (simp add: onclose_def Let_def conn_view_rejectAllPending)
next
  case False
  then show ?thesis by (intro conn_ok_same) (simp add: onclose_def)
qed

lemma conn_view_disconnect: "snd (conn_view (disconnect c)) = ([], nextId c)"
  by (simp add: disconnect_def Let_def conn_view_rejectAllPending split: option.split)

lemma conn_ok_disconnect: "conn_ok c (disconnect c)"
  by (rule conn_lost_view [OF conn_view_disconnect])

lemma conn_ok_sendRequest: "conn_ok c (sendRequest p t payload c)"
proof (cases "canSend c")
  case True
  then have "ws c \<noteq> None" by (auto simp: canSend_def split: option.splits)
  moreover have "canSend (c\<lparr>nextId := n, pendingRequests := q\<rparr>)" for n q
    using True by (simp add: canSend_def split: option.splits)
  ultimately show ?thesis
    by (auto simp: conn_ok_def sendRequest_def Let_def emit_def conn_inv_def conn_le_def ids_def)
next
  case False
  then have "\<not> canSend (c\<lparr>nextId := n, pendingRequests := q\<rparr>)" for n q
    by (simp add: canSend_def split: option.splits)
  moreover have "filter (\<lambda>(k, _). k \<noteq> nextId c) (pendingRequests c) = pendingRequests c"
    if "conn_inv c"
    using that by (intro filter_True) (auto simp: conn_inv_def ids_def)
  ultimately show ?thesis
    by (auto simp: conn_ok_def sendRequest_def Let_def settle_def delete_pending_def conn_inv_def
        conn_le_def ids_def)
qed

lemma conn_ok_delete: "conn_ok c (delete_pending i c)"
  by (auto simp: conn_ok_def delete_pending_def conn_inv_def conn_le_def ids_def
      intro: distinct_map_filter)

lemma conn_ok_settle_delete: "conn_ok c (settle p r (delete_pending i c))"
  by (rule conn_ok_update [OF _ conn_ok_delete]) simp

lemma lookup_pending_view: "conn_view d = conn_view c \<Longrightarrow> lookup_pending i d = lookup_pending i c"
  by (simp add: lookup_pending_def conn_view_def)

lemma delete_pending_view: "conn_view d = conn_view c \<Longrightarrow> conn_view (delete_pending i d) = conn_view (delete_pending i c)"
  by (simp add: delete_pending_def conn_view_def)

lemma conn_ok_handleFrame: "conn_ok c (handleFrame f c)"
proof -
  have "conn_view (handleFrame f c) = conn_view c \<or>
      conn_view (handleFrame f c) = conn_view (delete_pending (frame_id f) c)"
    by (cases f; cases "lookup_pending (frame_id f) c")
      (auto simp: handleFrame_def Let_def lookup_pending_def delete_pending_def conn_view_def
        emit_def settle_def handleEvent_def setState_def)
  then show ?thesis
    by (metis conn_ok_same conn_ok_update conn_ok_delete)
qed

lemma conn_ok_feed_loop: "conn_ok c (fst (feed_loop c))"
proof (induction c rule: feed_loop.induct)
  case (1 c)
  have drop: "conn_ok c (c\<lparr>buffer := b\<rparr>)" for b
    by (rule conn_ok_same) simp
  have handle: "conn_ok c (handleFrame f (c\<lparr>buffer := b\<rparr>))" for f b
    by (rule conn_ok_trans [OF drop conn_ok_handleFrame])
  show ?case
  proof (cases "parseSigrokHeader (buffer c)")
    case None
    show ?thesis
    proof (cases "length (buffer c) < SIGROK_HEADER_BYTES")
      case True
      then show ?thesis by (subst feed_loop.simps) (simp add: conn_ok_same)
    next
      case False
      from conn_ok_trans [OF drop "1.IH"(1)] False None
      show ?thesis by (subst feed_loop.simps) simp
    qed
  next
    case (Some header)
    let ?n = "SIGROK_HEADER_BYTES + payloadLen header"
    show ?thesis
    proof (cases "length (buffer c) < SIGROK_HEADER_BYTES \<or> length (buffer c) < ?n")
      case True
      with Some show ?thesis by (subst feed_loop.simps) (auto simp: Let_def conn_ok_same)
    next
      case False
      then have 9: "\<not> length (buffer c) < SIGROK_HEADER_BYTES" and n: "\<not> length (buffer c) < ?n" by auto
      show ?thesis
      proof (cases "parseSigrokFrame header (take ?n (buffer c))")
        case (Inl e)
        with Some 9 n drop show ?thesis by (subst feed_loop.simps) (simp add: Let_def)
      next
        case (Inr fo)
        show ?thesis
        proof (cases fo)
          case None
          from conn_ok_trans [OF drop "1.IH"(2) [OF 9 Some refl n refl refl]] Inr None Some 9 n
          show ?thesis by (subst feed_loop.simps) (simp add: Let_def)
        next
          case (Some f)
          from conn_ok_trans [OF handle "1.IH"(3) [OF 9 \<open>parseSigrokHeader (buffer c) = Some header\<close>
              refl n refl refl]] Inr Some \<open>parseSigrokHeader (buffer c) = Some header\<close> 9 n
          show ?thesis by (subst feed_loop.simps) (simp add: Let_def)
        qed
      qed
    qed
  qed
qed

lemma conn_ok_onmessage: "conn_ok c (onmessage g data c)"
  using conn_ok_trans [OF conn_ok_same [of "c\<lparr>buffer := buffer c @ data\<rparr>" c] conn_ok_feed_loop]
  by (auto simp: onmessage_def feedBinaryData_def intro: conn_ok_same)

lemma conn_ok_onopen: "conn_ok c (onopen g c)"
  by (auto simp: onopen_def sendHello_def intro: conn_ok_same conn_ok_sendRequest)

lemma conn_ok_connect: "conn_ok c (connect ctorFails c)"
proof -
  define c0 where "c0 = (if ws c \<noteq> None \<or> connectCancellation c \<noteq> None then disconnect c else c)"
  have c0: "conn_ok c c0" and lost: "conn_inv c \<Longrightarrow> pendingRequests c0 = []"
    using conn_ok_disconnect conn_view_disconnect [of c]
    by (auto simp: c0_def conn_ok_same conn_inv_def conn_view_def)
  show ?thesis
  proof (cases "conn_inv c")
    case True
    have "conn_ok c0 (connect ctorFails c)"
      unfolding connect_def c0_def [symmetric] using lost [OF True]
      by (intro conn_ok_lost)
        (simp_all add: Let_def setState_def emit_def clearCapabilities_def)
    with c0 show ?thesis by (rule conn_ok_trans)
  qed (simp add: conn_ok_def)
qed

lemma conn_ok_requestTimeout: "conn_ok c (requestTimeout i c)"
  by (auto simp: requestTimeout_def intro: conn_ok_same conn_ok_settle_delete split: option.split)

lemma conn_ok_configure: "conn_ok c (configure config enc c)"
  by (auto simp: configure_def intro: conn_ok_same conn_ok_sendRequest split: sum.split)

lemmas conn_ok_ops = conn_ok_failCurrentConnection conn_ok_onclose conn_ok_disconnect
  conn_ok_sendRequest conn_ok_onmessage conn_ok_onopen conn_ok_connect conn_ok_requestTimeout
  conn_ok_configure

lemma conn_ok_handle: "conn_ok c (handle e c)"
  by (cases e)
    (auto simp: disconnectGracefully_def Let_def disconnectGracefully_resume_def onerror_def
      onConnectTimeout_def start_def stop_def getCaps_def
      intro: conn_ok_ops conn_ok_same conn_ok_trans [OF conn_ok_same conn_ok_onopen]
        conn_ok_trans [OF conn_ok_same conn_ok_onclose] conn_ok_trans [OF conn_ok_same conn_ok_disconnect])

lemma conn_ok_continue: "conn_ok c (continue p r c)"
proof -
  have hello: "conn_ok c (continueHello g r c)" for g
    by (auto simp: continueHello_def getCaps_def split: sum.split SigrokFrame.split
        intro: conn_ok_ops conn_ok_trans [OF conn_ok_same conn_ok_sendRequest])
  have caps: "conn_ok c (continueConnectCaps g r c)" for g
    by (auto simp: continueConnectCaps_def Let_def split: sum.split SigrokFrame.split
        intro: conn_ok_ops conn_ok_same)
  have call: "conn_ok c (continueCall q r c)" for q
    by (auto simp: continueCall_def split: sum.split SigrokFrame.split purpose.split
        intro: conn_ok_same)
  show ?thesis
    by (cases p) (simp_all add: continue_def hello caps call)
qed

lemma conn_ok_drain: "conn_ok c (drain c)"
proof (induction c rule: drain.induct)
  case (1 c)
  show ?case
  proof (cases "microtasks c")
    case Nil
    then show ?thesis by (simp add: drain.simps [of c] conn_ok_same)
  next
    case (Cons t rest)
    obtain p r where t: "t = (p, r)" by (cases t)
    have "conn_ok c (continue p r (c\<lparr>microtasks := rest\<rparr>))"
      by (rule conn_ok_trans [OF conn_ok_same conn_ok_continue]) simp
    with "1.IH" [OF Cons t [symmetric]] Cons t show ?thesis
      by (simp add: drain.simps [of c] conn_ok_trans)
  qed
qed

lemma conn_ok_step: "conn_ok c (client_step c e)"
  unfolding client_step_def by (rule conn_ok_trans [OF conn_ok_handle conn_ok_drain])

interpretation client_machine: guarded_machine client_step conn_inv conn_le
  by unfold_locales
    (use conn_ok_step in \<open>auto simp: conn_ok_def intro: conn_le_refl conn_le_trans\<close>)

lemma conn_inv_init: "conn_inv init_client"
  by (simp add: conn_inv_def init_client_def ids_def)

text \<open>
  C1: No request is orphaned. After any sequence of calls, socket events and timeouts, a
  client without a socket has no open request, the ids of the open requests are distinct,
  and each of them was handed out before (it is below the id counter).
\<close>

theorem no_orphaned_requests:
  "let c = foldl client_step init_client es
   in (ws c = None \<longrightarrow> pendingRequests c = []) \<and> distinct (map fst (pendingRequests c)) \<and>
      (\<forall>i \<in> ids c. i < nextId c)"
  using client_machine.inv_run [OF conn_inv_init, of es] by (simp add: conn_inv_def Let_def)

theorem no_orphaned_requests_witness:
  "let c = foldl client_step init_client [ConnectE False, OpenE 1]
   in map fst (pendingRequests c) = [1] \<and> 1 < nextId c"
proof -
  have open1: "map fst (pendingRequests (foldl client_step init_client [ConnectE False, OpenE 1])) = [1]"
    by code_simp
  then have "1 \<in> ids (foldl client_step init_client [ConnectE False, OpenE 1])"
    by (metis ids_def list.set_intros(1) list.set_map)
  with open1 no_orphaned_requests [of "[ConnectE False, OpenE 1]"] show ?thesis
    by (simp only: Let_def)
qed

text \<open>
  A settled request is never open again. Once an id that was handed out is no longer
  open, no later call, event or timeout makes it open again, so no request is answered or
  rejected twice.
\<close>

lemma settled_requests_stay_settled:
  assumes "c = foldl client_step init_client es" "i < nextId c" "i \<notin> ids c"
  shows "i \<notin> ids (foldl client_step c es')"
proof -
  have "conn_inv c" using client_machine.inv_run [OF conn_inv_init, of es] assms(1) by simp
  then have "conn_le c (foldl client_step c es')" by (rule client_machine.le_run)
  with assms show ?thesis by (auto simp: conn_le_def)
qed

lemma settled_requests_stay_settled_witness:
  "1 \<notin> ids (foldl client_step (foldl client_step init_client
     [ConnectE False, OpenE 1, RequestTimeoutE 1]) [ConnectE False, OpenE 3, StartE])"
  by (rule settled_requests_stay_settled [OF refl]) code_simp+

text \<open>
  \<open>disconnect\<close> leaves nothing behind: the socket is dropped, the buffer and the
  capabilities are cleared, every open request is rejected with the disconnect error, a
  connection attempt under way is rejected, and the state is disconnected.
\<close>

lemma disconnect_clears_everything:
  "let d = disconnect c
   in cstate d = Disconnected \<and> ws d = None \<and> buffer d = [] \<and> hello d = None \<and> caps d = None \<and>
      connectTimeout d = None \<and> connectCancellation d = None \<and> pendingRequests d = [] \<and>
      microtasks d = microtasks c @ map (\<lambda>(_, p). (p, Inl ClientDisconnected)) (pendingRequests c) \<and>
      connectionGeneration d = connectionGeneration c + 1 \<and>
      (case connectCancellation c of None \<Rightarrow> True
       | Some g \<Rightarrow> settled d g \<and>
           (settled c g \<or> log d = log (rejectAllPending ClientDisconnected c) @
              (case ws c of None \<Rightarrow> []
               | Some w \<Rightarrow> if readyState c w \<in> {CONNECTING, OPEN} then [SocketClosed w] else []) @
              [StateEvent Disconnected, ConnectRejected g ClientDisconnected]))"
  by (simp add: disconnect_def Let_def rejectAllPending_def setState_def emit_def
      clearCapabilities_def closeSocket_def socketLive_def rejectConnect_def clearAttempt_def
      split: option.split)

subsection \<open>Stale sockets\<close>

definition gen_inv :: "client \<Rightarrow> bool" where
  "gen_inv c \<longleftrightarrow> ws c = None \<or> ws c = Some (connectionGeneration c)"

definition gen_le :: "client \<Rightarrow> client \<Rightarrow> bool" where
  "gen_le c d \<longleftrightarrow> connectionGeneration c \<le> connectionGeneration d \<and>
     (\<forall>g. ws d = Some g \<longrightarrow> ws c = Some g \<or> connectionGeneration c < g)"

definition gen_ok :: "client \<Rightarrow> client \<Rightarrow> bool" where
  "gen_ok c d \<longleftrightarrow> (gen_inv c \<longrightarrow> gen_inv d \<and> gen_le c d)"

definition gen_view :: "client \<Rightarrow> nat option \<times> nat" where
  "gen_view c = (ws c, connectionGeneration c)"

lemma gen_le_refl: "gen_le c c"
  by (simp add: gen_le_def)

lemma gen_le_trans: "gen_le c d \<Longrightarrow> gen_le d e \<Longrightarrow> gen_le c e"
  by (fastforce simp: gen_le_def)

lemma gen_ok_trans: "gen_ok c d \<Longrightarrow> gen_ok d e \<Longrightarrow> gen_ok c e"
  using gen_le_trans by (auto simp: gen_ok_def)

lemma gen_ok_same: "gen_view d = gen_view c \<Longrightarrow> gen_ok c d"
  by (auto simp: gen_ok_def gen_inv_def gen_le_def gen_view_def)

lemma gen_ok_lost: "gen_view d = (None, connectionGeneration c + 1) \<Longrightarrow> gen_ok c d"
  by (auto simp: gen_ok_def gen_inv_def gen_le_def gen_view_def)

lemma gen_view_simps [simp]:
  "gen_view (emit ev c) = gen_view c"
  "gen_view (setState st c) = gen_view c"
  "gen_view (clearCapabilities c) = gen_view c"
  "gen_view (closeSocket g c) = gen_view c"
  "gen_view (settle p r c) = gen_view c"
  "gen_view (handleEvent e c) = gen_view c"
  "gen_view (rejectAllPending err c) = gen_view c"
  "gen_view (delete_pending i c) = gen_view c"
  by (simp_all add: gen_view_def emit_def setState_def clearCapabilities_def closeSocket_def
      settle_def handleEvent_def rejectAllPending_def delete_pending_def)

lemma gen_view_updates [simp]:
  "gen_view (c\<lparr>hello := h\<rparr>) = gen_view c" "gen_view (c\<lparr>caps := k\<rparr>) = gen_view c"
  "gen_view (c\<lparr>settled := s\<rparr>) = gen_view c" "gen_view (c\<lparr>buffer := b\<rparr>) = gen_view c"
  "gen_view (c\<lparr>readyState := r\<rparr>) = gen_view c" "gen_view (c\<lparr>microtasks := m\<rparr>) = gen_view c"
  "gen_view (c\<lparr>disconnecting := x\<rparr>) = gen_view c" "gen_view (c\<lparr>nextId := n\<rparr>) = gen_view c"
  "gen_view (c\<lparr>pendingRequests := q\<rparr>) = gen_view c"
  by (simp_all add: gen_view_def)

lemma gen_view_clearAttempt [simp]: "gen_view (clearAttempt g c) = gen_view c"
  by (simp add: clearAttempt_def Let_def gen_view_def)

lemma gen_view_rejectConnect [simp]: "gen_view (rejectConnect g e c) = gen_view c"
  by (simp add: rejectConnect_def)

lemma gen_view_sendRequest [simp]: "gen_view (sendRequest p t payload c) = gen_view c"
  by (simp add: sendRequest_def Let_def)

lemma gen_view_handleFrame [simp]: "gen_view (handleFrame f c) = gen_view c"
  by (simp add: handleFrame_def Let_def split: SigrokFrame.split option.split)

lemma gen_view_feed_loop [simp]: "gen_view (fst (feed_loop c)) = gen_view c"
  by (induction c rule: feed_loop.induct)
    (subst feed_loop.simps, auto simp: Let_def split: option.splits sum.splits)

lemma gen_view_onmessage [simp]: "gen_view (onmessage g data c) = gen_view c"
  by (simp add: onmessage_def feedBinaryData_def)

lemma gen_ok_failCurrentConnection: "gen_ok c (failCurrentConnection g e c)"
proof (cases "isCurrent g c")
  case True
  then show ?thesis
    by (intro gen_ok_lost) (simp add: failCurrentConnection_def Let_def, simp add: gen_view_def)
next
  case False
  then show ?thesis by (intro gen_ok_same) (simp add: failCurrentConnection_def)
qed

lemma gen_ok_onclose: "gen_ok c (onclose g c)"
proof (cases "isCurrent g c")
  case True
  then show ?thesis
    by (intro gen_ok_lost) (simp add: onclose_def Let_def, simp add: gen_view_def)
next
  case False
  then show ?thesis by (intro gen_ok_same) (simp add: onclose_def)
qed

lemma gen_view_disconnect: "gen_view (disconnect c) = (None, connectionGeneration c + 1)"
  by (simp add: disconnect_def Let_def split: option.split)
    (simp add: gen_view_def)

lemma gen_ok_disconnect: "gen_ok c (disconnect c)"
  by (rule gen_ok_lost [OF gen_view_disconnect])

lemma gen_ok_connect: "gen_ok c (connect ctorFails c)"
proof -
  define c0 where "c0 = (if ws c \<noteq> None \<or> connectCancellation c \<noteq> None then disconnect c else c)"
  have c0: "gen_ok c c0" and lost: "ws c0 = None"
    using gen_ok_disconnect gen_view_disconnect [of c] by (auto simp: c0_def gen_ok_same gen_view_def)
  have "gen_ok c0 (connect ctorFails c)"
    unfolding connect_def c0_def [symmetric] using lost
    by (auto simp: Let_def setState_def emit_def clearCapabilities_def gen_ok_def gen_inv_def gen_le_def)
  with c0 show ?thesis by (rule gen_ok_trans)
qed

lemma gen_view_onopen: "isCurrent g c \<Longrightarrow> gen_view (onopen g c) = gen_view c"
  by (simp add: onopen_def sendHello_def)

lemma gen_ok_onopen: "gen_ok c (onopen g c)"
  by (rule gen_ok_same) (simp add: onopen_def sendHello_def)

lemma gen_ok_readyState:
  "gen_ok (c\<lparr>readyState := r\<rparr>) d \<Longrightarrow> gen_ok c d"
  by (rule gen_ok_trans [OF gen_ok_same]) simp_all

lemma gen_ok_disconnecting:
  "gen_ok (c\<lparr>disconnecting := r\<rparr>) d \<Longrightarrow> gen_ok c d"
  by (rule gen_ok_trans [OF gen_ok_same]) simp_all

lemmas gen_ok_ops = gen_ok_failCurrentConnection gen_ok_onclose gen_ok_disconnect
  gen_ok_connect gen_ok_onopen

lemma gen_ok_handle: "gen_ok c (handle e c)"
  by (cases e)
    (auto simp: disconnectGracefully_def Let_def disconnectGracefully_resume_def onerror_def
      onConnectTimeout_def start_def stop_def getCaps_def requestTimeout_def configure_def
      split: option.split sum.split
      intro: gen_ok_ops gen_ok_same gen_ok_readyState [OF gen_ok_onopen]
        gen_ok_readyState [OF gen_ok_onclose] gen_ok_disconnecting [OF gen_ok_disconnect])

lemma gen_ok_continue: "gen_ok c (continue p r c)"
proof -
  have hello: "gen_ok c (continueHello g r c)" for g
    by (auto simp: continueHello_def getCaps_def split: sum.split SigrokFrame.split
        intro: gen_ok_ops gen_ok_same)
  have caps: "gen_ok c (continueConnectCaps g r c)" for g
    by (auto simp: continueConnectCaps_def Let_def split: sum.split SigrokFrame.split
        intro: gen_ok_ops gen_ok_same)
  have call: "gen_ok c (continueCall q r c)" for q
    by (auto simp: continueCall_def split: sum.split SigrokFrame.split purpose.split
        intro: gen_ok_same)
  show ?thesis
    by (cases p) (simp_all add: continue_def hello caps call)
qed

lemma gen_ok_drain: "gen_ok c (drain c)"
proof (induction c rule: drain.induct)
  case (1 c)
  show ?case
  proof (cases "microtasks c")
    case Nil
    then show ?thesis by (simp add: drain.simps [of c] gen_ok_same)
  next
    case (Cons t rest)
    obtain p r where t: "t = (p, r)" by (cases t)
    have "gen_ok c (continue p r (c\<lparr>microtasks := rest\<rparr>))"
      by (rule gen_ok_trans [OF gen_ok_same gen_ok_continue]) simp
    with "1.IH" [OF Cons t [symmetric]] Cons t show ?thesis
      by (simp add: drain.simps [of c] gen_ok_trans)
  qed
qed

lemma gen_ok_step: "gen_ok c (client_step c e)"
  unfolding client_step_def by (rule gen_ok_trans [OF gen_ok_handle gen_ok_drain])

interpretation client_generations: guarded_machine client_step gen_inv gen_le
  by unfold_locales
    (use gen_ok_step in \<open>auto simp: gen_ok_def intro: gen_le_refl gen_le_trans\<close>)

lemma gen_inv_init: "gen_inv init_client"
  by (simp add: gen_inv_def init_client_def)

lemma microtasks_step: "microtasks (drain c) = []"
  by (induction c rule: drain.induct) (subst drain.simps, auto split: list.split)

text \<open>
  C26: A replaced socket stays dead. Once attempt \<open>g\<close>'s socket is not the client's current
  one, then after any further calls and events its messages and its close event change
  nothing, whatever bytes arrive: late data of an old connection cannot reach the new one.
\<close>

theorem stale_socket_is_inert:
  assumes "c = foldl client_step init_client es" "g \<le> connectionGeneration c" "ws c \<noteq> Some g"
    and d: "d = foldl client_step c es'"
  shows "onmessage g data d = d \<and> onclose g d = d"
proof -
  have "gen_inv c" using client_generations.inv_run [OF gen_inv_init, of es] assms(1) by simp
  then have "gen_le c d" unfolding d by (rule client_generations.le_run)
  with assms have "\<not> isCurrent g d" by (auto simp: gen_le_def isCurrent_def)
  then show ?thesis by (simp add: onmessage_def onclose_def)
qed

theorem stale_socket_is_inert_witness:
  "let d = foldl client_step (foldl client_step init_client
     [ConnectE False, OpenE 1, ConnectE False]) [OpenE 3]
   in onmessage 1 [0xff, 0x72, 2] d = d \<and> ws d = Some 3"
proof -
  have "ws (foldl client_step (foldl client_step init_client
     [ConnectE False, OpenE 1, ConnectE False]) [OpenE 3]) = Some 3"
    by code_simp
  moreover have "1 \<le> connectionGeneration (foldl client_step init_client
     [ConnectE False, OpenE 1, ConnectE False])" by code_simp
  moreover have "ws (foldl client_step init_client
     [ConnectE False, OpenE 1, ConnectE False]) \<noteq> Some 1" by code_simp
  ultimately show ?thesis
    using stale_socket_is_inert [of _ "[ConnectE False, OpenE 1, ConnectE False]" 1 _ "[OpenE 3]"
      "[0xff, 0x72, 2]", OF refl _ _ refl]
    by (simp only: Let_def) blast
qed

end
