(* ===== verification/Serial_Task.thy ===== *)
theory Serial_Task
  imports Linkr_Prelude
begin

text \<open>
  Commands over a serial console (\<open>web/src/lib/serialTask.ts\<close>) and the automation lock
  (\<open>automationTask.ts\<close>): removal of terminal control sequences, login prompts, the envelope
  that reports a command's exit status under a marker, and reading that status back. The
  search for a raw match end of \<open>testRunner.ts\<close> is here too, because it walks the same
  text. Strings are Latin-1, so U+FFFD does not occur and its removal is the identity.
\<close>

subsection \<open>Terminal control\<close>

definition ESC :: char where "ESC = CHR 0x1B"

text \<open>\<open>/^\x1b\[[0-?]*[ -/]*[@-~]/\<close>: the text after the match. The two repeated classes are
  disjoint from each other and from the last one, so the longest match is the only one.\<close>

definition ansi_match :: "string \<Rightarrow> string option" where
  "ansi_match text =
     (case text of
        c # d # rest \<Rightarrow>
          if c = ESC \<and> d = CHR ''['' then
            (case dropWhile (\<lambda>x. code x \<in> {0x20..0x2f}) (dropWhile (\<lambda>x. code x \<in> {0x30..0x3f}) rest) of
               f # after \<Rightarrow> if code f \<in> {0x40..0x7e} then Some after else None
             | [] \<Rightarrow> None)
          else None
      | _ \<Rightarrow> None)"

lemma ansi_match_length: "ansi_match s = Some r \<Longrightarrow> length r + 3 \<le> length s"
proof -
  assume m: "ansi_match s = Some r"
  then obtain c d rest where s: "s = c # d # rest" by (auto simp: ansi_match_def split: list.splits)
  let ?a = "dropWhile (\<lambda>x. code x \<in> {0x30..0x3f}) rest"
  let ?b = "dropWhile (\<lambda>x. code x \<in> {0x20..0x2f}) ?a"
  have "length ?b \<le> length ?a" "length ?a \<le> length rest" by (rule length_dropWhile_le)+
  moreover have "\<exists>f. ?b = f # r"
    using m s by (auto simp: ansi_match_def split: list.splits if_splits)
  ultimately show ?thesis using s by auto
qed

function strip_ansi :: "string \<Rightarrow> string" where
  "strip_ansi text =
     (case ansi_match text of
        Some after \<Rightarrow> strip_ansi after
      | None \<Rightarrow> (case text of [] \<Rightarrow> [] | c # cs \<Rightarrow> c # strip_ansi cs))"
  by pat_completeness auto
termination
  by (relation "measure length") (auto dest: ansi_match_length)

declare strip_ansi.simps [simp del]

definition is_control :: "char \<Rightarrow> bool" where
  "is_control c \<longleftrightarrow> code c \<le> 0x08 \<or> code c = 0x0b \<or> code c = 0x0c \<or>
     0x0e \<le> code c \<and> code c \<le> 0x1f \<or> code c = 0x7f"

definition stripTerminalControl :: "string \<Rightarrow> string" where
  "stripTerminalControl text = filter (\<lambda>c. \<not> is_control c) (strip_ansi text)"

text \<open>The clean characters with the raw index after each.\<close>

function raw_scan :: "nat \<Rightarrow> string \<Rightarrow> (char \<times> nat) list" where
  "raw_scan index text =
     (case ansi_match text of
        Some after \<Rightarrow> raw_scan (index + (length text - length after)) after
      | None \<Rightarrow>
          (case text of [] \<Rightarrow> []
           | c # cs \<Rightarrow> if is_control c then raw_scan (index + 1) cs
               else (c, index + 1) # raw_scan (index + 1) cs))"
  by pat_completeness auto
termination
  by (relation "measure (length \<circ> snd)") (auto dest: ansi_match_length)

declare raw_scan.simps [simp del]

text \<open>\<open>regex\<close> gives the end of the first match in a text.\<close>

definition rawPatternMatchEnd :: "string \<Rightarrow> (string \<Rightarrow> nat option) \<Rightarrow> nat option" where
  "rawPatternMatchEnd text regex =
     (let scan = raw_scan 0 text; clean = map fst scan; rawEnds = map snd scan
      in case regex clean of None \<Rightarrow> None
         | Some cleanEnd \<Rightarrow>
             if cleanEnd = 0 then Some 0
             else (case nth_opt rawEnds (cleanEnd - 1) of Some e \<Rightarrow> Some e | None \<Rightarrow> Some (length text)))"

subsection \<open>Login prompts\<close>

definition newline :: "char \<Rightarrow> bool" where
  "newline c \<longleftrightarrow> code c = 10 \<or> code c = 13"

definition lower :: "char \<Rightarrow> char" where
  "lower c = (if 65 \<le> code c \<and> code c \<le> 90 then char_of (code c + 32) else c)"

definition starts_with :: "string \<Rightarrow> string \<Rightarrow> bool" where
  "starts_with p s \<longleftrightarrow> take (length p) s = p"

text \<open>\<open>\s*(?=[\r\n]|$)\<close>: blanks up to the end of a line.\<close>

definition ends_line :: "string \<Rightarrow> bool" where
  "ends_line s \<longleftrightarrow>
     (case dropWhile (\<lambda>c. js_space c \<and> \<not> newline c) s of [] \<Rightarrow> True | c # _ \<Rightarrow> newline c)"

fun any_suffix :: "(string \<Rightarrow> bool) \<Rightarrow> string \<Rightarrow> bool" where
  "any_suffix P [] = P []"
| "any_suffix P (c # cs) = (P (c # cs) \<or> any_suffix P cs)"

definition word_prompt :: "string list \<Rightarrow> string \<Rightarrow> bool" where
  "word_prompt words text =
     any_suffix (\<lambda>s. list_ex (\<lambda>w. starts_with w (map lower s) \<and> ends_line (drop (length w) s)) words) text"

definition LOGIN_PROMPT :: "string \<Rightarrow> bool" where
  "LOGIN_PROMPT = word_prompt [''login:'', ''username:'']"

definition PASSWORD_PROMPT :: "string \<Rightarrow> bool" where
  "PASSWORD_PROMPT = word_prompt [''password:'']"

definition SHELL_PROMPT :: "string \<Rightarrow> bool" where
  "SHELL_PROMPT = any_suffix (\<lambda>s. case s of [] \<Rightarrow> False
     | c # cs \<Rightarrow> (c = CHR ''#'' \<or> c = CHR ''$'') \<and> ends_line cs)"

datatype SerialLoginState = Waiting | UsernameSent | PasswordSent | CommandRunning | Passed | Failed

datatype SerialLoginAction = SendUsername | SendPassword | RunCommand

definition nextSerialLoginAction :: "string \<Rightarrow> SerialLoginState \<Rightarrow> SerialLoginAction option" where
  "nextSerialLoginAction text state =
     (let clean = stripTerminalControl text
      in if state = Waiting \<and> SHELL_PROMPT clean then Some RunCommand
         else if state = Waiting \<and> LOGIN_PROMPT clean then Some SendUsername
         else if state = UsernameSent \<and> SHELL_PROMPT clean then Some RunCommand
         else if state = UsernameSent \<and> PASSWORD_PROMPT clean then Some SendPassword
         else if state = PasswordSent \<and> SHELL_PROMPT clean then Some RunCommand
         else None)"

subsection \<open>Commands and their completion\<close>

definition commandMarker :: "nat \<Rightarrow> string" where
  "commandMarker runId = ''__LINKR_TASK_'' @ string_of_nat runId @ ''__''"

fun join :: "string \<Rightarrow> string list \<Rightarrow> string" where
  "join sep [] = []"
| "join sep [x] = x"
| "join sep (x # y # xs) = x @ sep @ join sep (y # xs)"

definition CRLF :: string where
  "CRLF = [CHR 0x0D, CHR 0x0A]"

definition QUOTE :: string where "QUOTE = [CHR 0x27]"

definition BACKSLASH_n :: string where "BACKSLASH_n = [CHR 0x5C, CHR ''n'']"

definition commandEnvelope :: "string \<Rightarrow> string \<Rightarrow> string \<Rightarrow> string" where
  "commandEnvelope command marker lineEnding =
     join lineEnding
       [js_trim command,
        ''__linkr_task_status=$?'',
        ''printf '' @ QUOTE @ BACKSLASH_n @ marker @ '':%s'' @ BACKSLASH_n @ QUOTE @
          [CHR '' '', CHR 0x22] @ ''$__linkr_task_status'' @ [CHR 0x22],
        []]"

record SerialCommandCompletion =
  exitCode :: int
  completionOutput :: string

text \<open>\<open>^marker:(-?\d+)\<close>, the value of the number.\<close>

definition match_status :: "string \<Rightarrow> string \<Rightarrow> int option" where
  "match_status marker s =
     (if \<not> starts_with (marker @ '':'') s then None
      else let r = drop (length marker + 1) s;
               neg = (case r of c # _ \<Rightarrow> c = CHR ''-'' | [] \<Rightarrow> False);
               ds = takeWhile is_digit (if neg then drop 1 r else r)
           in if ds = [] then None
              else Some (if neg then - int (digits_value ds) else int (digits_value ds)))"

text \<open>The first match: the text before it and its value.\<close>

fun find_status :: "string \<Rightarrow> string \<Rightarrow> (string \<times> int) option" where
  "find_status marker [] = None"
| "find_status marker (c # cs) =
     (case match_status marker (c # cs) of
        Some n \<Rightarrow> Some ([], n)
      | None \<Rightarrow> map_option (\<lambda>(pre, n). (c # pre, n)) (find_status marker cs))"

definition parseCommandCompletion :: "string \<Rightarrow> string \<Rightarrow> SerialCommandCompletion option" where
  "parseCommandCompletion text marker =
     (case find_status marker (stripTerminalControl text) of
        None \<Rightarrow> None
      | Some (pre, n) \<Rightarrow> Some \<lparr>exitCode = n, completionOutput = js_trim pre\<rparr>)"

subsection \<open>The automation lock\<close>

datatype AutomationTaskOwner = OwnerStartup | OwnerTest | OwnerTask | OwnerPower | OwnerPersistent
  | OwnerOta | OwnerBoot

type_synonym lock = "AutomationTaskOwner option"

definition acquire :: "AutomationTaskOwner \<Rightarrow> lock \<Rightarrow> bool \<times> lock" where
  "acquire owner currentOwner =
     (if currentOwner \<noteq> None then (False, currentOwner) else (True, Some owner))"

definition release :: "AutomationTaskOwner \<Rightarrow> lock \<Rightarrow> lock" where
  "release owner currentOwner = (if currentOwner = Some owner then None else currentOwner)"

subsection \<open>Both walks see the same text\<close>

lemma raw_scan_clean: "map fst (raw_scan index s) = stripTerminalControl s"
proof (induction index s rule: raw_scan.induct)
  case (1 index s)
  show ?case
  proof (cases "ansi_match s")
    case None
    show ?thesis
    proof (cases s)
      case Nil
      with None show ?thesis
        by (subst raw_scan.simps) (simp add: stripTerminalControl_def strip_ansi.simps [of "[]"])
    next
      case (Cons c cs)
      from "1.IH"(1) [OF None Cons] "1.IH"(2) [OF None Cons] None Cons show ?thesis
        by (subst raw_scan.simps) (simp add: stripTerminalControl_def strip_ansi.simps [of "c # cs"])
    qed
  next
    case (Some rest)
    with "1.IH"(3) show ?thesis
      by (subst raw_scan.simps) (simp add: stripTerminalControl_def strip_ansi.simps [of s])
  qed
qed

definition ends_ok :: "nat \<Rightarrow> nat \<Rightarrow> nat list \<Rightarrow> bool" where
  "ends_ok lo hi es \<longleftrightarrow> sorted_wrt (<) es \<and> (\<forall>e \<in> set es. lo < e \<and> e \<le> hi)"

lemma ends_ok_weaken: "ends_ok lo hi es \<Longrightarrow> lo' \<le> lo \<Longrightarrow> ends_ok lo' hi es"
  by (fastforce simp: ends_ok_def)

lemma ends_ok_Cons: "ends_ok (lo + 1) hi es \<Longrightarrow> lo < hi \<Longrightarrow> ends_ok lo hi ((lo + 1) # es)"
  by (fastforce simp: ends_ok_def)

lemma raw_scan_ends: "ends_ok index (index + length s) (map snd (raw_scan index s))"
proof (induction index s rule: raw_scan.induct)
  case (1 index s)
  show ?case
  proof (cases "ansi_match s")
    case None
    show ?thesis
    proof (cases s)
      case Nil
      with None show ?thesis by (subst raw_scan.simps) (simp add: ends_ok_def)
    next
      case (Cons c cs)
      note IH = "1.IH"(1) [OF None Cons] "1.IH"(2) [OF None Cons]
      show ?thesis
      proof (cases "is_control c")
        case True
        with IH(1) None Cons show ?thesis
          by (subst raw_scan.simps) (simp add: ends_ok_weaken)
      next
        case False
        with IH(2) None Cons ends_ok_Cons [of index "index + length s"] show ?thesis
          by (subst raw_scan.simps) simp
      qed
    qed
  next
    case (Some rest)
    with "1.IH"(3) ansi_match_length [OF Some] show ?thesis
      by (subst raw_scan.simps) (simp add: ends_ok_weaken)
  qed
qed

lemma raw_match_end_le: "rawPatternMatchEnd text regex = Some e \<Longrightarrow> e \<le> length text"
proof -
  have "e \<le> length text" if "nth_opt (map snd (raw_scan 0 text)) i = Some e" for i e
    using raw_scan_ends [of 0 "text"] that nth_mem [of i "map snd (raw_scan 0 text)"]
    unfolding ends_ok_def nth_opt_eq_Some_iff by fastforce
  then show "rawPatternMatchEnd text regex = Some e \<Longrightarrow> e \<le> length text"
    by (auto simp: rawPatternMatchEnd_def Let_def split: option.splits if_splits)
qed

text \<open>
  The raw position of a match is a position of the raw text. The text a serial wait
  searches is the terminal-clean text that command completion is read from, whatever control
  sequences are mixed in, and the reported end never lies beyond the received text, so the
  part of the buffer marked as consumed exists.
\<close>

lemma raw_match_end_in_text:
  "rawPatternMatchEnd text regex =
     (case regex (stripTerminalControl text) of None \<Rightarrow> None
      | Some cleanEnd \<Rightarrow>
          if cleanEnd = 0 then Some 0
          else case nth_opt (map snd (raw_scan 0 text)) (cleanEnd - 1) of Some e \<Rightarrow> Some e
            | None \<Rightarrow> Some (length text)) \<and>
   (case rawPatternMatchEnd text regex of None \<Rightarrow> True | Some e \<Rightarrow> e \<le> length text)"
  using raw_match_end_le [of "text" regex]
  by (auto simp: rawPatternMatchEnd_def Let_def raw_scan_clean split: option.splits)

subsection \<open>Reading a status back\<close>

lemma newline_not_class:
  "newline c \<Longrightarrow> \<not> (0x20 \<le> code c)"
  by (auto simp: newline_def)

lemma dropWhile_newline:
  "newline nl \<Longrightarrow> (\<And>c. P c \<Longrightarrow> 0x20 \<le> code c) \<Longrightarrow> dropWhile P (s @ nl # r) = dropWhile P s @ nl # r"
  by (induction s) (auto dest: newline_not_class)

lemma takeWhile_newline:
  "newline nl \<Longrightarrow> (\<And>c. P c \<Longrightarrow> 0x20 \<le> code c) \<Longrightarrow> takeWhile P (s @ nl # r) = takeWhile P s"
  by (induction s) (auto dest: newline_not_class)

lemma ansi_match_newline:
  assumes "newline nl"
  shows "ansi_match (s @ nl # r) = map_option (\<lambda>a. a @ nl # r) (ansi_match s)"
proof -
  have nl: "nl \<noteq> ESC" "nl \<noteq> CHR ''[''" "\<not> (0x40 \<le> code nl)"
    using assms newline_not_class [OF assms] by (auto simp: newline_def ESC_def code_def)
  consider "s = []" | c where "s = [c]" | c d rest where "s = c # d # rest"
    by (cases s; cases "tl s") auto
  then show ?thesis
  proof cases
    case 1
    with nl show ?thesis by (cases r) (simp_all add: ansi_match_def)
  next
    case 2
    with nl show ?thesis by (simp add: ansi_match_def)
  next
    case (3 c d rest)
    let ?d = "\<lambda>x. dropWhile (\<lambda>x. code x \<in> {0x20..0x2f}) (dropWhile (\<lambda>x. code x \<in> {0x30..0x3f}) x)"
    have d: "dropWhile (\<lambda>x. code x \<in> {a..b}) (s @ nl # r) = dropWhile (\<lambda>x. code x \<in> {a..b}) s @ nl # r"
      if "0x20 \<le> a" for s a b
      by (rule dropWhile_newline [OF assms]) (use that in simp)
    have "?d (rest @ nl # r) = ?d rest @ nl # r" by (simp only: d [of "0x30"] d [of "0x20"])
    moreover have "(case x @ nl # r of f # after \<Rightarrow> if code f \<in> {0x40..0x7e} then Some after else None
          | [] \<Rightarrow> None) =
        map_option (\<lambda>a. a @ nl # r)
          (case x of f # after \<Rightarrow> if code f \<in> {0x40..0x7e} then Some after else None | [] \<Rightarrow> None)" for x
      using nl by (cases x) simp_all
    ultimately show ?thesis
      unfolding ansi_match_def 3 append_Cons list.case by (simp only: if_distrib [of "map_option _"] option.map)
  qed
qed

lemma strip_ansi_newline:
  assumes "newline nl"
  shows "strip_ansi (s @ nl # r) = strip_ansi s @ nl # strip_ansi r"
proof (induction s rule: strip_ansi.induct)
  case (1 s)
  show ?case
  proof (cases "ansi_match s")
    case None
    show ?thesis
    proof (cases s)
      case Nil
      have "ansi_match (nl # r) = None" using ansi_match_newline [OF assms, of "[]" r] by (simp add: ansi_match_def)
      with Nil show ?thesis
        by (simp add: strip_ansi.simps [of "nl # r"] strip_ansi.simps [of "[]"] ansi_match_def)
    next
      case (Cons c cs)
      with None "1.IH"(1) [OF None Cons] ansi_match_newline [OF assms, of s r] show ?thesis
        by (subst (1 2) strip_ansi.simps) simp
    qed
  next
    case (Some after)
    with "1.IH"(2) ansi_match_newline [OF assms, of s r] show ?thesis
      by (subst (1 2) strip_ansi.simps) simp
  qed
qed

lemma newline_not_control: "newline c \<Longrightarrow> \<not> is_control c"
  by (auto simp: newline_def is_control_def)

lemma strip_newline:
  "newline nl \<Longrightarrow> stripTerminalControl (s @ nl # r) = stripTerminalControl s @ nl # stripTerminalControl r"
  by (simp add: stripTerminalControl_def strip_ansi_newline newline_not_control)

definition printable :: "char \<Rightarrow> bool" where
  "printable c \<longleftrightarrow> 0x20 \<le> code c \<and> code c < 0x7f"

lemma code_escape [simp]: "code (CHR 0x1B) = 27"
  by (simp add: code_def)

lemma ansi_match_printable: "printable c \<Longrightarrow> ansi_match (c # cs) = None"
  by (auto simp: ansi_match_def printable_def ESC_def split: list.split)

lemma strip_printable:
  "list_all printable ps \<Longrightarrow> stripTerminalControl (ps @ r) = ps @ stripTerminalControl r"
proof (induction ps)
  case (Cons c cs)
  then show ?case
    by (simp add: stripTerminalControl_def strip_ansi.simps [of "c # cs @ r"] ansi_match_printable
        is_control_def printable_def)
qed simp

lemma strip_Nil [simp]: "stripTerminalControl [] = []"
  by (simp add: stripTerminalControl_def strip_ansi.simps [of "[]"] ansi_match_def)

lemma starts_with_newline:
  assumes "nl \<notin> set p"
  shows "starts_with p (x @ nl # r) = starts_with p x"
proof (cases "length p \<le> length x")
  case False
  then have "nl \<in> set (take (length p) (x @ nl # r))"
    by (simp add: take_Cons')
  with assms have "take (length p) (x @ nl # r) \<noteq> p" by metis
  moreover have "take (length p) x \<noteq> p" using False by auto
  ultimately show ?thesis by (simp add: starts_with_def)
qed (simp add: starts_with_def)

lemma starts_with_iff: "starts_with p x \<longleftrightarrow> (\<exists>y. x = p @ y)"
  by (metis append_eq_conv_conj starts_with_def append_take_drop_id)

lemma match_status_newline:
  assumes "newline nl" "\<forall>c \<in> set m. \<not> newline c"
  shows "match_status m (x @ nl # r) = match_status m x"
proof (cases "starts_with (m @ '':'') x")
  case True
  then obtain y where x: "x = m @ '':'' @ y" by (auto simp: starts_with_iff)
  have digits: "takeWhile is_digit (z @ nl # r) = takeWhile is_digit z" for z
    by (rule takeWhile_newline [OF assms(1)]) (simp add: is_digit_def)
  have "nl \<noteq> CHR ''-''" using assms(1) by (auto simp: newline_def code_def)
  then show ?thesis
    using True assms x digits digits [of "[]"]
    by (cases y) (simp_all add: match_status_def starts_with_iff Let_def)
next
  case False
  moreover have "nl \<notin> set (m @ '':'')" using assms by (auto simp: newline_def code_def)
  ultimately show ?thesis by (simp add: match_status_def starts_with_newline)
qed

lemma match_status_Nil [simp]: "match_status m [] = None"
  by (simp add: match_status_def starts_with_def)

lemma find_status_newline:
  assumes "newline nl" "\<forall>c \<in> set m. \<not> newline c"
  shows "find_status m (x @ nl # r) =
    (case find_status m x of Some y \<Rightarrow> Some y
     | None \<Rightarrow> map_option (\<lambda>(pre, n). (x @ nl # pre, n)) (find_status m r))"
proof (induction x)
  case Nil
  show ?case
    using match_status_newline [OF assms, of "[]" r]
    by (cases "find_status m r") (auto split: prod.split)
next
  case (Cons c cs)
  show ?case
    using match_status_newline [OF assms, of "c # cs" r] Cons
    by (cases "find_status m r") (auto split: option.split prod.split)
qed

text \<open>A colon followed by a number or a minus sign.\<close>

definition colon_number :: "string \<Rightarrow> bool" where
  "colon_number s = any_suffix (\<lambda>t. case t of c # d # _ \<Rightarrow> c = CHR '':'' \<and> (d = CHR ''-'' \<or> is_digit d)
     | _ \<Rightarrow> False) s"

lemma colon_number_skip: "CHR '':'' \<notin> set u \<Longrightarrow> colon_number (u @ s) = colon_number s"
  by (induction u) (auto simp: colon_number_def split: list.split)

lemma colon_number_append: "colon_number s \<Longrightarrow> colon_number (u @ s)"
  by (induction u) (auto simp: colon_number_def)

lemma colon_number_Nil [simp]: "\<not> colon_number []"
  by (simp add: colon_number_def)

lemma match_status_colon: "match_status m s = Some n \<Longrightarrow> colon_number s"
proof -
  assume "match_status m s = Some n"
  then obtain r where s: "s = m @ CHR '':'' # r" and
    ds: "takeWhile is_digit (if case r of c # _ \<Rightarrow> c = CHR ''-'' | [] \<Rightarrow> False then drop 1 r else r) \<noteq> []"
    by (auto simp: match_status_def starts_with_iff Let_def split: if_splits)
  from ds have "colon_number (CHR '':'' # r)"
    by (cases r) (auto simp: colon_number_def split: if_splits)
  with s show ?thesis using colon_number_append by simp
qed

lemma find_status_colon: "\<not> colon_number s \<Longrightarrow> find_status m s = None"
proof (induction s)
  case (Cons c cs)
  have "match_status m (c # cs) = None" using match_status_colon Cons.prems by fastforce
  moreover have "\<not> colon_number cs" using colon_number_append [of cs "[c]"] Cons.prems by auto
  ultimately show ?case using Cons.IH by simp
qed simp

lemma find_status_no_colon: "CHR '':'' \<notin> set s \<Longrightarrow> find_status m s = None"
  using colon_number_skip [of s "[]"] by (intro find_status_colon) simp

lemma is_digit_printable: "is_digit c \<Longrightarrow> printable c \<and> \<not> newline c \<and> c \<noteq> CHR '':'' \<and> c \<noteq> CHR ''-''"
  by (auto simp: is_digit_def printable_def newline_def code_def)

lemma marker_chars: "\<forall>c \<in> set (commandMarker n). printable c \<and> \<not> newline c \<and> c \<noteq> CHR '':''"
proof -
  have "\<forall>c \<in> set (string_of_nat n). printable c \<and> \<not> newline c \<and> c \<noteq> CHR '':''"
    using string_of_nat_digits [of n] is_digit_printable by (auto simp: list_all_iff)
  then show ?thesis by (auto simp: commandMarker_def printable_def newline_def code_def)
qed

lemma newline_CR_LF [simp]: "newline (char_of (13 :: nat))" "newline (char_of (10 :: nat))"
  by (simp_all add: newline_def)

lemma match_status_number:
  assumes "newline nl"
  shows "match_status m (m @ '':'' @ string_of_nat n @ nl # r) = Some (int n)"
proof -
  have digits: "list_all is_digit (string_of_nat n)" "string_of_nat n \<noteq> []"
    using string_of_nat_digits by blast+
  then obtain d ds where d: "string_of_nat n = d # ds" "is_digit d" by (cases "string_of_nat n") auto
  have "takeWhile is_digit (string_of_nat n @ nl # r) = string_of_nat n"
  proof -
    have "takeWhile is_digit (string_of_nat n @ nl # r) = takeWhile is_digit (string_of_nat n)"
      by (rule takeWhile_newline [OF assms]) (simp add: is_digit_def)
    also have "\<dots> = string_of_nat n" using digits(1) by (simp add: list_all_iff)
    finally show ?thesis .
  qed
  then have "takeWhile is_digit (d # ds @ nl # r) = d # ds" using d by simp
  moreover have "starts_with (m @ '':'') (m @ '':'' @ string_of_nat n @ nl # r)"
    by (simp add: starts_with_iff)
  ultimately show ?thesis
    using is_digit_printable [OF d(2)] digits_value_string [of n] d(1)
    by (simp add: match_status_def Let_def)
qed

text \<open>The echo of the envelope: a command without the marker, then fixed lines without a status.\<close>

definition envelope_tail :: "string \<Rightarrow> string" where
  "envelope_tail marker = ''printf '' @ QUOTE @ BACKSLASH_n @ marker @ '':%s'' @ BACKSLASH_n @ QUOTE @
     [CHR '' '', CHR 0x22] @ ''$__linkr_task_status'' @ [CHR 0x22]"

definition status_line :: string where
  "status_line = ''__linkr_task_status=$?''"

lemma envelope_lines:
  "commandEnvelope cmd marker CRLF = js_trim cmd @ CHR 0x0D # CHR 0x0A # status_line @
     CHR 0x0D # CHR 0x0A # envelope_tail marker @ CHR 0x0D # CHR 0x0A # []"
  by (simp add: commandEnvelope_def CRLF_def envelope_tail_def status_line_def)

lemma newline_hex [simp]: "newline (CHR 0x0D)" "newline (CHR 0x0A)"
  by (simp_all add: newline_def code_def)

lemma envelope_tail_printable: "list_all printable (envelope_tail (commandMarker n))"
  using marker_chars [of n]
  by (auto simp: envelope_tail_def list_all_iff QUOTE_def BACKSLASH_n_def printable_def code_def)

lemma colon_number_percent: "colon_number ('':%'' @ t) = colon_number t"
proof -
  have "\<not> is_digit (CHR ''%'')" by (simp add: is_digit_def code_def)
  then show ?thesis by (cases t) (simp_all add: colon_number_def)
qed

lemma envelope_tail_no_status: "\<not> colon_number (envelope_tail (commandMarker n))"
proof -
  let ?u = "''printf '' @ QUOTE @ BACKSLASH_n @ commandMarker n"
  let ?v = "''s'' @ BACKSLASH_n @ QUOTE @ [CHR '' '', CHR 0x22] @ ''$__linkr_task_status'' @
    [CHR 0x22]"
  have tail: "envelope_tail (commandMarker n) = ?u @ '':%'' @ ?v"
    by (simp add: envelope_tail_def)
  have "CHR '':'' \<notin> set (commandMarker n)" using marker_chars [of n] by blast
  then have u: "CHR '':'' \<notin> set ?u"
    by (simp add: QUOTE_def BACKSLASH_n_def)
  have v: "CHR '':'' \<notin> set ?v"
    by (simp add: QUOTE_def BACKSLASH_n_def)
  show ?thesis
    unfolding tail colon_number_skip [OF u] colon_number_percent
    using colon_number_skip [OF v, of "[]"] by simp
qed

lemma strip_printable_only: "list_all printable ps \<Longrightarrow> stripTerminalControl ps = ps"
  using strip_printable [of ps "[]"] by simp

lemma status_line_facts: "stripTerminalControl status_line = status_line" "find_status m status_line = None"
proof -
  have "list_all printable status_line"
    by (auto simp: status_line_def list_all_iff printable_def code_def)
  then show "stripTerminalControl status_line = status_line" by (rule strip_printable_only)
  show "find_status m status_line = None" by (rule find_status_no_colon) (auto simp: status_line_def)
qed

lemmas strip_lines =
  strip_newline [OF newline_hex(1)] strip_newline [OF newline_hex(2)]
  strip_newline [OF newline_hex(1), of "[]", unfolded append_Nil strip_Nil]
  strip_newline [OF newline_hex(2), of "[]", unfolded append_Nil strip_Nil]

lemma find_status_envelope:
  fixes n cmd
  defines "m \<equiv> commandMarker n"
  assumes "find_status m (stripTerminalControl (js_trim cmd)) = None"
  shows "find_status m (stripTerminalControl (commandEnvelope cmd m CRLF @ s)) =
    map_option (\<lambda>(pre, k). (stripTerminalControl (commandEnvelope cmd m CRLF) @ pre, k))
      (find_status m (stripTerminalControl s))"
proof -
  have nl: "\<forall>c \<in> set m. \<not> newline c" using marker_chars [of n] by (simp add: m_def)
  note split = find_status_newline [OF newline_hex(1) nl] find_status_newline [OF newline_hex(2) nl]
    find_status_newline [OF newline_hex(1) nl, of "[]", unfolded append_Nil]
    find_status_newline [OF newline_hex(2) nl, of "[]", unfolded append_Nil]
  have tail: "stripTerminalControl (envelope_tail m) = envelope_tail m" "find_status m (envelope_tail m) = None"
    using strip_printable_only [OF envelope_tail_printable [of n]]
      find_status_colon [OF envelope_tail_no_status [of n], of m] by (simp_all add: m_def)
  have none: "find_status m [] = None" by simp
  have strip: "stripTerminalControl (commandEnvelope cmd m CRLF @ s) =
      stripTerminalControl (js_trim cmd) @ CHR 0x0D # CHR 0x0A # status_line @
        CHR 0x0D # CHR 0x0A # envelope_tail m @ CHR 0x0D # CHR 0x0A # stripTerminalControl s" for s
    unfolding envelope_lines append.simps append_assoc strip_lines status_line_facts tail by (rule refl)
  show ?thesis
    using strip [of "[]"]
    unfolding strip split assms(2) none status_line_facts tail option.case append_Nil2 strip_Nil
    by (cases "find_status m (stripTerminalControl s)") (simp_all split: prod.split)
qed

lemma strip_envelope_line:
  "stripTerminalControl (commandEnvelope cmd m CRLF @ out @ [CHR 0x0A]) =
     stripTerminalControl (commandEnvelope cmd m CRLF) @ stripTerminalControl out @ [CHR 0x0A]"
  unfolding envelope_lines append.simps append_assoc strip_lines strip_Nil by (rule refl)



subsection \<open>Mutual exclusion\<close>

datatype 'o lock_op = Acquire 'o | Release 'o

fun lock_step ::
  "('o \<Rightarrow> 's \<Rightarrow> bool \<times> 's) \<Rightarrow> ('o \<Rightarrow> 's \<Rightarrow> 's) \<Rightarrow> 's \<Rightarrow> 'o lock_op \<Rightarrow> 's" where
  "lock_step acq rel s (Acquire x) = snd (acq x s)"
| "lock_step acq rel s (Release x) = rel x s"

text \<open>What a client relies on when it holds a lock.\<close>

locale exclusive_lock =
  fixes acq :: "'o \<Rightarrow> 's \<Rightarrow> bool \<times> 's" and rel :: "'o \<Rightarrow> 's \<Rightarrow> 's" and holder :: "'s \<Rightarrow> 'o option"
  assumes acquire_free: "holder s = None \<Longrightarrow> fst (acq x s) \<and> holder (snd (acq x s)) = Some x"
    and acquire_held: "holder s \<noteq> None \<Longrightarrow> acq x s = (False, s)"
    and release_own: "holder s = Some x \<Longrightarrow> holder (rel x s) = None"
    and release_other: "holder s \<noteq> Some x \<Longrightarrow> rel x s = s"
begin

lemma held_until_released:
  assumes "holder s = Some x" "Release x \<notin> set ops"
  shows "foldl (lock_step acq rel) s ops = s"
  using assms(2)
proof (induction ops)
  case (Cons y ops)
  then show ?case using assms(1) by (cases y) (auto simp: acquire_held release_other)
qed simp

lemma acquired_is_exclusive:
  assumes "acq x s = (True, s')" "Release x \<notin> set ops"
  shows "holder (foldl (lock_step acq rel) s' ops) = Some x" "\<not> fst (acq y (foldl (lock_step acq rel) s' ops))"
proof -
  have "holder s = None" using assms(1) acquire_held [of s x] by fastforce
  then have h: "holder s' = Some x" using acquire_free [of s x] assms(1) by simp
  show "holder (foldl (lock_step acq rel) s' ops) = Some x"
    "\<not> fst (acq y (foldl (lock_step acq rel) s' ops))"
    unfolding held_until_released [OF h assms(2)] using h by (simp_all add: acquire_held)
qed

end

interpretation automation_lock: exclusive_lock acquire release "\<lambda>l. l"
  by unfold_locales (auto simp: acquire_def release_def)

text \<open>
  The automation lock is exclusive. From the moment a task acquires it until that task
  releases it, whatever acquisitions and releases other tasks attempt, the lock stays with
  its owner and every acquisition fails.
\<close>

lemma automation_lock_is_exclusive:
  assumes "acquire owner l = (True, l')" "Release owner \<notin> set ops"
  shows "foldl (lock_step acquire release) l' ops = Some owner \<and>
    \<not> fst (acquire other (foldl (lock_step acquire release) l' ops))"
  using automation_lock.acquired_is_exclusive [OF assms] by blast

lemma automation_lock_is_exclusive_witness:
  "foldl (lock_step acquire release) (Some OwnerTest) [Acquire OwnerOta, Release OwnerOta] = Some OwnerTest"
  using automation_lock_is_exclusive [of OwnerTest None "Some OwnerTest" "[Acquire OwnerOta, Release OwnerOta]"]
  by (simp add: acquire_def)

end
