(* ===== verification/Test_Script.thy ===== *)
theory Test_Script
  imports Linkr_Prelude
begin

text \<open>
  Test scripts (\<open>web/src/lib/testScript.ts\<close>): steps, loops, named Units and conditions,
  editing of nested items, and the expansion of a script into its execution plan. The plan
  builder is the source's loop over a growing plan with its checks in order; it is shown
  equal to a plain recursive expansion under a validity predicate.
\<close>

subsection \<open>Steps\<close>

datatype SerialChannel = Uart0 | Uart1

datatype PinDirection = DirInput | DirOutput

datatype CaptureTrigger = TriggerManual | TriggerCurrent | TriggerGpio | TriggerPowerOn

datatype StepType =
    PowerOn | PowerOff | Delay | SerialWait | SerialSend | SerialExpect | AdcRead
  | GpioSet | GpioAssert | SwitchRoute | Capture

text \<open>The parameters of a step, one constructor per step type.\<close>

datatype StepParams =
    PowerOnParams string
  | PowerOffParams string
  | DelayParams jsnum
  | SerialWaitParams SerialChannel string jsnum
  | SerialSendParams SerialChannel string
  | SerialExpectParams SerialChannel string string jsnum
  | AdcReadParams string
  | GpioSetParams string "PinDirection option" "nat option"
  | GpioAssertParams string PinDirection nat
  | SwitchRouteParams string string
  | CaptureParams string CaptureTrigger jsnum "jsnum option"

fun step_type :: "StepParams \<Rightarrow> StepType" where
  "step_type (PowerOnParams _) = PowerOn"
| "step_type (PowerOffParams _) = PowerOff"
| "step_type (DelayParams _) = Delay"
| "step_type (SerialWaitParams _ _ _) = SerialWait"
| "step_type (SerialSendParams _ _) = SerialSend"
| "step_type (SerialExpectParams _ _ _ _) = SerialExpect"
| "step_type (AdcReadParams _) = AdcRead"
| "step_type (GpioSetParams _ _ _) = GpioSet"
| "step_type (GpioAssertParams _ _ _) = GpioAssert"
| "step_type (SwitchRouteParams _ _) = SwitchRoute"
| "step_type (CaptureParams _ _ _ _) = Capture"

text \<open>An assertion; an absent and a null field are both \<open>None\<close>.\<close>

record StepAssertion =
  asrContinueOnError :: "bool option"
  asrCurrentRange :: "(jsnum \<times> jsnum) option"
  asrContains :: "string option"
  asrRegex :: "string option"
  asrExitCode :: "jsnum option"
  asrPinDirection :: "PinDirection option"
  asrPinValue :: "nat option"
  asrPeakCurrentMaxA :: "jsnum option"
  asrEnergyMaxJ :: "jsnum option"

record TestStep =
  stepId :: string
  stepParams :: StepParams
  stepAssert :: "StepAssertion option"
  stepContinueOnError :: bool

definition MIN_LOOP_COUNT :: int where [simp]: "MIN_LOOP_COUNT = 1"
definition MAX_LOOP_COUNT :: int where [simp]: "MAX_LOOP_COUNT = 1000"
definition MAX_EXECUTION_STEPS :: nat where [simp]: "MAX_EXECUTION_STEPS = 10000"

text \<open>A loop is a Unit when it has a name.\<close>

datatype TestNestedItem =
    Step TestStep
  | Loop (loopItemId: string) (loopCountParam: jsnum) (loopSteps: "TestNestedItem list")
      (loopUnit: "string option")

datatype TestScriptItem =
    Item TestNestedItem
  | Condition (conditionItemId: string) (conditionCheck: TestStep)
      (thenSteps: "TestNestedItem list") (elseSteps: "TestNestedItem list")

datatype TestNestedBranch = Body | Then | Else

fun nested_id :: "TestNestedItem \<Rightarrow> string" where
  "nested_id (Step s) = stepId s"
| "nested_id (Loop i _ _ _) = i"

fun item_id :: "TestScriptItem \<Rightarrow> string" where
  "item_id (Item n) = nested_id n"
| "item_id (Condition i _ _ _) = i"

fun isTestLoop :: "TestScriptItem \<Rightarrow> bool" where
  "isTestLoop (Item (Loop _ _ _ _)) = True"
| "isTestLoop _ = False"

fun isTestUnit :: "TestScriptItem \<Rightarrow> bool" where
  "isTestUnit (Item (Loop _ _ _ (Some _))) = True"
| "isTestUnit _ = False"

fun isTestCondition :: "TestScriptItem \<Rightarrow> bool" where
  "isTestCondition (Condition _ _ _ _) = True"
| "isTestCondition _ = False"

definition isNestableTestItem :: "TestScriptItem \<Rightarrow> bool" where
  "isNestableTestItem item \<longleftrightarrow> \<not> isTestCondition item \<and> (\<not> isTestLoop item \<or> isTestUnit item)"

subsection \<open>Checks on steps\<close>

datatype location =
    AtStep string | AtUnit string | AtLoop string | AtCondition string
  | AtConditionCheck string | AtConditionThen string | AtConditionElse string

datatype plan_error =
    DuplicateItemId string
  | TooManySteps
  | DuplicateExecutionId string
  | DuplicateChildId location string
  | OnlyUnitsNested string
  | UnitCountNotOne string
  | UnitEmpty string
  | UnitNestsUnit string
  | LoopCountRange string
  | LoopEmpty string
  | SerialWaitPatternEmpty location
  | UnsupportedCheckType location StepType
  | AdcCheckNeedsAssert location
  | SerialExpectPatternEmpty location

text \<open>Some entry other than \<open>continue_on_error\<close> is present.\<close>

definition conditionCheckHasAssertion :: "TestStep \<Rightarrow> bool" where
  "conditionCheckHasAssertion step =
     (case stepAssert step of None \<Rightarrow> False
      | Some a \<Rightarrow> asrCurrentRange a \<noteq> None \<or> asrContains a \<noteq> None \<or> asrRegex a \<noteq> None \<or>
          asrExitCode a \<noteq> None \<or> asrPinDirection a \<noteq> None \<or> asrPinValue a \<noteq> None \<or>
          asrPeakCurrentMaxA a \<noteq> None \<or> asrEnergyMaxJ a \<noteq> None)"

fun serialPattern :: "StepParams \<Rightarrow> string" where
  "serialPattern (SerialWaitParams _ pattern _) = js_trim pattern"
| "serialPattern (SerialExpectParams _ _ pattern _) = js_trim pattern"
| "serialPattern _ = []"

definition assertSerialWaitPattern :: "TestStep \<Rightarrow> location \<Rightarrow> plan_error + unit" where
  "assertSerialWaitPattern step loc =
     guardR (\<not> (step_type (stepParams step) = SerialWait \<and> serialPattern (stepParams step) = []))
       (SerialWaitPatternEmpty loc) (Inr ())"

definition assertConditionCheck :: "TestStep \<Rightarrow> location \<Rightarrow> plan_error + unit" where
  "assertConditionCheck step loc =
     (let t = step_type (stepParams step)
      in guardR (t \<in> set [SerialExpect, AdcRead, GpioAssert]) (UnsupportedCheckType loc t) (
         guardR (\<not> (t = AdcRead \<and> \<not> conditionCheckHasAssertion step)) (AdcCheckNeedsAssert loc) (
         guardR (\<not> (t = SerialExpect \<and> serialPattern (stepParams step) = []))
           (SerialExpectPatternEmpty loc) (Inr ()))))"

subsection \<open>Compatible assertions\<close>

text \<open>Which fields of an assertion mean something for a step type.\<close>

datatype assertion_key = KCurrentRange | KContains | KRegex | KExitCode | KPinDirection | KPinValue
  | KPeakCurrentMaxA | KEnergyMaxJ

fun ASSERTION_FIELDS_BY_STEP :: "StepType \<Rightarrow> assertion_key list" where
  "ASSERTION_FIELDS_BY_STEP AdcRead = [KCurrentRange]"
| "ASSERTION_FIELDS_BY_STEP SerialWait = [KContains, KRegex]"
| "ASSERTION_FIELDS_BY_STEP SerialExpect = [KContains, KRegex, KExitCode]"
| "ASSERTION_FIELDS_BY_STEP GpioAssert = [KPinDirection, KPinValue]"
| "ASSERTION_FIELDS_BY_STEP Capture = [KPeakCurrentMaxA, KEnergyMaxJ]"
| "ASSERTION_FIELDS_BY_STEP _ = []"

definition empty_assertion :: StepAssertion where
  "empty_assertion = \<lparr>asrContinueOnError = None, asrCurrentRange = None, asrContains = None,
     asrRegex = None, asrExitCode = None, asrPinDirection = None, asrPinValue = None,
     asrPeakCurrentMaxA = None, asrEnergyMaxJ = None\<rparr>"

text \<open>\<open>Object.assign(next, {[key]: value})\<close> for a field that is present.\<close>

fun copy_field :: "StepAssertion \<Rightarrow> assertion_key \<Rightarrow> StepAssertion \<Rightarrow> StepAssertion" where
  "copy_field a KCurrentRange n =
     (if asrCurrentRange a \<noteq> None then n\<lparr>asrCurrentRange := asrCurrentRange a\<rparr> else n)"
| "copy_field a KContains n = (if asrContains a \<noteq> None then n\<lparr>asrContains := asrContains a\<rparr> else n)"
| "copy_field a KRegex n = (if asrRegex a \<noteq> None then n\<lparr>asrRegex := asrRegex a\<rparr> else n)"
| "copy_field a KExitCode n = (if asrExitCode a \<noteq> None then n\<lparr>asrExitCode := asrExitCode a\<rparr> else n)"
| "copy_field a KPinDirection n =
     (if asrPinDirection a \<noteq> None then n\<lparr>asrPinDirection := asrPinDirection a\<rparr> else n)"
| "copy_field a KPinValue n = (if asrPinValue a \<noteq> None then n\<lparr>asrPinValue := asrPinValue a\<rparr> else n)"
| "copy_field a KPeakCurrentMaxA n =
     (if asrPeakCurrentMaxA a \<noteq> None then n\<lparr>asrPeakCurrentMaxA := asrPeakCurrentMaxA a\<rparr> else n)"
| "copy_field a KEnergyMaxJ n =
     (if asrEnergyMaxJ a \<noteq> None then n\<lparr>asrEnergyMaxJ := asrEnergyMaxJ a\<rparr> else n)"

definition compatibleAssertionForStepType ::
  "StepAssertion option \<Rightarrow> StepType \<Rightarrow> StepAssertion option" where
  "compatibleAssertionForStepType assertion type =
     (case assertion of None \<Rightarrow> None
      | Some a \<Rightarrow>
        let next0 = (if asrContinueOnError a \<noteq> None
              then empty_assertion\<lparr>asrContinueOnError := asrContinueOnError a\<rparr> else empty_assertion);
            next1 = foldl (\<lambda>n key. copy_field a key n) next0 (ASSERTION_FIELDS_BY_STEP type)
        in if next1 \<noteq> empty_assertion then Some next1 else None)"

subsection \<open>Editing nested items\<close>

text \<open>The item to nest: the one given, or the top-level item it is moved from. An empty
  source id counts as none.\<close>

definition nest_source ::
  "TestScriptItem list \<Rightarrow> TestNestedItem \<Rightarrow> string option \<Rightarrow>
    (TestScriptItem list \<times> TestNestedItem) option" where
  "nest_source items item sourceItemId =
     (if sourceItemId = None \<or> sourceItemId = Some [] then Some (items, item)
      else case find_index (\<lambda>i. Some (item_id i) = sourceItemId) items of
        None \<Rightarrow> None
      | Some sourceIndex \<Rightarrow>
          (case items ! sourceIndex of
             Condition _ _ _ _ \<Rightarrow> None
           | Item source \<Rightarrow> if \<not> isNestableTestItem (Item source) then None
               else Some (remove_at sourceIndex items, source)))"

definition nestItemInScript ::
  "TestScriptItem list \<Rightarrow> TestNestedItem \<Rightarrow> string \<Rightarrow> TestNestedBranch \<Rightarrow> string option \<Rightarrow>
    TestScriptItem list option" where
  "nestItemInScript items item containerId branch sourceItemId =
     (if \<not> isNestableTestItem (Item item) then None
      else case nest_source items item sourceItemId of
        None \<Rightarrow> None
      | Some (next, nestedItem) \<Rightarrow>
        (case find_index (\<lambda>i. item_id i = containerId) next of
           None \<Rightarrow> None
         | Some containerIndex \<Rightarrow>
           (case next ! containerIndex of
              Condition i check th el \<Rightarrow>
                (case branch of
                   Body \<Rightarrow> None
                 | Then \<Rightarrow> if list_ex (\<lambda>n. nested_id n = nested_id nestedItem) th then None
                     else Some (next[containerIndex := Condition i check (th @ [nestedItem]) el])
                 | Else \<Rightarrow> if list_ex (\<lambda>n. nested_id n = nested_id nestedItem) el then None
                     else Some (next[containerIndex := Condition i check th (el @ [nestedItem])]))
            | Item (Loop i n steps None) \<Rightarrow>
                if branch \<noteq> Body then None
                else if list_ex (\<lambda>n. nested_id n = nested_id nestedItem) steps then None
                else Some (next[containerIndex := Item (Loop i n (steps @ [nestedItem]) None)])
            | _ \<Rightarrow> None)))"

definition removeNestedItemFromScript ::
  "TestScriptItem list \<Rightarrow> string \<Rightarrow> TestNestedBranch \<Rightarrow> string \<Rightarrow> TestScriptItem list option" where
  "removeNestedItemFromScript items containerId branch nestedItemId =
     (case find_index (\<lambda>i. item_id i = containerId) items of
        None \<Rightarrow> None
      | Some containerIndex \<Rightarrow>
        (case items ! containerIndex of
           Condition i check th el \<Rightarrow>
             (case branch of
                Body \<Rightarrow> None
              | Then \<Rightarrow> if \<not> list_ex (\<lambda>n. nested_id n = nestedItemId) th then None
                  else Some (items[containerIndex :=
                    Condition i check (filter (\<lambda>n. nested_id n \<noteq> nestedItemId) th) el])
              | Else \<Rightarrow> if \<not> list_ex (\<lambda>n. nested_id n = nestedItemId) el then None
                  else Some (items[containerIndex :=
                    Condition i check th (filter (\<lambda>n. nested_id n \<noteq> nestedItemId) el)]))
         | Item (Loop i n steps u) \<Rightarrow>
             if branch \<noteq> Body then None
             else if \<not> list_ex (\<lambda>n. nested_id n = nestedItemId) steps then None
             else Some (items[containerIndex :=
               Item (Loop i n (filter (\<lambda>n. nested_id n \<noteq> nestedItemId) steps) u)])
         | _ \<Rightarrow> None))"

fun countNested :: "TestNestedItem \<Rightarrow> nat" where
  "countNested (Step _) = 1"
| "countNested (Loop _ _ steps _) = sum_list (map countNested steps)"

fun count_item :: "TestScriptItem \<Rightarrow> nat" where
  "count_item (Item (Loop _ _ steps _)) = sum_list (map countNested steps)"
| "count_item (Condition _ _ th el) = 1 + sum_list (map countNested th) + sum_list (map countNested el)"
| "count_item (Item (Step _)) = 1"

definition countScriptCommands :: "TestScriptItem list \<Rightarrow> nat" where
  "countScriptCommands steps = foldl (\<lambda>total item. total + count_item item) 0 steps"

subsection \<open>Execution plans\<close>

datatype conditionRole = RoleCheck | RoleThen | RoleElse

record ExpansionContext =
  ctxSuffix :: string
  ctxLoopId :: "string option"
  ctxLoopIteration :: "nat option"
  ctxLoopCount :: "nat option"
  ctxUnitId :: "string option"
  ctxUnitName :: "string option"
  ctxConditionId :: "string option"
  ctxConditionRole :: "conditionRole option"

definition no_context :: ExpansionContext where
  "no_context = \<lparr>ctxSuffix = [], ctxLoopId = None, ctxLoopIteration = None, ctxLoopCount = None,
     ctxUnitId = None, ctxUnitName = None, ctxConditionId = None, ctxConditionRole = None\<rparr>"

record ExecutionStep =
  execStep :: TestStep
  executionId :: string
  sourceStepId :: string
  execContext :: ExpansionContext

type_synonym plan_state = "ExecutionStep list \<times> string set"

definition appendStep :: "ExecutionStep \<Rightarrow> plan_state \<Rightarrow> plan_error + plan_state" where
  "appendStep step st = (case st of (plan, executionIds) \<Rightarrow>
     guardR (length plan < MAX_EXECUTION_STEPS) TooManySteps (
     guardR (executionId step \<notin> executionIds) (DuplicateExecutionId (executionId step)) (
     Inr (plan @ [step], insert (executionId step) executionIds))))"

definition primitive :: "TestStep \<Rightarrow> ExpansionContext \<Rightarrow> ExecutionStep" where
  "primitive step context =
     \<lparr>execStep = step, executionId = stepId step @ ctxSuffix context, sourceStepId = stepId step,
      execContext = context\<rparr>"

definition appendPrimitive :: "TestStep \<Rightarrow> ExpansionContext \<Rightarrow> plan_state \<Rightarrow> plan_error + plan_state" where
  "appendPrimitive step context st = appendStep (primitive step context) st"

fun unique_children :: "location \<Rightarrow> string set \<Rightarrow> string list \<Rightarrow> plan_error + unit" where
  "unique_children loc childIds [] = Inr ()"
| "unique_children loc childIds (c # cs) =
     guardR (c \<notin> childIds) (DuplicateChildId loc c) (unique_children loc (insert c childIds) cs)"

definition assertUniqueChildren :: "string list \<Rightarrow> location \<Rightarrow> plan_error + unit" where
  "assertUniqueChildren children loc = unique_children loc {} children"

definition unit_context :: "string \<Rightarrow> string \<Rightarrow> ExpansionContext \<Rightarrow> ExpansionContext" where
  "unit_context unitId unitName context =
     context\<lparr>ctxSuffix := ''@'' @ unitId @ '':1'' @ ctxSuffix context,
       ctxUnitId := Some unitId, ctxUnitName := Some unitName,
       ctxLoopId := (case ctxLoopId context of None \<Rightarrow> Some unitId | i \<Rightarrow> i),
       ctxLoopIteration := (case ctxLoopIteration context of None \<Rightarrow> Some 1 | i \<Rightarrow> i),
       ctxLoopCount := (case ctxLoopCount context of None \<Rightarrow> Some 1 | i \<Rightarrow> i)\<rparr>"

definition expand_unit_child ::
  "string \<Rightarrow> string \<Rightarrow> ExpansionContext \<Rightarrow> plan_state \<Rightarrow> TestNestedItem \<Rightarrow> plan_error + plan_state" where
  "expand_unit_child unitId unitName context st child =
     (case child of
        Loop _ _ _ _ \<Rightarrow> Inl (UnitNestsUnit unitId)
      | Step s \<Rightarrow> bindR (assertSerialWaitPattern s (AtUnit unitId)) (\<lambda>_.
          appendPrimitive s (unit_context unitId unitName context) st))"

definition expandUnit ::
  "string \<Rightarrow> jsnum \<Rightarrow> TestNestedItem list \<Rightarrow> string option \<Rightarrow> ExpansionContext \<Rightarrow> plan_state \<Rightarrow>
    plan_error + plan_state" where
  "expandUnit i count steps unitName context st =
     (case unitName of
        None \<Rightarrow> Inl (OnlyUnitsNested i)
      | Some name \<Rightarrow>
          guardR (js_eq count (Fin 1)) (UnitCountNotOne i) (
          guardR (length steps \<noteq> 0) (UnitEmpty i) (
          bindR (assertUniqueChildren (map nested_id steps) (AtUnit i)) (\<lambda>_.
          foldR (expand_unit_child i name context) st steps))))"

fun expandNested ::
  "TestNestedItem \<Rightarrow> ExpansionContext \<Rightarrow> plan_state \<Rightarrow> plan_error + plan_state" where
  "expandNested (Loop i count steps unitName) context st = expandUnit i count steps unitName context st"
| "expandNested (Step s) context st = appendPrimitive s context st"

text \<open>One child of a condition branch or a loop body.\<close>

definition expand_child ::
  "location \<Rightarrow> ExpansionContext \<Rightarrow> plan_state \<Rightarrow> TestNestedItem \<Rightarrow> plan_error + plan_state" where
  "expand_child loc context st child =
     bindR (case child of Step s \<Rightarrow> assertSerialWaitPattern s loc | Loop _ _ _ _ \<Rightarrow> Inr ()) (\<lambda>_.
       expandNested child context st)"

definition condition_context :: "string \<Rightarrow> string \<Rightarrow> conditionRole \<Rightarrow> ExpansionContext" where
  "condition_context i tag role =
     no_context\<lparr>ctxSuffix := ''@'' @ i @ '':'' @ tag, ctxConditionId := Some i,
       ctxConditionRole := Some role\<rparr>"

definition loop_context :: "string \<Rightarrow> nat \<Rightarrow> nat \<Rightarrow> ExpansionContext" where
  "loop_context i count iteration =
     no_context\<lparr>ctxSuffix := ''@'' @ i @ '':'' @ string_of_nat iteration, ctxLoopId := Some i,
       ctxLoopIteration := Some iteration, ctxLoopCount := Some count\<rparr>"

fun js_nat :: "jsnum \<Rightarrow> nat" where
  "js_nat (Fin r) = nat (rat_trunc r)"
| "js_nat _ = 0"

fun expand_item :: "TestScriptItem \<Rightarrow> plan_state \<Rightarrow> plan_error + plan_state" where
  "expand_item (Condition i check th el) st =
     bindR (assertConditionCheck check (AtCondition i)) (\<lambda>_.
     bindR (assertUniqueChildren (stepId check # map nested_id th @ map nested_id el) (AtCondition i)) (\<lambda>_.
     bindR (assertSerialWaitPattern check (AtConditionCheck i)) (\<lambda>_.
     bindR (appendPrimitive check (condition_context i ''check'' RoleCheck) st) (\<lambda>st1.
     bindR (foldR (expand_child (AtConditionThen i) (condition_context i ''then'' RoleThen)) st1 th) (\<lambda>st2.
     foldR (expand_child (AtConditionElse i) (condition_context i ''else'' RoleElse)) st2 el)))))"
| "expand_item (Item (Step s)) st =
     bindR (assertSerialWaitPattern s (AtStep (stepId s))) (\<lambda>_. appendPrimitive s no_context st)"
| "expand_item (Item (Loop i count steps unitName)) st =
     guardR (isInteger count \<and> \<not> js_lt count (js_int MIN_LOOP_COUNT) \<and>
             \<not> js_lt (js_int MAX_LOOP_COUNT) count) (LoopCountRange i) (
     guardR (length steps \<noteq> 0) (LoopEmpty i) (
     guardR (\<not> (unitName \<noteq> None \<and> \<not> js_eq count (Fin 1))) (UnitCountNotOne i) (
     bindR (assertUniqueChildren (map nested_id steps)
         (if unitName \<noteq> None then AtUnit i else AtLoop i)) (\<lambda>_.
     if unitName \<noteq> None then expandUnit i count steps unitName no_context st
     else foldR (\<lambda>st1 iteration.
            foldR (expand_child (AtLoop i) (loop_context i (js_nat count) iteration)) st1 steps)
          st [1..<js_nat count + 1]))))"

fun expand_items :: "string set \<Rightarrow> plan_state \<Rightarrow> TestScriptItem list \<Rightarrow> plan_error + plan_state" where
  "expand_items itemIds st [] = Inr st"
| "expand_items itemIds st (item # items) =
     guardR (item_id item \<notin> itemIds) (DuplicateItemId (item_id item)) (
     bindR (expand_item item st) (\<lambda>st1. expand_items (insert (item_id item) itemIds) st1 items))"

definition buildExecutionPlan :: "TestScriptItem list \<Rightarrow> plan_error + ExecutionStep list" where
  "buildExecutionPlan steps =
     bindR (expand_items {} ([], {}) steps) (\<lambda>(plan, executionIds).
       guardR (length plan \<le> MAX_EXECUTION_STEPS) TooManySteps (Inr plan))"

definition tryBuildExecutionPlan :: "TestScriptItem list \<Rightarrow> ExecutionStep list \<times> plan_error option" where
  "tryBuildExecutionPlan steps =
     (case buildExecutionPlan steps of Inr plan \<Rightarrow> (plan, None) | Inl e \<Rightarrow> ([], Some e))"


subsection \<open>The plan as a plain expansion\<close>

definition wait_ok :: "TestStep \<Rightarrow> bool" where
  "wait_ok s \<longleftrightarrow> \<not> (step_type (stepParams s) = SerialWait \<and> serialPattern (stepParams s) = [])"

definition check_ok :: "TestStep \<Rightarrow> bool" where
  "check_ok s \<longleftrightarrow>
     (let t = step_type (stepParams s)
      in t \<in> {SerialExpect, AdcRead, GpioAssert} \<and> (t = AdcRead \<longrightarrow> conditionCheckHasAssertion s) \<and>
         (t = SerialExpect \<longrightarrow> serialPattern (stepParams s) \<noteq> []))"

fun valid_step :: "TestNestedItem \<Rightarrow> bool" where
  "valid_step (Step s) = wait_ok s"
| "valid_step (Loop _ _ _ _) = False"

definition valid_unit :: "jsnum \<Rightarrow> TestNestedItem list \<Rightarrow> bool" where
  "valid_unit count steps \<longleftrightarrow> count = Fin 1 \<and> steps \<noteq> [] \<and> distinct (map nested_id steps) \<and>
     list_all valid_step steps"

fun valid_child :: "TestNestedItem \<Rightarrow> bool" where
  "valid_child (Step s) = wait_ok s"
| "valid_child (Loop i count steps u) = (u \<noteq> None \<and> valid_unit count steps)"

fun valid_item :: "TestScriptItem \<Rightarrow> bool" where
  "valid_item (Condition i check th el) =
     (check_ok check \<and> distinct (stepId check # map nested_id th @ map nested_id el) \<and>
      wait_ok check \<and> list_all valid_child th \<and> list_all valid_child el)"
| "valid_item (Item (Step s)) = wait_ok s"
| "valid_item (Item (Loop i count steps u)) =
     (if u = None then
        (\<exists>n \<in> {1..1000}. count = js_int (int n)) \<and> steps \<noteq> [] \<and> distinct (map nested_id steps) \<and>
        list_all valid_child steps
      else valid_unit count steps)"

fun plan_nested :: "ExpansionContext \<Rightarrow> TestNestedItem \<Rightarrow> ExecutionStep list" where
  "plan_nested context (Step s) = [primitive s context]"
| "plan_nested context (Loop i count steps u) =
     (case u of None \<Rightarrow> []
      | Some name \<Rightarrow> [primitive s (unit_context i name context). Step s \<leftarrow> steps])"

fun plan_item :: "TestScriptItem \<Rightarrow> ExecutionStep list" where
  "plan_item (Condition i check th el) =
     primitive check (condition_context i ''check'' RoleCheck) #
     concat (map (plan_nested (condition_context i ''then'' RoleThen)) th) @
     concat (map (plan_nested (condition_context i ''else'' RoleElse)) el)"
| "plan_item (Item (Step s)) = [primitive s no_context]"
| "plan_item (Item (Loop i count steps u)) =
     (if u = None then
        concat (map (\<lambda>iteration. concat (map (plan_nested (loop_context i (js_nat count) iteration)) steps))
          [1..<js_nat count + 1])
      else plan_nested no_context (Loop i count steps u))"

definition good :: "plan_state \<Rightarrow> bool" where
  "good st \<longleftrightarrow> snd st = executionId ` set (fst st) \<and> distinct (map executionId (fst st)) \<and>
     length (fst st) \<le> MAX_EXECUTION_STEPS"

definition ext :: "plan_state \<Rightarrow> ExecutionStep list \<Rightarrow> plan_state" where
  "ext st xs = (fst st @ xs, snd st \<union> executionId ` set xs)"

text \<open>
  \<open>f\<close> appends \<open>xs\<close> to the plan: on a good plan it succeeds exactly when \<open>v\<close> holds and the
  longer plan is still good, and then that is the result.
\<close>

definition appends :: "(plan_state \<Rightarrow> plan_error + plan_state) \<Rightarrow> bool \<Rightarrow> ExecutionStep list \<Rightarrow> bool" where
  "appends f v xs \<longleftrightarrow>
     (\<forall>st st'. good st \<longrightarrow> (f st = Inr st' \<longleftrightarrow> v \<and> st' = ext st xs \<and> good (ext st xs)))"

lemma ext_simps [simp]: "ext st [] = st" "ext (ext st xs) ys = ext st (xs @ ys)"
  by (auto simp: ext_def)

lemma good_prefix: "good (ext st (xs @ ys)) \<Longrightarrow> good st \<Longrightarrow> good (ext st xs)"
  by (auto simp: good_def ext_def)

lemma appendsD: "appends f v xs \<Longrightarrow> good st \<Longrightarrow> f st = Inr st' \<longleftrightarrow> v \<and> st' = ext st xs \<and> good (ext st xs)"
  unfolding appends_def by blast

lemma appends_step: "appends (appendStep x) True [x]"
  by (auto simp: appends_def appendStep_def good_def ext_def guardR_Inr_iff split: prod.splits)

lemma appends_primitive: "appends (appendPrimitive s c) True [primitive s c]"
  using appends_step [of "primitive s c"] by (simp add: appends_def appendPrimitive_def)

lemma appends_nothing: "appends Inr True []"
  by (auto simp: appends_def)

lemma appends_fail: "appends (\<lambda>st. Inl e) False xs"
  by (simp add: appends_def)

lemma appends_bind:
  assumes "appends f v xs" "appends g w ys"
  shows "appends (\<lambda>st. bindR (f st) g) (v \<and> w) (xs @ ys)"
  unfolding appends_def bindR_Inr_iff
  by (metis appendsD [OF assms(1)] appendsD [OF assms(2)] ext_simps(2) good_prefix)

lemma appends_check:
  "r = Inr () \<longleftrightarrow> v \<Longrightarrow> appends f w xs \<Longrightarrow> appends (\<lambda>st. bindR r (\<lambda>_. f st)) (v \<and> w) xs"
  by (auto simp: appends_def bindR_Inr_iff)

lemma appends_guard:
  "appends f w xs \<Longrightarrow> appends (\<lambda>st. guardR b e (f st)) (b \<and> w) xs"
  by (auto simp: appends_def guardR_Inr_iff)

lemma appends_fold:
  "(\<And>x. x \<in> set l \<Longrightarrow> appends (\<lambda>st. f st x) (v x) (e x)) \<Longrightarrow>
   appends (\<lambda>st. foldR f st l) (list_all v l) (concat (map e l))"
proof (induction l)
  case Nil
  then show ?case using appends_nothing by (simp add: appends_def)
next
  case (Cons x l)
  have "appends (\<lambda>st. bindR (f st x) (\<lambda>st'. foldR f st' l)) (v x \<and> list_all v l) (e x @ concat (map e l))"
    using Cons by (intro appends_bind) simp_all
  then show ?case by simp
qed

lemma appends_cong: "appends f v xs \<Longrightarrow> v = v' \<Longrightarrow> (v \<Longrightarrow> xs = xs') \<Longrightarrow> appends f v' xs'"
  by (auto simp: appends_def)

lemma wait_check: "assertSerialWaitPattern s loc = Inr () \<longleftrightarrow> wait_ok s"
  by (simp add: assertSerialWaitPattern_def guardR_Inr_iff wait_ok_def)

lemma condition_check: "assertConditionCheck s loc = Inr () \<longleftrightarrow> check_ok s"
  by (auto simp: assertConditionCheck_def guardR_Inr_iff check_ok_def Let_def)

lemma unique_children: "unique_children loc seen cs = Inr () \<longleftrightarrow> distinct cs \<and> seen \<inter> set cs = {}"
  by (induction cs arbitrary: seen) (auto simp: guardR_Inr_iff)

lemma children_check: "assertUniqueChildren cs loc = Inr () \<longleftrightarrow> distinct cs"
  by (simp add: assertUniqueChildren_def unique_children)

lemma appends_unit:
  "appends (expandUnit i count steps u c) (u \<noteq> None \<and> valid_unit count steps)
     (plan_nested c (Loop i count steps u))"
proof (cases u)
  case None
  then show ?thesis using appends_fail by (simp add: expandUnit_def appends_def)
next
  case (Some name)
  let ?plan = "\<lambda>child. case child of Step s \<Rightarrow> [primitive s (unit_context i name c)] | _ \<Rightarrow> []"
  have child: "appends (\<lambda>st. expand_unit_child i name c st child) (valid_step child) (?plan child)" for child
  proof (cases child)
    case (Step s)
    have "appends (\<lambda>st. bindR (assertSerialWaitPattern s (AtUnit i)) (\<lambda>_.
        appendPrimitive s (unit_context i name c) st)) (wait_ok s \<and> True) [primitive s (unit_context i name c)]"
      by (intro appends_check wait_check appends_primitive)
    then show ?thesis by (simp add: Step expand_unit_child_def)
  next
    case Loop
    then show ?thesis using appends_fail by (simp add: expand_unit_child_def)
  qed
  have "appends (\<lambda>st. guardR (js_eq count (Fin 1)) (UnitCountNotOne i) (
          guardR (length steps \<noteq> 0) (UnitEmpty i) (
          bindR (assertUniqueChildren (map nested_id steps) (AtUnit i)) (\<lambda>_.
          foldR (expand_unit_child i name c) st steps))))
      (js_eq count (Fin 1) \<and> length steps \<noteq> 0 \<and> distinct (map nested_id steps) \<and> list_all valid_step steps)
      (concat (map ?plan steps))"
    by (intro appends_guard appends_check children_check appends_fold child)
  then show ?thesis
    by (auto simp: Some expandUnit_def [abs_def] js_eq_def valid_unit_def elim!: appends_cong
        intro!: arg_cong [where f = concat] split: TestNestedItem.split)
qed

lemma appends_nested:
  "appends (expandNested child c) (case child of Step s \<Rightarrow> True | Loop i n ss u \<Rightarrow> u \<noteq> None \<and> valid_unit n ss)
     (plan_nested c child)"
  using appends_unit appends_primitive by (cases child) (simp_all add: appends_def)

lemma appends_child: "appends (\<lambda>st. expand_child loc c st child) (valid_child child) (plan_nested c child)"
proof -
  have "appends (\<lambda>st. expand_child loc c st child)
     ((case child of Step s \<Rightarrow> wait_ok s | _ \<Rightarrow> True) \<and>
      (case child of Step s \<Rightarrow> True | Loop i n ss u \<Rightarrow> u \<noteq> None \<and> valid_unit n ss)) (plan_nested c child)"
    unfolding expand_child_def
    by (intro appends_check appends_nested) (simp add: wait_check split: TestNestedItem.split)
  then show ?thesis by (rule appends_cong) (auto split: TestNestedItem.split)
qed

lemma count_in_range:
  "isInteger count \<and> \<not> js_lt count (js_int MIN_LOOP_COUNT) \<and> \<not> js_lt (js_int MAX_LOOP_COUNT) count \<longleftrightarrow>
     (\<exists>n \<in> {1..1000}. count = js_int (int n))"
proof
  assume l: "isInteger count \<and> \<not> js_lt count (js_int MIN_LOOP_COUNT) \<and> \<not> js_lt (js_int MAX_LOOP_COUNT) count"
  then obtain i where i: "count = js_int i" by (auto simp: isInteger_iff)
  with l have "1 \<le> i" "i \<le> 1000" by simp_all
  with i show "\<exists>n \<in> {1..1000}. count = js_int (int n)" by (intro bexI [of _ "nat i"]) auto
qed auto

lemma appends_item: "appends (expand_item item) (valid_item item) (plan_item item)"
proof (cases item)
  case (Condition i check th el)
  let ?c = "condition_context i"
  have "appends (\<lambda>st. bindR (assertConditionCheck check (AtCondition i)) (\<lambda>_.
     bindR (assertUniqueChildren (stepId check # map nested_id th @ map nested_id el) (AtCondition i)) (\<lambda>_.
     bindR (assertSerialWaitPattern check (AtConditionCheck i)) (\<lambda>_.
     bindR (appendPrimitive check (?c ''check'' RoleCheck) st) (\<lambda>st1.
     bindR (foldR (expand_child (AtConditionThen i) (?c ''then'' RoleThen)) st1 th) (\<lambda>st2.
     foldR (expand_child (AtConditionElse i) (?c ''else'' RoleElse)) st2 el))))))
     (check_ok check \<and> distinct (stepId check # map nested_id th @ map nested_id el) \<and>
      wait_ok check \<and> True \<and> list_all valid_child th \<and> list_all valid_child el)
     ([primitive check (?c ''check'' RoleCheck)] @ concat (map (plan_nested (?c ''then'' RoleThen)) th) @
      concat (map (plan_nested (?c ''else'' RoleElse)) el))"
    by (intro appends_check condition_check children_check wait_check appends_bind appends_primitive
        appends_fold appends_child)
  then show ?thesis by (simp add: Condition appends_def)
next
  case (Item n)
  show ?thesis
  proof (cases n)
    case (Step s)
    have "appends (\<lambda>st. bindR (assertSerialWaitPattern s (AtStep (stepId s))) (\<lambda>_.
        appendPrimitive s no_context st)) (wait_ok s \<and> True) [primitive s no_context]"
      by (intro appends_check wait_check appends_primitive)
    then show ?thesis by (simp add: Item Step appends_def)
  next
    case (Loop i count steps u)
    let ?range = "isInteger count \<and> \<not> js_lt count (js_int MIN_LOOP_COUNT) \<and> \<not> js_lt (js_int MAX_LOOP_COUNT) count"
    let ?child = "\<lambda>iteration st. foldR (expand_child (AtLoop i) (loop_context i (js_nat count) iteration)) st steps"
    let ?body = "\<lambda>st. if u \<noteq> None then expandUnit i count steps u no_context st
      else foldR (\<lambda>st1 iteration. ?child iteration st1) st [1..<js_nat count + 1]"
    let ?valid = "if u \<noteq> None then u \<noteq> None \<and> valid_unit count steps
      else list_all (\<lambda>iteration. list_all valid_child steps) [1..<js_nat count + 1]"
    have loop: "appends (\<lambda>st. foldR (\<lambda>st1 iteration. ?child iteration st1) st [1..<js_nat count + 1])
        (list_all (\<lambda>iteration. list_all valid_child steps) [1..<js_nat count + 1])
        (concat (map (\<lambda>iteration. concat (map (plan_nested (loop_context i (js_nat count) iteration)) steps))
          [1..<js_nat count + 1]))"
      by (intro appends_fold appends_child)
    have body: "appends ?body ?valid (plan_item item)"
      using loop appends_unit [of i count steps u no_context]
      by (cases u) (simp_all add: Item Loop del: upt_Suc)
    have "appends (\<lambda>st. guardR ?range (LoopCountRange i) (
        guardR (length steps \<noteq> 0) (LoopEmpty i) (
        guardR (\<not> (u \<noteq> None \<and> \<not> js_eq count (Fin 1))) (UnitCountNotOne i) (
        bindR (assertUniqueChildren (map nested_id steps) (if u \<noteq> None then AtUnit i else AtLoop i)) (\<lambda>_.
        ?body st)))))
      (?range \<and> length steps \<noteq> 0 \<and> \<not> (u \<noteq> None \<and> \<not> js_eq count (Fin 1)) \<and>
       distinct (map nested_id steps) \<and> ?valid) (plan_item item)"
      by (intro appends_guard appends_check children_check body)
    then have f: "appends (expand_item item) (?range \<and> length steps \<noteq> 0 \<and>
       \<not> (u \<noteq> None \<and> \<not> js_eq count (Fin 1)) \<and> distinct (map nested_id steps) \<and> ?valid) (plan_item item)"
      unfolding appends_def Item Loop expand_item.simps .
    have one: "\<exists>n \<in> {1..1000}. Fin 1 = js_int (int n)" by (rule bexI [of _ 1]) simp_all
    have "list_all (\<lambda>iteration. Q) [1..<js_nat count + 1] \<longleftrightarrow> Q" if "\<exists>n \<in> {1..1000}. count = js_int (int n)" for Q
      using that by (auto simp: list_all_iff)
    with one have "(?range \<and> length steps \<noteq> 0 \<and> \<not> (u \<noteq> None \<and> \<not> js_eq count (Fin 1)) \<and>
        distinct (map nested_id steps) \<and> ?valid) = valid_item item"
      unfolding count_in_range by (auto simp: Item Loop valid_unit_def js_eq_def simp del: upt_Suc)
    with f show ?thesis by (simp only:)
  qed
qed

lemma appends_items:
  "appends (\<lambda>st. expand_items seen st items)
     (distinct (map item_id items) \<and> seen \<inter> item_id ` set items = {} \<and> list_all valid_item items)
     (concat (map plan_item items))"
proof (induction items arbitrary: seen)
  case Nil
  then show ?case using appends_nothing by (simp add: appends_def)
next
  case (Cons item items)
  have "appends (\<lambda>st. guardR (item_id item \<notin> seen) (DuplicateItemId (item_id item)) (
      bindR (expand_item item st) (\<lambda>st1. expand_items (insert (item_id item) seen) st1 items)))
      (item_id item \<notin> seen \<and> valid_item item \<and> distinct (map item_id items) \<and>
       insert (item_id item) seen \<inter> item_id ` set items = {} \<and> list_all valid_item items)
      (plan_item item @ concat (map plan_item items))"
    by (intro appends_guard appends_bind appends_item Cons.IH)
  then show ?case by (auto elim!: appends_cong simp: appends_def)
qed

text \<open>
  C2: The execution plan is the plain expansion of the script. A plan is returned exactly
  when item ids are distinct, every item is valid (conditions have a usable check, loops
  run 1 to 1000 times and are not empty, Units run once, children have distinct ids, only
  Units are nested, serial waits have a pattern), no execution id occurs twice and there are
  at most 10000 steps; it then lists the steps of the items in order, a loop's body once per
  iteration, both branches of a condition after its check.
\<close>

theorem execution_plan_is_expansion:
  "buildExecutionPlan items = Inr plan \<longleftrightarrow>
     distinct (map item_id items) \<and> list_all valid_item items \<and>
     plan = concat (map plan_item items) \<and> distinct (map executionId plan) \<and> length plan \<le> 10000"
proof -
  have start: "good ([], {})" by (simp add: good_def)
  have e: "ext ([], {}) xs = (xs, executionId ` set xs)" for xs by (simp add: ext_def)
  have g: "good (xs, executionId ` set xs) \<longleftrightarrow> distinct (map executionId xs) \<and> length xs \<le> 10000" for xs
    by (simp add: good_def)
  have "expand_items {} ([], {}) items = Inr (plan, ids) \<longleftrightarrow>
      distinct (map item_id items) \<and> list_all valid_item items \<and>
      plan = concat (map plan_item items) \<and> ids = executionId ` set plan \<and>
      distinct (map executionId plan) \<and> length plan \<le> 10000" for ids
    using appendsD [OF appends_items [of "{}" items] start, of "(plan, ids)"]
    unfolding e g by blast
  then show ?thesis
    by (auto simp: buildExecutionPlan_def bindR_Inr_iff guardR_Inr_iff)
qed


lemma plan_length_nested: "valid_child child \<Longrightarrow> length (plan_nested c child) = countNested child"
proof (cases child)
  case (Loop i n steps u)
  assume "valid_child child"
  with Loop obtain name where u: "u = Some name" and steps: "list_all valid_step steps"
    by (auto simp: valid_unit_def)
  from steps have "length (concat (map (case_TestNestedItem
      (\<lambda>s. [primitive s (unit_context i name c)]) (\<lambda>_ _ _ _. [])) steps)) = sum_list (map countNested steps)"
    by (induction steps) (auto elim: valid_step.elims)
  with Loop u show ?thesis by simp
qed simp

lemma plan_length_children:
  "list_all valid_child cs \<Longrightarrow> length (concat (map (plan_nested c) cs)) = sum_list (map countNested cs)"
  by (induction cs) (auto simp: plan_length_nested)

text \<open>How often the commands of an item run.\<close>

fun repetitions :: "TestScriptItem \<Rightarrow> nat" where
  "repetitions (Item (Loop i count steps None)) = js_nat count"
| "repetitions _ = 1"

lemma length_concat_map: "length (concat (map f xs)) = sum_list (map (\<lambda>x. length (f x)) xs)"
  by (induction xs) simp_all

lemma plan_length_item:
  assumes "valid_item item"
  shows "length (plan_item item) = repetitions item * count_item item"
proof -
  consider (plain) i count steps where "item = Item (Loop i count steps None)"
    | (step) s where "item = Item (Step s)"
    | (unit) i count steps name where "item = Item (Loop i count steps (Some name))"
    | (cond) i check th el where "item = Condition i check th el"
    by (rule repetitions.cases [of item]) auto
  then show ?thesis
  proof cases
    case plain
    with assms have "length (concat (map (plan_nested c) steps)) = sum_list (map countNested steps)" for c
      by (intro plan_length_children) simp
    then have "length (concat (map (\<lambda>iteration. concat (map (plan_nested (loop_context i (js_nat count) iteration)) steps))
        xs)) = sum_list (map (\<lambda>_. sum_list (map countNested steps)) xs)" for xs
      by (induction xs) simp_all
    then have "length (plan_item item) = sum_list (map (\<lambda>_. sum_list (map countNested steps)) [1..<js_nat count + 1])"
      unfolding plain by (simp del: upt_Suc)
    with plain show ?thesis by (simp add: sum_list_triv del: upt_Suc)
  next
    case step
    then show ?thesis by simp
  next
    case unit
    with assms plan_length_nested [of "Loop i count steps (Some name)" no_context] show ?thesis by simp
  next
    case cond
    with assms show ?thesis by (simp add: plan_length_children)
  qed
qed

lemma countScriptCommands_sum: "countScriptCommands items = sum_list (map count_item items)"
proof -
  have "foldl (\<lambda>total item. total + count_item item) n items = n + sum_list (map count_item items)" for n
    by (induction items arbitrary: n) simp_all
  then show ?thesis by (simp add: countScriptCommands_def)
qed

text \<open>
  The length of the plan is what the editor announces. A plan has one step per command
  of each item, times the loop count of a plain loop; a script whose loops all run once has
  exactly \<open>countScriptCommands\<close> steps.
\<close>

lemma execution_plan_length:
  assumes "buildExecutionPlan items = Inr plan"
  shows "length plan = sum_list (map (\<lambda>item. repetitions item * count_item item) items) \<and>
    (list_all (\<lambda>item. repetitions item = 1) items \<longrightarrow> length plan = countScriptCommands items)"
proof -
  have start: "good ([], {})" by (simp add: good_def)
  from assms obtain ids where "expand_items {} ([], {}) items = Inr (plan, ids)"
    by (auto simp: buildExecutionPlan_def bindR_Inr_iff guardR_Inr_iff)
  then have "list_all valid_item items" and plan: "plan = concat (map plan_item items)"
    using appendsD [OF appends_items [of "{}" items] start, of "(plan, ids)"] by (auto simp: ext_def)
  then have l: "length plan = sum_list (map (\<lambda>item. repetitions item * count_item item) items)"
    unfolding plan length_concat_map by (induction items) (simp_all add: plan_length_item)
  moreover have "sum_list (map (\<lambda>item. repetitions item * count_item item) items) = sum_list (map count_item items)"
    if "list_all (\<lambda>item. repetitions item = 1) items"
    using that by (induction items) simp_all
  ultimately show ?thesis by (simp add: countScriptCommands_sum)
qed

definition delay_step :: "string \<Rightarrow> TestStep" where
  "delay_step i = \<lparr>stepId = i, stepParams = DelayParams (Fin 5), stepAssert = None, stepContinueOnError = False\<rparr>"

lemma execution_plan_length_witness:
  "case buildExecutionPlan [Item (Loop ''l'' (Fin 3) [Step (delay_step ''a''), Step (delay_step ''b'')] None)] of
     Inr plan \<Rightarrow> length plan = 6 | Inl _ \<Rightarrow> False"
proof -
  let ?items = "[Item (Loop ''l'' (Fin 3) [Step (delay_step ''a''), Step (delay_step ''b'')] None)]"
  have "case buildExecutionPlan ?items of Inr plan \<Rightarrow> True | Inl _ \<Rightarrow> False" by code_simp
  then obtain plan where plan: "buildExecutionPlan ?items = Inr plan" by (auto split: sum.splits)
  from execution_plan_length [OF plan] have "length plan = 6" by simp
  with plan show ?thesis by simp
qed

subsection \<open>Nesting and removing\<close>

lemma filter_append_new:
  "\<not> list_ex (\<lambda>n. nested_id n = i) xs \<Longrightarrow> filter (\<lambda>n. nested_id n \<noteq> i) xs = xs"
  by (rule filter_True) (auto simp: list_ex_iff)

lemma find_index_update:
  assumes "find_index (\<lambda>i. item_id i = c) items = Some k" "item_id x = item_id (items ! k)"
  shows "find_index (\<lambda>i. item_id i = c) (items[k := x]) = Some k"
proof -
  have k: "k < length items" using find_index_Some [OF assms(1)] by simp
  have "map item_id (items[k := x]) = map item_id items"
    using assms(2) k by (simp add: map_update list_update_id [of "map item_id items", symmetric] del: list_update_id)
      (metis list_update_id nth_map)
  then have "find_index (\<lambda>i. item_id i = c) (items[k := x]) = find_index (\<lambda>i. item_id i = c) items"
    by (rule find_index_cong) simp
  with assms show ?thesis by simp
qed

text \<open>
  Removing what was nested gives the workflow back. An item copied into a loop body or a
  branch of a condition, and then removed there by its id, leaves the script as it was.
\<close>

lemma remove_undoes_nest:
  assumes "nestItemInScript items item containerId branch None = Some items'"
  shows "removeNestedItemFromScript items' containerId branch (nested_id item) = Some items"
proof -
  from assms obtain k where k: "find_index (\<lambda>i. item_id i = containerId) items = Some k"
    by (auto simp: nestItemInScript_def nest_source_def split: if_splits option.splits)
  note len = find_index_Some [OF k]
  show ?thesis
  proof (cases "items ! k")
    case (Condition i check th el)
    then have "items[k := Condition i check th el] = items" by (metis list_update_id)
    moreover have "item_id (Condition i check th' el') = item_id (items ! k)" for th' el'
      using Condition by simp
    note find_index_update [OF k this]
    ultimately show ?thesis
      using assms k len Condition
      by (cases branch)
        (auto simp: nestItemInScript_def nest_source_def removeNestedItemFromScript_def filter_append_new
          split: if_splits)
  next
    case (Item n)
    then obtain i ci cs where n: "items ! k = Item (Loop i ci cs None)"
      using assms k by (auto simp: nestItemInScript_def nest_source_def
          split: if_splits TestNestedItem.splits option.splits)
    then have "items[k := Item (Loop i ci cs None)] = items" by (metis list_update_id)
    moreover have "item_id (Item (Loop i ci cs' None)) = item_id (items ! k)" for cs'
      using n by simp
    note find_index_update [OF k this]
    ultimately show ?thesis
      using assms k len n
      by (auto simp: nestItemInScript_def nest_source_def removeNestedItemFromScript_def filter_append_new
          split: if_splits)
  qed
qed


definition sample_loop :: "TestNestedItem list \<Rightarrow> TestScriptItem" where
  "sample_loop steps = Item (Loop ''l'' (Fin 2) steps None)"

lemma remove_undoes_nest_witness:
  "removeNestedItemFromScript [Item (Step (delay_step ''a'')), sample_loop [Step (delay_step ''c''), Step (delay_step ''b'')]]
     ''l'' Body ''b'' = Some [Item (Step (delay_step ''a'')), sample_loop [Step (delay_step ''c'')]]"
proof -
  have "nestItemInScript [Item (Step (delay_step ''a'')), sample_loop [Step (delay_step ''c'')]]
      (Step (delay_step ''b'')) ''l'' Body None =
    Some [Item (Step (delay_step ''a'')), sample_loop [Step (delay_step ''c''), Step (delay_step ''b'')]]"
    by code_simp
  from remove_undoes_nest [OF this] show ?thesis by (simp add: delay_step_def)
qed

lemma sum_update:
  "k < length xs \<Longrightarrow> f y = f (xs ! k) + (n :: nat) \<Longrightarrow> sum_list (map f (xs[k := y])) = sum_list (map f xs) + n"
proof (induction xs arbitrary: k)
  case (Cons x xs)
  then show ?case by (cases k) auto
qed simp

lemma sum_remove_at:
  "k < length xs \<Longrightarrow> sum_list (map f (remove_at k xs)) + f (xs ! k) = (sum_list (map f xs) :: nat)"
proof (induction xs arbitrary: k)
  case (Cons x xs)
  show ?case
  proof (cases k)
    case (Suc j)
    with Cons.IH [of j] Cons.prems show ?thesis by (simp add: remove_at_def)
  qed (simp add: remove_at_def)
qed simp

lemma count_nest:
  assumes "nestItemInScript items item containerId branch src = Some items'"
  obtains nxt n where "nest_source items item src = Some (nxt, n)"
    "sum_list (map count_item items') = sum_list (map count_item nxt) + countNested n"
proof -
  from assms obtain nxt n k where src: "nest_source items item src = Some (nxt, n)"
    and k: "find_index (\<lambda>i. item_id i = containerId) nxt = Some k"
    by (auto simp: nestItemInScript_def split: if_splits option.splits)
  note len = find_index_Some [OF k]
  have "sum_list (map count_item items') = sum_list (map count_item nxt) + countNested n"
  proof (cases "nxt ! k")
    case (Condition i check th el)
    with assms src k len show ?thesis
      by (cases branch) (auto simp: nestItemInScript_def sum_update split: if_splits)
  next
    case (Item m)
    with assms src k len show ?thesis
      by (auto simp: nestItemInScript_def sum_update split: if_splits TestNestedItem.splits option.splits)
  qed
  with src that show thesis by blast
qed

text \<open>
  Moving an item into a loop or a branch of a condition loses and duplicates
  nothing: the script's number of commands stays the same when a top-level item is moved,
  and grows by the item's commands when a new item is copied in.
\<close>

lemma nesting_conserves_commands:
  assumes "nestItemInScript items item containerId branch src = Some items'"
  shows "countScriptCommands items' =
    countScriptCommands items + (if src = None \<or> src = Some [] then countNested item else 0)"
proof -
  obtain nxt n where n: "nest_source items item src = Some (nxt, n)"
    "sum_list (map count_item items') = sum_list (map count_item nxt) + countNested n"
    using count_nest [OF assms] .
  show ?thesis
  proof (cases "src = None \<or> src = Some []")
    case True
    with n show ?thesis by (simp add: nest_source_def countScriptCommands_sum)
  next
    case False
    with n(1) obtain k where k: "find_index (\<lambda>i. Some (item_id i) = src) items = Some k"
      and item: "items ! k = Item n" and "nxt = remove_at k items"
      by (auto simp: nest_source_def split: if_splits option.splits TestScriptItem.splits)
    moreover have "count_item (Item n) = countNested n" by (cases n) simp_all
    ultimately have "sum_list (map count_item nxt) + countNested n = sum_list (map count_item items)"
      using sum_remove_at [of k items count_item] find_index_Some [OF k] by simp
    with n(2) False show ?thesis by (auto simp: countScriptCommands_sum)
  qed
qed

lemma nesting_conserves_commands_witness:
  "countScriptCommands [sample_loop [Step (delay_step ''c''), Step (delay_step ''a'')]] =
   countScriptCommands [Item (Step (delay_step ''a'')), sample_loop [Step (delay_step ''c'')]]"
proof -
  have "nestItemInScript [Item (Step (delay_step ''a'')), sample_loop [Step (delay_step ''c'')]]
      (Step (delay_step ''x'')) ''l'' Body (Some ''a'') =
    Some [sample_loop [Step (delay_step ''c''), Step (delay_step ''a'')]]"
    by code_simp
  from nesting_conserves_commands [OF this] show ?thesis by simp
qed

text \<open>
  Changing a step's type keeps exactly the assertion fields that mean something for the
  new type: the result has each allowed field as it was and no other, it is absent when
  nothing is left, and doing it twice changes nothing.
\<close>

lemma compatible_assertion_keeps_allowed:
  "let r = compatibleAssertionForStepType (Some a) t;
       n = (case r of None \<Rightarrow> empty_assertion | Some n \<Rightarrow> n);
       serial = (t = SerialWait \<or> t = SerialExpect)
   in r \<noteq> Some empty_assertion \<and> compatibleAssertionForStepType r t = r \<and>
      n = \<lparr>asrContinueOnError = asrContinueOnError a,
           asrCurrentRange = (if t = AdcRead then asrCurrentRange a else None),
           asrContains = (if serial then asrContains a else None),
           asrRegex = (if serial then asrRegex a else None),
           asrExitCode = (if t = SerialExpect then asrExitCode a else None),
           asrPinDirection = (if t = GpioAssert then asrPinDirection a else None),
           asrPinValue = (if t = GpioAssert then asrPinValue a else None),
           asrPeakCurrentMaxA = (if t = Capture then asrPeakCurrentMaxA a else None),
           asrEnergyMaxJ = (if t = Capture then asrEnergyMaxJ a else None)\<rparr>"
proof -
  let ?pick = "\<lambda>a. foldl (\<lambda>n key. copy_field a key n) (if asrContinueOnError a \<noteq> None
      then empty_assertion\<lparr>asrContinueOnError := asrContinueOnError a\<rparr> else empty_assertion)
    (ASSERTION_FIELDS_BY_STEP t)"
  let ?serial = "t = SerialWait \<or> t = SerialExpect"
  have pick: "?pick b = \<lparr>asrContinueOnError = asrContinueOnError b,
           asrCurrentRange = (if t = AdcRead then asrCurrentRange b else None),
           asrContains = (if ?serial then asrContains b else None),
           asrRegex = (if ?serial then asrRegex b else None),
           asrExitCode = (if t = SerialExpect then asrExitCode b else None),
           asrPinDirection = (if t = GpioAssert then asrPinDirection b else None),
           asrPinValue = (if t = GpioAssert then asrPinValue b else None),
           asrPeakCurrentMaxA = (if t = Capture then asrPeakCurrentMaxA b else None),
           asrEnergyMaxJ = (if t = Capture then asrEnergyMaxJ b else None)\<rparr>" for b
    by (cases t; cases "asrCurrentRange b") (simp_all add: empty_assertion_def)
  have eq: "compatibleAssertionForStepType (Some b) t =
      (if ?pick b \<noteq> empty_assertion then Some (?pick b) else None)" for b
    by (simp add: compatibleAssertionForStepType_def Let_def)
  have twice: "?pick (?pick b) = ?pick b" for b unfolding pick by simp
  show ?thesis
  proof (cases "?pick a = empty_assertion")
    case True
    then show ?thesis unfolding Let_def eq using pick [of a]
      by (simp add: compatibleAssertionForStepType_def)
  next
    case False
    then have "compatibleAssertionForStepType (Some a) t = Some (?pick a)" using eq by simp
    moreover have "compatibleAssertionForStepType (Some (?pick a)) t = Some (?pick a)"
      using eq [of "?pick a"] False twice by simp
    ultimately show ?thesis unfolding Let_def using False pick [of a] by simp
  qed
qed

end
