(* ===== verification/Test_Assertions.thy ===== *)
theory Test_Assertions
  imports Test_Script Serial_Task
begin

text \<open>
  The evaluation of step assertions (\<open>web/src/lib/testAssertions.ts\<close>). The texts shown to the
  user are constructors that carry their values; a regular expression engine is an argument:
  \<open>regex pattern\<close> is \<open>None\<close> for a pattern that does not compile and tells otherwise whether a
  text matches.
\<close>

record AssertionContext =
  ctxAdcValueUa :: "jsnum option"
  ctxSerialOutput :: "string option"
  ctxExitCode :: "jsnum option"
  ctxPinDirection :: "string option"
  ctxPinValue :: "int option"
  ctxPeakCurrentUa :: "jsnum option"
  ctxEnergyUj :: "jsnum option"

definition empty_ctx :: AssertionContext where
  "empty_ctx = \<lparr>ctxAdcValueUa = None, ctxSerialOutput = None, ctxExitCode = None, ctxPinDirection = None,
     ctxPinValue = None, ctxPeakCurrentUa = None, ctxEnergyUj = None\<rparr>"

datatype assertion_detail =
    NoAssertion
  | Unavailable string
  | CurrentOutside jsnum jsnum jsnum
  | CurrentInRange jsnum
  | NotContains string
  | ContainsText string
  | NoRegexMatch string
  | RegexMatch string
  | InvalidRegex string
  | ExitCodeIs jsnum "jsnum option"
  | DirectionIs string "string option"
  | ValueIs int "nat option"
  | PeakExceeds jsnum jsnum
  | PeakWithin jsnum
  | EnergyExceeds jsnum jsnum
  | EnergyWithin jsnum

type_synonym check_result = "bool \<times> assertion_detail"

text \<open>Multiplication by a million: amperes to microamperes, joules to microjoules.\<close>

fun micro :: "jsnum \<Rightarrow> jsnum" where
  "micro (Fin r) = Fin (r * 1000000)"
| "micro x = x"

fun direction_name :: "PinDirection \<Rightarrow> string" where
  "direction_name DirInput = ''input''"
| "direction_name DirOutput = ''output''"

fun includes_text :: "string \<Rightarrow> string \<Rightarrow> bool" where
  "includes_text [] needle = (needle = [])"
| "includes_text (c # cs) needle = (starts_with needle (c # cs) \<or> includes_text cs needle)"

text \<open>One assertion field: nothing when it is not set, a failure when its value is missing.\<close>

definition check_field ::
  "'a option \<Rightarrow> 'v option \<Rightarrow> string \<Rightarrow> ('a \<Rightarrow> 'v \<Rightarrow> check_result) \<Rightarrow> check_result list" where
  "check_field wanted actual name check =
     (case wanted of None \<Rightarrow> []
      | Some w \<Rightarrow> (case actual of None \<Rightarrow> [(False, Unavailable name)] | Some v \<Rightarrow> [check w v]))"

definition check_current :: "jsnum \<times> jsnum \<Rightarrow> jsnum \<Rightarrow> check_result" where
  "check_current bounds ua =
     (if js_lt ua (micro (fst bounds)) \<or> js_lt (micro (snd bounds)) ua
      then (False, CurrentOutside ua (fst bounds) (snd bounds)) else (True, CurrentInRange ua))"

definition check_contains :: "string \<Rightarrow> string \<Rightarrow> check_result" where
  "check_contains wanted text =
     (if \<not> includes_text (strip_ansi text) wanted then (False, NotContains wanted) else (True, ContainsText wanted))"

definition check_regex :: "(string \<Rightarrow> (string \<Rightarrow> bool) option) \<Rightarrow> string \<Rightarrow> string \<Rightarrow> check_result" where
  "check_regex regex pattern text =
     (if length pattern = 0 \<or> length pattern > 500 then (False, InvalidRegex pattern)
      else case regex pattern of
        None \<Rightarrow> (False, InvalidRegex pattern)
      | Some test \<Rightarrow> if \<not> test (strip_ansi text) then (False, NoRegexMatch pattern) else (True, RegexMatch pattern))"

definition check_exit :: "jsnum \<Rightarrow> jsnum \<Rightarrow> check_result" where
  "check_exit wanted actual =
     (if \<not> js_eq actual wanted then (False, ExitCodeIs actual (Some wanted)) else (True, ExitCodeIs actual None))"

definition check_direction :: "PinDirection \<Rightarrow> string \<Rightarrow> check_result" where
  "check_direction wanted direction =
     (if direction \<noteq> direction_name wanted then (False, DirectionIs direction (Some (direction_name wanted)))
      else (True, DirectionIs direction None))"

definition check_value :: "nat \<Rightarrow> int \<Rightarrow> check_result" where
  "check_value wanted actual =
     (if actual \<noteq> int wanted then (False, ValueIs actual (Some wanted)) else (True, ValueIs actual None))"

definition check_peak :: "jsnum \<Rightarrow> jsnum \<Rightarrow> check_result" where
  "check_peak maximumA peakUa =
     (if js_lt (micro maximumA) peakUa then (False, PeakExceeds peakUa maximumA) else (True, PeakWithin peakUa))"

definition check_energy :: "jsnum \<Rightarrow> jsnum \<Rightarrow> check_result" where
  "check_energy maximumJ energyUj =
     (if js_lt (micro maximumJ) energyUj then (False, EnergyExceeds energyUj maximumJ) else (True, EnergyWithin energyUj))"

definition assertion_checks ::
  "(string \<Rightarrow> (string \<Rightarrow> bool) option) \<Rightarrow> StepAssertion \<Rightarrow> AssertionContext \<Rightarrow> check_result list" where
  "assertion_checks regex a ctx =
     check_field (asrCurrentRange a) (ctxAdcValueUa ctx) ''current'' check_current @
     check_field (asrContains a) (ctxSerialOutput ctx) ''serial output'' check_contains @
     check_field (asrRegex a) (ctxSerialOutput ctx) ''serial output'' (check_regex regex) @
     check_field (asrExitCode a) (ctxExitCode ctx) ''exit code'' check_exit @
     check_field (asrPinDirection a) (ctxPinDirection ctx) ''GPIO direction'' check_direction @
     check_field (asrPinValue a) (ctxPinValue ctx) ''GPIO value'' check_value @
     check_field (asrPeakCurrentMaxA a) (ctxPeakCurrentUa ctx) ''peak current'' check_peak @
     check_field (asrEnergyMaxJ a) (ctxEnergyUj ctx) ''energy'' check_energy"

type_synonym AssertionResult = "bool \<times> assertion_detail list"

definition evaluateAssertion ::
  "(string \<Rightarrow> (string \<Rightarrow> bool) option) \<Rightarrow> StepAssertion option \<Rightarrow> AssertionContext \<Rightarrow> AssertionResult" where
  "evaluateAssertion regex assertion ctx =
     (case assertion of None \<Rightarrow> (True, [NoAssertion])
      | Some a \<Rightarrow>
          let results = assertion_checks regex a ctx; failures = filter (\<lambda>r. \<not> fst r) results
          in if results = [] then (True, [NoAssertion])
             else (failures = [], map snd (if failures \<noteq> [] then failures else results)))"

lemma includes_text_iff: "includes_text s needle \<longleftrightarrow> (\<exists>a b. s = a @ needle @ b)"
proof (induction s)
  case (Cons c cs)
  have "starts_with needle (c # cs) \<longleftrightarrow> (\<exists>b. c # cs = needle @ b)"
    by (metis starts_with_iff)
  then show ?case by (simp add: Cons.IH) (metis Cons_eq_append_conv append_Cons append_Nil)
qed simp

lemma check_field_all:
  "list_all fst (check_field wanted actual name check) \<longleftrightarrow>
    (case wanted of None \<Rightarrow> True | Some w \<Rightarrow> (\<exists>v. actual = Some v \<and> fst (check w v)))"
  by (auto simp: check_field_def split: option.splits)

lemma evaluateAssertion_passes:
  "fst (evaluateAssertion regex assertion ctx) \<longleftrightarrow>
    (case assertion of None \<Rightarrow> True | Some a \<Rightarrow> list_all fst (assertion_checks regex a ctx))"
  by (auto simp: evaluateAssertion_def Let_def filter_empty_conv list_all_iff split: option.splits)

lemma regex_passes:
  "fst (check_regex regex p out) \<longleftrightarrow>
    (\<exists>test. p \<noteq> [] \<and> length p \<le> 500 \<and> regex p = Some test \<and> test (strip_ansi out))"
  by (cases "regex p") (simp_all add: check_regex_def not_le)

text \<open>
  An assertion passes exactly when everything it asks for was observed and holds. For each
  field that is set there is a value, the current lies in its range (in microamperes), the
  output without terminal sequences contains the text and matches the valid, non-empty
  pattern of at most 500 characters, exit code, pin direction and pin value are the expected
  ones, and peak current and energy do not exceed their limits.
\<close>

lemma assertion_passes_iff:
  "fst (evaluateAssertion regex (Some a) ctx) \<longleftrightarrow>
     (case asrCurrentRange a of None \<Rightarrow> True | Some (lo, hi) \<Rightarrow>
        \<exists>ua. ctxAdcValueUa ctx = Some ua \<and> \<not> js_lt ua (micro lo) \<and> \<not> js_lt (micro hi) ua) \<and>
     (case asrContains a of None \<Rightarrow> True | Some t \<Rightarrow>
        \<exists>out x y. ctxSerialOutput ctx = Some out \<and> strip_ansi out = x @ t @ y) \<and>
     (case asrRegex a of None \<Rightarrow> True | Some p \<Rightarrow>
        \<exists>out test. ctxSerialOutput ctx = Some out \<and> p \<noteq> [] \<and> length p \<le> 500 \<and>
          regex p = Some test \<and> test (strip_ansi out)) \<and>
     (case asrExitCode a of None \<Rightarrow> True | Some k \<Rightarrow> \<exists>e. ctxExitCode ctx = Some e \<and> js_eq e k) \<and>
     (case asrPinDirection a of None \<Rightarrow> True | Some d \<Rightarrow> ctxPinDirection ctx = Some (direction_name d)) \<and>
     (case asrPinValue a of None \<Rightarrow> True | Some v \<Rightarrow> ctxPinValue ctx = Some (int v)) \<and>
     (case asrPeakCurrentMaxA a of None \<Rightarrow> True | Some m \<Rightarrow>
        \<exists>p. ctxPeakCurrentUa ctx = Some p \<and> \<not> js_lt (micro m) p) \<and>
     (case asrEnergyMaxJ a of None \<Rightarrow> True | Some m \<Rightarrow>
        \<exists>e. ctxEnergyUj ctx = Some e \<and> \<not> js_lt (micro m) e)"
proof -
  let ?f = check_field
  have f0: "list_all fst (?f (asrCurrentRange a) (ctxAdcValueUa ctx) ''current'' check_current) \<longleftrightarrow>
      (case asrCurrentRange a of None \<Rightarrow> True | Some (lo, hi) \<Rightarrow>
        \<exists>ua. ctxAdcValueUa ctx = Some ua \<and> \<not> js_lt ua (micro lo) \<and> \<not> js_lt (micro hi) ua)"
    by (cases "asrCurrentRange a") (auto simp: check_field_all check_current_def)
  have f1: "list_all fst (?f (asrContains a) (ctxSerialOutput ctx) ''serial output'' check_contains) \<longleftrightarrow>
      (case asrContains a of None \<Rightarrow> True | Some t \<Rightarrow>
        \<exists>out x y. ctxSerialOutput ctx = Some out \<and> strip_ansi out = x @ t @ y)"
    by (cases "asrContains a") (auto simp: check_field_all check_contains_def includes_text_iff)
  have f2: "list_all fst (?f (asrRegex a) (ctxSerialOutput ctx) ''serial output'' (check_regex regex)) \<longleftrightarrow>
      (case asrRegex a of None \<Rightarrow> True | Some p \<Rightarrow>
        \<exists>out test. ctxSerialOutput ctx = Some out \<and> p \<noteq> [] \<and> length p \<le> 500 \<and>
          regex p = Some test \<and> test (strip_ansi out))"
    by (cases "asrRegex a") (simp_all add: check_field_all regex_passes)
  have f3: "list_all fst (?f (asrExitCode a) (ctxExitCode ctx) ''exit code'' check_exit) \<longleftrightarrow>
      (case asrExitCode a of None \<Rightarrow> True | Some k \<Rightarrow> \<exists>e. ctxExitCode ctx = Some e \<and> js_eq e k)"
    by (cases "asrExitCode a") (auto simp: check_field_all check_exit_def)
  have f4: "list_all fst (?f (asrPinDirection a) (ctxPinDirection ctx) ''GPIO direction'' check_direction) \<longleftrightarrow>
      (case asrPinDirection a of None \<Rightarrow> True | Some d \<Rightarrow> ctxPinDirection ctx = Some (direction_name d))"
    by (cases "asrPinDirection a") (auto simp: check_field_all check_direction_def)
  have f5: "list_all fst (?f (asrPinValue a) (ctxPinValue ctx) ''GPIO value'' check_value) \<longleftrightarrow>
      (case asrPinValue a of None \<Rightarrow> True | Some v \<Rightarrow> ctxPinValue ctx = Some (int v))"
    by (cases "asrPinValue a") (auto simp: check_field_all check_value_def)
  have f6: "list_all fst (?f (asrPeakCurrentMaxA a) (ctxPeakCurrentUa ctx) ''peak current'' check_peak) \<longleftrightarrow>
      (case asrPeakCurrentMaxA a of None \<Rightarrow> True | Some m \<Rightarrow>
        \<exists>p. ctxPeakCurrentUa ctx = Some p \<and> \<not> js_lt (micro m) p)"
    by (cases "asrPeakCurrentMaxA a") (auto simp: check_field_all check_peak_def)
  have f7: "list_all fst (?f (asrEnergyMaxJ a) (ctxEnergyUj ctx) ''energy'' check_energy) \<longleftrightarrow>
      (case asrEnergyMaxJ a of None \<Rightarrow> True | Some m \<Rightarrow>
        \<exists>e. ctxEnergyUj ctx = Some e \<and> \<not> js_lt (micro m) e)"
    by (cases "asrEnergyMaxJ a") (auto simp: check_field_all check_energy_def)
  show ?thesis
    unfolding evaluateAssertion_passes option.case assertion_checks_def list_all_append f0 f1 f2 f3 f4 f5 f6 f7
    by (simp only: conj_assoc)
qed

end
