(* ===== verification/Power_Capture.thy ===== *)
theory Power_Capture
  imports Linkr_Prelude "HOL-Library.AList"
begin

text \<open>
  Power captures (\<open>web/src/lib/powerCapture.ts\<close>, \<open>nominalVoltage\<close> of \<open>power.ts\<close>, the records
  of \<open>types.ts\<close>): the streaming accumulator of a recording, the summary of a finished
  capture, the bounded preview and the capture windows. Offsets, sequence numbers and
  currents are the integers the parsers let through; times, energies and durations are exact
  rationals, so the rounding of double arithmetic is not modelled. A JavaScript object used
  as a dictionary is an association list in insertion order.
\<close>

subsection \<open>Data\<close>

record CaptureReading =
  rdName :: string
  rdSignal :: string
  rdSensorChannel :: "string option"
  rdUnit :: string
  rdEnabled :: bool
  rdRaw :: "int option"
  rdMv :: "int option"
  rdCurrentUa :: int

record CaptureSample =
  smpOffset :: int
  smpTriggered :: bool
  smpSequence :: int
  smpTimeUs :: rat
  smpReadings :: "CaptureReading list"

record PowerCaptureAggregate =
  aggNominalVoltageV :: rat
  aggDurationMs :: rat
  aggAverageCurrentA :: rat
  aggPeakCurrentA :: rat
  aggAveragePowerW :: rat
  aggPeakPowerW :: rat
  aggMilliampHours :: rat
  aggWattHours :: rat

record PowerCapture =
  pcId :: int
  pcTrigger :: string
  pcSource :: string
  pcEdge :: string
  pcThresholdUa :: rat
  pcRateHz :: rat
  pcPreSamples :: int
  pcPostSamples :: int
  pcTriggerOffset :: int
  pcSamples :: "CaptureSample list"
  pcCapturedAt :: int
  pcArchiveId :: "string option"
  pcSampleCount :: "int option"
  pcDroppedSamples :: "int option"
  pcTriggerDeviceTimeUs :: "rat option"
  pcIncomplete :: bool
  pcInterruptionReason :: "string option"
  pcSummaries :: "(string \<times> PowerCaptureAggregate) list option"

subsection \<open>Rails\<close>

definition digit :: "char \<Rightarrow> bool" where
  "digit c \<longleftrightarrow> (48 :: nat) \<le> of_char c \<and> of_char c \<le> (57 :: nat)"

definition decimal :: "string \<Rightarrow> nat" where
  "decimal s = foldl (\<lambda>n c. n * 10 + (of_char c - 48)) 0 s"

text \<open>
  \<open>/^(\d+(?:\.\d+)?)v(?:_|$)/i\<close>. A digit is never a \<open>v\<close> or a point, so taking all digits is
  the only way the match can go on, and a point must be followed by a digit.
\<close>

definition nominalVoltage :: "string \<Rightarrow> rat option" where
  "nominalVoltage name =
     (let whole = takeWhile digit name; rest = dropWhile digit name;
          fraction = (case rest of c # s \<Rightarrow> if c = CHR ''.'' then takeWhile digit s else [] | [] \<Rightarrow> []);
          tail = (if fraction = [] then rest else drop (Suc (length fraction)) rest)
      in if whole = [] then None
         else case tail of
             v # [] \<Rightarrow> if v \<in> {CHR ''v'', CHR ''V''}
               then Some (of_nat (decimal whole) + of_nat (decimal fraction) / 10 ^ length fraction) else None
           | v # u # _ \<Rightarrow> if v \<in> {CHR ''v'', CHR ''V''} \<and> u = CHR ''_''
               then Some (of_nat (decimal whole) + of_nat (decimal fraction) / 10 ^ length fraction) else None
           | [] \<Rightarrow> None)"

definition reading_current :: "CaptureReading \<Rightarrow> rat" where
  "reading_current r = (if rdEnabled r then max 0 (of_int (rdCurrentUa r) / 1000000) else 0)"

definition readingCurrentA :: "CaptureSample \<Rightarrow> string \<Rightarrow> rat" where
  "readingCurrentA sample rail =
     (case find (\<lambda>item. rdName item = rail) (smpReadings sample) of
        None \<Rightarrow> 0 | Some reading \<Rightarrow> reading_current reading)"

subsection \<open>The streaming accumulator\<close>

record RailAccumulator =
  firstTimeUs :: "rat option"
  lastTimeUs :: "rat option"
  previousTimeUs :: "rat option"
  previousCurrentA :: rat
  ampHours :: rat
  peakCurrentA :: rat

type_synonym PowerCaptureAccumulator = "(string \<times> RailAccumulator) list"

definition createPowerCaptureAccumulator :: PowerCaptureAccumulator where
  "createPowerCaptureAccumulator = []"

definition new_rail :: RailAccumulator where
  "new_rail = \<lparr>firstTimeUs = None, lastTimeUs = None, previousTimeUs = None, previousCurrentA = 0,
     ampHours = 0, peakCurrentA = 0\<rparr>"

definition append_rail :: "rat \<Rightarrow> rat \<Rightarrow> RailAccumulator \<Rightarrow> RailAccumulator" where
  "append_rail t currentA rail =
     rail\<lparr>firstTimeUs := (case firstTimeUs rail of None \<Rightarrow> Some t | f \<Rightarrow> f),
          ampHours := (case previousTimeUs rail of
              None \<Rightarrow> ampHours rail
            | Some p \<Rightarrow> if p \<le> t
                then ampHours rail + (previousCurrentA rail + currentA) / 2 * ((t - p) / 3600000000)
                else ampHours rail),
          lastTimeUs := Some t,
          previousTimeUs := Some t,
          previousCurrentA := currentA,
          peakCurrentA := max (peakCurrentA rail) currentA\<rparr>"

definition append_reading :: "rat \<Rightarrow> PowerCaptureAccumulator \<Rightarrow> CaptureReading \<Rightarrow> PowerCaptureAccumulator" where
  "append_reading t rails reading =
     (let rail = (case map_of rails (rdName reading) of None \<Rightarrow> new_rail | Some r \<Rightarrow> r)
      in AList.update (rdName reading) (append_rail t (reading_current reading) rail) rails)"

definition appendPowerCaptureSummary ::
  "PowerCaptureAccumulator \<Rightarrow> CaptureSample list \<Rightarrow> PowerCaptureAccumulator" where
  "appendPowerCaptureSummary accumulator samples =
     foldl (\<lambda>rails sample. foldl (append_reading (smpTimeUs sample)) rails (smpReadings sample))
       accumulator samples"

definition summary_of :: "rat \<Rightarrow> rat \<Rightarrow> rat \<Rightarrow> rat \<Rightarrow> rat \<Rightarrow> PowerCaptureAggregate" where
  "summary_of voltage durationMs ah wh peak =
     (let durationHours = durationMs / 3600000;
          averageCurrentA = (if durationHours > 0 then ah / durationHours else 0)
      in \<lparr>aggNominalVoltageV = voltage, aggDurationMs = durationMs,
          aggAverageCurrentA = averageCurrentA, aggPeakCurrentA = peak,
          aggAveragePowerW = averageCurrentA * voltage, aggPeakPowerW = peak * voltage,
          aggMilliampHours = ah * 1000, aggWattHours = wh\<rparr>)"

definition finalize_rail :: "string \<Rightarrow> RailAccumulator \<Rightarrow> PowerCaptureAggregate" where
  "finalize_rail rail v =
     (let voltage = (case nominalVoltage rail of None \<Rightarrow> 0 | Some u \<Rightarrow> u);
          durationMs = (case (firstTimeUs v, lastTimeUs v) of
            (Some f, Some l) \<Rightarrow> max 0 (l - f) / 1000 | _ \<Rightarrow> 0)
      in summary_of voltage durationMs (ampHours v) (ampHours v * voltage) (peakCurrentA v))"

definition finalizePowerCaptureSummaries ::
  "PowerCaptureAccumulator \<Rightarrow> (string \<times> PowerCaptureAggregate) list" where
  "finalizePowerCaptureSummaries accumulator =
     map (\<lambda>(rail, v). (rail, finalize_rail rail v)) accumulator"

subsection \<open>The summary of a finished capture\<close>

text \<open>The loop over the samples, with the sample before the current one.\<close>

fun summary_loop ::
  "string \<Rightarrow> rat \<Rightarrow> CaptureSample option \<Rightarrow> CaptureSample list \<Rightarrow> rat \<times> rat \<times> rat \<Rightarrow> rat \<times> rat \<times> rat" where
  "summary_loop rail voltage previous [] acc = acc"
| "summary_loop rail voltage previous (current # rest) (ah, wh, peak) =
     (let peak' = max peak (readingCurrentA current rail)
      in summary_loop rail voltage (Some current) rest
           (case previous of None \<Rightarrow> (ah, wh, peak')
            | Some p \<Rightarrow>
                let hours = max 0 (smpTimeUs current - smpTimeUs p) / 3600000000;
                    averageCurrent = (readingCurrentA p rail + readingCurrentA current rail) / 2
                in (ah + averageCurrent * hours, wh + averageCurrent * voltage * hours, peak')))"

definition summarizePowerCapture :: "PowerCapture \<Rightarrow> string \<Rightarrow> PowerCaptureAggregate" where
  "summarizePowerCapture capture rail =
     (case (case pcSummaries capture of None \<Rightarrow> None | Some m \<Rightarrow> map_of m rail) of
        Some precomputed \<Rightarrow> precomputed
      | None \<Rightarrow>
          let voltage = (case nominalVoltage rail of None \<Rightarrow> 0 | Some u \<Rightarrow> u);
              first = (case pcSamples capture of [] \<Rightarrow> 0 | s # _ \<Rightarrow> smpTimeUs s);
              final = (case pcSamples capture of [] \<Rightarrow> first | ss \<Rightarrow> smpTimeUs (last ss))
          in case summary_loop rail voltage None (pcSamples capture) (0, 0, 0) of
               (ah, wh, peak) \<Rightarrow> summary_of voltage (max 0 (final - first) / 1000) ah wh peak)"

subsection \<open>The bounded preview\<close>

definition kept :: "int \<Rightarrow> CaptureSample \<Rightarrow> bool" where
  "kept stride sample \<longleftrightarrow> smpTriggered sample \<or> smpOffset sample mod stride = 0"

text \<open>
  \<open>while (preview.length > maximum)\<close>: every round doubles the stride and keeps the triggered
  samples and those on the stride. The loop does not end when more than \<open>maximum\<close> samples are
  triggered or have offset 0, so it is a partial function.
\<close>

partial_function (option) compact_preview ::
  "nat \<Rightarrow> CaptureSample list \<Rightarrow> int \<Rightarrow> (CaptureSample list \<times> int) option" where
  "compact_preview maximum preview stride =
     (if length preview > maximum
      then compact_preview maximum (filter (kept (stride * 2)) preview) (stride * 2)
      else Some (preview, stride))"

declare compact_preview.simps [code]

definition appendPowerCapturePreview ::
  "CaptureSample list \<Rightarrow> CaptureSample list \<Rightarrow> int \<Rightarrow> nat \<Rightarrow> (CaptureSample list \<times> int) option" where
  "appendPowerCapturePreview preview samples stride maximum =
     (let nextStride = max 1 stride
      in compact_preview maximum (preview @ filter (kept nextStride) samples) nextStride)"

subsection \<open>Capture windows\<close>

definition clampFinite :: "jsnum \<Rightarrow> rat \<Rightarrow> rat \<Rightarrow> rat" where
  "clampFinite value minimum maximum =
     (case value of Fin r \<Rightarrow> min maximum (max minimum r) | _ \<Rightarrow> minimum)"

definition MAX_POWER_CAPTURE_PRE_TRIGGER_SAMPLES :: int where
  "MAX_POWER_CAPTURE_PRE_TRIGGER_SAMPLES = 60000"

definition round_half_up :: "rat \<Rightarrow> int" where
  "round_half_up r = \<lfloor>r + 1 / 2\<rfloor>"

definition normalizedRate :: "jsnum \<Rightarrow> int" where
  "normalizedRate rateHz = round_half_up (clampFinite rateHz 1 1000)"

definition powerCapturePreTriggerLimitSeconds :: "jsnum \<Rightarrow> rat" where
  "powerCapturePreTriggerLimitSeconds rateHz =
     of_int MAX_POWER_CAPTURE_PRE_TRIGGER_SAMPLES / of_int (normalizedRate rateHz)"

definition powerCapturePreTriggerSamples :: "jsnum \<Rightarrow> jsnum \<Rightarrow> int" where
  "powerCapturePreTriggerSamples rateHz durationSeconds =
     (let normalizedRateHz = normalizedRate rateHz
      in min MAX_POWER_CAPTURE_PRE_TRIGGER_SAMPLES
           (max 0 (round_half_up (clampFinite durationSeconds 0
              (powerCapturePreTriggerLimitSeconds (js_int normalizedRateHz)) * of_int normalizedRateHz))))"

record CaptureWindowSummary =
  winRateHz :: int
  winIntervalMs :: rat
  winPreSamples :: int
  winPostSamples :: int
  winPreDurationMs :: rat
  winPostDurationMs :: rat
  winTotalDurationMs :: rat
  winTotalSamples :: int
  winOverCapacity :: bool

definition max_safe :: rat where
  "max_safe = 9007199254740991"

definition calculateCaptureWindow :: "jsnum \<Rightarrow> jsnum \<Rightarrow> jsnum \<Rightarrow> int \<Rightarrow> CaptureWindowSummary" where
  "calculateCaptureWindow rateHz preSamples postSamples capacity =
     (let rate = normalizedRate rateHz;
          pre = \<lfloor>clampFinite preSamples 0 max_safe\<rfloor>;
          post = \<lfloor>clampFinite postSamples 1 max_safe\<rfloor>;
          totalSamples = pre + post + 1
      in \<lparr>winRateHz = rate, winIntervalMs = 1000 / of_int rate,
          winPreSamples = pre, winPostSamples = post,
          winPreDurationMs = of_int pre * 1000 / of_int rate,
          winPostDurationMs = of_int post * 1000 / of_int rate,
          winTotalDurationMs = of_int (pre + post) * 1000 / of_int rate,
          winTotalSamples = totalSamples,
          winOverCapacity = (totalSamples > max 1 capacity)\<rparr>)"

definition calculateTimedCaptureWindow :: "jsnum \<Rightarrow> jsnum \<Rightarrow> jsnum \<Rightarrow> int \<Rightarrow> CaptureWindowSummary" where
  "calculateTimedCaptureWindow rateHz preDurationSeconds recordDurationSeconds capacity =
     (let rate = normalizedRate rateHz;
          pre = powerCapturePreTriggerSamples (js_int rate) preDurationSeconds;
          post = max 1 (round_half_up (clampFinite recordDurationSeconds 0 max_safe * of_int rate))
      in calculateCaptureWindow (js_int rate) (js_int pre) (js_int post) capacity)"

definition calculateManualCaptureWindow :: "jsnum \<Rightarrow> jsnum \<Rightarrow> int \<Rightarrow> CaptureWindowSummary" where
  "calculateManualCaptureWindow rateHz preDurationSeconds capacity =
     (let rate = normalizedRate rateHz;
          pre = powerCapturePreTriggerSamples (js_int rate) preDurationSeconds;
          post = max 1 (capacity - pre - 1)
      in calculateCaptureWindow (js_int rate) (js_int pre) (js_int post) capacity)"

subsection \<open>Battery estimates\<close>

record FiveVoltBatteryEstimate =
  batEfficiency :: rat
  batAvailableEnergyWh :: rat
  batEquivalentCapacityMah :: rat
  batRechargeInputWh :: rat
  batRuntimeHours :: "rat option"
  batRequiredCapacityMah :: "rat option"
  batRepeatCount :: "rat option"

definition estimateFiveVoltBattery ::
  "PowerCaptureAggregate \<Rightarrow> jsnum \<Rightarrow> jsnum \<Rightarrow> jsnum \<Rightarrow> FiveVoltBatteryEstimate" where
  "estimateFiveVoltBattery summary capacityMah efficiencyPercent targetRuntimeHours =
     (let capacity = clampFinite capacityMah 0 100000000;
          efficiency = clampFinite efficiencyPercent 1 100 / 100;
          target = clampFinite targetRuntimeHours 0 1000000;
          availableEnergyWh = capacity / 1000 * 5 * efficiency;
          hasAverageLoad = aggAveragePowerW summary > 0;
          hasRecordedEnergy = aggWattHours summary > 0
      in \<lparr>batEfficiency = efficiency, batAvailableEnergyWh = availableEnergyWh,
          batEquivalentCapacityMah =
            (if hasRecordedEnergy then aggWattHours summary / (5 * efficiency) * 1000 else 0),
          batRechargeInputWh = (if hasRecordedEnergy then aggWattHours summary / efficiency else 0),
          batRuntimeHours =
            (if hasAverageLoad then Some (availableEnergyWh / aggAveragePowerW summary) else None),
          batRequiredCapacityMah =
            (if hasAverageLoad
             then Some (aggAveragePowerW summary * target / (5 * efficiency) * 1000) else None),
          batRepeatCount =
            (if hasRecordedEnergy then Some (availableEnergyWh / aggWattHours summary) else None)\<rparr>)"

subsection \<open>The accumulator computes the summary\<close>

definition one_reading :: "string \<Rightarrow> CaptureSample \<Rightarrow> bool" where
  "one_reading rail sample \<longleftrightarrow> length (filter (\<lambda>r. rdName r = rail) (smpReadings sample)) = 1"

definition or_new :: "RailAccumulator option \<Rightarrow> RailAccumulator" where
  "or_new a = (case a of None \<Rightarrow> new_rail | Some r \<Rightarrow> r)"

lemma or_new_simps [simp]: "or_new None = new_rail" "or_new (Some a) = a"
  by (simp_all add: or_new_def)

definition rail_step :: "string \<Rightarrow> RailAccumulator \<Rightarrow> CaptureSample \<Rightarrow> RailAccumulator" where
  "rail_step rail a sample = append_rail (smpTimeUs sample) (readingCurrentA sample rail) a"

lemma map_of_finalize:
  "map_of (finalizePowerCaptureSummaries rails) rail = map_option (finalize_rail rail) (map_of rails rail)"
  unfolding finalizePowerCaptureSummaries_def by (induction rails) auto

lemma map_of_append_reading:
  "map_of (append_reading t rails r) k =
     (if k = rdName r then Some (append_rail t (reading_current r) (or_new (map_of rails k)))
      else map_of rails k)"
  by (simp add: append_reading_def Let_def update_conv' or_new_def)

lemma map_of_append_readings:
  "map_of (foldl (append_reading t) rails rs) k =
     foldl (\<lambda>a r. Some (append_rail t (reading_current r) (or_new a))) (map_of rails k)
       (filter (\<lambda>r. rdName r = k) rs)"
  by (induction rs arbitrary: rails) (simp_all add: map_of_append_reading)

lemma find_filter: "find P xs = (case filter P xs of [] \<Rightarrow> None | x # _ \<Rightarrow> Some x)"
  by (induction xs) simp_all

lemma one_readingE:
  assumes "one_reading rail sample"
  obtains r where "filter (\<lambda>r. rdName r = rail) (smpReadings sample) = [r]"
    "readingCurrentA sample rail = reading_current r"
proof -
  from assms obtain r where "filter (\<lambda>r. rdName r = rail) (smpReadings sample) = [r]"
    by (auto simp: one_reading_def length_Suc_conv)
  then show ?thesis by (intro that) (simp_all add: readingCurrentA_def find_filter)
qed

lemma map_of_append_sample:
  assumes "one_reading rail sample"
  shows "map_of (foldl (append_reading (smpTimeUs sample)) rails (smpReadings sample)) rail =
    Some (rail_step rail (or_new (map_of rails rail)) sample)"
  using assms by (elim one_readingE) (simp add: map_of_append_readings rail_step_def)

lemma map_of_append_samples:
  assumes "list_all (one_reading rail) samples" "samples \<noteq> []"
  shows "map_of (appendPowerCaptureSummary rails samples) rail =
    Some (foldl (rail_step rail) (or_new (map_of rails rail)) samples)"
  using assms
proof (induction samples arbitrary: rails)
  case (Cons sample samples)
  then show ?case
    by (cases samples) (simp_all add: appendPowerCaptureSummary_def map_of_append_sample)
qed simp

lemma appendPowerCaptureSummary_concat:
  "foldl appendPowerCaptureSummary rails chunks = appendPowerCaptureSummary rails (concat chunks)"
  by (induction chunks arbitrary: rails) (simp_all add: appendPowerCaptureSummary_def)

text \<open>An accumulator that has seen the sample \<open>p\<close> last.\<close>

definition seen :: "string \<Rightarrow> rat \<Rightarrow> CaptureSample \<Rightarrow> RailAccumulator \<Rightarrow> bool" where
  "seen rail first p a \<longleftrightarrow> firstTimeUs a = Some first \<and> lastTimeUs a = Some (smpTimeUs p) \<and>
     previousTimeUs a = Some (smpTimeUs p) \<and> previousCurrentA a = readingCurrentA p rail"

lemma seen_step: "seen rail first p a \<Longrightarrow> seen rail first s (rail_step rail a s)"
  by (simp add: seen_def rail_step_def append_rail_def)

lemma seen_first: "seen rail (smpTimeUs s) s (rail_step rail new_rail s)"
  by (simp add: seen_def rail_step_def append_rail_def new_rail_def)

lemma seen_fold:
  "seen rail first p a \<Longrightarrow> seen rail first (last (p # samples)) (foldl (rail_step rail) a samples)"
proof (induction samples arbitrary: p a)
  case (Cons s samples)
  from Cons.IH [OF seen_step [OF Cons.prems, where s = s]] show ?case by simp
qed simp

lemma step_ampHours:
  assumes "seen rail first p a"
  shows "ampHours (rail_step rail a s) = ampHours a +
    (readingCurrentA p rail + readingCurrentA s rail) / 2 * (max 0 (smpTimeUs s - smpTimeUs p) / 3600000000)"
  using assms by (simp add: seen_def rail_step_def append_rail_def max_def)

lemma summary_loop_fold:
  assumes "seen rail first p a"
  shows "summary_loop rail v (Some p) samples (ampHours a, ampHours a * v, peakCurrentA a) =
    (let z = foldl (rail_step rail) a samples in (ampHours z, ampHours z * v, peakCurrentA z))"
  using assms
proof (induction samples arbitrary: p a)
  case (Cons s samples)
  let ?a = "rail_step rail a s"
  have "ampHours ?a * v = ampHours a * v +
      (readingCurrentA p rail + readingCurrentA s rail) / 2 * v * (max 0 (smpTimeUs s - smpTimeUs p) / 3600000000)"
    by (simp add: step_ampHours [OF Cons.prems, where s = s] algebra_simps)
  moreover have "peakCurrentA ?a = max (peakCurrentA a) (readingCurrentA s rail)"
    by (simp add: rail_step_def append_rail_def)
  ultimately show ?case
    using Cons.IH [OF seen_step [OF Cons.prems, where s = s]]
    by (simp add: Let_def step_ampHours [OF Cons.prems, where s = s])
qed simp

lemma summarizePowerCapture_fold:
  assumes "pcSummaries capture = None" "pcSamples capture = s # ss"
  shows "summarizePowerCapture capture rail = finalize_rail rail (foldl (rail_step rail) new_rail (s # ss))"
proof -
  let ?a = "rail_step rail new_rail s"
  let ?z = "foldl (rail_step rail) ?a ss"
  have a: "seen rail (smpTimeUs s) s ?a" by (rule seen_first)
  have "ampHours ?a = 0" "peakCurrentA ?a = max 0 (readingCurrentA s rail)"
    by (simp_all add: rail_step_def append_rail_def new_rail_def)
  with summary_loop_fold [OF a, of v ss for v]
  have loop: "summary_loop rail v None (s # ss) (0, 0, 0) =
      (ampHours ?z, ampHours ?z * v, peakCurrentA ?z)" for v
    by (simp add: Let_def)
  from seen_fold [OF a] have "firstTimeUs ?z = Some (smpTimeUs s)"
      "lastTimeUs ?z = Some (smpTimeUs (last (s # ss)))" by (simp_all add: seen_def)
  with loop show ?thesis
    by (simp add: assms finalize_rail_def summarizePowerCapture_def Let_def del: summary_loop.simps last.simps)
qed

text \<open>
  C19: The summary a recording builds while it streams is the summary of the finished capture.
  However the samples are cut into chunks, and whatever the accumulator says of other rails,
  the entry of a rail that has one reading in every sample equals \<open>summarizePowerCapture\<close> of
  the whole recording: same energy, same charge, same peak, same duration.
\<close>

theorem streamed_summary_is_batch_summary:
  assumes "list_all (one_reading rail) (concat chunks)" "concat chunks \<noteq> []"
    and "pcSummaries capture = None"
  shows "map_of (finalizePowerCaptureSummaries
           (foldl appendPowerCaptureSummary createPowerCaptureAccumulator chunks)) rail =
    Some (summarizePowerCapture (capture\<lparr>pcSamples := concat chunks\<rparr>) rail)"
proof -
  from assms(2) obtain s ss where ss: "concat chunks = s # ss" by (cases "concat chunks") auto
  from assms(3) summarizePowerCapture_fold [of "capture\<lparr>pcSamples := concat chunks\<rparr>" s ss rail]
    map_of_append_samples [OF assms(1,2), of "[]"]
  show ?thesis
    by (simp add: appendPowerCaptureSummary_concat createPowerCaptureAccumulator_def map_of_finalize ss)
qed

definition sample_reading :: "string \<Rightarrow> int \<Rightarrow> CaptureReading" where
  "sample_reading name ua = \<lparr>rdName = name, rdSignal = [], rdSensorChannel = Some ''current'', rdUnit = ''uA'',
     rdEnabled = True, rdRaw = None, rdMv = Some 0, rdCurrentUa = ua\<rparr>"

definition sample_at_time :: "rat \<Rightarrow> int \<Rightarrow> CaptureSample" where
  "sample_at_time t ua = \<lparr>smpOffset = 0, smpTriggered = False, smpSequence = 0, smpTimeUs = t,
     smpReadings = [sample_reading ''5v_out'' ua]\<rparr>"

definition sample_capture :: PowerCapture where
  "sample_capture = \<lparr>pcId = 1, pcTrigger = ''manual'', pcSource = ''5v_out'', pcEdge = ''rising'',
     pcThresholdUa = 0, pcRateHz = 100, pcPreSamples = 0, pcPostSamples = 2, pcTriggerOffset = 0,
     pcSamples = [sample_at_time 0 200000, sample_at_time 10000 400000], pcCapturedAt = 0,
     pcArchiveId = None, pcSampleCount = None, pcDroppedSamples = None, pcTriggerDeviceTimeUs = None,
     pcIncomplete = False, pcInterruptionReason = None, pcSummaries = None\<rparr>"

theorem streamed_summary_is_batch_summary_witness:
  "map_of (finalizePowerCaptureSummaries (foldl appendPowerCaptureSummary createPowerCaptureAccumulator
       [[sample_at_time 0 200000], [sample_at_time 10000 400000]])) ''5v_out'' =
     Some (summarizePowerCapture
       (sample_capture\<lparr>pcSamples := concat [[sample_at_time 0 200000], [sample_at_time 10000 400000]]\<rparr>) ''5v_out'')"
  by (rule streamed_summary_is_batch_summary)
    (simp_all add: one_reading_def sample_at_time_def sample_reading_def sample_capture_def)

subsection \<open>Bounds of a summary\<close>

definition energy_ok :: "string \<Rightarrow> rat \<Rightarrow> CaptureSample \<Rightarrow> RailAccumulator \<Rightarrow> bool" where
  "energy_ok rail first p a \<longleftrightarrow> seen rail first p a \<and> first \<le> smpTimeUs p \<and> 0 \<le> ampHours a \<and>
     readingCurrentA p rail \<le> peakCurrentA a \<and>
     ampHours a * 3600000000 \<le> peakCurrentA a * (smpTimeUs p - first)"

lemma readingCurrentA_nonneg [simp]: "0 \<le> readingCurrentA s rail"
  by (simp add: readingCurrentA_def reading_current_def split: option.splits)

lemma energy_ok_first: "energy_ok rail (smpTimeUs s) s (rail_step rail new_rail s)"
  using seen_first [of rail s] by (simp add: energy_ok_def rail_step_def append_rail_def new_rail_def)

lemma energy_ok_step:
  assumes "energy_ok rail first p a" "smpTimeUs p \<le> smpTimeUs s"
  shows "energy_ok rail first s (rail_step rail a s)"
proof -
  from assms have a: "seen rail first p a" "first \<le> smpTimeUs p" "0 \<le> ampHours a"
      "readingCurrentA p rail \<le> peakCurrentA a"
      "ampHours a * 3600000000 \<le> peakCurrentA a * (smpTimeUs p - first)"
    by (simp_all add: energy_ok_def)
  let ?d = "smpTimeUs s - smpTimeUs p" and ?k = "peakCurrentA (rail_step rail a s)"
  let ?c = "(readingCurrentA p rail + readingCurrentA s rail) / 2"
  have k: "peakCurrentA a \<le> ?k" "readingCurrentA s rail \<le> ?k"
    by (simp_all add: rail_step_def append_rail_def)
  have amp: "ampHours (rail_step rail a s) * 3600000000 = ampHours a * 3600000000 + ?c * ?d"
    using assms(2) step_ampHours [OF a(1), of s] by (simp add: max_def)
  have "0 \<le> ?c * ?d" using assms(2) by (intro mult_nonneg_nonneg) simp_all
  moreover have "?c * ?d \<le> ?k * ?d" using assms(2) a(4) k by (intro mult_right_mono) simp_all
  moreover have "peakCurrentA a * (smpTimeUs p - first) \<le> ?k * (smpTimeUs p - first)"
    using a(2) k by (intro mult_right_mono) simp_all
  moreover have "?k * (smpTimeUs s - first) = ?k * (smpTimeUs p - first) + ?k * ?d"
    by (simp add: algebra_simps)
  ultimately have "0 \<le> ampHours (rail_step rail a s) * 3600000000"
      "ampHours (rail_step rail a s) * 3600000000 \<le> ?k * (smpTimeUs s - first)"
    using a(3,5) unfolding amp by linarith+
  then show ?thesis
    using a(2) assms(2) k seen_step [OF a(1), where s = s] by (simp add: energy_ok_def)
qed

lemma energy_ok_fold:
  assumes "energy_ok rail first p a" "sorted (map smpTimeUs (p # samples))"
  shows "energy_ok rail first (last (p # samples)) (foldl (rail_step rail) a samples)"
  using assms
proof (induction samples arbitrary: p a)
  case (Cons s samples)
  from Cons.prems have "smpTimeUs p \<le> smpTimeUs s" by simp
  with Cons.prems(1) have "energy_ok rail first s (rail_step rail a s)" by (rule energy_ok_step)
  from Cons.IH [OF this] Cons.prems show ?case by simp
qed simp

lemma nominalVoltage_nonneg: "nominalVoltage name = Some v \<Longrightarrow> 0 \<le> v"
  by (auto simp: nominalVoltage_def Let_def split: list.splits if_splits)

text \<open>
  A summary is physically possible. For samples in time order the average current lies
  between zero and the peak current, and the energy between zero and what the peak power
  would have used in the recorded time.
\<close>

lemma capture_summary_bounds:
  assumes "sorted (map smpTimeUs (pcSamples capture))" "pcSummaries capture = None"
  shows "let r = summarizePowerCapture capture rail
    in 0 \<le> aggAverageCurrentA r \<and> aggAverageCurrentA r \<le> aggPeakCurrentA r \<and>
       0 \<le> aggWattHours r \<and> aggWattHours r \<le> aggPeakPowerW r * (aggDurationMs r / 3600000)"
proof (cases "pcSamples capture")
  case Nil
  then show ?thesis by (simp add: summarizePowerCapture_def assms(2) summary_of_def Let_def)
next
  case (Cons s ss)
  let ?z = "foldl (rail_step rail) (rail_step rail new_rail s) ss"
  let ?d = "smpTimeUs (last (s # ss)) - smpTimeUs s"
  define v where "v = (case nominalVoltage rail of None \<Rightarrow> 0 | Some u \<Rightarrow> u)"
  have v: "0 \<le> v" by (auto simp: v_def nominalVoltage_nonneg split: option.splits)
  from assms(1) Cons have z: "energy_ok rail (smpTimeUs s) (last (s # ss)) ?z"
    by (intro energy_ok_fold energy_ok_first) simp
  then have amp: "0 \<le> ?d" "0 \<le> ampHours ?z" "ampHours ?z * 3600000000 \<le> peakCurrentA ?z * ?d" "0 \<le> peakCurrentA ?z"
    using order_trans [OF readingCurrentA_nonneg] by (auto simp: energy_ok_def)
  have d: "max 0 ?d = ?d" using amp by simp
  have r: "summarizePowerCapture capture rail = summary_of v (?d / 1000) (ampHours ?z) (ampHours ?z * v) (peakCurrentA ?z)"
    using summarizePowerCapture_fold [OF assms(2) Cons] z d
    by (simp add: finalize_rail_def energy_ok_def seen_def v_def Let_def del: last.simps)
  have "ampHours ?z * v * 3600000000 \<le> peakCurrentA ?z * v * ?d"
    using mult_right_mono [OF amp(3) v] by (simp add: algebra_simps)
  with amp v show ?thesis by (simp add: r summary_of_def Let_def field_simps del: last.simps)
qed

lemma capture_summary_bounds_witness:
  "let r = summarizePowerCapture sample_capture ''5v_out''
    in 0 \<le> aggAverageCurrentA r \<and> aggAverageCurrentA r \<le> aggPeakCurrentA r \<and>
       0 \<le> aggWattHours r \<and> aggWattHours r \<le> aggPeakPowerW r * (aggDurationMs r / 3600000)"
  by (rule capture_summary_bounds) (simp_all add: sample_capture_def sample_at_time_def)

subsection \<open>The preview is bounded\<close>

definition pinned_sample :: "CaptureSample \<Rightarrow> bool" where
  "pinned_sample s \<longleftrightarrow> smpTriggered s \<or> smpOffset s = 0"

lemma kept_double: "kept (st * 2) s \<Longrightarrow> kept st s"
  by (auto simp: kept_def mod_eq_0_iff_dvd)

lemma filter_kept_double: "filter (kept (st * 2)) (filter (kept st) xs) = filter (kept (st * 2)) xs"
  using kept_double by (induction xs) auto

lemma kept_far: "\<bar>smpOffset s\<bar> < st \<Longrightarrow> kept st s \<longleftrightarrow> pinned_sample s"
  using dvd_imp_le_int [of "smpOffset s" st]
  by (auto simp: kept_def pinned_sample_def mod_eq_0_iff_dvd)

lemma kept_pinned: "pinned_sample s \<Longrightarrow> kept st s"
  by (auto simp: kept_def pinned_sample_def)

lemma compact_preview_total:
  assumes "\<And>s. s \<in> set xs \<Longrightarrow> \<bar>smpOffset s\<bar> < b" "1 \<le> st"
    and "length (filter pinned_sample xs) \<le> maximum"
  shows "\<exists>st'. st \<le> st' \<and> compact_preview maximum (filter (kept st) xs) st = Some (filter (kept st') xs, st') \<and>
    length (filter (kept st') xs) \<le> maximum"
  using assms(2)
proof (induction "nat (b - st)" arbitrary: st rule: less_induct)
  case less
  show ?case
  proof (cases "length (filter (kept st) xs) > maximum")
    case True
    have "st < b"
    proof (rule ccontr)
      assume "\<not> st < b"
      with assms(1) have "\<And>s. s \<in> set xs \<Longrightarrow> \<bar>smpOffset s\<bar> < st" by force
      then have "filter (kept st) xs = filter pinned_sample xs" by (intro filter_cong) (auto simp: kept_far)
      with True assms(3) show False by simp
    qed
    with less.prems have "nat (b - st * 2) < nat (b - st)" "1 \<le> st * 2" by simp_all
    from less.hyps [OF this] obtain st' where "st * 2 \<le> st'"
        "compact_preview maximum (filter (kept (st * 2)) xs) (st * 2) = Some (filter (kept st') xs, st')"
        "length (filter (kept st') xs) \<le> maximum" by blast
    moreover from True have "compact_preview maximum (filter (kept st) xs) st =
        compact_preview maximum (filter (kept (st * 2)) xs) (st * 2)"
      by (subst compact_preview.simps) (simp add: filter_kept_double del: filter_filter)
    ultimately show ?thesis using less.prems by (intro exI [of _ st']) simp
  next
    case False
    then have "compact_preview maximum (filter (kept st) xs) st = Some (filter (kept st) xs, st)"
      by (subst compact_preview.simps) simp
    with False show ?thesis by (intro exI [of _ st]) simp
  qed
qed

lemma offsets_bounded: "\<exists>b. \<forall>s \<in> set xs. \<bar>smpOffset s\<bar> < (b :: int)"
proof (induction xs)
  case (Cons s xs)
  then obtain b where "\<forall>s \<in> set xs. \<bar>smpOffset s\<bar> < (b :: int)" by blast
  then show ?case by (intro exI [of _ "max b (\<bar>smpOffset s\<bar> + 1)"]) auto
qed simp

text \<open>
  The preview stays bounded and keeps what matters. When no more than \<open>maximum\<close> samples are
  triggered or have offset 0, adding samples to a preview ends, the new preview holds at most
  \<open>maximum\<close> samples, and it is exactly the triggered samples and those on the new stride of all
  the samples seen so far; so no triggered sample is ever dropped.
\<close>

lemma preview_is_bounded_subsample:
  assumes "1 \<le> stride" "length (filter pinned_sample (old @ samples)) \<le> maximum"
  shows "\<exists>st. stride \<le> st \<and>
    appendPowerCapturePreview (filter (kept stride) old) samples stride maximum =
      Some (filter (kept st) (old @ samples), st) \<and>
    length (filter (kept st) (old @ samples)) \<le> maximum \<and>
    filter smpTriggered (filter (kept st) (old @ samples)) = filter smpTriggered (old @ samples)"
proof -
  from offsets_bounded obtain b where "\<forall>s \<in> set (old @ samples). \<bar>smpOffset s\<bar> < b" by blast
  with compact_preview_total [of "old @ samples" b stride maximum] assms
  obtain st where "stride \<le> st"
      "compact_preview maximum (filter (kept stride) (old @ samples)) stride = Some (filter (kept st) (old @ samples), st)"
      "length (filter (kept st) (old @ samples)) \<le> maximum" by blast
  moreover have "filter smpTriggered (filter (kept st) xs) = filter smpTriggered xs" for xs
    by (induction xs) (auto simp: kept_def)
  ultimately show ?thesis
    using assms(1) by (intro exI [of _ st]) (simp add: appendPowerCapturePreview_def)
qed

lemma preview_is_bounded_subsample_witness:
  "\<exists>st. 1 \<le> st \<and>
    appendPowerCapturePreview (filter (kept 1) []) [sample_at_time 0 1] 1 3 =
      Some (filter (kept st) ([] @ [sample_at_time 0 1]), st) \<and>
    length (filter (kept st) ([] @ [sample_at_time 0 1])) \<le> 3 \<and>
    filter smpTriggered (filter (kept st) ([] @ [sample_at_time 0 1])) = filter smpTriggered ([] @ [sample_at_time 0 1])"
  by (rule preview_is_bounded_subsample) (simp_all add: pinned_sample_def)

text \<open>When the loop returns, the pinned samples fit, because no round drops one.\<close>

lemma pinned_kept: "pinned_sample s \<Longrightarrow> kept stride s"
  by (auto simp: pinned_sample_def kept_def)

lemma filter_pinned_kept: "filter pinned_sample (filter (kept stride) xs) = filter pinned_sample xs"
  by (induction xs) (auto simp: pinned_kept)

lemma compact_preview_returns:
  assumes "compact_preview maximum preview stride = Some r"
  shows "length (filter pinned_sample preview) \<le> maximum"
proof (rule compact_preview.raw_induct [OF _ assms, where P = "\<lambda>maximum preview stride r. length (filter pinned_sample preview) \<le> maximum"])
  fix self maximum preview stride r
  assume IH: "\<And>maximum preview stride r. self maximum preview stride = Some r \<Longrightarrow> length (filter pinned_sample preview) \<le> maximum"
    and step: "(if length preview > maximum then self maximum (filter (kept (stride * 2)) preview) (stride * 2)
      else Some (preview, stride)) = Some r"
  show "length (filter pinned_sample preview) \<le> maximum"
  proof (cases "length preview > maximum")
    case True
    with step IH have "length (filter pinned_sample (filter (kept (stride * 2)) preview)) \<le> maximum"
      by (metis (no_types))
    then show ?thesis by (simp add: filter_pinned_kept del: filter_filter)
  next
    case False
    then show ?thesis using length_filter_le [of pinned_sample preview] by linarith
  qed
qed

text \<open>
  C18: When the loop of \<open>appendPowerCapturePreview\<close> ends. It fails to return exactly when more samples
  than the maximum are triggered or have offset 0; otherwise the new preview holds at most \<open>maximum\<close>
  samples and consists of the triggered samples and those on the new stride, of all the samples
  seen so far.
\<close>

theorem preview_loop_ends:
  assumes "1 \<le> stride"
  shows "case appendPowerCapturePreview (filter (kept stride) old) samples stride maximum of
      None \<Rightarrow> maximum < length (filter pinned_sample (old @ samples))
    | Some (preview, st) \<Rightarrow> length (filter pinned_sample (old @ samples)) \<le> maximum \<and> stride \<le> st \<and>
        preview = filter (kept st) (old @ samples) \<and> length preview \<le> maximum \<and>
        filter smpTriggered preview = filter smpTriggered (old @ samples)"
proof (cases "length (filter pinned_sample (old @ samples)) \<le> maximum")
  case True
  from preview_is_bounded_subsample [OF assms this] True show ?thesis by auto
next
  case False
  have "compact_preview maximum (filter (kept stride) (old @ samples)) stride = None"
  proof (rule ccontr)
    assume "compact_preview maximum (filter (kept stride) (old @ samples)) stride \<noteq> None"
    then obtain r where "compact_preview maximum (filter (kept stride) (old @ samples)) stride = Some r" by blast
    from compact_preview_returns [OF this] False show False by (simp add: filter_pinned_kept del: filter_filter filter_append)
  qed
  with False assms show ?thesis by (simp add: appendPowerCapturePreview_def)
qed

text \<open>Three samples, of which one triggered, with room for two; then with room for none.\<close>

theorem preview_loop_ends_witness:
  "appendPowerCapturePreview (filter (kept 1) []) [(sample_at_time 0 1)\<lparr>smpTriggered := True\<rparr>] 1 0 = None \<and>
   appendPowerCapturePreview (filter (kept 1) []) [sample_at_time 0 1] 1 3 \<noteq> None"
  using preview_loop_ends [of 1 0 "[]" "[(sample_at_time 0 1)\<lparr>smpTriggered := True\<rparr>]"]
    preview_loop_ends [of 1 3 "[]" "[sample_at_time 0 1]"]
  by (auto simp: pinned_sample_def split: option.splits if_splits)

subsection \<open>Windows\<close>

lemma normalizedRate_range: "1 \<le> normalizedRate rateHz" "normalizedRate rateHz \<le> 1000"
proof -
  have "1 \<le> clampFinite rateHz 1 1000 \<and> clampFinite rateHz 1 1000 \<le> 1000"
    by (cases rateHz) (auto simp: clampFinite_def)
  then show "1 \<le> normalizedRate rateHz" "normalizedRate rateHz \<le> 1000"
    by (simp_all add: normalizedRate_def round_half_up_def le_floor_iff floor_le_iff)
qed

lemma normalizedRate_fixed: "normalizedRate (js_int (normalizedRate rateHz)) = normalizedRate rateHz"
proof -
  have "clampFinite (js_int (normalizedRate rateHz)) 1 1000 = of_int (normalizedRate rateHz)"
    using normalizedRate_range [of rateHz] by (simp add: clampFinite_def)
  then show ?thesis
    unfolding normalizedRate_def [of "js_int (normalizedRate rateHz)"]
    by (simp add: round_half_up_def floor_eq_iff)
qed

lemma preTriggerSamples_range:
  "0 \<le> powerCapturePreTriggerSamples rateHz d" "powerCapturePreTriggerSamples rateHz d \<le> 60000"
  by (simp_all add: powerCapturePreTriggerSamples_def MAX_POWER_CAPTURE_PRE_TRIGGER_SAMPLES_def Let_def)

text \<open>A manual capture's window fills the capacity it is given and never exceeds it.\<close>

lemma manual_window_fits:
  assumes "60002 \<le> capacity" "capacity \<le> 9007199254740991"
  shows "winTotalSamples (calculateManualCaptureWindow rateHz seconds capacity) = capacity"
    "\<not> winOverCapacity (calculateManualCaptureWindow rateHz seconds capacity)"
proof -
  let ?pre = "powerCapturePreTriggerSamples (js_int (normalizedRate rateHz)) seconds"
  have "clampFinite (js_int ?pre) 0 max_safe = of_int ?pre"
      "clampFinite (js_int (capacity - ?pre - 1)) 1 max_safe = of_int (capacity - ?pre - 1)"
    using assms preTriggerSamples_range [of "js_int (normalizedRate rateHz)" seconds]
    by (simp_all add: clampFinite_def max_safe_def min_def max_def del: of_int_diff)
  moreover have "max 1 (capacity - ?pre - 1) = capacity - ?pre - 1"
    using assms preTriggerSamples_range [of "js_int (normalizedRate rateHz)" seconds] by simp
  ultimately show "winTotalSamples (calculateManualCaptureWindow rateHz seconds capacity) = capacity"
    "\<not> winOverCapacity (calculateManualCaptureWindow rateHz seconds capacity)"
    by (simp_all add: calculateManualCaptureWindow_def calculateCaptureWindow_def Let_def del: of_int_diff)
qed

end
