(* ===== verification/Test_Runner.thy ===== *)
theory Test_Runner
  imports Test_Assertions Power_Capture
begin

text \<open>
  The test runner (\<open>web/src/lib/testRunner.ts\<close>): preconditions, serial waits, command
  execution, captures, the step loop, the cleanup and the summary of a run. The code is
  asynchronous; an \<open>await\<close> is numbered by a clock, and what happens while the n-th one is
  pending (serial text, the abort button, a failing write) and how the board answers are
  arguments, so every interleaving is covered. A computation may throw: it takes the run's
  state to an exception or a value and a new state. Calls of the board and callbacks are
  appended to a trace.
\<close>

subsection \<open>The world a run sees\<close>

datatype run_error =
    BoardMessage string
  | DeviceStateUnavailable
  | BoardNotConnected
  | ChannelNotConnected SerialChannel
  | ChannelDisconnected SerialChannel
  | EmptyPattern string
  | PatternTooLong string
  | InvalidPattern string string
  | CaptureDurationInvalid string
  | GpioCaptureUnsupported string
  | InvalidWaitPattern string
  | InvalidExpectPattern string
  | WaitTimeout string
  | CommandTimeout
  | GpioNotFound string
  | CaptureDurationNotPositive
  | GpioCaptureNotSupported
  | CaptureTimedOut
  | CaptureIncomplete int
  | AbortedMessage
  | BranchNotSelected
  | CleanupFailed "(string \<times> run_error) list"

text \<open>\<open>!!error\<close>: only an empty message is falsy.\<close>

fun truthy :: "run_error \<Rightarrow> bool" where
  "truthy (BoardMessage m) = (m \<noteq> [])"
| "truthy _ = True"

datatype step_exn = RunnerAborted | StepFailed run_error

record CaptureConfig =
  cfgTrigger :: CaptureTrigger
  cfgSource :: string
  cfgThresholdUa :: jsnum
  cfgRateHz :: nat
  cfgPreSamples :: int
  cfgPostSamples :: int
  cfgStopAfterMs :: jsnum

datatype board_call =
    SetPower string bool
  | SetGpio string PinDirection "nat option"
  | ReadPower string
  | SetSwitch string string
  | ArmCapture CaptureConfig
  | TriggerCapture
  | CancelCapture

record SafeGpio =
  gpioName :: string
  gpioPin :: int
  gpioNote :: string
  gpioValue :: int
  gpioDirection :: string

datatype interference =
    Received SerialChannel string
  | AbortPressed
  | WriteRejected string

record world =
  boardPresent :: "nat \<Rightarrow> bool"
  boardConnected :: bool
  callReply :: "nat \<Rightarrow> board_call \<Rightarrow> string option"
  powerReading :: "nat \<Rightarrow> string \<Rightarrow> jsnum"
  gpiosAt :: "nat \<Rightarrow> SafeGpio list"
  capturesAt :: "nat \<Rightarrow> PowerCapture list"
  serialConnected :: "nat \<Rightarrow> SerialChannel \<Rightarrow> bool"
  writeReply :: "nat \<Rightarrow> string option"
  during :: "nat \<Rightarrow> interference list"
  delayMs :: "nat \<Rightarrow> nat"
  matchEnd :: "string \<Rightarrow> (string \<Rightarrow> nat option) option"
  matches :: "string \<Rightarrow> (string \<Rightarrow> bool) option"
  runId :: "nat \<Rightarrow> nat"

subsection \<open>Results and state\<close>

datatype StepStatus = StPass | StFail | StSkip | StError | StAborted

record StepResult =
  resStepId :: string
  resSourceStepId :: string
  resContext :: ExpansionContext
  resConditionOutcome :: "bool option"
  resConditionalSkip :: bool
  resStepType :: StepType
  resStatus :: StepStatus
  resStartedAt :: int
  resFinishedAt :: int
  resDuration :: int
  resError :: "run_error option"
  resAssertion :: "AssertionResult option"
  resAdcValueUa :: "jsnum option"
  resSerialOutput :: "string option"

datatype runner_event =
    BoardCall board_call
  | StepStart string
  | StepResultOut StepResult
  | SerialTx string SerialChannel string
  | SerialRx string SerialChannel string
  | SerialWrite SerialChannel string
  | AutomationActive SerialChannel bool
  | AdcSample string string jsnum
  | PowerCaptureOut string string PowerCapture

record run =
  clock :: nat
  nowMs :: int
  aborted :: bool
  captureActive :: bool
  captureInfrastructureError :: "run_error option"
  serialText :: "SerialChannel \<Rightarrow> string"
  serialCursor :: "SerialChannel \<Rightarrow> nat"
  subscribed :: bool
  touchedRails :: "string list"
  touchedGpios :: "string list"
  activeStepId :: string
  conditionOutcomes :: "string \<Rightarrow> bool option"
  results :: "StepResult list"
  trace :: "runner_event list"

definition init_run :: "int \<Rightarrow> run" where
  "init_run startedAt = \<lparr>clock = 0, nowMs = startedAt, aborted = False, captureActive = False,
     captureInfrastructureError = None, serialText = (\<lambda>_. []), serialCursor = (\<lambda>_. 0), subscribed = False,
     touchedRails = [], touchedGpios = [], activeStepId = ''run'', conditionOutcomes = (\<lambda>_. None),
     results = [], trace = []\<rparr>"

definition SERIAL_BUFFER_LIMIT :: nat where
  "SERIAL_BUFFER_LIMIT = 65536"

definition log_event :: "runner_event \<Rightarrow> run \<Rightarrow> run" where
  "log_event e s = s\<lparr>trace := trace s @ [e]\<rparr>"

text \<open>A JavaScript \<open>Set\<close> keeps the order of first insertion.\<close>

definition add_new :: "'a \<Rightarrow> 'a list \<Rightarrow> 'a list" where
  "add_new x xs = (if x \<in> set xs then xs else xs @ [x])"

subsection \<open>Serial buffers\<close>

definition last_chars :: "nat \<Rightarrow> 'a list \<Rightarrow> 'a list" where
  "last_chars n xs = drop (length xs - n) xs"

definition appendBoundedText :: "string \<Rightarrow> string \<Rightarrow> string" where
  "appendBoundedText current new =
     (let combined = current @ new
      in if length combined > SERIAL_BUFFER_LIMIT then last_chars SERIAL_BUFFER_LIMIT combined else combined)"

definition appendSerialBuffer :: "SerialChannel \<Rightarrow> string \<Rightarrow> run \<Rightarrow> run" where
  "appendSerialBuffer channel new s =
     (let combined = serialText s channel @ new; trim = length combined - SERIAL_BUFFER_LIMIT
      in s\<lparr>serialText := (serialText s)(channel := (if trim > 0 then drop trim combined else combined)),
           serialCursor := (serialCursor s)(channel := serialCursor s channel - trim)\<rparr>)"

definition unreadSerialBuffer :: "SerialChannel \<Rightarrow> run \<Rightarrow> string" where
  "unreadSerialBuffer channel s = drop (serialCursor s channel) (serialText s channel)"

definition consumeSerialBuffer :: "SerialChannel \<Rightarrow> nat option \<Rightarrow> run \<Rightarrow> run" where
  "consumeSerialBuffer channel consumedLength s =
     s\<lparr>serialCursor := (serialCursor s)(channel := (case consumedLength of
         None \<Rightarrow> length (serialText s channel)
       | Some n \<Rightarrow> min (length (serialText s channel)) (serialCursor s channel + n)))\<rparr>"

subsection \<open>Awaiting\<close>

type_synonym 'a run_m = "run \<Rightarrow> (step_exn + 'a) \<times> run"

definition returnM :: "'a \<Rightarrow> 'a run_m" where
  "returnM a s = (Inr a, s)"

definition throwM :: "step_exn \<Rightarrow> 'a run_m" where
  "throwM e s = (Inl e, s)"

definition bindM :: "'a run_m \<Rightarrow> ('a \<Rightarrow> 'b run_m) \<Rightarrow> 'b run_m" where
  "bindM m f s = (case m s of (Inl e, s') \<Rightarrow> (Inl e, s') | (Inr a, s') \<Rightarrow> f a s')"

definition thenM :: "'a run_m \<Rightarrow> 'b run_m \<Rightarrow> 'b run_m" where
  "thenM m n = bindM m (\<lambda>_. n)"

definition doM :: "(run \<Rightarrow> run) \<Rightarrow> unit run_m" where
  "doM f s = (Inr (), f s)"

definition finallyM :: "'a run_m \<Rightarrow> (run \<Rightarrow> run) \<Rightarrow> 'a run_m" where
  "finallyM m f s = (case m s of (r, s') \<Rightarrow> (r, f s'))"

text \<open>\<open>abort()\<close> of the handle; \<open>boardRef.current?.cancelCapture?.()\<close>.\<close>

definition cancel_active :: "world \<Rightarrow> run \<Rightarrow> run" where
  "cancel_active w s =
     (if captureActive s
      then (if boardPresent w (clock s) then log_event (BoardCall CancelCapture) s else s)\<lparr>captureActive := False\<rparr>
      else s)"

definition abort :: "world \<Rightarrow> run \<Rightarrow> run" where
  "abort w s = (if aborted s then s else cancel_active w (s\<lparr>aborted := True\<rparr>))"

fun interfere :: "world \<Rightarrow> run \<Rightarrow> interference \<Rightarrow> run" where
  "interfere w s (Received channel new) =
     (if subscribed s then log_event (SerialRx (activeStepId s) channel new) (appendSerialBuffer channel new s) else s)"
| "interfere w s AbortPressed = abort w s"
| "interfere w s (WriteRejected _) = s"

definition tick :: "world \<Rightarrow> int \<Rightarrow> run \<Rightarrow> run" where
  "tick w ms s = s\<lparr>clock := clock s + 1, nowMs := nowMs s + ms + int (delayMs w (clock s))\<rparr>"

definition await :: "world \<Rightarrow> int \<Rightarrow> run \<Rightarrow> run" where
  "await w ms s = foldl (interfere w) (tick w ms s) (during w (clock s))"

text \<open>A timer's delay is a signed 32 bit integer; a negative one counts as 0.\<close>

definition timer_ms :: "jsnum \<Rightarrow> int" where
  "timer_ms ms = max 0 (sint (toInt32 ms))"

definition sleep :: "world \<Rightarrow> jsnum \<Rightarrow> unit run_m" where
  "sleep w ms s =
     (if aborted s then (Inl RunnerAborted, s)
      else let s' = await w (timer_ms ms) s
           in if aborted s' then (Inl RunnerAborted, s') else (Inr (), s'))"

definition getBoard :: "world \<Rightarrow> unit run_m" where
  "getBoard w s =
     (if boardPresent w (clock s) then (Inr (), s) else (Inl (StepFailed DeviceStateUnavailable), s))"

text \<open>\<open>await getBoard().method(...)\<close>.\<close>

definition call :: "world \<Rightarrow> board_call \<Rightarrow> unit run_m" where
  "call w c = thenM (getBoard w) (\<lambda>s.
     let s' = await w 0 (log_event (BoardCall c) s)
     in case callReply w (clock s) c of None \<Rightarrow> (Inr (), s') | Some m \<Rightarrow> (Inl (StepFailed (BoardMessage m)), s'))"

subsection \<open>Serial waits and commands\<close>

text \<open>
  The wait for a pattern, over what happens while it is pending. When the list is exhausted
  the timer fires. The first match settles the wait; what happens later belongs to the next
  await.
\<close>

fun wait_scan ::
  "world \<Rightarrow> SerialChannel \<Rightarrow> (string \<Rightarrow> nat option) \<Rightarrow> string \<Rightarrow> interference list \<Rightarrow> (bool \<times> string \<times> nat) run_m" where
  "wait_scan w channel regex buffer [] s = (Inr (False, buffer, length buffer), s)"
| "wait_scan w channel regex buffer (Received c new # events) s =
     (let s' = interfere w s (Received c new)
      in if c = channel
         then let buffer' = appendBoundedText buffer new
              in case rawPatternMatchEnd buffer' regex of
                   Some e \<Rightarrow> (Inr (True, buffer', e), s')
                 | None \<Rightarrow> wait_scan w channel regex buffer' events s'
         else wait_scan w channel regex buffer events s')"
| "wait_scan w channel regex buffer (AbortPressed # events) s =
     (if aborted s then wait_scan w channel regex buffer events s else (Inl RunnerAborted, abort w s))"
| "wait_scan w channel regex buffer (WriteRejected m # events) s =
     wait_scan w channel regex buffer events s"

definition compiled :: "world \<Rightarrow> string \<Rightarrow> (string \<Rightarrow> nat option) option" where
  "compiled w pattern = (if length pattern > 500 then None else matchEnd w pattern)"

definition waitForPattern :: "world \<Rightarrow> SerialChannel \<Rightarrow> string \<Rightarrow> (bool \<times> string \<times> nat) run_m" where
  "waitForPattern w channel pattern s =
     (if \<not> serialConnected w (clock s) channel then (Inr (False, [], 0), s)
      else case compiled w pattern of
        None \<Rightarrow> (Inl (StepFailed (InvalidWaitPattern pattern)), s)
      | Some regex \<Rightarrow>
          let buffer = unreadSerialBuffer channel s
          in case rawPatternMatchEnd buffer regex of
               Some e \<Rightarrow> (Inr (True, buffer, e), s)
             | None \<Rightarrow> wait_scan w channel regex buffer (during w (clock s)) (tick w 0 s))"

fun expect_scan ::
  "world \<Rightarrow> SerialChannel \<Rightarrow> (string \<Rightarrow> nat option) \<Rightarrow> string \<Rightarrow> string \<Rightarrow> interference list \<Rightarrow>
    (bool \<times> bool \<times> int \<times> string) run_m" where
  "expect_scan w channel regex marker buffer [] s = (Inr (False, False, - 1, buffer), s)"
| "expect_scan w channel regex marker buffer (Received c new # events) s =
     (let s' = interfere w s (Received c new)
      in if c = channel
         then let buffer' = appendBoundedText buffer new
              in case parseCommandCompletion buffer' marker of
                   Some completion \<Rightarrow>
                     (Inr (True, regex (stripTerminalControl (completionOutput completion)) \<noteq> None,
                        exitCode completion, completionOutput completion), s')
                 | None \<Rightarrow> expect_scan w channel regex marker buffer' events s'
         else expect_scan w channel regex marker buffer events s')"
| "expect_scan w channel regex marker buffer (AbortPressed # events) s =
     (if aborted s then expect_scan w channel regex marker buffer events s else (Inl RunnerAborted, abort w s))"
| "expect_scan w channel regex marker buffer (WriteRejected m # events) s =
     (Inr (False, False, - 1, ''write failed: '' @ m), s)"

definition sendAndExpect ::
  "world \<Rightarrow> string \<Rightarrow> SerialChannel \<Rightarrow> string \<Rightarrow> string \<Rightarrow> (bool \<times> bool \<times> int \<times> string) run_m" where
  "sendAndExpect w stepId' channel command pattern s =
     (if \<not> serialConnected w (clock s) channel then (Inr (False, False, - 1, []), s)
      else case compiled w pattern of
        None \<Rightarrow> (Inl (StepFailed (InvalidExpectPattern pattern)), s)
      | Some regex \<Rightarrow>
          if aborted s then (Inl RunnerAborted, s)
          else
            let marker = commandMarker (runId w (clock s)); envelope = commandEnvelope command marker CRLF
            in expect_scan w channel regex marker [] (during w (clock s))
                 (tick w 0 (log_event (SerialWrite channel envelope) (log_event (SerialTx stepId' channel envelope) s))))"

subsection \<open>Captures\<close>

text \<open>
  The poll for a finished capture: it looks, sleeps 100 ms, and looks again until the time is
  up. Time moves by at least the sleep, so the loop ends.
\<close>

lemma interfere_now [simp]: "nowMs (interfere w s e) = nowMs s"
  by (cases e) (simp_all add: abort_def cancel_active_def log_event_def appendSerialBuffer_def Let_def)

lemma await_now: "nowMs (await w ms s) = nowMs s + ms + int (delayMs w (clock s))"
proof -
  have "nowMs (foldl (interfere w) s es) = nowMs s" for s es
    by (induction es arbitrary: s) simp_all
  then show ?thesis by (simp add: await_def tick_def)
qed

lemma timer_ms_100 [simp]: "timer_ms (Fin 100) = 100"
  by (simp add: timer_ms_def)

lemma sleep_now: "sleep w (Fin 100) s = (Inr u, s') \<Longrightarrow> nowMs s + 100 \<le> nowMs s'"
  by (auto simp: sleep_def Let_def await_now split: if_splits)

function waitForCapture :: "world \<Rightarrow> int \<Rightarrow> int \<Rightarrow> PowerCapture option run_m" where
  "waitForCapture w startedAtMs timeoutMs s =
     (if nowMs s - startedAtMs \<le> timeoutMs
      then case getBoard w s of
          (Inl e, s') \<Rightarrow> (Inl e, s')
        | (Inr _, s') \<Rightarrow>
            (case (if capturesAt w (clock s) = [] then None else
                   if pcCapturedAt (last (capturesAt w (clock s))) \<ge> startedAtMs
                   then Some (last (capturesAt w (clock s))) else None) of
               Some latest \<Rightarrow> (Inr (Some latest), s)
             | None \<Rightarrow>
                 (case sleep w (Fin 100) s of
                    (Inl e, s'') \<Rightarrow> (Inl e, s'')
                  | (Inr _, s'') \<Rightarrow> waitForCapture w startedAtMs timeoutMs s''))
      else (Inr None, s))"
  by pat_completeness auto

termination
proof (relation "measure (\<lambda>(w, startedAtMs, timeoutMs, s). nat (startedAtMs + timeoutMs + 1 - nowMs s))", goal_cases)
  case (2 w startedAtMs timeoutMs s)
  then show ?case using sleep_now [of w s _ _] by (fastforce dest!: sym [of "(_, _)" "sleep w _ s"])
qed simp

declare waitForCapture.simps [simp del]

subsection \<open>Executing a step\<close>

record step_out =
  outError :: "run_error option"
  outCtx :: AssertionContext
  outSerial :: "string option"
  outAdc :: "jsnum option"
  outImplicit :: "StepAssertion option"

definition empty_out :: step_out where
  "empty_out = \<lparr>outError = None, outCtx = empty_ctx, outSerial = None, outAdc = None, outImplicit = None\<rparr>"

definition touch_rail :: "string \<Rightarrow> run \<Rightarrow> run" where
  "touch_rail rail s = s\<lparr>touchedRails := add_new rail (touchedRails s)\<rparr>"

definition touch_gpio :: "string \<Rightarrow> run \<Rightarrow> run" where
  "touch_gpio pin s = s\<lparr>touchedGpios := add_new pin (touchedGpios s)\<rparr>"

text \<open>\<open>if (!serialRef.current?.isConnected(channel)) throw\<close>.\<close>

definition requireSerial :: "world \<Rightarrow> SerialChannel \<Rightarrow> unit run_m" where
  "requireSerial w channel s =
     (if serialConnected w (clock s) channel then (Inr (), s) else (Inl (StepFailed (ChannelDisconnected channel)), s))"

definition serial_wait_step :: "world \<Rightarrow> SerialChannel \<Rightarrow> string \<Rightarrow> step_out run_m" where
  "serial_wait_step w channel pattern =
     thenM (requireSerial w channel) (thenM (doM (log_event (AutomationActive channel True)))
       (finallyM (bindM (waitForPattern w channel pattern) (\<lambda>(matched, received, consumedLength).
           thenM (doM (consumeSerialBuffer channel (Some consumedLength)))
             (returnM (empty_out\<lparr>outSerial := Some received,
               outCtx := empty_ctx\<lparr>ctxSerialOutput := Some received\<rparr>,
               outError := (if matched then None else Some (WaitTimeout pattern))\<rparr>))))
         (log_event (AutomationActive channel False))))"

definition no_assertion :: StepAssertion where
  "no_assertion = \<lparr>asrContinueOnError = None, asrCurrentRange = None, asrContains = None, asrRegex = None,
     asrExitCode = None, asrPinDirection = None, asrPinValue = None, asrPeakCurrentMaxA = None,
     asrEnergyMaxJ = None\<rparr>"

definition serial_expect_step :: "world \<Rightarrow> string \<Rightarrow> SerialChannel \<Rightarrow> string \<Rightarrow> string \<Rightarrow> step_out run_m" where
  "serial_expect_step w execId channel command pattern =
     thenM (requireSerial w channel) (thenM (doM (log_event (AutomationActive channel True)))
       (finallyM (bindM (sendAndExpect w execId channel command pattern) (\<lambda>(completed, matched, code, received).
           returnM (empty_out\<lparr>outSerial := Some received,
             outCtx := empty_ctx\<lparr>ctxSerialOutput := Some received, ctxExitCode := Some (js_int code)\<rparr>,
             outError := (if completed then None else Some CommandTimeout),
             outImplicit := (if \<not> completed then None
               else Some (no_assertion\<lparr>asrExitCode := Some (Fin 0),
                 asrRegex := (if js_trim pattern \<noteq> [] then Some (js_trim pattern) else None)\<rparr>))\<rparr>)))
         (\<lambda>s. log_event (AutomationActive channel False) (consumeSerialBuffer channel None s))))"

definition adc_read_step :: "world \<Rightarrow> string \<Rightarrow> string \<Rightarrow> step_out run_m" where
  "adc_read_step w execId channel s =
     (case call w (ReadPower channel) s of
        (Inl e, s') \<Rightarrow> (Inl e, s')
      | (Inr _, s') \<Rightarrow>
          let currentUa = powerReading w (clock s) channel
          in (Inr (empty_out\<lparr>outAdc := Some currentUa, outCtx := empty_ctx\<lparr>ctxAdcValueUa := Some currentUa\<rparr>\<rparr>),
              log_event (AdcSample execId channel currentUa) s'))"

definition gpio_assert_step :: "world \<Rightarrow> string \<Rightarrow> PinDirection \<Rightarrow> nat \<Rightarrow> step_out run_m" where
  "gpio_assert_step w pin direction val =
     thenM (sleep w (Fin 100)) (thenM (getBoard w) (\<lambda>s.
       case find (\<lambda>g. gpioName g = pin \<or> gpioNote g = pin \<or> string_of_int (gpioPin g) = pin) (gpiosAt w (clock s)) of
         None \<Rightarrow> (Inr (empty_out\<lparr>outError := Some (GpioNotFound pin)\<rparr>), s)
       | Some gpio \<Rightarrow> (Inr (empty_out\<lparr>
             outCtx := empty_ctx\<lparr>ctxPinDirection := Some (gpioDirection gpio), ctxPinValue := Some (gpioValue gpio)\<rparr>,
             outImplicit := Some (no_assertion\<lparr>asrPinDirection := Some direction, asrPinValue := Some val\<rparr>)\<rparr>), s)))"

definition arm_config :: "string \<Rightarrow> CaptureTrigger \<Rightarrow> rat \<Rightarrow> jsnum option \<Rightarrow> CaptureConfig" where
  "arm_config rail trigger durationMs threshold =
     (let samples = max 2 \<lceil>durationMs / 1000 * 100\<rceil>; preSamples = min 64 (samples div 4)
      in \<lparr>cfgTrigger = trigger, cfgSource = rail,
          cfgThresholdUa = (if trigger = TriggerCurrent
            then micro (js_max (Fin 0) (case threshold of None \<Rightarrow> Fin (1 / 10) | Some t \<Rightarrow> t)) else Fin 0),
          cfgRateHz = 100, cfgPreSamples = preSamples, cfgPostSamples = max 1 (samples - preSamples - 1),
          cfgStopAfterMs = Fin durationMs\<rparr>)"

text \<open>What the trigger of a capture step does once the board is armed.\<close>

definition fire_trigger :: "world \<Rightarrow> string \<Rightarrow> CaptureTrigger \<Rightarrow> unit run_m" where
  "fire_trigger w rail trigger =
     (case trigger of
        TriggerManual \<Rightarrow> thenM (getBoard w) (doM (log_event (BoardCall TriggerCapture)))
      | TriggerPowerOn \<Rightarrow> thenM (doM (touch_rail rail)) (thenM (call w (SetPower rail False))
          (thenM (sleep w (Fin 500)) (call w (SetPower rail True))))
      | TriggerGpio \<Rightarrow> throwM (StepFailed GpioCaptureNotSupported)
      | TriggerCurrent \<Rightarrow> returnM ())"

definition capture_samples :: "string \<Rightarrow> string \<Rightarrow> PowerCapture \<Rightarrow> runner_event list" where
  "capture_samples execId rail capture =
     concat (map (\<lambda>sample. case find (\<lambda>item. rdName item = rail) (smpReadings sample) of
         None \<Rightarrow> [] | Some reading \<Rightarrow> [AdcSample execId rail (js_int (rdCurrentUa reading))]) (pcSamples capture))"

text \<open>The evaluation of a finished capture.\<close>

definition take_capture :: "string \<Rightarrow> string \<Rightarrow> PowerCapture \<Rightarrow> step_out run_m" where
  "take_capture execId rail capture s =
     (let s' = log_event (PowerCaptureOut execId rail capture) (s\<lparr>captureActive := False\<rparr>);
          dropped = (case pcDroppedSamples capture of None \<Rightarrow> 0 | Some d \<Rightarrow> d)
      in if pcIncomplete capture \<or> dropped > 0
         then let e = (case pcInterruptionReason capture of Some r \<Rightarrow> BoardMessage r | None \<Rightarrow> CaptureIncomplete dropped)
              in (Inr (empty_out\<lparr>outError := Some e\<rparr>), s'\<lparr>captureInfrastructureError := Some e\<rparr>)
         else let summary = summarizePowerCapture capture rail
              in (Inr (empty_out\<lparr>outCtx := empty_ctx\<lparr>
                      ctxPeakCurrentUa := Some (Fin (aggPeakCurrentA summary * 1000000)),
                      ctxEnergyUj := Some (Fin (aggWattHours summary * 3600000000))\<rparr>\<rparr>),
                  s'\<lparr>trace := trace s' @ capture_samples execId rail capture\<rparr>))"

definition capture_step ::
  "world \<Rightarrow> string \<Rightarrow> string \<Rightarrow> CaptureTrigger \<Rightarrow> jsnum \<Rightarrow> jsnum option \<Rightarrow> step_out run_m" where
  "capture_step w execId rail trigger durationMs threshold =
     (case durationMs of
        Fin d \<Rightarrow>
          if d \<le> 0 then throwM (StepFailed CaptureDurationNotPositive)
          else (\<lambda>s.
            thenM (call w (ArmCapture (arm_config rail trigger d threshold)))
              (thenM (doM (\<lambda>s. s\<lparr>captureActive := True\<rparr>))
                (thenM (fire_trigger w rail trigger)
                  (bindM (waitForCapture w (nowMs s) (\<lfloor>d\<rfloor> + 10000)) (\<lambda>found.
                     case found of
                       None \<Rightarrow> returnM (empty_out\<lparr>outError := Some CaptureTimedOut\<rparr>)
                     | Some capture \<Rightarrow> take_capture execId rail capture)))) s)
      | _ \<Rightarrow> throwM (StepFailed CaptureDurationNotPositive))"

fun run_params :: "world \<Rightarrow> string \<Rightarrow> StepParams \<Rightarrow> step_out run_m" where
  "run_params w execId (PowerOnParams rail) =
     thenM (doM (touch_rail rail)) (thenM (call w (SetPower rail True)) (thenM (sleep w (Fin 500)) (returnM empty_out)))"
| "run_params w execId (PowerOffParams rail) =
     thenM (doM (touch_rail rail)) (thenM (call w (SetPower rail False)) (returnM empty_out))"
| "run_params w execId (DelayParams ms) = thenM (sleep w ms) (returnM empty_out)"
| "run_params w execId (SerialWaitParams channel pattern timeoutMs) = serial_wait_step w channel pattern"
| "run_params w execId (SerialSendParams channel sent) =
     thenM (requireSerial w channel) (\<lambda>s.
       let s' = await w 0 (log_event (SerialWrite channel sent) (log_event (SerialTx execId channel sent) s))
       in case writeReply w (clock s) of
            None \<Rightarrow> (Inr empty_out, s') | Some m \<Rightarrow> (Inl (StepFailed (BoardMessage m)), s'))"
| "run_params w execId (SerialExpectParams channel command pattern timeoutMs) =
     serial_expect_step w execId channel command pattern"
| "run_params w execId (AdcReadParams channel) = adc_read_step w execId channel"
| "run_params w execId (GpioSetParams pin direction val) =
     thenM (doM (touch_gpio pin)) (thenM
       (call w (SetGpio pin (case direction of None \<Rightarrow> DirOutput | Some d \<Rightarrow> d)
         (if direction = Some DirInput then None else Some (case val of None \<Rightarrow> 1 | Some v \<Rightarrow> v))))
       (returnM empty_out))"
| "run_params w execId (GpioAssertParams pin direction val) = gpio_assert_step w pin direction val"
| "run_params w execId (SwitchRouteParams switch route) =
     thenM (call w (SetSwitch switch route)) (returnM empty_out)"
| "run_params w execId (CaptureParams rail trigger durationMs threshold) =
     capture_step w execId rail trigger durationMs threshold"

text \<open>\<open>{ ...step.assert, ...implicitAssertion }\<close>: the keys of the implicit assertion win.\<close>

definition over :: "'a option \<Rightarrow> 'a option \<Rightarrow> 'a option" where
  "over own implicit = (case implicit of None \<Rightarrow> own | _ \<Rightarrow> implicit)"

definition effectiveAssertion :: "StepAssertion option \<Rightarrow> StepAssertion option \<Rightarrow> StepAssertion option" where
  "effectiveAssertion own implicit =
     (case implicit of None \<Rightarrow> own
      | Some i \<Rightarrow>
          let a = (case own of None \<Rightarrow> no_assertion | Some x \<Rightarrow> x)
          in Some (a\<lparr>asrRegex := over (asrRegex a) (asrRegex i), asrExitCode := over (asrExitCode a) (asrExitCode i),
                asrPinDirection := over (asrPinDirection a) (asrPinDirection i),
                asrPinValue := over (asrPinValue a) (asrPinValue i)\<rparr>))"

definition result_of :: "ExecutionStep \<Rightarrow> StepStatus \<Rightarrow> int \<Rightarrow> int \<Rightarrow> int \<Rightarrow> StepResult" where
  "result_of step status startedAt finishedAt duration =
     \<lparr>resStepId = executionId step, resSourceStepId = sourceStepId step, resContext = execContext step,
      resConditionOutcome = None, resConditionalSkip = False,
      resStepType = step_type (stepParams (execStep step)), resStatus = status, resStartedAt = startedAt,
      resFinishedAt = finishedAt, resDuration = duration, resError = None, resAssertion = None,
      resAdcValueUa = None, resSerialOutput = None\<rparr>"

definition step_result :: "world \<Rightarrow> ExecutionStep \<Rightarrow> int \<Rightarrow> int \<Rightarrow> step_out \<Rightarrow> StepResult" where
  "step_result w step startedAt finishedAt out =
     (let hasError = (case outError out of None \<Rightarrow> False | Some e \<Rightarrow> truthy e);
          assertResult = (if hasError then None
            else Some (evaluateAssertion (matches w) (effectiveAssertion (stepAssert (execStep step)) (outImplicit out))
              (outCtx out)));
          assertFailed = (case assertResult of None \<Rightarrow> False | Some r \<Rightarrow> \<not> fst r);
          status = (if hasError then StError else if assertFailed then StFail else StPass)
      in (result_of step status startedAt finishedAt (finishedAt - startedAt))
           \<lparr>resError := outError out, resAssertion := assertResult, resAdcValueUa := outAdc out,
            resSerialOutput := outSerial out\<rparr>)"

definition executeStep :: "world \<Rightarrow> ExecutionStep \<Rightarrow> run \<Rightarrow> StepResult \<times> run" where
  "executeStep w step s =
     (case run_params w (executionId step) (stepParams (execStep step)) s of
        (Inl RunnerAborted, s') \<Rightarrow>
          ((result_of step StAborted (nowMs s) (nowMs s') (nowMs s' - nowMs s))\<lparr>resError := Some AbortedMessage\<rparr>,
           cancel_active w s')
      | (Inl (StepFailed e), s') \<Rightarrow>
          (step_result w step (nowMs s) (nowMs s') (empty_out\<lparr>outError := Some e\<rparr>), cancel_active w s')
      | (Inr out, s') \<Rightarrow> (step_result w step (nowMs s) (nowMs s') out, cancel_active w s'))"

subsection \<open>Preconditions\<close>

definition validateRegex :: "world \<Rightarrow> string \<Rightarrow> string \<Rightarrow> run_error + unit" where
  "validateRegex w pattern label =
     guardR (length pattern \<noteq> 0) (EmptyPattern label) (
     guardR (length pattern \<le> 500) (PatternTooLong label) (
     guardR (matchEnd w pattern \<noteq> None) (InvalidPattern label pattern) (Inr ())))"

definition check_step :: "world \<Rightarrow> SerialChannel list \<Rightarrow> ExecutionStep \<Rightarrow> run_error + SerialChannel list" where
  "check_step w channels step =
     (case stepParams (execStep step) of
        SerialWaitParams channel pattern _ \<Rightarrow>
          bindR (validateRegex w pattern (''serial wait pattern for '' @ sourceStepId step))
            (\<lambda>_. Inr (add_new channel channels))
      | SerialSendParams channel _ \<Rightarrow> Inr (add_new channel channels)
      | SerialExpectParams channel _ pattern _ \<Rightarrow>
          bindR (if js_trim pattern \<noteq> []
                 then validateRegex w pattern (''serial assertion pattern for '' @ sourceStepId step) else Inr ())
            (\<lambda>_. Inr (add_new channel channels))
      | CaptureParams _ trigger durationMs _ \<Rightarrow>
          guardR (isFinite durationMs \<and> js_lt (Fin 0) durationMs) (CaptureDurationInvalid (sourceStepId step)) (
          guardR (trigger \<noteq> TriggerGpio) (GpioCaptureUnsupported (sourceStepId step)) (Inr channels))
      | _ \<Rightarrow> Inr channels)"

fun check_channels :: "world \<Rightarrow> nat \<Rightarrow> SerialChannel list \<Rightarrow> run_error + unit" where
  "check_channels w n [] = Inr ()"
| "check_channels w n (channel # channels) =
     guardR (serialConnected w n channel) (ChannelNotConnected channel) (check_channels w n channels)"

definition validateExecutionPreconditions :: "world \<Rightarrow> nat \<Rightarrow> ExecutionStep list \<Rightarrow> run_error + unit" where
  "validateExecutionPreconditions w n executionPlan =
     guardR (boardPresent w n \<and> boardConnected w) BoardNotConnected (
     bindR (foldR (check_step w) [] executionPlan) (check_channels w n))"

text \<open>The preflight check of the user interface: the plan and its preconditions.\<close>

definition preflightTestRun :: "world \<Rightarrow> nat \<Rightarrow> TestScriptItem list \<Rightarrow> (plan_error + run_error) + ExecutionStep list" where
  "preflightTestRun w n items =
     (case buildExecutionPlan items of
        Inl e \<Rightarrow> Inl (Inl e)
      | Inr plan \<Rightarrow> (case validateExecutionPreconditions w n plan of Inl e \<Rightarrow> Inl (Inr e) | Inr _ \<Rightarrow> Inr plan))"

subsection \<open>The step loop\<close>

definition makeSkip :: "ExecutionStep \<Rightarrow> int \<Rightarrow> run_error \<Rightarrow> bool \<Rightarrow> StepResult" where
  "makeSkip step startMs reason conditionalSkip =
     (result_of step StSkip startMs startMs 0)\<lparr>resConditionalSkip := conditionalSkip, resError := Some reason\<rparr>"

text \<open>\<open>step.conditionId\<close> when it is a non-empty string.\<close>

definition condition_of :: "ExecutionStep \<Rightarrow> string option" where
  "condition_of step = (case ctxConditionId (execContext step) of
     Some i \<Rightarrow> if i \<noteq> [] then Some i else None | None \<Rightarrow> None)"

definition role_of :: "ExecutionStep \<Rightarrow> conditionRole option" where
  "role_of step = ctxConditionRole (execContext step)"

definition branch_skipped :: "ExecutionStep \<Rightarrow> run \<Rightarrow> bool" where
  "branch_skipped step s =
     (case condition_of step of
        None \<Rightarrow> False
      | Some i \<Rightarrow>
          if role_of step = Some RoleThen \<or> role_of step = Some RoleElse
          then \<not> (case conditionOutcomes s i of
              None \<Rightarrow> False
            | Some outcome \<Rightarrow> role_of step = Some RoleThen \<and> outcome \<or> role_of step = Some RoleElse \<and> \<not> outcome)
          else False)"

text \<open>The outcome of a condition's check; a failing assertion is a passed check with outcome false.\<close>

definition settle_check :: "ExecutionStep \<Rightarrow> StepResult \<Rightarrow> run \<Rightarrow> StepResult \<times> run" where
  "settle_check step result s =
     (case condition_of step of
        None \<Rightarrow> (result, s)
      | Some i \<Rightarrow>
          if role_of step = Some RoleCheck then
            (if resStatus result = StPass
             then (result\<lparr>resConditionOutcome := Some True\<rparr>,
                   s\<lparr>conditionOutcomes := (conditionOutcomes s)(i \<mapsto> True)\<rparr>)
             else if resStatus result = StFail
             then (result\<lparr>resStatus := StPass, resConditionOutcome := Some False\<rparr>,
                   s\<lparr>conditionOutcomes := (conditionOutcomes s)(i \<mapsto> False)\<rparr>)
             else (result, s))
          else (result, s))"

definition stops_run :: "ExecutionStep \<Rightarrow> StepResult \<Rightarrow> bool" where
  "stops_run step result \<longleftrightarrow>
     resStatus result = StAborted \<or>
     role_of step = Some RoleCheck \<and> resConditionOutcome result = None \<or>
     (resStatus result = StFail \<or> resStatus result = StError) \<and> \<not> stepContinueOnError (execStep step) \<and>
       \<not> (case stepAssert (execStep step) of None \<Rightarrow> False | Some a \<Rightarrow> asrContinueOnError a = Some True)"

definition push_result :: "StepResult \<Rightarrow> run \<Rightarrow> run" where
  "push_result result s = log_event (StepResultOut result) (s\<lparr>results := results s @ [result]\<rparr>)"

definition begin_step :: "ExecutionStep \<Rightarrow> run \<Rightarrow> run" where
  "begin_step step s = log_event (StepStart (executionId step)) (s\<lparr>activeStepId := executionId step\<rparr>)"

fun run_steps :: "world \<Rightarrow> ExecutionStep list \<Rightarrow> run \<Rightarrow> run" where
  "run_steps w [] s = s"
| "run_steps w (step # steps) s =
     (if aborted s then s
      else
        let s1 = begin_step step s
        in if branch_skipped step s1
           then run_steps w steps (push_result (makeSkip step (nowMs s1) BranchNotSelected True) s1)
           else
             let (executed, s2) = executeStep w step s1;
                 (result, s3) = settle_check step executed s2;
                 s4 = push_result result s3
             in if stops_run step result then s4 else run_steps w steps s4)"

subsection \<open>Cleanup and summary\<close>

datatype cleanup_kind = CleanCapture | CleanGpio | CleanPower

record CleanupActionResult =
  actKind :: cleanup_kind
  actTarget :: string
  actError :: "run_error option"

text \<open>\<open>record(kind, target, action)\<close>: an action passes or is noted with its error.\<close>

definition record_action ::
  "cleanup_kind \<Rightarrow> string \<Rightarrow> unit run_m \<Rightarrow> CleanupActionResult list \<times> run \<Rightarrow> CleanupActionResult list \<times> run" where
  "record_action kind target action acc =
     (case action (snd acc) of
        (Inr _, s') \<Rightarrow> (fst acc @ [\<lparr>actKind = kind, actTarget = target, actError = None\<rparr>], s')
      | (Inl e, s') \<Rightarrow> (fst acc @ [\<lparr>actKind = kind, actTarget = target,
          actError = Some (case e of RunnerAborted \<Rightarrow> AbortedMessage | StepFailed m \<Rightarrow> m)\<rparr>], s'))"

record CleanupSummary =
  clnAttempted :: bool
  clnPassed :: bool
  clnActions :: "CleanupActionResult list"

definition performSafeCleanup :: "world \<Rightarrow> run \<Rightarrow> CleanupSummary \<times> run" where
  "performSafeCleanup w s =
     (let acc0 = (if captureActive s
           then (case record_action CleanCapture ''active capture''
                   (thenM (getBoard w) (doM (log_event (BoardCall CancelCapture)))) ([], s) of
                 (actions, s') \<Rightarrow> (actions, s'\<lparr>captureActive := False\<rparr>))
           else ([], s));
          acc1 = foldl (\<lambda>acc pin. record_action CleanGpio pin (call w (SetGpio pin DirInput None)) acc) acc0
            (touchedGpios (snd acc0));
          acc2 = foldl (\<lambda>acc rail. record_action CleanPower rail (call w (SetPower rail False)) acc) acc1
            (touchedRails (snd acc1))
      in (\<lparr>clnAttempted = (length (fst acc2) > 0),
           clnPassed = list_all (\<lambda>action. actError action = None) (fst acc2), clnActions = fst acc2\<rparr>, snd acc2))"

record RunSummary =
  sumTotalSteps :: nat
  sumPassed :: nat
  sumFailed :: nat
  sumSkipped :: nat
  sumErrored :: nat
  sumAborted :: bool
  sumCompleted :: bool
  sumDurationMs :: int
  sumStartedAtMs :: int
  sumFinishedAtMs :: int
  sumResults :: "StepResult list"
  sumCleanup :: "CleanupSummary option"
  sumInfrastructureError :: "run_error list"

definition count_status :: "StepStatus \<Rightarrow> StepResult list \<Rightarrow> nat" where
  "count_status status rs = length (filter (\<lambda>r. resStatus r = status) rs)"

text \<open>\<open>infrastructureError\<close> as the list of messages it joins; empty when it is falsy.\<close>

definition infrastructure_errors :: "run_error option \<Rightarrow> run \<Rightarrow> CleanupSummary \<Rightarrow> run_error list" where
  "infrastructure_errors thrown s cleanup =
     (case (case thrown of None \<Rightarrow> captureInfrastructureError s | _ \<Rightarrow> thrown) of
        None \<Rightarrow> [] | Some e \<Rightarrow> if truthy e then [e] else []) @
     (if \<not> clnPassed cleanup
      then [CleanupFailed (concat (map (\<lambda>a. case actError a of None \<Rightarrow> [] | Some e \<Rightarrow> [(actTarget a, e)])
        (clnActions cleanup)))]
      else [])"

definition summary_of_run :: "int \<Rightarrow> ExecutionStep list \<Rightarrow> run_error option \<Rightarrow> CleanupSummary \<Rightarrow> run \<Rightarrow> RunSummary" where
  "summary_of_run startedAt executionPlan thrown cleanup s =
     (let infra = infrastructure_errors thrown s cleanup; rs = results s
      in \<lparr>sumTotalSteps = length executionPlan, sumPassed = count_status StPass rs,
          sumFailed = count_status StFail rs, sumSkipped = count_status StSkip rs,
          sumErrored = count_status StError rs, sumAborted = aborted s,
          sumCompleted = (\<not> aborted s \<and> infra = [] \<and> clnPassed cleanup \<and> length rs = length executionPlan),
          sumDurationMs = nowMs s - startedAt, sumStartedAtMs = startedAt, sumFinishedAtMs = nowMs s,
          sumResults = rs, sumCleanup = Some cleanup, sumInfrastructureError = infra\<rparr>)"

text \<open>\<open>start()\<close>. The subscription exists when a serial handle does, and until the cleanup.\<close>

definition startRun :: "world \<Rightarrow> bool \<Rightarrow> ExecutionStep list \<Rightarrow> run \<Rightarrow> RunSummary \<times> run" where
  "startRun w hasSerial executionPlan s =
     (let (thrown, s1) = (case validateExecutionPreconditions w (clock s) executionPlan of
            Inl e \<Rightarrow> (Some e, s)
          | Inr _ \<Rightarrow> (None, run_steps w executionPlan (s\<lparr>subscribed := hasSerial\<rparr>)));
          (cleanup, s2) = performSafeCleanup w (s1\<lparr>subscribed := False\<rparr>)
      in (summary_of_run (nowMs s) executionPlan thrown cleanup s2, s2))"

definition isRunSuccessful :: "RunSummary \<Rightarrow> bool" where
  "isRunSuccessful summary \<longleftrightarrow> sumCompleted summary \<and> \<not> sumAborted summary \<and> sumInfrastructureError summary = [] \<and>
     (case sumCleanup summary of None \<Rightarrow> True | Some c \<Rightarrow> clnPassed c) \<and>
     length (sumResults summary) = sumTotalSteps summary \<and>
     list_all (\<lambda>result. resStatus result = StPass \<or> resStatus result = StSkip \<and> resConditionalSkip result)
       (sumResults summary)"

subsection \<open>What a step can change\<close>

text \<open>
  Between two states of a run the trace grows, and every rail switched and every pin set on
  the way is among the touched ones; results and outcomes stay.
\<close>

definition touch_le :: "run \<Rightarrow> run \<Rightarrow> bool" where
  "touch_le s s' \<longleftrightarrow>
     (\<exists>t. trace s' = trace s @ t \<and>
        (\<forall>rail on. BoardCall (SetPower rail on) \<in> set t \<longrightarrow> rail \<in> set (touchedRails s')) \<and>
        (\<forall>pin d v. BoardCall (SetGpio pin d v) \<in> set t \<longrightarrow> pin \<in> set (touchedGpios s'))) \<and>
     set (touchedRails s) \<subseteq> set (touchedRails s') \<and> set (touchedGpios s) \<subseteq> set (touchedGpios s')"

definition step_le :: "run \<Rightarrow> run \<Rightarrow> bool" where
  "step_le s s' \<longleftrightarrow> touch_le s s' \<and> results s' = results s \<and> conditionOutcomes s' = conditionOutcomes s"

lemma touch_le_refl [simp]: "touch_le s s"
  by (auto simp: touch_le_def)

lemma touch_le_trans:
  assumes "touch_le a b" "touch_le b c"
  shows "touch_le a c"
proof -
  from assms(1) obtain t where t: "trace b = trace a @ t"
      "\<And>rail on. BoardCall (SetPower rail on) \<in> set t \<Longrightarrow> rail \<in> set (touchedRails b)"
      "\<And>pin d v. BoardCall (SetGpio pin d v) \<in> set t \<Longrightarrow> pin \<in> set (touchedGpios b)"
      "set (touchedRails a) \<subseteq> set (touchedRails b)" "set (touchedGpios a) \<subseteq> set (touchedGpios b)"
    unfolding touch_le_def by blast
  from assms(2) obtain u where u: "trace c = trace b @ u"
      "\<And>rail on. BoardCall (SetPower rail on) \<in> set u \<Longrightarrow> rail \<in> set (touchedRails c)"
      "\<And>pin d v. BoardCall (SetGpio pin d v) \<in> set u \<Longrightarrow> pin \<in> set (touchedGpios c)"
      "set (touchedRails b) \<subseteq> set (touchedRails c)" "set (touchedGpios b) \<subseteq> set (touchedGpios c)"
    unfolding touch_le_def by blast
  show ?thesis
    unfolding touch_le_def
  proof (intro conjI exI [of _ "t @ u"] allI impI)
    fix rail on assume "BoardCall (SetPower rail on) \<in> set (t @ u)"
    with t(2,4) u(2,4) show "rail \<in> set (touchedRails c)" unfolding set_append by blast
  next
    fix pin d v assume "BoardCall (SetGpio pin d v) \<in> set (t @ u)"
    with t(3,5) u(3,5) show "pin \<in> set (touchedGpios c)" unfolding set_append by blast
  qed (use t(1,4,5) u(1,4,5) in auto)
qed

lemma step_le_refl [simp]: "step_le s s"
  by (simp add: step_le_def)

lemma step_le_trans: "step_le a b \<Longrightarrow> step_le b c \<Longrightarrow> step_le a c"
  by (auto simp: step_le_def intro: touch_le_trans)

definition harmless :: "runner_event \<Rightarrow> bool" where
  "harmless e \<longleftrightarrow> (\<forall>rail on. e \<noteq> BoardCall (SetPower rail on)) \<and> (\<forall>pin d v. e \<noteq> BoardCall (SetGpio pin d v))"

lemma harmless_simps [simp]:
  "harmless (SerialTx i c x)" "harmless (SerialRx i c x)" "harmless (SerialWrite c x)"
  "harmless (AutomationActive c b)" "harmless (AdcSample i n v)" "harmless (PowerCaptureOut i n pc)"
  "harmless (StepStart i)" "harmless (StepResultOut res)" "harmless (BoardCall CancelCapture)"
  "harmless (BoardCall TriggerCapture)" "harmless (BoardCall (ReadPower n))"
  "harmless (BoardCall (SetSwitch n r))" "harmless (BoardCall (ArmCapture cfg))"
  by (simp_all add: harmless_def)

lemma touch_le_extend:
  assumes "trace s' = trace s @ t" "list_all harmless t" "touchedRails s' = touchedRails s"
    "touchedGpios s' = touchedGpios s"
  shows "touch_le s s'"
  using assms by (auto simp: touch_le_def harmless_def list_all_iff)

lemma step_le_extend:
  assumes "trace s' = trace s @ t" "list_all harmless t" "touchedRails s' = touchedRails s"
    "touchedGpios s' = touchedGpios s" "results s' = results s" "conditionOutcomes s' = conditionOutcomes s"
  shows "step_le s s'"
  using assms touch_le_extend by (simp add: step_le_def)

lemma step_le_log: "harmless e \<Longrightarrow> step_le s (log_event e s)"
  by (rule step_le_extend [where t = "[e]"]) (simp_all add: log_event_def)

lemma step_le_cancel: "step_le s (cancel_active w s)"
  by (cases "captureActive s \<and> boardPresent w (clock s)")
    (auto intro: step_le_extend [where t = "[BoardCall CancelCapture]"] step_le_extend [where t = "[]"]
      simp: cancel_active_def log_event_def)

lemma step_le_abort: "step_le s (abort w s)"
proof -
  have "step_le s (s\<lparr>aborted := True\<rparr>)" by (rule step_le_extend [where t = "[]"]) simp_all
  from step_le_trans [OF this step_le_cancel] show ?thesis by (simp add: abort_def)
qed

lemma step_le_interfere: "step_le s (interfere w s e)"
proof (cases e)
  case (Received c x)
  then show ?thesis
    by (auto intro: step_le_extend [where t = "[SerialRx (activeStepId s) c x]"]
        simp: log_event_def appendSerialBuffer_def Let_def)
qed (simp_all add: step_le_abort)

lemma step_le_tick: "step_le s (tick w ms s)"
  by (rule step_le_extend [where t = "[]"]) (simp_all add: tick_def)

lemma step_le_fold: "step_le s (foldl (interfere w) s es)"
  by (induction es arbitrary: s) (auto intro: step_le_trans [OF step_le_interfere])

lemma step_le_await: "step_le s (await w ms s)"
  unfolding await_def by (rule step_le_trans [OF step_le_tick step_le_fold])

text \<open>A computation that keeps the order from states where \<open>A\<close> holds.\<close>

definition keeps :: "(run \<Rightarrow> bool) \<Rightarrow> 'a run_m \<Rightarrow> bool" where
  "keeps A m \<longleftrightarrow> (\<forall>s. A s \<longrightarrow> step_le s (snd (m s)))"

definition stable :: "(run \<Rightarrow> bool) \<Rightarrow> bool" where
  "stable A \<longleftrightarrow> (\<forall>s s'. step_le s s' \<longrightarrow> A s \<longrightarrow> A s')"

lemma stable_True [simp]: "stable (\<lambda>_. True)"
  by (simp add: stable_def)

lemma stable_touched [simp]: "stable (\<lambda>s. rail \<in> set (touchedRails s))" "stable (\<lambda>s. pin \<in> set (touchedGpios s))"
  by (auto simp: stable_def step_le_def touch_le_def)

named_theorems keeps_intros "computations that keep the order"

lemma keeps_return [keeps_intros]: "keeps A (returnM a)" "keeps A (throwM e)"
  by (simp_all add: keeps_def returnM_def throwM_def)

lemma keeps_bind [keeps_intros]:
  assumes "stable A" "keeps A m" "\<And>a. keeps A (f a)"
  shows "keeps A (bindM m f)"
  unfolding keeps_def
proof (intro allI impI)
  fix s assume A: "A s"
  obtain r s1 where m: "m s = (r, s1)" by fastforce
  with assms(2) A have le: "step_le s s1" by (force simp: keeps_def)
  with assms(1) A have "A s1" unfolding stable_def by blast
  with assms(3) le show "step_le s (snd (bindM m f s))"
    by (cases r) (auto simp: m bindM_def keeps_def intro: step_le_trans)
qed

lemma keeps_then [keeps_intros]: "stable A \<Longrightarrow> keeps A m \<Longrightarrow> keeps A n \<Longrightarrow> keeps A (thenM m n)"
  unfolding thenM_def by (intro keeps_bind)

lemma keeps_finally [keeps_intros]:
  assumes "keeps A m" "\<And>s. step_le s (f s)"
  shows "keeps A (finallyM m f)"
  using assms by (auto simp: keeps_def finallyM_def split: prod.splits) (metis snd_conv step_le_trans)

lemma keeps_do [keeps_intros]: "(\<And>s. step_le s (f s)) \<Longrightarrow> keeps A (doM f)"
  by (simp add: keeps_def doM_def)

lemma keeps_getBoard [keeps_intros]: "keeps A (getBoard w)"
  by (simp add: keeps_def getBoard_def)

lemma keeps_requireSerial [keeps_intros]: "keeps A (requireSerial w c)"
  by (simp add: keeps_def requireSerial_def)

lemma keeps_sleep [keeps_intros]: "keeps A (sleep w ms)"
  by (simp add: keeps_def sleep_def Let_def step_le_await)

lemma snd_call:
  "snd (call w c s) = (if boardPresent w (clock s) then await w 0 (log_event (BoardCall c) s) else s)"
  by (simp add: call_def thenM_def bindM_def getBoard_def Let_def split: option.splits)

lemma keeps_call_harmless [keeps_intros]: "harmless (BoardCall c) \<Longrightarrow> keeps A (call w c)"
  by (auto simp: keeps_def snd_call intro: step_le_trans [OF step_le_log step_le_await])

lemma step_le_log_touched:
  "rail \<in> set (touchedRails s) \<Longrightarrow> step_le s (log_event (BoardCall (SetPower rail on)) s)"
  "pin \<in> set (touchedGpios s) \<Longrightarrow> step_le s (log_event (BoardCall (SetGpio pin d v)) s)"
  by (simp_all add: step_le_def touch_le_def log_event_def)

lemma keeps_call_power: "keeps (\<lambda>s. rail \<in> set (touchedRails s)) (call w (SetPower rail on))"
  "keeps (\<lambda>s. pin \<in> set (touchedGpios s)) (call w (SetGpio pin d v))"
  by (auto simp: keeps_def snd_call intro: step_le_trans [OF step_le_log_touched(1) step_le_await]
      step_le_trans [OF step_le_log_touched(2) step_le_await])

text \<open>Touching first makes the calls on the rail or pin allowed.\<close>

lemma step_le_touch: "step_le s (touch_rail rail s)" "step_le s (touch_gpio pin s)"
  by (auto simp: step_le_def touch_le_def touch_rail_def touch_gpio_def add_new_def)

lemma touched_after:
  "rail \<in> set (touchedRails (touch_rail rail s))" "pin \<in> set (touchedGpios (touch_gpio pin s))"
  by (simp_all add: touch_rail_def touch_gpio_def add_new_def)

lemma keepsI: "(\<And>s. A s \<Longrightarrow> step_le s (snd (m s))) \<Longrightarrow> keeps A m"
  by (simp add: keeps_def)

lemma keepsD: "keeps A m \<Longrightarrow> A s \<Longrightarrow> step_le s (snd (m s))"
  by (simp add: keeps_def)

lemma keeps_touch_rail:
  assumes "keeps (\<lambda>s. rail \<in> set (touchedRails s)) m"
  shows "keeps A (thenM (doM (touch_rail rail)) m)"
proof (rule keepsI)
  fix s
  from step_le_trans [OF step_le_touch(1) keepsD [OF assms touched_after(1)]]
  show "step_le s (snd (thenM (doM (touch_rail rail)) m s))" by (simp add: thenM_def bindM_def doM_def)
qed

lemma keeps_touch_gpio:
  assumes "keeps (\<lambda>s. pin \<in> set (touchedGpios s)) m"
  shows "keeps A (thenM (doM (touch_gpio pin)) m)"
proof (rule keepsI)
  fix s
  from step_le_trans [OF step_le_touch(2) keepsD [OF assms touched_after(2)]]
  show "step_le s (snd (thenM (doM (touch_gpio pin)) m s))" by (simp add: thenM_def bindM_def doM_def)
qed

lemma step_le_consume: "step_le s (consumeSerialBuffer c n s)"
  by (rule step_le_extend [where t = "[]"]) (simp_all add: consumeSerialBuffer_def)

lemma step_le_captureActive: "step_le s (s\<lparr>captureActive := b\<rparr>)"
  by (rule step_le_extend [where t = "[]"]) simp_all

lemma step_le_wait_scan: "step_le s (snd (wait_scan w c regex buffer es s))"
proof (induction w c regex buffer es s rule: wait_scan.induct)
  case (2 w c regex buffer d x es s)
  then show ?case
    by (auto simp: Let_def simp del: interfere.simps split: option.splits
        intro: step_le_trans [OF step_le_interfere] step_le_interfere)
qed (auto simp: step_le_abort)

lemma step_le_expect_scan: "step_le s (snd (expect_scan w c regex marker buffer es s))"
proof (induction w c regex marker buffer es s rule: expect_scan.induct)
  case (2 w c regex marker buffer d x es s)
  then show ?case
    by (auto simp: Let_def simp del: interfere.simps split: option.splits
        intro: step_le_trans [OF step_le_interfere] step_le_interfere)
qed (auto simp: step_le_abort)

lemma keeps_waitForPattern [keeps_intros]: "keeps A (waitForPattern w c pattern)"
  by (auto simp: keeps_def waitForPattern_def Let_def split: option.split
      intro: step_le_trans [OF step_le_tick step_le_wait_scan])

lemma keeps_sendAndExpect [keeps_intros]: "keeps A (sendAndExpect w i c command pattern)"
  by (auto simp: keeps_def sendAndExpect_def Let_def split: option.split
      intro: step_le_trans [OF step_le_log step_le_trans [OF step_le_log
        step_le_trans [OF step_le_tick step_le_expect_scan]]])

lemma keeps_waitForCapture [keeps_intros]: "keeps A (waitForCapture w startedAt timeout)"
proof -
  have "step_le s (snd (waitForCapture w startedAt timeout s))" for s
  proof (induction w startedAt timeout s rule: waitForCapture.induct)
    case (1 w startedAt timeout s)
    have sleep: "step_le s (snd (sleep w (Fin 100) s))"
      using keeps_sleep [of "\<lambda>_. True" w "Fin 100"] by (simp add: keeps_def)
    obtain r s1 where s1: "sleep w (Fin 100) s = (r, s1)" by fastforce
    with sleep have le: "step_le s s1" by simp
    show ?case
    proof (cases r)
      case (Inl e)
      with s1 le show ?thesis
        by (subst waitForCapture.simps) (auto simp: getBoard_def)
    next
      case (Inr u)
      have "step_le s1 (snd (waitForCapture w startedAt timeout s1))"
        if "nowMs s - startedAt \<le> timeout" "boardPresent w (clock s)"
          "capturesAt w (clock s) = [] \<or> \<not> startedAt \<le> pcCapturedAt (last (capturesAt w (clock s)))"
        using that 1 [OF that(1)] s1 Inr by (fastforce simp: getBoard_def)
      with s1 le Inr show ?thesis
        by (subst waitForCapture.simps) (auto simp: getBoard_def intro: step_le_trans)
    qed
  qed
  then show ?thesis by (simp add: keeps_def)
qed

lemma keeps_take_capture [keeps_intros]: "keeps A (take_capture i rail capture)"
proof -
  have "list_all harmless (capture_samples i rail capture)"
    by (auto simp: capture_samples_def list_all_iff split: option.splits)
  then show ?thesis
    unfolding keeps_def take_capture_def Let_def
    by (auto intro: step_le_extend [where t = "[PowerCaptureOut i rail capture]"]
        step_le_extend [where t = "PowerCaptureOut i rail capture # capture_samples i rail capture"]
        simp: log_event_def split: option.splits)
qed

lemma keeps_fire_trigger [keeps_intros]: "keeps (\<lambda>_. True) (fire_trigger w rail trigger)"
  by (cases trigger)
    (auto simp: fire_trigger_def intro!: keeps_intros keeps_touch_rail keeps_call_power step_le_log)

lemma keeps_capture_step [keeps_intros]: "keeps (\<lambda>_. True) (capture_step w i rail trigger d threshold)"
proof (cases d)
  case (Fin r)
  let ?m = "\<lambda>n. thenM (call w (ArmCapture (arm_config rail trigger r threshold)))
      (thenM (doM (\<lambda>s. s\<lparr>captureActive := True\<rparr>)) (thenM (fire_trigger w rail trigger)
        (bindM (waitForCapture w n (\<lfloor>r\<rfloor> + 10000)) (\<lambda>found. case found of
           None \<Rightarrow> returnM (empty_out\<lparr>outError := Some CaptureTimedOut\<rparr>)
         | Some capture \<Rightarrow> take_capture i rail capture))))"
  have "keeps (\<lambda>_. True) (case found of None \<Rightarrow> returnM (empty_out\<lparr>outError := Some CaptureTimedOut\<rparr>)
      | Some capture \<Rightarrow> take_capture i rail capture)" for found
    by (simp add: keeps_return keeps_take_capture split: option.split)
  then have m: "keeps (\<lambda>_. True) (?m n)" for n
    by (intro keeps_then keeps_bind keeps_call_harmless keeps_do step_le_captureActive keeps_fire_trigger
        keeps_waitForCapture stable_True) simp_all
  show ?thesis
  proof (rule keepsI)
    fix s
    from keepsD [OF m, of s "nowMs s"] Fin
    show "step_le s (snd (capture_step w i rail trigger d threshold s))"
      by (simp add: capture_step_def throwM_def)
  qed
qed (simp_all add: capture_step_def keeps_return(2))

lemma keeps_run_params: "keeps (\<lambda>_. True) (run_params w i p)"
proof (cases p)
  case (SerialWaitParams c pattern t)
  then show ?thesis
    by (auto simp: serial_wait_step_def split_beta intro!: keeps_intros step_le_log step_le_consume)
next
  case (SerialExpectParams c command pattern t)
  then show ?thesis
    by (auto simp: serial_expect_step_def split_beta
        intro!: keeps_intros step_le_log step_le_trans [OF step_le_consume step_le_log])
next
  case (SerialSendParams c sent)
  have "keeps (\<lambda>_. True) (\<lambda>s. let s' = await w 0 (log_event (SerialWrite c sent) (log_event (SerialTx i c sent) s))
       in case writeReply w (clock s) of
            None \<Rightarrow> (Inr empty_out, s') | Some m \<Rightarrow> (Inl (StepFailed (BoardMessage m)), s'))"
  proof (rule keepsI)
    fix s
    have "step_le s (await w 0 (log_event (SerialWrite c sent) (log_event (SerialTx i c sent) s)))"
      by (intro step_le_trans [OF step_le_log step_le_trans [OF step_le_log step_le_await]]) simp_all
    then show "step_le s (snd (let s' = await w 0 (log_event (SerialWrite c sent) (log_event (SerialTx i c sent) s))
       in case writeReply w (clock s) of
            None \<Rightarrow> (Inr empty_out, s') | Some m \<Rightarrow> (Inl (StepFailed (BoardMessage m)), s')))"
      by (simp add: Let_def split: option.split)
  qed
  then show ?thesis by (simp add: SerialSendParams keeps_then keeps_requireSerial)
next
  case (AdcReadParams n)
  have "keeps (\<lambda>_. True) (adc_read_step w i n)"
  proof (rule keepsI)
    fix s
    obtain r s1 where s1: "call w (ReadPower n) s = (r, s1)" by fastforce
    have "step_le s s1" using keepsD [OF keeps_call_harmless, of "ReadPower n" "\<lambda>_. True" s w] s1 by simp
    with s1 show "step_le s (snd (adc_read_step w i n s))"
      by (auto simp: adc_read_step_def Let_def split: sum.split intro: step_le_trans [OF _ step_le_log])
  qed
  then show ?thesis by (simp add: AdcReadParams)
next
  case (GpioAssertParams pin d v)
  then show ?thesis
    unfolding GpioAssertParams run_params.simps gpio_assert_step_def
    by (intro keeps_then keeps_sleep keeps_getBoard keepsI) (simp_all split: option.split)
qed (auto intro!: keeps_intros keeps_touch_rail keeps_touch_gpio keeps_call_power)

lemma step_le_executeStep: "step_le s (snd (executeStep w step s))"
proof -
  obtain r s1 where m: "run_params w (executionId step) (stepParams (execStep step)) s = (r, s1)" by fastforce
  with keeps_run_params [of w "executionId step" "stepParams (execStep step)"] have "step_le s s1"
    using keepsD [where s = s] m by fastforce
  then show ?thesis
    by (auto simp: executeStep_def m intro: step_le_trans [OF _ step_le_cancel] split: sum.split step_exn.split)
qed

subsection \<open>The loop and the cleanup\<close>

lemma captureActive_cancel [simp]: "\<not> captureActive (cancel_active w s)"
  by (simp add: cancel_active_def log_event_def)

lemma captureActive_executeStep [simp]: "\<not> captureActive (snd (executeStep w step s))"
  by (simp add: executeStep_def split: prod.split sum.split step_exn.split)

lemma loop_fields [simp]:
  "captureActive (begin_step step s) = captureActive s" "captureActive (push_result r s) = captureActive s"
  "results (begin_step step s) = results s" "results (push_result r s) = results s @ [r]"
  "conditionOutcomes (begin_step step s) = conditionOutcomes s"
  "conditionOutcomes (push_result r s) = conditionOutcomes s"
  "aborted (begin_step step s) = aborted s" "aborted (push_result r s) = aborted s"
  by (simp_all add: begin_step_def push_result_def log_event_def)

lemma settle_fields [simp]:
  "captureActive (snd (settle_check step r s)) = captureActive s"
  "trace (snd (settle_check step r s)) = trace s"
  "touchedRails (snd (settle_check step r s)) = touchedRails s"
  "touchedGpios (snd (settle_check step r s)) = touchedGpios s"
  "results (snd (settle_check step r s)) = results s"
  "aborted (snd (settle_check step r s)) = aborted s"
  by (simp_all add: settle_check_def split: option.split)

lemma touch_le_loop: "touch_le s (begin_step step s)" "touch_le s (push_result r s)"
    "touch_le s (snd (settle_check step r s))"
  by (auto intro: touch_le_extend [where t = "[StepStart (executionId step)]"]
      touch_le_extend [where t = "[StepResultOut r]"] touch_le_extend [where t = "[]"]
      simp: begin_step_def push_result_def log_event_def)

text \<open>One round of the loop that executes a step.\<close>

definition execute_round :: "world \<Rightarrow> ExecutionStep \<Rightarrow> run \<Rightarrow> StepResult \<times> run" where
  "execute_round w step s1 =
     (case executeStep w step s1 of (executed, s2) \<Rightarrow> settle_check step executed s2)"

lemma run_steps_Cons:
  "run_steps w (step # steps) s =
     (if aborted s then s
      else if branch_skipped step (begin_step step s)
      then run_steps w steps (push_result (makeSkip step (nowMs (begin_step step s)) BranchNotSelected True) (begin_step step s))
      else if stops_run step (fst (execute_round w step (begin_step step s)))
      then push_result (fst (execute_round w step (begin_step step s))) (snd (execute_round w step (begin_step step s)))
      else run_steps w steps
        (push_result (fst (execute_round w step (begin_step step s))) (snd (execute_round w step (begin_step step s)))))"
  by (simp add: Let_def execute_round_def split_beta)

declare run_steps.simps(2) [simp del]

lemma touch_le_round: "touch_le s (snd (execute_round w step s))"
  using step_le_executeStep [of s w step] touch_le_loop(3)
  by (auto simp: execute_round_def split_beta step_le_def intro: touch_le_trans)

lemma round_fields [simp]:
  "\<not> captureActive (snd (execute_round w step s))"
  "results (snd (execute_round w step s)) = results s"
  using step_le_executeStep [of s w step] by (simp_all add: execute_round_def split_beta step_le_def)

lemma run_steps_touch: "touch_le s (run_steps w steps s)"
proof (induction steps arbitrary: s)
  case (Cons step steps)
  show ?case
    unfolding run_steps_Cons
    by (auto intro: touch_le_trans [OF touch_le_loop(1) touch_le_trans [OF touch_le_loop(2) Cons.IH]]
        touch_le_trans [OF touch_le_loop(1) touch_le_trans [OF touch_le_round touch_le_loop(2)]]
        touch_le_trans [OF touch_le_loop(1) touch_le_trans [OF touch_le_round touch_le_trans [OF touch_le_loop(2) Cons.IH]]])
qed simp

lemma run_steps_captureActive: "\<not> captureActive s \<Longrightarrow> \<not> captureActive (run_steps w steps s)"
  by (induction steps arbitrary: s) (simp_all add: run_steps_Cons)

text \<open>Without a capture and without a subscription, awaiting only moves the clock and may set
  the abort flag.\<close>

definition quiet :: "run \<Rightarrow> bool" where
  "quiet s \<longleftrightarrow> \<not> captureActive s \<and> \<not> subscribed s"

definition same_record :: "run \<Rightarrow> run \<Rightarrow> bool" where
  "same_record s s' \<longleftrightarrow> touchedRails s' = touchedRails s \<and> touchedGpios s' = touchedGpios s \<and>
     results s' = results s \<and> conditionOutcomes s' = conditionOutcomes s \<and>
     captureInfrastructureError s' = captureInfrastructureError s \<and> (aborted s \<longrightarrow> aborted s')"

lemma same_record_refl [simp]: "same_record s s"
  by (simp add: same_record_def)

lemma same_record_trans: "same_record a b \<Longrightarrow> same_record b c \<Longrightarrow> same_record a c"
  by (simp add: same_record_def)

lemma quiet_interfere:
  "quiet s \<Longrightarrow> quiet (interfere w s e) \<and> trace (interfere w s e) = trace s \<and> same_record s (interfere w s e)"
  by (cases e) (simp_all add: quiet_def same_record_def abort_def cancel_active_def)

lemma quiet_await:
  assumes "quiet s"
  shows "quiet (await w ms s) \<and> trace (await w ms s) = trace s \<and> same_record s (await w ms s)"
proof -
  have "quiet s \<Longrightarrow> quiet (foldl (interfere w) s es) \<and> trace (foldl (interfere w) s es) = trace s \<and>
      same_record s (foldl (interfere w) s es)" for s es
  proof (induction es arbitrary: s)
    case (Cons e es)
    with quiet_interfere [OF Cons.prems, of w e] show ?case by (auto intro: same_record_trans)
  qed simp
  from this [of "tick w ms s" "during w (clock s)"] assms show ?thesis
    by (simp add: await_def quiet_def tick_def same_record_def)
qed

lemma quiet_call:
  assumes "quiet s" "call w c s = (r, s')"
  shows "quiet s'" "same_record s s'"
    "trace s' = trace s @ (if boardPresent w (clock s) then [BoardCall c] else [])"
    "r = Inr u \<Longrightarrow> boardPresent w (clock s)"
proof -
  have log: "quiet (log_event (BoardCall c) s)" "same_record s (log_event (BoardCall c) s)"
    using assms(1) by (simp_all add: quiet_def log_event_def same_record_def)
  from assms(2) have s': "s' = (if boardPresent w (clock s) then await w 0 (log_event (BoardCall c) s) else s)"
    using snd_call [of w c s] by simp
  from quiet_await [OF log(1), of w 0] log s' assms(1)
  show "quiet s'" "same_record s s'"
      "trace s' = trace s @ (if boardPresent w (clock s) then [BoardCall c] else [])"
    by (auto simp: log_event_def intro: same_record_trans)
  show "r = Inr u \<Longrightarrow> boardPresent w (clock s)"
    using assms(2) by (auto simp: call_def thenM_def bindM_def getBoard_def split: if_splits)
qed

definition cleanup_loop ::
  "world \<Rightarrow> cleanup_kind \<Rightarrow> (string \<Rightarrow> board_call) \<Rightarrow> string list \<Rightarrow> CleanupActionResult list \<times> run \<Rightarrow>
    CleanupActionResult list \<times> run" where
  "cleanup_loop w kind f targets acc = foldl (\<lambda>acc t. record_action kind t (call w (f t)) acc) acc targets"

lemma cleanup_loop_spec:
  assumes "quiet s" "cleanup_loop w kind f targets (acts, s) = (acts', s')"
  shows "\<exists>new t. acts' = acts @ new \<and> map (\<lambda>a. (actKind a, actTarget a)) new = map (Pair kind) targets \<and>
    trace s' = trace s @ t \<and> set t \<subseteq> (\<lambda>x. BoardCall (f x)) ` set targets \<and>
    (\<forall>a \<in> set new. actError a = None \<longrightarrow> BoardCall (f (actTarget a)) \<in> set t) \<and> quiet s' \<and> same_record s s'"
  using assms
proof (induction targets arbitrary: acts s)
  case (Cons x xs)
  obtain r s1 where s1: "call w (f x) s = (r, s1)" by fastforce
  note q = quiet_call [OF Cons.prems(1) s1]
  define a where "a = \<lparr>actKind = kind, actTarget = x, actError = (case r of Inr _ \<Rightarrow> None
    | Inl e \<Rightarrow> Some (case e of RunnerAborted \<Rightarrow> AbortedMessage | StepFailed m \<Rightarrow> m))\<rparr>"
  have "record_action kind x (call w (f x)) (acts, s) = (acts @ [a], s1)"
    by (simp add: record_action_def s1 a_def split: sum.split)
  with Cons.prems(2) have "cleanup_loop w kind f xs (acts @ [a], s1) = (acts', s')"
    by (simp add: cleanup_loop_def)
  from Cons.IH [OF q(1) this] obtain new t where new: "acts' = acts @ a # new"
      "map (\<lambda>a. (actKind a, actTarget a)) new = map (Pair kind) xs" "trace s' = trace s1 @ t"
      "set t \<subseteq> (\<lambda>x. BoardCall (f x)) ` set xs"
      "\<forall>a \<in> set new. actError a = None \<longrightarrow> BoardCall (f (actTarget a)) \<in> set t" "quiet s'" "same_record s1 s'"
    by auto
  have a: "actError a = None \<longrightarrow> boardPresent w (clock s)"
    using q(4) by (cases r) (simp_all add: a_def)
  show ?case
    using new a same_record_trans [OF q(2)]
    by (intro exI [of _ "a # new"] exI [of _ "(if boardPresent w (clock s) then [BoardCall (f x)] else []) @ t"])
      (auto simp: q(3) a_def)
qed (simp add: cleanup_loop_def)

lemma performSafeCleanup_quiet:
  assumes "quiet s"
  shows "performSafeCleanup w s =
    (let acc = cleanup_loop w CleanPower (\<lambda>rail. SetPower rail False)
           (touchedRails (snd (cleanup_loop w CleanGpio (\<lambda>pin. SetGpio pin DirInput None) (touchedGpios s) ([], s))))
           (cleanup_loop w CleanGpio (\<lambda>pin. SetGpio pin DirInput None) (touchedGpios s) ([], s))
     in (\<lparr>clnAttempted = (length (fst acc) > 0), clnPassed = list_all (\<lambda>action. actError action = None) (fst acc),
          clnActions = fst acc\<rparr>, snd acc))"
  using assms by (simp add: performSafeCleanup_def cleanup_loop_def quiet_def Let_def)

lemma cleanup_spec:
  assumes "quiet s" "performSafeCleanup w s = (c, s')"
  shows "\<exists>t. trace s' = trace s @ t \<and> quiet s' \<and> same_record s s' \<and>
    set t \<subseteq> (\<lambda>pin. BoardCall (SetGpio pin DirInput None)) ` set (touchedGpios s) \<union>
      (\<lambda>rail. BoardCall (SetPower rail False)) ` set (touchedRails s) \<and>
    map (\<lambda>a. (actKind a, actTarget a)) (clnActions c) =
      map (Pair CleanGpio) (touchedGpios s) @ map (Pair CleanPower) (touchedRails s) \<and>
    clnPassed c = list_all (\<lambda>a. actError a = None) (clnActions c) \<and>
    (\<forall>a \<in> set (clnActions c). actError a = None \<longrightarrow>
       (if actKind a = CleanGpio then BoardCall (SetGpio (actTarget a) DirInput None)
        else BoardCall (SetPower (actTarget a) False)) \<in> set t)"
proof -
  obtain as1 s1 where gpio: "cleanup_loop w CleanGpio (\<lambda>pin. SetGpio pin DirInput None) (touchedGpios s) ([], s) = (as1, s1)"
    by fastforce
  from cleanup_loop_spec [OF assms(1) gpio] obtain t1 where
    g: "map (\<lambda>a. (actKind a, actTarget a)) as1 = map (Pair CleanGpio) (touchedGpios s)" "trace s1 = trace s @ t1"
      "set t1 \<subseteq> (\<lambda>pin. BoardCall (SetGpio pin DirInput None)) ` set (touchedGpios s)"
      "\<forall>a \<in> set as1. actError a = None \<longrightarrow> BoardCall (SetGpio (actTarget a) DirInput None) \<in> set t1"
      "quiet s1" "same_record s s1" by auto
  obtain as2 s2 where power: "cleanup_loop w CleanPower (\<lambda>rail. SetPower rail False) (touchedRails s1) (as1, s1) = (as2, s2)"
    by fastforce
  from cleanup_loop_spec [OF g(5) power] obtain new t2 where
    p: "as2 = as1 @ new" "map (\<lambda>a. (actKind a, actTarget a)) new = map (Pair CleanPower) (touchedRails s1)"
      "trace s2 = trace s1 @ t2" "set t2 \<subseteq> (\<lambda>rail. BoardCall (SetPower rail False)) ` set (touchedRails s1)"
      "\<forall>a \<in> set new. actError a = None \<longrightarrow> BoardCall (SetPower (actTarget a) False) \<in> set t2"
      "quiet s2" "same_record s1 s2" by auto
  have rails: "touchedRails s1 = touchedRails s" using g(6) by (simp add: same_record_def)
  have c: "c = \<lparr>clnAttempted = (length as2 > 0), clnPassed = list_all (\<lambda>a. actError a = None) as2, clnActions = as2\<rparr>"
    "s' = s2" using assms(2) by (simp_all add: performSafeCleanup_quiet [OF assms(1)] gpio power Let_def)
  have "(actKind a, actTarget a) \<in> set (map (Pair CleanGpio) (touchedGpios s))" if "a \<in> set as1" for a
    using that unfolding g(1) [symmetric] by auto
  then have k1: "actKind a = CleanGpio" if "a \<in> set as1" for a using that by auto
  have "(actKind a, actTarget a) \<in> set (map (Pair CleanPower) (touchedRails s1))" if "a \<in> set new" for a
    using that unfolding p(2) [symmetric] by auto
  then have k2: "actKind a = CleanPower" if "a \<in> set new" for a using that by auto
  show ?thesis
  proof (intro exI [of _ "t1 @ t2"] conjI ballI impI)
    fix a assume "a \<in> set (clnActions c)" "actError a = None"
    with g(4) p(5) k1 k2 show "(if actKind a = CleanGpio then BoardCall (SetGpio (actTarget a) DirInput None)
        else BoardCall (SetPower (actTarget a) False)) \<in> set (t1 @ t2)"
      by (auto simp: c p(1))
  qed (use g p c rails same_record_trans [OF g(6) p(7)] in auto)
qed

text \<open>The state a rail was last commanded to.\<close>

fun power_event :: "string \<Rightarrow> bool option \<Rightarrow> runner_event \<Rightarrow> bool option" where
  "power_event rail p (BoardCall (SetPower r on)) = (if r = rail then Some on else p)"
| "power_event rail p _ = p"

definition powered :: "string \<Rightarrow> runner_event list \<Rightarrow> bool option" where
  "powered rail tr = foldl (power_event rail) None tr"

lemma powered_snoc:
  "powered rail (tr @ [e]) = power_event rail (powered rail tr) e"
  by (simp add: powered_def)

lemma powered_off_suffix:
  assumes "BoardCall (SetPower rail False) \<in> set t" "\<And>r. BoardCall (SetPower r True) \<notin> set t"
  shows "powered rail (tr @ t) = Some False"
  using assms
proof (induction t rule: rev_induct)
  case (snoc e t)
  show ?case
  proof (cases "e = BoardCall (SetPower rail False)")
    case True
    then show ?thesis by (simp add: powered_snoc flip: append_assoc)
  next
    case False
    with snoc have "powered rail (tr @ t) = Some False" by auto
    then show ?thesis
      using snoc.prems(2) by (cases "(rail, Some False, e)" rule: power_event.cases) (auto simp: powered_snoc simp flip: append_assoc)
  qed
qed simp

lemma run_ends:
  "let (summary, s) = startRun w hasSerial plan (init_run t0) in
   \<exists>c. sumCleanup summary = Some c \<and> \<not> captureActive s \<and>
     (\<forall>rail on. BoardCall (SetPower rail on) \<in> set (trace s) \<longrightarrow> rail \<in> set (touchedRails s)) \<and>
     (\<forall>pin d v. BoardCall (SetGpio pin d v) \<in> set (trace s) \<longrightarrow> pin \<in> set (touchedGpios s)) \<and>
     map (\<lambda>a. (actKind a, actTarget a)) (clnActions c) =
       map (Pair CleanGpio) (touchedGpios s) @ map (Pair CleanPower) (touchedRails s) \<and>
     (\<forall>a \<in> set (clnActions c). actError a = None \<longrightarrow>
        (if actKind a = CleanPower then powered (actTarget a) (trace s) = Some False
         else BoardCall (SetGpio (actTarget a) DirInput None) \<in> set (trace s)))"
proof -
  define s1 where "s1 = (case validateExecutionPreconditions w 0 plan of Inl e \<Rightarrow> init_run t0
    | Inr _ \<Rightarrow> run_steps w plan ((init_run t0)\<lparr>subscribed := hasSerial\<rparr>))"
  have start: "touch_le ((init_run t0)\<lparr>subscribed := b\<rparr>) s1 \<and> \<not> captureActive s1" for b
    using run_steps_touch [of "(init_run t0)\<lparr>subscribed := hasSerial\<rparr>" w plan]
      run_steps_captureActive [of "(init_run t0)\<lparr>subscribed := hasSerial\<rparr>" w plan]
    by (auto simp: s1_def init_run_def touch_le_def split: sum.split)
  obtain c s2 where clean: "performSafeCleanup w (s1\<lparr>subscribed := False\<rparr>) = (c, s2)" by fastforce
  have q: "quiet (s1\<lparr>subscribed := False\<rparr>)" using start by (simp add: quiet_def)
  from cleanup_spec [OF q clean] obtain t where t: "trace s2 = trace s1 @ t" "quiet s2"
      "touchedRails s2 = touchedRails s1" "touchedGpios s2 = touchedGpios s1"
      "set t \<subseteq> (\<lambda>pin. BoardCall (SetGpio pin DirInput None)) ` set (touchedGpios s1) \<union>
        (\<lambda>rail. BoardCall (SetPower rail False)) ` set (touchedRails s1)"
      "map (\<lambda>a. (actKind a, actTarget a)) (clnActions c) =
        map (Pair CleanGpio) (touchedGpios s1) @ map (Pair CleanPower) (touchedRails s1)"
      "\<forall>a \<in> set (clnActions c). actError a = None \<longrightarrow>
        (if actKind a = CleanGpio then BoardCall (SetGpio (actTarget a) DirInput None)
         else BoardCall (SetPower (actTarget a) False)) \<in> set t"
    by (auto simp: same_record_def)
  have "trace ((init_run t0)\<lparr>subscribed := True\<rparr>) = []" by (simp add: init_run_def)
  with start [of True] have
    "(\<forall>rail on. BoardCall (SetPower rail on) \<in> set (trace s1) \<longrightarrow> rail \<in> set (touchedRails s1)) \<and>
     (\<forall>pin d v. BoardCall (SetGpio pin d v) \<in> set (trace s1) \<longrightarrow> pin \<in> set (touchedGpios s1))"
    unfolding touch_le_def by (metis append_Nil)
  then have touched: "BoardCall (SetPower rail on) \<in> set (trace s1) \<Longrightarrow> rail \<in> set (touchedRails s1)"
      "BoardCall (SetGpio pin d v) \<in> set (trace s1) \<Longrightarrow> pin \<in> set (touchedGpios s1)" for rail on pin d v
    by blast+
  have off: "BoardCall (SetPower r True) \<notin> set t" for r using t(5) by auto
  have result: "startRun w hasSerial plan (init_run t0) =
      (summary_of_run t0 plan (case validateExecutionPreconditions w 0 plan of Inl e \<Rightarrow> Some e | Inr _ \<Rightarrow> None) c s2, s2)"
    using clean by (auto simp: startRun_def s1_def init_run_def Let_def split: sum.splits)
  have safe: "(if actKind a = CleanPower then powered (actTarget a) (trace s2) = Some False
      else BoardCall (SetGpio (actTarget a) DirInput None) \<in> set (trace s2))"
    if a: "a \<in> set (clnActions c)" "actError a = None" for a
  proof (cases "actKind a")
    case CleanPower
    with t(7) a have "BoardCall (SetPower (actTarget a) False) \<in> set t" by auto
    with powered_off_suffix [OF _ off] CleanPower show ?thesis by (simp add: t(1))
  next
    case CleanGpio
    with t(7) a show ?thesis by (auto simp: t(1))
  next
    case CleanCapture
    have "(actKind a, actTarget a) \<in> set (map (\<lambda>a. (actKind a, actTarget a)) (clnActions c))" using a by auto
    with CleanCapture show ?thesis unfolding t(6) by auto
  qed
  have rails: "rail \<in> set (touchedRails s2)" if "BoardCall (SetPower rail on) \<in> set (trace s2)" for rail on
    using that touched(1) t(5) by (auto simp: t(1,3))
  have gpios: "pin \<in> set (touchedGpios s2)" if "BoardCall (SetGpio pin d v) \<in> set (trace s2)" for pin d v
    using that touched(2) t(5) by (auto simp: t(1,4))
  have "\<not> captureActive s2" using t(2) by (simp add: quiet_def)
  with safe rails gpios show ?thesis
    unfolding result prod.case Let_def
    by (intro exI [of _ c] conjI allI ballI impI) (simp_all add: summary_of_run_def Let_def t(3,4,6))
qed

subsection \<open>Results follow the plan\<close>

text \<open>The outcome of condition \<open>i\<close> after some rounds: the latest conclusive check's.\<close>

fun note_outcome :: "string \<Rightarrow> bool option \<Rightarrow> ExecutionStep \<times> StepResult \<Rightarrow> bool option" where
  "note_outcome i outcome (step, result) =
     (if condition_of step = Some i \<and> role_of step = Some RoleCheck \<and> resConditionOutcome result \<noteq> None
      then resConditionOutcome result else outcome)"

definition check_outcome :: "string \<Rightarrow> (ExecutionStep \<times> StepResult) list \<Rightarrow> bool option" where
  "check_outcome i rounds = foldl (note_outcome i) None rounds"

text \<open>
  A result explained by the rounds before it: it names its step, and it is a conditional skip
  exactly when its step is in a branch its condition's check did not select.
\<close>

definition explained :: "(ExecutionStep \<times> StepResult) list \<Rightarrow> ExecutionStep \<Rightarrow> StepResult \<Rightarrow> bool" where
  "explained before step result \<longleftrightarrow>
     resStepId result = executionId step \<and> resSourceStepId result = sourceStepId step \<and>
     resContext result = execContext step \<and> resStepType result = step_type (stepParams (execStep step)) \<and>
     resConditionalSkip result = (case condition_of step of
         None \<Rightarrow> False
       | Some i \<Rightarrow> role_of step = Some RoleThen \<and> check_outcome i before \<noteq> Some True \<or>
           role_of step = Some RoleElse \<and> check_outcome i before \<noteq> Some False) \<and>
     (resConditionalSkip result \<longrightarrow> resStatus result = StSkip)"

fun all_explained :: "(ExecutionStep \<times> StepResult) list \<Rightarrow> (ExecutionStep \<times> StepResult) list \<Rightarrow> bool" where
  "all_explained before [] = True"
| "all_explained before ((step, result) # rounds) =
     (explained before step result \<and> (rounds \<noteq> [] \<longrightarrow> \<not> stops_run step result) \<and>
      all_explained (before @ [(step, result)]) rounds)"

lemma check_outcome_snoc [simp]:
  "check_outcome i (rounds @ [(step, result)]) =
     (if condition_of step = Some i \<and> role_of step = Some RoleCheck \<and> resConditionOutcome result \<noteq> None
      then resConditionOutcome result else check_outcome i rounds)"
  by (auto simp: check_outcome_def)

lemma result_of_fields [simp]:
  "resStepId (result_of step st a b d) = executionId step"
  "resSourceStepId (result_of step st a b d) = sourceStepId step"
  "resContext (result_of step st a b d) = execContext step"
  "resStepType (result_of step st a b d) = step_type (stepParams (execStep step))"
  "resConditionOutcome (result_of step st a b d) = None" "\<not> resConditionalSkip (result_of step st a b d)"
  "resStatus (result_of step st a b d) = st"
  by (simp_all add: result_of_def)

text \<open>Every result of the loop names the step it was made for.\<close>

definition names_step :: "ExecutionStep \<Rightarrow> StepResult \<Rightarrow> bool" where
  "names_step step result \<longleftrightarrow> resStepId result = executionId step \<and>
     resSourceStepId result = sourceStepId step \<and> resContext result = execContext step \<and>
     resStepType result = step_type (stepParams (execStep step))"

lemma executeStep_result:
  "names_step step (fst (executeStep w step s))" "resConditionOutcome (fst (executeStep w step s)) = None"
  "\<not> resConditionalSkip (fst (executeStep w step s))"
  by (simp_all add: executeStep_def step_result_def Let_def names_step_def
      split: prod.split sum.split step_exn.split)

lemma makeSkip_result [simp]:
  "names_step step (makeSkip step t e b)" "resConditionOutcome (makeSkip step t e b) = None"
  "resConditionalSkip (makeSkip step t e b) = b" "resStatus (makeSkip step t e b) = StSkip"
  by (simp_all add: makeSkip_def names_step_def)

lemma round_result:
  assumes "execute_round w step s = (result, s')"
  shows "names_step step result" "\<not> resConditionalSkip result"
    "conditionOutcomes s' = (\<lambda>i. if condition_of step = Some i \<and> role_of step = Some RoleCheck \<and>
       resConditionOutcome result \<noteq> None then resConditionOutcome result else conditionOutcomes s i)"
proof -
  obtain executed s2 where e: "executeStep w step s = (executed, s2)" by fastforce
  note f = executeStep_result [where w = w and step = step and s = s, unfolded e fst_conv]
  have keep: "conditionOutcomes s2 = conditionOutcomes s"
    using step_le_executeStep [of s w step] by (simp add: e step_le_def)
  have round: "settle_check step executed s2 = (result, s')" using assms by (simp add: execute_round_def e)
  show "names_step step result" "\<not> resConditionalSkip result"
      "conditionOutcomes s' = (\<lambda>i. if condition_of step = Some i \<and> role_of step = Some RoleCheck \<and>
         resConditionOutcome result \<noteq> None then resConditionOutcome result else conditionOutcomes s i)"
    using round f keep
    by (auto simp: settle_check_def names_step_def fun_eq_iff split: option.splits if_splits)
qed

lemma skip_does_not_stop:
  "branch_skipped step s \<Longrightarrow> \<not> stops_run step (makeSkip step t e b)"
  by (auto simp: branch_skipped_def stops_run_def split: option.splits if_splits)

lemma explained_skip:
  assumes "conditionOutcomes s = (\<lambda>i. check_outcome i before)" "branch_skipped step s"
  shows "explained before step (makeSkip step t e True)"
  using assms makeSkip_result(1) [of step t e True]
  by (auto simp: explained_def branch_skipped_def names_step_def split: option.splits if_splits)

lemma explained_round:
  assumes "conditionOutcomes s = (\<lambda>i. check_outcome i before)" "\<not> branch_skipped step s"
    "names_step step result" "\<not> resConditionalSkip result"
  shows "explained before step result"
  using assms by (auto simp: explained_def branch_skipped_def names_step_def split: option.splits if_splits)

text \<open>The loop adds explained results, in the plan's order; it stops short only for a reason.\<close>

definition stopped_by :: "(ExecutionStep \<times> StepResult) list \<Rightarrow> bool" where
  "stopped_by rounds \<longleftrightarrow> rounds \<noteq> [] \<and> stops_run (fst (last rounds)) (snd (last rounds))"

lemma run_steps_results:
  assumes "conditionOutcomes s = (\<lambda>i. check_outcome i before)"
  shows "\<exists>rounds. results (run_steps w steps s) = results s @ map snd rounds \<and>
    map fst rounds = take (length rounds) steps \<and> all_explained before rounds \<and>
    (length rounds = length steps \<or> aborted (run_steps w steps s) \<or> stopped_by rounds)"
  using assms
proof (induction steps arbitrary: s before)
  case Nil
  show ?case by (rule exI [of _ "[]"]) simp
next
  case (Cons step steps)
  define s1 where "s1 = begin_step step s"
  have s1: "conditionOutcomes s1 = (\<lambda>i. check_outcome i before)" "results s1 = results s"
    using Cons.prems by (simp_all add: s1_def)
  show ?case
  proof (cases "aborted s")
    case True
    then show ?thesis by (intro exI [of _ "[]"]) (simp add: run_steps_Cons)
  next
    case running: False
    show ?thesis
    proof (cases "branch_skipped step s1")
      case True
      define r where "r = makeSkip step (nowMs s1) BranchNotSelected True"
      have "conditionOutcomes (push_result r s1) = (\<lambda>i. check_outcome i (before @ [(step, r)]))"
        using s1(1) by (simp add: r_def)
      from Cons.IH [OF this] obtain rounds where
        "results (run_steps w steps (push_result r s1)) = results s @ r # map snd rounds"
        "map fst rounds = take (length rounds) steps" "all_explained (before @ [(step, r)]) rounds"
        "length rounds = length steps \<or> aborted (run_steps w steps (push_result r s1)) \<or> stopped_by rounds"
        using s1(2) by auto
      with running True explained_skip [OF s1(1) True] skip_does_not_stop [OF True] show ?thesis
        by (intro exI [of _ "(step, r) # rounds"])
          (auto simp: run_steps_Cons r_def stopped_by_def simp flip: s1_def)
    next
      case False
      obtain r s2 where round: "execute_round w step s1 = (r, s2)" by fastforce
      note rr = round_result [OF round]
      have ex: "explained before step r" by (rule explained_round [OF s1(1) False rr(1,2)])
      have res: "results s2 = results s" using round_fields(2) [of w step s1] round s1(2) by simp
      show ?thesis
      proof (cases "stops_run step r")
        case True
        with running False round ex res show ?thesis
          by (intro exI [of _ "[(step, r)]"]) (simp add: run_steps_Cons stopped_by_def flip: s1_def)
      next
        case on: False
        have "conditionOutcomes (push_result r s2) = (\<lambda>i. check_outcome i (before @ [(step, r)]))"
          using rr(3) s1(1) by (auto simp: fun_eq_iff)
        from Cons.IH [OF this] obtain rounds where
          "results (run_steps w steps (push_result r s2)) = results s @ r # map snd rounds"
          "map fst rounds = take (length rounds) steps" "all_explained (before @ [(step, r)]) rounds"
          "length rounds = length steps \<or> aborted (run_steps w steps (push_result r s2)) \<or> stopped_by rounds"
          using res by auto
        with running False round ex on show ?thesis
          by (intro exI [of _ "(step, r) # rounds"])
            (auto simp: run_steps_Cons stopped_by_def simp flip: s1_def)
      qed
    qed
  qed
qed

lemma zip_back: "map fst rounds = take (length rounds) steps \<Longrightarrow> zip steps (map snd rounds) = rounds"
  by (induction rounds arbitrary: steps; case_tac steps) auto

text \<open>What a run's summary is made of.\<close>

lemma startRun_cases:
  "startRun w hasSerial plan (init_run t0) = (summary, s) \<Longrightarrow>
   \<exists>s1 c. performSafeCleanup w (s1\<lparr>subscribed := False\<rparr>) = (c, s) \<and>
     summary = summary_of_run t0 plan (case validateExecutionPreconditions w 0 plan of Inl e \<Rightarrow> Some e | Inr _ \<Rightarrow> None) c s \<and>
     quiet (s1\<lparr>subscribed := False\<rparr>) \<and>
     s1 = (case validateExecutionPreconditions w 0 plan of Inl e \<Rightarrow> init_run t0
       | Inr _ \<Rightarrow> run_steps w plan ((init_run t0)\<lparr>subscribed := hasSerial\<rparr>))"
  using run_steps_captureActive [of "(init_run t0)\<lparr>subscribed := hasSerial\<rparr>" w plan]
  by (auto simp: startRun_def Let_def quiet_def init_run_def split: sum.splits prod.splits)

lemma startRun_results:
  assumes "startRun w hasSerial plan (init_run t0) = (summary, s)"
  shows "length (sumResults summary) \<le> length plan \<and> all_explained [] (zip plan (sumResults summary)) \<and>
    (length (sumResults summary) = length plan \<or> sumAborted summary \<or>
     stopped_by (zip plan (sumResults summary)) \<or> (\<exists>e. validateExecutionPreconditions w 0 plan = Inl e))"
proof -
  from startRun_cases [OF assms] obtain s1 c where c: "performSafeCleanup w (s1\<lparr>subscribed := False\<rparr>) = (c, s)"
      "summary = summary_of_run t0 plan (case validateExecutionPreconditions w 0 plan of Inl e \<Rightarrow> Some e | Inr _ \<Rightarrow> None) c s"
      "quiet (s1\<lparr>subscribed := False\<rparr>)" and
    s1: "s1 = (case validateExecutionPreconditions w 0 plan of Inl e \<Rightarrow> init_run t0
       | Inr _ \<Rightarrow> run_steps w plan ((init_run t0)\<lparr>subscribed := hasSerial\<rparr>))" by blast
  from cleanup_spec [OF c(3,1)] have keep: "results s = results s1" "aborted s1 \<Longrightarrow> aborted s"
    by (auto simp: same_record_def)
  have sum: "sumResults summary = results s1" "sumAborted summary = aborted s"
    using keep by (simp_all add: c(2) summary_of_run_def Let_def)
  show ?thesis
  proof (cases "validateExecutionPreconditions w 0 plan")
    case (Inl e)
    then show ?thesis by (simp add: sum s1 init_run_def)
  next
    case (Inr u)
    have "conditionOutcomes ((init_run t0)\<lparr>subscribed := hasSerial\<rparr>) = (\<lambda>i. check_outcome i [])"
      by (simp add: init_run_def check_outcome_def)
    from run_steps_results [OF this, of w plan] obtain rounds where
      r: "results s1 = map snd rounds" "map fst rounds = take (length rounds) plan" "all_explained [] rounds"
        "length rounds = length plan \<or> aborted s1 \<or> stopped_by rounds"
      by (auto simp: s1 Inr init_run_def)
    have "length rounds \<le> length plan" using arg_cong [OF r(2), of length] by simp
    moreover have "zip plan (map snd rounds) = rounds"
      using zip_back [OF r(2)] .
    ultimately show ?thesis using r keep(2) by (auto simp: sum)
  qed
qed


text \<open>
  C12: The results of a run follow its plan. The n-th result names the n-th step of the plan;
  it is a conditional skip exactly when the step stands in the branch of a condition that the
  latest conclusive check of that condition did not select (or when no check was conclusive);
  no step is started after one that stops the run; and the results end before the plan does
  only because the run was aborted, a step stopped it, or a precondition failed.
\<close>

theorem run_follows_plan:
  "let (summary, s) = startRun w hasSerial plan (init_run t0); rounds = zip plan (sumResults summary) in
   length (sumResults summary) \<le> length plan \<and> all_explained [] rounds \<and>
   (length (sumResults summary) = length plan \<or> sumAborted summary \<or> stopped_by rounds \<or>
    (\<exists>e. validateExecutionPreconditions w 0 plan = Inl e))"
  using startRun_results by (simp add: Let_def split: prod.split)

lemma explained_ids:
  "all_explained before rounds \<Longrightarrow> map (\<lambda>x. resStepId (snd x)) rounds = map (\<lambda>x. executionId (fst x)) rounds"
  by (induction before rounds rule: all_explained.induct) (simp_all add: explained_def)

lemma zipped_map:
  "length ys = length xs \<Longrightarrow> map (\<lambda>x. f (snd x)) (zip xs ys) = map f ys \<and> map (\<lambda>x. g (fst x)) (zip xs ys) = map g xs"
  by (induction ys xs rule: list_induct2) simp_all

text \<open>A clean end: every rail ever switched is off, every pin ever set is an input.\<close>

definition bench_safe :: "runner_event list \<Rightarrow> bool" where
  "bench_safe tr \<longleftrightarrow>
     (\<forall>rail on. BoardCall (SetPower rail on) \<in> set tr \<longrightarrow> powered rail tr = Some False) \<and>
     (\<forall>pin d v. BoardCall (SetGpio pin d v) \<in> set tr \<longrightarrow> BoardCall (SetGpio pin DirInput None) \<in> set tr)"

definition safe_end :: "CleanupSummary \<Rightarrow> run \<Rightarrow> bool" where
  "safe_end c s \<longleftrightarrow> \<not> captureActive s \<and>
     (\<forall>rail on. BoardCall (SetPower rail on) \<in> set (trace s) \<longrightarrow> rail \<in> set (touchedRails s)) \<and>
     (\<forall>pin d v. BoardCall (SetGpio pin d v) \<in> set (trace s) \<longrightarrow> pin \<in> set (touchedGpios s)) \<and>
     map (\<lambda>a. (actKind a, actTarget a)) (clnActions c) =
       map (Pair CleanGpio) (touchedGpios s) @ map (Pair CleanPower) (touchedRails s) \<and>
     (\<forall>a \<in> set (clnActions c). actError a = None \<longrightarrow>
        (if actKind a = CleanPower then powered (actTarget a) (trace s) = Some False
         else BoardCall (SetGpio (actTarget a) DirInput None) \<in> set (trace s)))"

text \<open>
  A run reported successful did what it says. Every step of the plan has its result, in
  order; each passed or was skipped by its condition; nobody aborted; the preconditions held;
  and the bench was left safe: every rail the run ever switched is off again and every pin it
  ever set is an input.
\<close>

lemma successful_run:
  assumes "startRun w hasSerial plan (init_run t0) = (summary, s)" "isRunSuccessful summary"
  shows "map resStepId (sumResults summary) = map executionId plan \<and>
    (\<forall>r \<in> set (sumResults summary). resStatus r = StPass \<or> resStatus r = StSkip \<and> resConditionalSkip r) \<and>
    \<not> aborted s \<and> bench_safe (trace s)"
proof -
  from startRun_results [OF assms(1)] have ex: "all_explained [] (zip plan (sumResults summary))" by blast
  from startRun_cases [OF assms(1)] obtain c e s1 where c: "summary = summary_of_run t0 plan e c s"
      "performSafeCleanup w (s1\<lparr>subscribed := False\<rparr>) = (c, s)" "quiet (s1\<lparr>subscribed := False\<rparr>)" by blast
  have len: "length (sumResults summary) = length plan" and clean: "clnPassed c"
    and ab: "\<not> aborted s" and ok: "list_all (\<lambda>result. resStatus result = StPass \<or>
      resStatus result = StSkip \<and> resConditionalSkip result) (sumResults summary)"
    using assms(2) by (auto simp: isRunSuccessful_def c(1) summary_of_run_def Let_def)
  from cleanup_spec [OF c(3,2)] clean have passed: "actError a = None" if "a \<in> set (clnActions c)" for a
    using that by (auto simp: list_all_iff)
  have ids: "map resStepId (sumResults summary) = map executionId plan"
    using explained_ids [OF ex] zipped_map [OF len, of resStepId executionId] by (simp del: map_eq_conv)
  from run_ends [of w hasSerial plan t0, unfolded assms(1) Let_def prod.case, folded safe_end_def]
  obtain c' where "sumCleanup summary = Some c'" "safe_end c' s" by (elim exE conjE)
  then have "safe_end c s" by (simp add: c(1) summary_of_run_def Let_def)
  then have e:
      "\<And>rail on. BoardCall (SetPower rail on) \<in> set (trace s) \<Longrightarrow> rail \<in> set (touchedRails s)"
      "\<And>pin d v. BoardCall (SetGpio pin d v) \<in> set (trace s) \<Longrightarrow> pin \<in> set (touchedGpios s)"
      "map (\<lambda>a. (actKind a, actTarget a)) (clnActions c) =
         map (Pair CleanGpio) (touchedGpios s) @ map (Pair CleanPower) (touchedRails s)"
      "\<And>a. a \<in> set (clnActions c) \<Longrightarrow> actError a = None \<Longrightarrow>
         (if actKind a = CleanPower then powered (actTarget a) (trace s) = Some False
          else BoardCall (SetGpio (actTarget a) DirInput None) \<in> set (trace s))"
    unfolding safe_end_def by blast+
  have action: "\<exists>a \<in> set (clnActions c). actKind a = k \<and> actTarget a = x"
    if "(k, x) \<in> set (map (Pair CleanGpio) (touchedGpios s) @ map (Pair CleanPower) (touchedRails s))" for k x
    using that unfolding e(3) [symmetric] by auto
  have "powered rail (trace s) = Some False" if "BoardCall (SetPower rail on) \<in> set (trace s)" for rail on
    using action [of CleanPower rail] e(1) [OF that] e(4) passed by fastforce
  moreover have "BoardCall (SetGpio pin DirInput None) \<in> set (trace s)"
    if "BoardCall (SetGpio pin d v) \<in> set (trace s)" for pin d v
    using action [of CleanGpio pin] e(2) [OF that] e(4) passed by fastforce
  ultimately show ?thesis using ids ok ab by (auto simp: bench_safe_def list_all_iff)
qed

text \<open>A bench that always answers, for the instances below.\<close>

definition calm :: "world" where
  "calm = \<lparr>boardPresent = (\<lambda>_. True), boardConnected = True, callReply = (\<lambda>_ _. None),
     powerReading = (\<lambda>_ _. Fin 0), gpiosAt = (\<lambda>_. []), capturesAt = (\<lambda>_. []), serialConnected = (\<lambda>_ _. True),
     writeReply = (\<lambda>_. None), during = (\<lambda>_. []), delayMs = (\<lambda>_. 0), matchEnd = (\<lambda>_. Some (\<lambda>_. None)),
     matches = (\<lambda>_. Some (\<lambda>_. True)), runId = (\<lambda>n. n)\<rparr>"

definition off_step :: ExecutionStep where
  "off_step = \<lparr>execStep = \<lparr>stepId = ''off'', stepParams = PowerOffParams ''V5'', stepAssert = None,
       stepContinueOnError = False\<rparr>,
     executionId = ''off'', sourceStepId = ''off'', execContext = no_context\<rparr>"


lemma successful_run_witness:
  "case startRun calm False [off_step] (init_run 0) of (summary, s) \<Rightarrow>
     map resStepId (sumResults summary) = [''off''] \<and> powered ''V5'' (trace s) = Some False"
proof -
  obtain summary s where run: "startRun calm False [off_step] (init_run 0) = (summary, s)" by fastforce
  have "isRunSuccessful (fst (startRun calm False [off_step] (init_run 0)))" by code_simp
  moreover have "BoardCall (SetPower ''V5'' False) \<in> set (trace (snd (startRun calm False [off_step] (init_run 0))))"
    by code_simp
  ultimately have ok: "isRunSuccessful summary" "BoardCall (SetPower ''V5'' False) \<in> set (trace s)"
    by (simp_all add: run)
  from successful_run [OF run ok(1)] ok(2) have "map resStepId (sumResults summary) = [executionId off_step]"
      "powered ''V5'' (trace s) = Some False"
    unfolding bench_safe_def by auto
  then show ?thesis unfolding run prod.case by (simp add: off_step_def)
qed

subsection \<open>A serial wait and the run's buffer\<close>

definition received_texts :: "SerialChannel \<Rightarrow> interference list \<Rightarrow> string list" where
  "received_texts channel es =
     concat (map (\<lambda>e. case e of Received c x \<Rightarrow> if c = channel then [x] else [] | _ \<Rightarrow> []) es)"

definition cursor_ok :: "SerialChannel \<Rightarrow> run \<Rightarrow> bool" where
  "cursor_ok channel s \<longleftrightarrow> serialCursor s channel \<le> length (serialText s channel)"

lemma append_bounded_drop: "appendBoundedText current x = drop (length (current @ x) - SERIAL_BUFFER_LIMIT) (current @ x)"
  by (simp add: appendBoundedText_def Let_def last_chars_def)

lemma unread_append:
  assumes "cursor_ok channel s"
  shows "unreadSerialBuffer channel (appendSerialBuffer channel x s) = appendBoundedText (unreadSerialBuffer channel s) x"
    "cursor_ok channel (appendSerialBuffer c x s)"
    "c \<noteq> channel \<Longrightarrow> unreadSerialBuffer channel (appendSerialBuffer c x s) = unreadSerialBuffer channel s"
    "subscribed (appendSerialBuffer c x s) = subscribed s"
proof -
  let ?k = "serialCursor s channel" and ?t = "serialText s channel"
  have k: "?k \<le> length ?t" using assms by (simp add: cursor_ok_def)
  have "drop ?k ?t @ x = drop ?k (?t @ x)" using k by simp
  then have "appendBoundedText (drop ?k ?t) x =
      drop (length (drop ?k (?t @ x)) - SERIAL_BUFFER_LIMIT) (drop ?k (?t @ x))"
    by (simp only: append_bounded_drop)
  then show "unreadSerialBuffer channel (appendSerialBuffer channel x s) = appendBoundedText (unreadSerialBuffer channel s) x"
    using k by (auto simp: unreadSerialBuffer_def appendSerialBuffer_def Let_def add.commute intro!: arg_cong2 [of _ _ _ _ drop])
qed (use assms in \<open>auto simp: unreadSerialBuffer_def appendSerialBuffer_def Let_def cursor_ok_def\<close>)

lemma buffer_fields [simp]:
  "unreadSerialBuffer c (log_event e s) = unreadSerialBuffer c s" "cursor_ok c (log_event e s) = cursor_ok c s"
  "subscribed (log_event e s) = subscribed s"
  "unreadSerialBuffer c (tick w ms s) = unreadSerialBuffer c s" "cursor_ok c (tick w ms s) = cursor_ok c s"
  "subscribed (tick w ms s) = subscribed s"
  by (simp_all add: unreadSerialBuffer_def cursor_ok_def log_event_def tick_def)

text \<open>
  What a wait for a pattern does: it reads the texts of its channel, one after the other, up to
  the first match or to the end, and what it has read is what the run's buffer holds unread.
\<close>

definition scan_ok ::
  "SerialChannel \<Rightarrow> (string \<Rightarrow> nat option) \<Rightarrow> string \<Rightarrow> interference list \<Rightarrow> bool \<Rightarrow> string \<Rightarrow> nat \<Rightarrow> run \<Rightarrow> bool" where
  "scan_ok channel regex buffer es matched received consumed s' \<longleftrightarrow>
     received = unreadSerialBuffer channel s' \<and> cursor_ok channel s' \<and>
     (if matched then rawPatternMatchEnd received regex = Some consumed else consumed = length received) \<and>
     (\<exists>n. received = foldl appendBoundedText buffer (received_texts channel (take n es)) \<and>
        (\<not> matched \<longrightarrow> n = length es))"

lemma received_texts_simps [simp]:
  "received_texts channel [] = []"
  "received_texts channel (Received c x # es) = (if c = channel then x # received_texts channel es else received_texts channel es)"
  "received_texts channel (AbortPressed # es) = received_texts channel es"
  "received_texts channel (WriteRejected m # es) = received_texts channel es"
  by (simp_all add: received_texts_def)

lemma scan_ok_event:
  assumes "scan_ok channel regex (foldl appendBoundedText buffer (received_texts channel [e])) es matched received consumed s'"
  shows "scan_ok channel regex buffer (e # es) matched received consumed s'"
proof -
  from assms obtain n where n: "received = foldl appendBoundedText (foldl appendBoundedText buffer (received_texts channel [e]))
      (received_texts channel (take n es))" "\<not> matched \<longrightarrow> n = length es" by (auto simp: scan_ok_def)
  then have "received = foldl appendBoundedText buffer (received_texts channel (take (Suc n) (e # es)))"
      "\<not> matched \<longrightarrow> Suc n = length (e # es)" by (cases e; simp)+
  with assms show ?thesis unfolding scan_ok_def by blast
qed

lemma scan_ok_now:
  assumes "cursor_ok channel s'" "buffer = unreadSerialBuffer channel s'"
  shows "rawPatternMatchEnd buffer regex = Some e \<Longrightarrow> scan_ok channel regex buffer es True buffer e s'"
    "scan_ok channel regex buffer [] False buffer (length buffer) s'"
  using assms by (auto simp: scan_ok_def intro: exI [of _ 0])

lemma wait_scan_spec:
  assumes "wait_scan w channel regex buffer es s = (Inr (matched, received, consumed), s')"
    "subscribed s" "cursor_ok channel s" "buffer = unreadSerialBuffer channel s"
  shows "scan_ok channel regex buffer es matched received consumed s'"
  using assms
proof (induction w channel regex buffer es s rule: wait_scan.induct)
  case (1 w channel regex buffer s)
  then show ?case by (auto intro: scan_ok_now)
next
  case (2 w channel regex buffer c x es s)
  define s1 where "s1 = interfere w s (Received c x)"
  have s1: "subscribed s1" "cursor_ok channel s1"
      "unreadSerialBuffer channel s1 = (if c = channel then appendBoundedText buffer x else buffer)"
    using 2(4-) unread_append [OF 2(5)] by (auto simp: s1_def)
  show ?case
  proof (cases "c = channel")
    case True
    show ?thesis
    proof (cases "rawPatternMatchEnd (appendBoundedText buffer x) regex")
      case None
      have "wait_scan w channel regex (appendBoundedText buffer x) es s1 = (Inr (matched, received, consumed), s')"
        using 2(3) True None unfolding wait_scan.simps(2) Let_def s1_def by simp
      from 2(1) [OF s1_def True refl None this s1(1,2)] s1(3) True show ?thesis
        by (intro scan_ok_event) simp
    next
      case (Some e)
      then have "(matched, received, consumed, s') = (True, appendBoundedText buffer x, e, s1)"
        using 2(3) True unfolding wait_scan.simps(2) Let_def s1_def by simp
      with scan_ok_now(1) [OF s1(2), of "appendBoundedText buffer x"] Some s1(3) True show ?thesis
        by (intro scan_ok_event) simp
    qed
  next
    case False
    have "wait_scan w channel regex buffer es s1 = (Inr (matched, received, consumed), s')"
      using 2(3) False unfolding wait_scan.simps(2) Let_def s1_def by simp
    from 2(2) [OF s1_def False this s1(1,2)] s1(3) False show ?thesis
      by (intro scan_ok_event) simp
  qed
next
  case (3 w channel regex buffer es s)
  from "3.prems"(1) have ab: "aborted s" by (auto split: if_splits)
  with "3.prems"(1) have "wait_scan w channel regex buffer es s = (Inr (matched, received, consumed), s')" by simp
  from "3.IH" [OF ab this "3.prems"(2-4)] show ?case by (intro scan_ok_event) simp
next
  case (4 w channel regex buffer m es s)
  from "4.prems"(1) have "wait_scan w channel regex buffer es s = (Inr (matched, received, consumed), s')" by simp
  from "4.IH" [OF this "4.prems"(2-4)] show ?case by (intro scan_ok_event) simp
qed



end
