(* ===== verification/Capture_Store.thy ===== *)
theory Capture_Store
  imports Power_Capture "HOL-Library.List_Lexorder" "HOL-Library.Char_ord" "HOL-Library.Product_Lexorder"
begin

text \<open>
  The archive of power captures (\<open>web/src/lib/powerCaptureStore.ts\<close>). An IndexedDB object
  store is an association list in key order; every operation is one read-write transaction,
  hence a function from the database to an error (the database is then left as it was) or a
  result and a new database. The clock is an argument. Records written by older releases
  lack fields, so a stored record has options where the code defaults them.
\<close>

subsection \<open>Object stores\<close>

fun put :: "'k::linorder \<Rightarrow> 'v \<Rightarrow> ('k \<times> 'v) list \<Rightarrow> ('k \<times> 'v) list" where
  "put k v [] = [(k, v)]"
| "put k v ((k', v') # xs) =
     (if k = k' then (k, v) # xs else if k < k' then (k, v) # (k', v') # xs else (k', v') # put k v xs)"

definition delete_keys :: "('k \<Rightarrow> bool) \<Rightarrow> ('k \<times> 'v) list \<Rightarrow> ('k \<times> 'v) list" where
  "delete_keys P xs = filter (\<lambda>(k, _). \<not> P k) xs"

subsection \<open>Chunks\<close>

record CaptureChannelMetadata =
  chName :: string
  chSignal :: string
  chSensorChannel :: string
  chUnit :: string

record CompactSample =
  cpOffset :: int
  cpTriggered :: bool
  cpSequence :: int
  cpTimeUs :: rat
  cpValues :: "(bool \<times> int) list"

record BinaryChunkV2 =
  v2Channels :: "string list"
  v2SampleCount :: nat
  v2Offsets :: "u32 list"
  v2Flags :: "u8 list"
  v2Sequences :: "u32 list"
  v2DeviceTimesUs :: "rat list"
  v2EnabledMasks :: "u32 list"
  v2CurrentsUa :: "u32 list"
  v2EstimatedBytes :: nat

record BinaryChunkV3 =
  v3Channels :: "CaptureChannelMetadata list"
  v3SampleCount :: nat
  v3Offsets :: "u32 list"
  v3Flags :: "u8 list"
  v3Sequences :: "u32 list"
  v3DeviceTimesUs :: "rat list"
  v3Enabled :: "u8 list"
  v3RawValid :: "u8 list"
  v3Raw :: "u32 list"
  v3Millivolts :: "u32 list"
  v3CurrentsUa :: "u32 list"
  v3EstimatedBytes :: nat

datatype CaptureChunkRecord =
    LegacyChunk "string list" "CompactSample list"
  | ChunkV2 BinaryChunkV2
  | ChunkV3 BinaryChunkV3

text \<open>The reading of a channel in a sample, and one typed array of channel values, row by row.\<close>

definition channel_reading :: "CaptureSample \<Rightarrow> CaptureChannelMetadata \<Rightarrow> CaptureReading option" where
  "channel_reading sample channel = find (\<lambda>item. rdName item = chName channel) (smpReadings sample)"

definition channel_values ::
  "(CaptureReading option \<Rightarrow> 'w) \<Rightarrow> CaptureChannelMetadata list \<Rightarrow> CaptureSample list \<Rightarrow> 'w list" where
  "channel_values f channels samples =
     concat (map (\<lambda>sample. map (\<lambda>channel. f (channel_reading sample channel)) channels) samples)"

definition channels_of :: "CaptureSample list \<Rightarrow> CaptureChannelMetadata list" where
  "channels_of samples =
     (case samples of [] \<Rightarrow> []
      | s # _ \<Rightarrow> map (\<lambda>reading. \<lparr>chName = rdName reading, chSignal = rdSignal reading,
          chSensorChannel = (case rdSensorChannel reading of None \<Rightarrow> ''current'' | Some c \<Rightarrow> c),
          chUnit = rdUnit reading\<rparr>) (smpReadings s))"

definition compactSamples :: "CaptureSample list \<Rightarrow> BinaryChunkV3" where
  "compactSamples samples =
     (let channels = channels_of samples; valueCount = length samples * length channels
      in \<lparr>v3Channels = channels, v3SampleCount = length samples,
          v3Offsets = map (\<lambda>sample. word_of_int (max 0 (smpOffset sample))) samples,
          v3Flags = map (\<lambda>sample. if smpTriggered sample then 1 else 0) samples,
          v3Sequences = map (\<lambda>sample. word_of_int (max 0 (smpSequence sample))) samples,
          v3DeviceTimesUs = map smpTimeUs samples,
          v3Enabled = channel_values (\<lambda>r. case r of None \<Rightarrow> 0 | Some x \<Rightarrow> if rdEnabled x then 1 else 0) channels samples,
          v3RawValid = channel_values (\<lambda>r. case r of None \<Rightarrow> 0
            | Some x \<Rightarrow> case rdRaw x of None \<Rightarrow> 0 | Some _ \<Rightarrow> 1) channels samples,
          v3Raw = channel_values (\<lambda>r. case r of None \<Rightarrow> 0
            | Some x \<Rightarrow> case rdRaw x of None \<Rightarrow> 0 | Some n \<Rightarrow> word_of_int n) channels samples,
          v3Millivolts = channel_values (\<lambda>r. case r of None \<Rightarrow> 0
            | Some x \<Rightarrow> case rdMv x of None \<Rightarrow> 0 | Some n \<Rightarrow> word_of_int n) channels samples,
          v3CurrentsUa = channel_values (\<lambda>r. case r of None \<Rightarrow> 0
            | Some x \<Rightarrow> word_of_int (rdCurrentUa x)) channels samples,
          v3EstimatedBytes = (length samples * (4 + 1 + 4 + 8) + valueCount * (1 + 1 + 4 + 4 + 4) +
            sum_list (map (\<lambda>channel. (length (chName channel) + length (chSignal channel) +
              length (chSensorChannel channel) + length (chUnit channel)) * 2) channels) + 192)\<rparr>)"

text \<open>\<open>array[i] ?? 0\<close>.\<close>

definition at0 :: "'w::zero list \<Rightarrow> nat \<Rightarrow> 'w" where
  "at0 xs i = (case nth_opt xs i of None \<Rightarrow> 0 | Some x \<Rightarrow> x)"

definition current_reading :: "string \<Rightarrow> string \<Rightarrow> bool \<Rightarrow> int option \<Rightarrow> int \<Rightarrow> int \<Rightarrow> CaptureReading" where
  "current_reading name signal enabled raw mv currentUa =
     \<lparr>rdName = name, rdSignal = signal, rdSensorChannel = Some ''current'', rdUnit = ''uA'',
      rdEnabled = enabled, rdRaw = raw, rdMv = Some mv, rdCurrentUa = currentUa\<rparr>"

definition expandV3 :: "BinaryChunkV3 \<Rightarrow> CaptureSample list" where
  "expandV3 chunk = map (\<lambda>sampleIndex.
     \<lparr>smpOffset = uint (at0 (v3Offsets chunk) sampleIndex),
      smpTriggered = (at0 (v3Flags chunk) sampleIndex \<noteq> 0),
      smpSequence = uint (at0 (v3Sequences chunk) sampleIndex),
      smpTimeUs = at0 (v3DeviceTimesUs chunk) sampleIndex,
      smpReadings = map (\<lambda>(channelIndex, channel).
        let valueIndex = sampleIndex * length (v3Channels chunk) + channelIndex
        in current_reading (chName channel) (chSignal channel)
             (at0 (v3Enabled chunk) valueIndex \<noteq> 0)
             (if at0 (v3RawValid chunk) valueIndex \<noteq> 0 then Some (sint (at0 (v3Raw chunk) valueIndex)) else None)
             (sint (at0 (v3Millivolts chunk) valueIndex)) (sint (at0 (v3CurrentsUa chunk) valueIndex)))
        (enumerate 0 (v3Channels chunk))\<rparr>) [0..<v3SampleCount chunk]"

definition expandV2 :: "BinaryChunkV2 \<Rightarrow> CaptureSample list" where
  "expandV2 chunk = map (\<lambda>sampleIndex.
     \<lparr>smpOffset = uint (at0 (v2Offsets chunk) sampleIndex),
      smpTriggered = (at0 (v2Flags chunk) sampleIndex \<noteq> 0),
      smpSequence = uint (at0 (v2Sequences chunk) sampleIndex),
      smpTimeUs = at0 (v2DeviceTimesUs chunk) sampleIndex,
      smpReadings = map (\<lambda>(channelIndex, name).
        current_reading name []
          (channelIndex < 32 \<and> drop_bit channelIndex (at0 (v2EnabledMasks chunk) sampleIndex) AND 1 = 1)
          None 0 (sint (at0 (v2CurrentsUa chunk) (sampleIndex * length (v2Channels chunk) + channelIndex))))
        (enumerate 0 (v2Channels chunk))\<rparr>) [0..<v2SampleCount chunk]"

definition expand_legacy :: "string list \<Rightarrow> CompactSample \<Rightarrow> CaptureSample" where
  "expand_legacy channels sample =
     \<lparr>smpOffset = cpOffset sample, smpTriggered = cpTriggered sample, smpSequence = cpSequence sample,
      smpTimeUs = cpTimeUs sample,
      smpReadings = map (\<lambda>(index, name).
        case nth_opt (cpValues sample) index of
          None \<Rightarrow> current_reading name [] False None 0 0
        | Some (enabled, currentUa) \<Rightarrow> current_reading name [] enabled None 0 currentUa)
        (enumerate 0 channels)\<rparr>"

fun expandChunk :: "CaptureChunkRecord \<Rightarrow> CaptureSample list" where
  "expandChunk (ChunkV3 chunk) = expandV3 chunk"
| "expandChunk (ChunkV2 chunk) = expandV2 chunk"
| "expandChunk (LegacyChunk channels samples) = map (expand_legacy channels) samples"

fun chunkSampleCount :: "CaptureChunkRecord option \<Rightarrow> int" where
  "chunkSampleCount None = 0"
| "chunkSampleCount (Some (ChunkV2 chunk)) = int (v2SampleCount chunk)"
| "chunkSampleCount (Some (ChunkV3 chunk)) = int (v3SampleCount chunk)"
| "chunkSampleCount (Some (LegacyChunk channels samples)) = int (length samples)"

definition ESTIMATED_SAMPLE_BYTES :: int where "ESTIMATED_SAMPLE_BYTES = 64"

fun chunkEstimatedBytes :: "CaptureChunkRecord option \<Rightarrow> int" where
  "chunkEstimatedBytes None = 0"
| "chunkEstimatedBytes (Some (ChunkV2 chunk)) = int (v2EstimatedBytes chunk)"
| "chunkEstimatedBytes (Some (ChunkV3 chunk)) = int (v3EstimatedBytes chunk)"
| "chunkEstimatedBytes (Some (LegacyChunk channels samples)) =
     int (length samples) * ESTIMATED_SAMPLE_BYTES * 3"

subsection \<open>Archive records\<close>

datatype PowerCaptureArchiveStatus = Recording | Complete | Interrupted | ArchiveFailed

datatype store_error =
    ArchiveIdRequired
  | ArchiveDoesNotExist string
  | ArchiveNotRecording string
  | ArchiveOwnedByOther string
  | StorageInsufficient

text \<open>Why an archive ended: the reason the capture gave, or the store's own.\<close>

datatype archive_error =
    Reason string
  | DroppedSamples int
  | NotEverySamplePersisted
  | SessionEnded

text \<open>A record as it is found in the database, and after \<open>normalizeArchiveRecord\<close>.\<close>

record StoredArchive =
  stArchiveId :: string
  stStatus :: "PowerCaptureArchiveStatus option"
  stChunkCount :: "int option"
  stPersistedSamples :: "int option"
  stEstimatedBytes :: "int option"
  stLastSequence :: "int option"
  stStartedAt :: "int option"
  stUpdatedAt :: "int option"
  stCompletedAt :: "int option"
  stError :: "archive_error option"
  stPinned :: "bool option"
  stOwnerId :: "string option"
  stLeaseExpiresAt :: "int option"
  stCapture :: PowerCapture

record CaptureArchiveRecord =
  arcArchiveId :: string
  arcStatus :: PowerCaptureArchiveStatus
  arcChunkCount :: int
  arcPersistedSamples :: int
  arcEstimatedBytes :: int
  arcLastSequence :: int
  arcStartedAt :: int
  arcUpdatedAt :: int
  arcCompletedAt :: "int option"
  arcError :: "archive_error option"
  arcPinned :: bool
  arcOwnerId :: "string option"
  arcLeaseExpiresAt :: "int option"
  arcCapture :: PowerCapture

definition or_default :: "'a option \<Rightarrow> 'a \<Rightarrow> 'a" where
  "or_default x d = (case x of None \<Rightarrow> d | Some a \<Rightarrow> a)"

lemma or_default_simps [simp]: "or_default None d = d" "or_default (Some a) d = a"
  by (simp_all add: or_default_def)

definition normalizeArchiveRecord :: "int \<Rightarrow> StoredArchive \<Rightarrow> CaptureArchiveRecord" where
  "normalizeArchiveRecord now record =
     (let timestamp = (if pcCapturedAt (stCapture record) \<noteq> 0 then pcCapturedAt (stCapture record) else now)
      in \<lparr>arcArchiveId = stArchiveId record, arcStatus = or_default (stStatus record) Recording,
          arcChunkCount = or_default (stChunkCount record) 0,
          arcPersistedSamples = or_default (stPersistedSamples record)
            (or_default (pcSampleCount (stCapture record)) 0),
          arcEstimatedBytes = or_default (stEstimatedBytes record) 0,
          arcLastSequence = or_default (stLastSequence record) 0,
          arcStartedAt = or_default (stStartedAt record) timestamp,
          arcUpdatedAt = or_default (stUpdatedAt record) timestamp,
          arcCompletedAt = stCompletedAt record, arcError = stError record,
          arcPinned = or_default (stPinned record) False,
          arcOwnerId = stOwnerId record, arcLeaseExpiresAt = stLeaseExpiresAt record,
          arcCapture = stCapture record\<rparr>)"

definition stored :: "CaptureArchiveRecord \<Rightarrow> StoredArchive" where
  "stored record =
     \<lparr>stArchiveId = arcArchiveId record, stStatus = Some (arcStatus record),
      stChunkCount = Some (arcChunkCount record), stPersistedSamples = Some (arcPersistedSamples record),
      stEstimatedBytes = Some (arcEstimatedBytes record), stLastSequence = Some (arcLastSequence record),
      stStartedAt = Some (arcStartedAt record), stUpdatedAt = Some (arcUpdatedAt record),
      stCompletedAt = arcCompletedAt record, stError = arcError record, stPinned = Some (arcPinned record),
      stOwnerId = arcOwnerId record, stLeaseExpiresAt = arcLeaseExpiresAt record,
      stCapture = arcCapture record\<rparr>"

lemma normalize_stored [simp]: "normalizeArchiveRecord now (stored record) = record"
  by (simp add: normalizeArchiveRecord_def stored_def Let_def)

subsection \<open>Leases\<close>

record PowerCaptureArchiveLease =
  leaseOwnerId :: string
  leaseDurationMs :: "jsnum option"
  leaseDroppedSamples :: "int option"

definition POWER_CAPTURE_LEASE_DURATION_MS :: int where
  "POWER_CAPTURE_LEASE_DURATION_MS = 60000"

definition normalizedLeaseDuration :: "jsnum option \<Rightarrow> int" where
  "normalizedLeaseDuration durationMs =
     (case durationMs of
        Some (Fin r) \<Rightarrow> max 5000 (round_half_up r)
      | _ \<Rightarrow> POWER_CAPTURE_LEASE_DURATION_MS)"

definition assertArchiveOwner ::
  "CaptureArchiveRecord \<Rightarrow> PowerCaptureArchiveLease option \<Rightarrow> store_error + unit" where
  "assertArchiveOwner record lease =
     (case arcOwnerId record of
        None \<Rightarrow> Inr ()
      | Some owner \<Rightarrow> guardR (owner = [] \<or> map_option leaseOwnerId lease = Some owner)
          (ArchiveOwnedByOther (arcArchiveId record)) (Inr ()))"

definition applyArchiveLease ::
  "int \<Rightarrow> CaptureArchiveRecord \<Rightarrow> PowerCaptureArchiveLease option \<Rightarrow> CaptureArchiveRecord" where
  "applyArchiveLease now record lease =
     (case lease of None \<Rightarrow> record
      | Some l \<Rightarrow>
          let leased = record\<lparr>arcOwnerId := Some (leaseOwnerId l), arcUpdatedAt := now,
                arcLeaseExpiresAt := Some (now + normalizedLeaseDuration (leaseDurationMs l))\<rparr>
          in case leaseDroppedSamples l of None \<Rightarrow> leased
             | Some dropped \<Rightarrow> leased\<lparr>arcCapture := (arcCapture leased)\<lparr>pcDroppedSamples :=
                 Some (max (or_default (pcDroppedSamples (arcCapture leased)) 0) (max 0 dropped))\<rparr>\<rparr>)"

definition clearArchiveLease :: "CaptureArchiveRecord \<Rightarrow> CaptureArchiveRecord" where
  "clearArchiveLease record = record\<lparr>arcOwnerId := None, arcLeaseExpiresAt := None\<rparr>"

definition archiveLeaseIsActive :: "CaptureArchiveRecord \<Rightarrow> int \<Rightarrow> bool" where
  "archiveLeaseIsActive record now =
     (case arcLeaseExpiresAt record of None \<Rightarrow> False | Some e \<Rightarrow> now < e)"

subsection \<open>The database and its transactions\<close>

record database =
  captureStore :: "(string \<times> StoredArchive) list"
  chunkStore :: "((string \<times> nat) \<times> CaptureChunkRecord) list"

definition put_archive :: "CaptureArchiveRecord \<Rightarrow> database \<Rightarrow> database" where
  "put_archive record db =
     db\<lparr>captureStore := put (arcArchiveId record) (stored record) (captureStore db)\<rparr>"

definition get_archive :: "int \<Rightarrow> string \<Rightarrow> database \<Rightarrow> store_error + CaptureArchiveRecord" where
  "get_archive now archiveId db =
     (case map_of (captureStore db) archiveId of
        None \<Rightarrow> Inl (ArchiveDoesNotExist archiveId)
      | Some raw \<Rightarrow> Inr (normalizeArchiveRecord now raw))"

definition required_id :: "PowerCapture \<Rightarrow> store_error + string" where
  "required_id capture =
     (case pcArchiveId capture of
        None \<Rightarrow> Inl ArchiveIdRequired
      | Some i \<Rightarrow> guardR (i \<noteq> []) ArchiveIdRequired (Inr i))"

definition beginPowerCaptureArchive ::
  "int \<Rightarrow> PowerCapture \<Rightarrow> PowerCaptureArchiveLease option \<Rightarrow> database \<Rightarrow> store_error + database" where
  "beginPowerCaptureArchive now capture lease db =
     bindR (required_id capture) (\<lambda>archiveId.
       Inr (put_archive (applyArchiveLease now
         \<lparr>arcArchiveId = archiveId, arcStatus = Recording, arcChunkCount = 0, arcPersistedSamples = 0,
          arcEstimatedBytes = 0, arcLastSequence = 0, arcStartedAt = now, arcUpdatedAt = now,
          arcCompletedAt = None, arcError = None, arcPinned = False, arcOwnerId = None,
          arcLeaseExpiresAt = None, arcCapture = capture\<rparr> lease) db))"

definition recording_archive :: "int \<Rightarrow> string \<Rightarrow> database \<Rightarrow> store_error + CaptureArchiveRecord" where
  "recording_archive now archiveId db =
     bindR (get_archive now archiveId db) (\<lambda>record.
       guardR (arcStatus record = Recording) (ArchiveNotRecording archiveId) (Inr record))"

definition renewPowerCaptureArchiveLease ::
  "int \<Rightarrow> string \<Rightarrow> PowerCaptureArchiveLease \<Rightarrow> database \<Rightarrow> store_error + database" where
  "renewPowerCaptureArchiveLease now archiveId lease db =
     bindR (recording_archive now archiveId db) (\<lambda>record.
     bindR (assertArchiveOwner record (Some lease)) (\<lambda>_.
       Inr (put_archive (applyArchiveLease now record (Some lease)) db)))"

record PowerCaptureChunkWriteResult =
  wrChunkCount :: int
  wrPersistedSamples :: int
  wrEstimatedBytes :: int
  wrLastSequence :: int

definition append_record ::
  "int \<Rightarrow> CaptureArchiveRecord \<Rightarrow> CaptureChunkRecord option \<Rightarrow> CaptureSample list \<Rightarrow> BinaryChunkV3 \<Rightarrow> CaptureArchiveRecord" where
  "append_record now record previousChunk samples compacted =
     (let persisted = max 0 (arcPersistedSamples record - chunkSampleCount previousChunk + int (length samples))
      in record\<lparr>arcChunkCount := arcChunkCount record + (if previousChunk = None then 1 else 0),
           arcPersistedSamples := persisted,
           arcEstimatedBytes := max 0 (arcEstimatedBytes record - chunkEstimatedBytes previousChunk +
             int (v3EstimatedBytes compacted)),
           arcLastSequence := foldl max (arcLastSequence record) (map smpSequence samples),
           arcUpdatedAt := now,
           arcCapture := (arcCapture record)\<lparr>pcSampleCount := Some persisted\<rparr>\<rparr>)"

definition appendPowerCaptureChunk ::
  "int \<Rightarrow> string \<Rightarrow> nat \<Rightarrow> CaptureSample list \<Rightarrow> PowerCaptureArchiveLease option \<Rightarrow> database \<Rightarrow>
    store_error + PowerCaptureChunkWriteResult \<times> database" where
  "appendPowerCaptureChunk now archiveId index samples lease db =
     (if length samples = 0
      then Inr (\<lparr>wrChunkCount = 0, wrPersistedSamples = 0, wrEstimatedBytes = 0, wrLastSequence = 0\<rparr>, db)
      else
        let previousChunk = map_of (chunkStore db) (archiveId, index); compacted = compactSamples samples
        in bindR (recording_archive now archiveId db) (\<lambda>found.
           bindR (assertArchiveOwner found lease) (\<lambda>_.
             let record = applyArchiveLease now (append_record now found previousChunk samples compacted) lease
             in Inr (\<lparr>wrChunkCount = arcChunkCount record, wrPersistedSamples = arcPersistedSamples record,
                     wrEstimatedBytes = arcEstimatedBytes record, wrLastSequence = arcLastSequence record\<rparr>,
                  put_archive record
                    (db\<lparr>chunkStore := put (archiveId, index) (ChunkV3 compacted) (chunkStore db)\<rparr>)))))"

text \<open>\<open>archiveInfo\<close> of a record is the record without its lease and clock fields.\<close>

record PowerCaptureArchiveInfo =
  infArchiveId :: string
  infStatus :: PowerCaptureArchiveStatus
  infChunkCount :: int
  infPersistedSamples :: int
  infEstimatedBytes :: int
  infUpdatedAt :: int
  infPinned :: bool
  infCapture :: PowerCapture
  infError :: "archive_error option"

definition archiveInfo :: "CaptureArchiveRecord \<Rightarrow> PowerCaptureArchiveInfo" where
  "archiveInfo record =
     \<lparr>infArchiveId = arcArchiveId record, infStatus = arcStatus record,
      infChunkCount = arcChunkCount record, infPersistedSamples = arcPersistedSamples record,
      infEstimatedBytes = arcEstimatedBytes record, infUpdatedAt = arcUpdatedAt record,
      infPinned = arcPinned record, infCapture = arcCapture record, infError = arcError record\<rparr>"

text \<open>The reason as the text kept in the capture.\<close>

fun reason_text :: "archive_error \<Rightarrow> string" where
  "reason_text (Reason r) = r"
| "reason_text (DroppedSamples n) =
     ''The debugger reported '' @ string_of_nat (nat n) @ '' dropped samples''"
| "reason_text NotEverySamplePersisted = ''Not every received sample was persisted''"
| "reason_text SessionEnded = ''The browser session ended before the recording was finalized''"

definition finished_record :: "int \<Rightarrow> PowerCapture \<Rightarrow> int \<Rightarrow> CaptureArchiveRecord \<Rightarrow> CaptureArchiveRecord" where
  "finished_record now capture chunkCount found =
     (let expectedSamples = or_default (pcSampleCount capture) (arcPersistedSamples found);
          persistedComplete = (arcChunkCount found = chunkCount \<and> arcPersistedSamples found \<ge> expectedSamples);
          droppedSamples = max 0 (or_default (pcDroppedSamples capture) 0);
          complete = (persistedComplete \<and> \<not> pcIncomplete capture \<and> droppedSamples = 0);
          error = (if complete then None
            else case pcInterruptionReason capture of Some r \<Rightarrow> Some (Reason r)
              | None \<Rightarrow> if droppedSamples > 0 then Some (DroppedSamples droppedSamples)
                  else Some NotEverySamplePersisted)
      in clearArchiveLease (found\<lparr>arcStatus := (if complete then Complete else Interrupted),
           arcUpdatedAt := now, arcCompletedAt := Some now, arcError := error,
           arcCapture := capture\<lparr>pcSampleCount := Some (arcPersistedSamples found),
             pcIncomplete := (\<not> complete \<or> pcIncomplete capture),
             pcInterruptionReason := (if complete then None else map_option reason_text error)\<rparr>\<rparr>))"

definition finishPowerCaptureArchive ::
  "int \<Rightarrow> PowerCapture \<Rightarrow> int \<Rightarrow> database \<Rightarrow> store_error + PowerCaptureArchiveInfo \<times> database" where
  "finishPowerCaptureArchive now capture chunkCount db =
     bindR (required_id capture) (\<lambda>archiveId.
     bindR (get_archive now archiveId db) (\<lambda>found.
       let record = finished_record now capture chunkCount found
       in Inr (archiveInfo record, put_archive record db)))"

definition interrupted_record ::
  "int \<Rightarrow> PowerCapture \<Rightarrow> string \<Rightarrow> bool \<Rightarrow> CaptureArchiveRecord \<Rightarrow> CaptureArchiveRecord" where
  "interrupted_record now capture reason isFailed found =
     clearArchiveLease (found\<lparr>arcStatus := (if isFailed then ArchiveFailed else Interrupted),
       arcUpdatedAt := now, arcCompletedAt := Some now, arcError := Some (Reason reason),
       arcCapture := capture\<lparr>pcSampleCount := Some (arcPersistedSamples found),
         pcIncomplete := True, pcInterruptionReason := Some reason\<rparr>\<rparr>)"

definition interruptPowerCaptureArchive ::
  "int \<Rightarrow> string \<Rightarrow> PowerCapture \<Rightarrow> string \<Rightarrow> bool \<Rightarrow> database \<Rightarrow> store_error + PowerCaptureArchiveInfo \<times> database" where
  "interruptPowerCaptureArchive now archiveId capture reason isFailed db =
     bindR (get_archive now archiveId db) (\<lambda>found.
       let record = interrupted_record now capture reason isFailed found
       in Inr (archiveInfo record, put_archive record db))"

subsection \<open>Reading chunks\<close>

definition EXPORT_CURSOR_BATCH_CHUNKS :: nat where [simp]: "EXPORT_CURSOR_BATCH_CHUNKS = 32"

text \<open>The chunks of an archive from an index on, in index order, as the cursor delivers them.\<close>

definition chunks_from :: "string \<Rightarrow> nat \<Rightarrow> database \<Rightarrow> (nat \<times> CaptureChunkRecord) list" where
  "chunks_from archiveId firstIndex db =
     map (\<lambda>((_, index), chunk). (index, chunk))
       (filter (\<lambda>((i, index), _). i = archiveId \<and> firstIndex \<le> index) (chunkStore db))"

definition readChunkBatch :: "string \<Rightarrow> nat \<Rightarrow> nat \<Rightarrow> database \<Rightarrow> (nat \<times> CaptureChunkRecord) list" where
  "readChunkBatch archiveId firstIndex limit db = take limit (chunks_from archiveId firstIndex db)"

lemma readChunkBatch_index:
  "chunk \<in> set (readChunkBatch archiveId firstIndex limit db) \<Longrightarrow> firstIndex \<le> fst chunk"
  by (auto simp: readChunkBatch_def chunks_from_def dest!: in_set_takeD)

lemma chunks_from_shrink:
  assumes "readChunkBatch archiveId firstIndex limit db = c # cs"
  shows "length (chunks_from archiveId (Suc (fst (last (c # cs)))) db) < length (chunks_from archiveId firstIndex db)"
proof -
  let ?l = "last (c # cs)"
  have "?l \<in> set (c # cs)" by (rule last_in_set) simp
  then have "?l \<in> set (readChunkBatch archiveId firstIndex limit db)" by (simp only: assms)
  note l = this [unfolded readChunkBatch_def, THEN in_set_takeD] readChunkBatch_index [OF this]
  have sub: "chunks_from archiveId (Suc (fst ?l)) db = filter (\<lambda>x. fst ?l < fst x) (chunks_from archiveId firstIndex db)"
    using l(2) unfolding chunks_from_def filter_map filter_filter
    by (intro arg_cong [of _ _ "map _"] filter_cong) (auto simp: Suc_le_eq)
  show ?thesis unfolding sub using l(1) by (intro length_filter_less) auto
qed

text \<open>
  \<open>iteratePowerCaptureChunks\<close>: batches until one is not full. Each batch starts behind the last
  index read, so the chunks that are left get fewer.
\<close>

function iteratePowerCaptureChunks ::
  "string \<Rightarrow> nat \<Rightarrow> database \<Rightarrow> ('s \<Rightarrow> CaptureSample list \<Rightarrow> 's) \<Rightarrow> 's \<Rightarrow> 's" where
  "iteratePowerCaptureChunks archiveId firstIndex db onChunk s =
     (let chunks = readChunkBatch archiveId firstIndex EXPORT_CURSOR_BATCH_CHUNKS db
      in if chunks = [] then s
         else
           let s' = foldl (\<lambda>s (_, chunk). onChunk s (expandChunk chunk)) s chunks
           in if length chunks < EXPORT_CURSOR_BATCH_CHUNKS then s'
              else iteratePowerCaptureChunks archiveId (fst (last chunks) + 1) db onChunk s')"
  by pat_completeness auto

termination
proof (relation "measure (\<lambda>(archiveId, firstIndex, db, _, _). length (chunks_from archiveId firstIndex db))", goal_cases)
  case 1
  then show ?case by simp
next
  case (2 archiveId firstIndex db onChunk s chunks s')
  then show ?case
    using chunks_from_shrink [of archiveId firstIndex 32 db "hd chunks" "tl chunks"] by simp
qed

declare iteratePowerCaptureChunks.simps [simp del]

definition readPowerCaptureSamples :: "string \<Rightarrow> database \<Rightarrow> CaptureSample list" where
  "readPowerCaptureSamples archiveId db =
     iteratePowerCaptureChunks archiveId 0 db (\<lambda>samples chunk. samples @ chunk) []"

subsection \<open>Listing, deleting, pruning\<close>

definition archives :: "int \<Rightarrow> database \<Rightarrow> CaptureArchiveRecord list" where
  "archives now db = map (normalizeArchiveRecord now \<circ> snd) (captureStore db)"

definition listPowerCaptureArchives :: "int \<Rightarrow> database \<Rightarrow> PowerCaptureArchiveInfo list" where
  "listPowerCaptureArchives now db = map archiveInfo (archives now db)"

definition listRecentPowerCaptures :: "int \<Rightarrow> int \<Rightarrow> database \<Rightarrow> PowerCapture list" where
  "listRecentPowerCaptures now limit db =
     map arcCapture (rev (take (nat (max 0 limit))
       (sort_key (\<lambda>record. - pcCapturedAt (arcCapture record))
         (filter (\<lambda>record. arcStatus record \<noteq> Recording) (archives now db)))))"

definition deletePowerCaptureArchive :: "string \<Rightarrow> database \<Rightarrow> database" where
  "deletePowerCaptureArchive archiveId db =
     \<lparr>captureStore = delete_keys (\<lambda>k. k = archiveId) (captureStore db),
      chunkStore = delete_keys (\<lambda>(i, _). i = archiveId) (chunkStore db)\<rparr>"

definition clear_step ::
  "string option \<Rightarrow> bool \<Rightarrow> database \<times> nat \<Rightarrow> CaptureArchiveRecord \<Rightarrow> database \<times> nat" where
  "clear_step activeArchiveId includeRecording acc record =
     (if activeArchiveId = Some (arcArchiveId record) then acc
      else if \<not> includeRecording \<and> arcStatus record = Recording then acc
      else if arcPinned record then acc
      else (deletePowerCaptureArchive (arcArchiveId record) (fst acc), snd acc + 1))"

definition clearPowerCaptureArchives :: "int \<Rightarrow> string option \<Rightarrow> bool \<Rightarrow> database \<Rightarrow> database \<times> nat" where
  "clearPowerCaptureArchives now activeArchiveId includeRecording db =
     foldl (clear_step activeArchiveId includeRecording) (db, 0) (archives now db)"

fun prune_loop ::
  "int \<Rightarrow> int \<Rightarrow> nat \<Rightarrow> PowerCaptureArchiveInfo list \<Rightarrow> database \<Rightarrow> database \<times> nat" where
  "prune_loop maximumBytes totalBytes removed [] db = (db, removed)"
| "prune_loop maximumBytes totalBytes removed (record # records) db =
     (if totalBytes \<le> maximumBytes then (db, removed)
      else prune_loop maximumBytes (totalBytes - infEstimatedBytes record) (removed + 1) records
             (deletePowerCaptureArchive (infArchiveId record) db))"

definition prunable :: "int \<Rightarrow> string option \<Rightarrow> database \<Rightarrow> PowerCaptureArchiveInfo list" where
  "prunable now activeArchiveId db =
     sort_key infUpdatedAt (filter (\<lambda>record. \<not> infPinned record)
       (filter (\<lambda>record. infStatus record \<noteq> Recording)
         (filter (\<lambda>record. activeArchiveId \<noteq> Some (infArchiveId record)) (listPowerCaptureArchives now db))))"

definition prunePowerCaptureArchives :: "int \<Rightarrow> int \<Rightarrow> string option \<Rightarrow> database \<Rightarrow> database \<times> nat" where
  "prunePowerCaptureArchives now maximumBytes activeArchiveId db =
     (let records = prunable now activeArchiveId db
      in prune_loop maximumBytes (sum_list (map infEstimatedBytes records)) 0 records db)"

subsection \<open>Storage plans\<close>

record PowerCaptureStoragePlan =
  planSampleCount :: "int option"
  planProjectedBytes :: "int option"
  planUsageBytes :: "rat option"
  planQuotaBytes :: "rat option"
  planAvailableBytes :: "rat option"
  planReserveBytes :: "rat option"
  planSufficient :: "bool option"
  planPersisted :: "bool option"

text \<open>\<open>STORAGE_SAFETY_FACTOR = 1.2\<close>, a reserve of a tenth of the quota and at least 100 MiB.\<close>

definition estimatePowerCaptureBytes :: "int \<Rightarrow> int" where
  "estimatePowerCaptureBytes sampleCount =
     \<lceil>of_int (max 0 sampleCount * ESTIMATED_SAMPLE_BYTES) * (12 / 10 :: rat)\<rceil>"

text \<open>
  What the browser's storage manager answers is an argument: nothing when there is none,
  otherwise usage and quota, each possibly absent, and whether storage is persistent.
\<close>

definition getPowerCaptureStoragePlan ::
  "rat \<Rightarrow> int \<Rightarrow> rat option \<Rightarrow> (rat option \<times> rat option) option \<Rightarrow> bool option \<Rightarrow> PowerCaptureStoragePlan" where
  "getPowerCaptureStoragePlan rateHz preSamples stopAfterMs estimate persisted =
     (let sampleCount = map_option (\<lambda>ms. max 0 preSamples + 1 +
            max 1 (round_half_up (max 0 ms * max 1 rateHz / 1000))) stopAfterMs;
          projectedBytes = map_option estimatePowerCaptureBytes sampleCount
      in case estimate of
           None \<Rightarrow> \<lparr>planSampleCount = sampleCount, planProjectedBytes = projectedBytes, planUsageBytes = None,
             planQuotaBytes = None, planAvailableBytes = None, planReserveBytes = None,
             planSufficient = None, planPersisted = None\<rparr>
         | Some (usageBytes, quotaBytes) \<Rightarrow>
             let availableBytes = map_option (\<lambda>q. max 0 (q - or_default usageBytes 0)) quotaBytes;
                 reserveBytes = map_option (\<lambda>q. max 104857600 (q / 10)) quotaBytes
             in \<lparr>planSampleCount = sampleCount, planProjectedBytes = projectedBytes, planUsageBytes = usageBytes,
                  planQuotaBytes = quotaBytes, planAvailableBytes = availableBytes, planReserveBytes = reserveBytes,
                  planSufficient = (case (projectedBytes, availableBytes, reserveBytes) of
                    (Some p, Some a, Some r) \<Rightarrow> Some (of_int p \<le> max 0 (a - r)) | _ \<Rightarrow> None),
                  planPersisted = persisted\<rparr>)"

definition bytes_to_free :: "PowerCaptureStoragePlan \<Rightarrow> rat" where
  "bytes_to_free plan =
     (case (planQuotaBytes plan, planUsageBytes plan, planAvailableBytes plan) of
        (Some quota, Some usage, Some available) \<Rightarrow>
          let capacityShortfall = (case (planProjectedBytes plan, planReserveBytes plan) of
                (Some p, Some r) \<Rightarrow> max 0 (of_int p + r - available) | _ \<Rightarrow> 0);
              pressureBytes = (if usage > quota * 7 / 10 then usage - quota * 55 / 100 else 0)
          in max capacityShortfall pressureBytes
      | _ \<Rightarrow> 0)"

text \<open>Two answers of the storage manager: before and, when something was pruned, after.\<close>

definition ensurePowerCaptureStorageCapacity ::
  "int \<Rightarrow> rat \<Rightarrow> int \<Rightarrow> rat option \<Rightarrow> (rat option \<times> rat option) option \<Rightarrow> (rat option \<times> rat option) option \<Rightarrow>
    bool option \<Rightarrow> database \<Rightarrow> (store_error + PowerCaptureStoragePlan) \<times> database" where
  "ensurePowerCaptureStorageCapacity now rateHz preSamples stopAfterMs estimate estimate' persisted db =
     (let plan = getPowerCaptureStoragePlan rateHz preSamples stopAfterMs estimate persisted;
          toFree = bytes_to_free plan;
          retained = filter (\<lambda>record. infStatus record \<noteq> Recording \<and> \<not> infPinned record) (listPowerCaptureArchives now db);
          retainedBytes = sum_list (map infEstimatedBytes retained);
          (plan', db') = (if toFree > 0
            then (getPowerCaptureStoragePlan rateHz preSamples stopAfterMs estimate' persisted,
                  fst (prunePowerCaptureArchives now \<lfloor>max 0 (of_int retainedBytes - toFree)\<rfloor> None db))
            else (plan, db))
      in (if planSufficient plan' = Some False then Inl StorageInsufficient else Inr plan', db'))"

subsection \<open>Recovery after a lost session\<close>

definition RECOVERY_PREVIEW_MAX_SAMPLES :: nat where
  "RECOVERY_PREVIEW_MAX_SAMPLES = 3000"

record RecoveredCaptureData =
  recSampleCount :: int
  recTriggerOffset :: int
  recSamples :: "CaptureSample list"
  recSummaries :: "(string \<times> PowerCaptureAggregate) list"

record rebuild_state =
  rbAccumulator :: PowerCaptureAccumulator
  rbPreview :: "CaptureSample list"
  rbStride :: int
  rbCount :: int
  rbTrigger :: int

definition rebuild_chunk :: "rebuild_state option \<Rightarrow> CaptureSample list \<Rightarrow> rebuild_state option" where
  "rebuild_chunk st samples =
     (case st of None \<Rightarrow> None
      | Some r \<Rightarrow>
          case appendPowerCapturePreview (rbPreview r) samples (rbStride r) RECOVERY_PREVIEW_MAX_SAMPLES of
            None \<Rightarrow> None
          | Some (preview, stride) \<Rightarrow> Some
              \<lparr>rbAccumulator = appendPowerCaptureSummary (rbAccumulator r) samples,
               rbPreview = preview, rbStride = stride, rbCount = rbCount r + int (length samples),
               rbTrigger = (if rbTrigger r < 0
                 then case find_index smpTriggered samples of
                   None \<Rightarrow> rbTrigger r | Some relative \<Rightarrow> rbCount r + int relative
                 else rbTrigger r)\<rparr>)"

definition rebuildPowerCaptureData :: "string \<Rightarrow> database \<Rightarrow> RecoveredCaptureData option" where
  "rebuildPowerCaptureData archiveId db =
     map_option (\<lambda>r. \<lparr>recSampleCount = rbCount r, recTriggerOffset = rbTrigger r, recSamples = rbPreview r,
         recSummaries = finalizePowerCaptureSummaries (rbAccumulator r)\<rparr>)
       (iteratePowerCaptureChunks archiveId 0 db rebuild_chunk
         (Some \<lparr>rbAccumulator = createPowerCaptureAccumulator, rbPreview = [], rbStride = 1,
           rbCount = 0, rbTrigger = - 1\<rparr>))"

definition recovery_candidate :: "int \<Rightarrow> int \<Rightarrow> CaptureArchiveRecord \<Rightarrow> bool" where
  "recovery_candidate staleAfterMs now candidate \<longleftrightarrow>
     \<not> (arcStatus candidate \<noteq> Recording \<or> archiveLeaseIsActive candidate now \<or>
        (arcLeaseExpiresAt candidate = None \<and> arcUpdatedAt candidate > now - max 0 staleAfterMs))"

definition recovered_record :: "int \<Rightarrow> RecoveredCaptureData \<Rightarrow> CaptureArchiveRecord \<Rightarrow> CaptureArchiveRecord" where
  "recovered_record now rebuilt record =
     (let triggerOffset = (if recTriggerOffset rebuilt \<ge> 0 then recTriggerOffset rebuilt
           else max (- 1) (pcTriggerOffset (arcCapture record)))
      in clearArchiveLease (record\<lparr>arcStatus := Interrupted, arcError := Some SessionEnded,
           arcCompletedAt := Some now, arcUpdatedAt := now,
           arcPersistedSamples := recSampleCount rebuilt,
           arcCapture := (arcCapture record)\<lparr>pcSamples := recSamples rebuilt,
             pcSampleCount := Some (recSampleCount rebuilt), pcTriggerOffset := triggerOffset,
             pcPreSamples := max 0 triggerOffset,
             pcPostSamples := max 0 (recSampleCount rebuilt - max 0 triggerOffset - 1),
             pcIncomplete := True, pcInterruptionReason := Some (reason_text SessionEnded),
             pcSummaries := Some (recSummaries rebuilt)\<rparr>\<rparr>))"

text \<open>
  The second transaction on a candidate: it looks again, and gives up when another session
  has touched the archive meanwhile. \<open>now\<close> is the time of the recovery, \<open>finishedAt\<close> the clock
  when the record is written.
\<close>

definition commit_recovery ::
  "int \<Rightarrow> int \<Rightarrow> CaptureArchiveRecord \<Rightarrow> RecoveredCaptureData \<Rightarrow> database \<Rightarrow> PowerCaptureArchiveInfo option \<times> database" where
  "commit_recovery now finishedAt candidate rebuilt db =
     (case get_archive now (arcArchiveId candidate) db of
        Inl _ \<Rightarrow> (None, db)
      | Inr record \<Rightarrow>
          if arcStatus record \<noteq> Recording \<or> arcUpdatedAt record \<noteq> arcUpdatedAt candidate \<or>
             archiveLeaseIsActive record now
          then (None, db)
          else let r = recovered_record finishedAt rebuilt record
               in (Some (archiveInfo r), put_archive r db))"

fun recover_loop ::
  "int \<Rightarrow> int \<Rightarrow> CaptureArchiveRecord list \<Rightarrow> database \<Rightarrow> (PowerCaptureArchiveInfo list \<times> database) option" where
  "recover_loop now finishedAt [] db = Some ([], db)"
| "recover_loop now finishedAt (candidate # candidates) db =
     (case rebuildPowerCaptureData (arcArchiveId candidate) db of
        None \<Rightarrow> None
      | Some rebuilt \<Rightarrow>
          (case commit_recovery now finishedAt candidate rebuilt db of
             (info, db') \<Rightarrow>
               map_option (\<lambda>(infos, db''). ((case info of None \<Rightarrow> infos | Some i \<Rightarrow> i # infos), db''))
                 (recover_loop now finishedAt candidates db')))"

definition recoverStalePowerCaptureArchives ::
  "int \<Rightarrow> int \<Rightarrow> int \<Rightarrow> database \<Rightarrow> (PowerCaptureArchiveInfo list \<times> database) option" where
  "recoverStalePowerCaptureArchives staleAfterMs now finishedAt db =
     recover_loop now finishedAt (filter (recovery_candidate staleAfterMs now) (archives now db)) db"

subsection \<open>Stores in key order\<close>

abbreviation key_ordered :: "('k::linorder \<times> 'v) list \<Rightarrow> bool" where
  "key_ordered xs \<equiv> sorted_wrt (<) (map fst xs)"

lemma map_of_put [simp]: "map_of (put k v xs) = (map_of xs)(k \<mapsto> v)"
  by (induction xs rule: put.induct) auto

lemma fst_set_put: "fst ` set (put k v xs) = insert k (fst ` set xs)"
  by (induction xs rule: put.induct) auto

lemma key_ordered_put: "key_ordered xs \<Longrightarrow> key_ordered (put k v xs)"
proof (induction xs rule: put.induct)
  case (2 k v k' v' xs)
  then have "\<forall>y \<in> set (map fst (put k v xs)). k < y \<or> k' < y" if "k' < k"
    using that fst_set_put [of k v xs] by (metis insert_iff list.set_map list.simps(9) sorted_wrt.simps(2) fst_conv)
  with 2 show ?case
    by (auto simp: fst_set_put simp flip: image_set intro: less_trans)
qed simp

lemma key_ordered_delete: "key_ordered xs \<Longrightarrow> key_ordered (delete_keys P xs)"
  unfolding delete_keys_def by (induction xs) auto

lemma map_of_delete: "map_of (delete_keys P xs) k = (if P k then None else map_of xs k)"
  unfolding delete_keys_def by (induction xs) auto

lemma map_of_below:
  assumes "key_ordered (x # xs)" "k < fst x"
  shows "map_of (x # xs) k = None"
proof -
  have "k < fst y" if "y \<in> set (x # xs)" for y
    using assms that by (auto intro: less_trans)
  then have "k \<notin> fst ` set (x # xs)" by blast
  then show ?thesis by (rule map_of_eq_None_iff [THEN iffD2])
qed

text \<open>The chunks of one archive in a store, and sums over them.\<close>

definition chunks_of :: "string \<Rightarrow> ((string \<times> nat) \<times> 'c) list \<Rightarrow> (nat \<times> 'c) list" where
  "chunks_of archiveId xs = map (\<lambda>((_, index), chunk). (index, chunk)) (filter (\<lambda>((i, _), _). i = archiveId) xs)"

lemma chunks_of_simps [simp]:
  "chunks_of a [] = []"
  "chunks_of a (((i, n), c) # xs) = (if i = a then (n, c) # chunks_of a xs else chunks_of a xs)"
  by (simp_all add: chunks_of_def)

lemma chunks_from_of: "chunks_from a n db = filter (\<lambda>x. n \<le> fst x) (chunks_of a (chunkStore db))"
  unfolding chunks_from_def chunks_of_def filter_map filter_filter
  by (intro arg_cong [of _ _ "map _"] filter_cong) auto

lemma chunks_of_put_other: "i \<noteq> a \<Longrightarrow> chunks_of a (put (i, n) c xs) = chunks_of a xs"
proof (induction xs)
  case (Cons x xs)
  then show ?case by (cases x) (auto split: if_splits)
qed simp

lemma chunks_of_delete: "chunks_of a (delete_keys (\<lambda>(i, _). i = b) xs) = (if a = b then [] else chunks_of a xs)"
  unfolding delete_keys_def by (induction xs) auto

lemma sum_chunks_put:
  fixes f :: "nat \<times> 'c \<Rightarrow> int"
  assumes "key_ordered xs"
  shows "sum_list (map f (chunks_of a (put (a, n) c xs))) =
    sum_list (map f (chunks_of a xs)) - (case map_of xs (a, n) of None \<Rightarrow> 0 | Some d \<Rightarrow> f (n, d)) + f (n, c)"
  using assms
proof (induction xs)
  case (Cons x xs)
  obtain i m d where x: "x = ((i, m), d)" by (cases x) auto
  consider "(a, n) = (i, m)" | "(a, n) < (i, m)" | "(a, n) \<noteq> (i, m)" "\<not> (a, n) < (i, m)" by blast
  then show ?case
  proof cases
    case 2
    then have none: "map_of (x # xs) (a, n) = None" using Cons.prems by (intro map_of_below) (simp_all add: x)
    from 2 have "put (a, n) c (x # xs) = ((a, n), c) # x # xs" by (auto simp: x)
    with none show ?thesis by simp
  next
    case 3
    then have "put (a, n) c (x # xs) = x # put (a, n) c xs" "map_of (x # xs) (a, n) = map_of xs (a, n)"
      by (auto simp: x)
    with Cons.IH Cons.prems show ?thesis by (cases "i = a") (simp_all add: x)
  qed (simp add: x)
qed simp

lemma chunks_of_ordered: "key_ordered xs \<Longrightarrow> sorted_wrt (<) (map fst (chunks_of a xs))"
proof (induction xs)
  case (Cons x xs)
  have "n < m" if "(a, n) < (a, m)" for n m :: nat using that by simp
  with Cons show ?case by (cases x) (force simp: chunks_of_def)
qed simp

subsection \<open>Batches read every chunk once\<close>

lemma drop_ordered:
  assumes "sorted_wrt (<) (map fst xs)" "0 < n" "n \<le> length xs"
  shows "drop n xs = filter (\<lambda>x. fst (last (take n xs)) < (fst x :: 'a :: linorder)) xs"
proof -
  let ?l = "last (take n xs)"
  have l: "?l \<in> set (take n xs)" using assms by (intro last_in_set) auto
  have "sorted_wrt (<) (map fst (take n xs) @ map fst (drop n xs))"
    using assms(1) by (simp flip: map_append)
  then have t: "sorted_wrt (<) (map fst (take n xs))"
    and d: "x \<in> set (take n xs) \<Longrightarrow> y \<in> set (drop n xs) \<Longrightarrow> fst x < fst y" for x y
    by (auto simp: sorted_wrt_append)
  have "fst x \<le> fst ?l" if "x \<in> set (take n xs)" for x
    using t that by (cases "take n xs" rule: rev_cases) (auto simp: sorted_wrt_append)
  then have "filter (\<lambda>x. fst ?l < fst x) (take n xs) = []" by (auto simp: filter_empty_conv not_less)
  moreover have "filter (\<lambda>x. fst ?l < fst x) (drop n xs) = drop n xs"
    using d [OF l] by (simp add: filter_id_conv)
  ultimately have "filter (\<lambda>x. fst ?l < fst x) (take n xs @ drop n xs) = drop n xs"
    by (simp only: filter_append append_Nil)
  then show ?thesis by simp
qed

lemma chunks_from_ordered:
  "key_ordered (chunkStore db) \<Longrightarrow> sorted_wrt (<) (map fst (chunks_from a n db))"
  using chunks_of_ordered [of "chunkStore db" a] unfolding chunks_from_of
  by (simp add: sorted_wrt_map sorted_wrt_filter)

lemma chunks_from_next:
  assumes "key_ordered (chunkStore db)" "readChunkBatch a n k db = c # cs" "\<not> length (c # cs) < k"
  shows "drop k (chunks_from a n db) = chunks_from a (Suc (fst (last (c # cs)))) db"
proof -
  let ?xs = "chunks_from a n db" and ?l = "last (c # cs)"
  from assms(2) have t: "take k ?xs = c # cs" by (simp add: readChunkBatch_def)
  then have "0 < k" by (cases k) auto
  moreover have "k \<le> length ?xs" using assms(3) by (simp flip: t)
  ultimately have k: "0 < k" "k \<le> length ?xs" "take k ?xs = c # cs" using t by blast+
  have "?l \<in> set (c # cs)" by (rule last_in_set) simp
  then have "?l \<in> set (readChunkBatch a n k db)" by (simp only: assms(2))
  then have "n \<le> fst ?l" by (rule readChunkBatch_index)
  then have "chunks_from a (Suc (fst ?l)) db = filter (\<lambda>x. fst ?l < fst x) ?xs"
    unfolding chunks_from_of filter_filter by (intro filter_cong) auto
  with drop_ordered [OF chunks_from_ordered [OF assms(1)] k(1,2)] k(3) show ?thesis by simp
qed

lemma iterate_all_chunks:
  "key_ordered (chunkStore db) \<Longrightarrow>
    iteratePowerCaptureChunks a n db f s = foldl (\<lambda>s (_, chunk). f s (expandChunk chunk)) s (chunks_from a n db)"
proof (induction a n db f s rule: iteratePowerCaptureChunks.induct)
  case (1 a n db f s)
  let ?batch = "readChunkBatch a n EXPORT_CURSOR_BATCH_CHUNKS db"
  let ?xs = "chunks_from a n db" and ?g = "\<lambda>s (_, chunk). f s (expandChunk chunk)"
  have batch: "?batch = take 32 ?xs" by (simp add: readChunkBatch_def)
  show ?case
  proof (cases ?batch)
    case Nil
    with batch have "?xs = []" by simp
    with Nil show ?thesis by (subst iteratePowerCaptureChunks.simps) simp
  next
    case (Cons c cs)
    show ?thesis
    proof (cases "length ?batch < 32")
      case True
      with batch have "?batch = ?xs" by simp
      with True Cons show ?thesis by (subst iteratePowerCaptureChunks.simps) (simp add: Let_def)
    next
      case False
      then have "drop 32 ?xs = chunks_from a (Suc (fst (last ?batch))) db"
        using chunks_from_next [OF 1(2), of a n 32 c cs] Cons by simp
      with 1(1) [OF refl _ refl] Cons False 1(2)
      have "iteratePowerCaptureChunks a n db f s = foldl ?g (foldl ?g s ?batch) (drop 32 ?xs)"
        by (subst iteratePowerCaptureChunks.simps) (simp add: Let_def)
      also have "\<dots> = foldl ?g s (take 32 ?xs @ drop 32 ?xs)" by (simp only: foldl_append batch)
      finally show ?thesis by simp
    qed
  qed
qed

lemma readPowerCaptureSamples_all:
  assumes "key_ordered (chunkStore db)"
  shows "readPowerCaptureSamples a db = concat (map (expandChunk \<circ> snd) (chunks_from a 0 db))"
proof -
  have "foldl (\<lambda>s (_, chunk). s @ expandChunk chunk) ys xs = ys @ concat (map (expandChunk \<circ> snd) xs)"
    for ys and xs :: "(nat \<times> CaptureChunkRecord) list"
    by (induction xs arbitrary: ys) auto
  then show ?thesis by (simp add: readPowerCaptureSamples_def iterate_all_chunks [OF assms])
qed

subsection \<open>Compact chunks lose nothing\<close>

definition int32 :: "int \<Rightarrow> bool" where
  "int32 i \<longleftrightarrow> - (2 ^ 31) \<le> i \<and> i < 2 ^ 31"

definition uint32 :: "int \<Rightarrow> bool" where
  "uint32 i \<longleftrightarrow> 0 \<le> i \<and> i < 2 ^ 32"

text \<open>A reading and a sample of the shape the parsers produce, for the given channels.\<close>

definition exact_reading :: "CaptureChannelMetadata \<Rightarrow> CaptureReading \<Rightarrow> bool" where
  "exact_reading channel r \<longleftrightarrow> rdName r = chName channel \<and> rdSignal r = chSignal channel \<and>
     rdSensorChannel r = Some ''current'' \<and> rdUnit r = ''uA'' \<and> int32 (rdCurrentUa r) \<and>
     (\<exists>mv. rdMv r = Some mv \<and> int32 mv) \<and> (case rdRaw r of None \<Rightarrow> True | Some raw \<Rightarrow> int32 raw)"

definition exact_sample :: "CaptureChannelMetadata list \<Rightarrow> CaptureSample \<Rightarrow> bool" where
  "exact_sample channels sample \<longleftrightarrow> uint32 (smpOffset sample) \<and> uint32 (smpSequence sample) \<and>
     list_all2 exact_reading channels (smpReadings sample)"

definition exact_samples :: "CaptureSample list \<Rightarrow> bool" where
  "exact_samples samples \<longleftrightarrow> distinct (map chName (channels_of samples)) \<and>
     list_all (exact_sample (channels_of samples)) samples"

lemma uint_uint32: "uint32 i \<Longrightarrow> uint (word_of_int i :: u32) = i"
  by (simp add: uint32_def uint_word_of_int_small)

lemma sint_int32: "int32 i \<Longrightarrow> sint (word_of_int i :: u32) = i"
  by (subst sint_sbintrunc') (simp add: int32_def signed_take_bit_int_eq_self)

lemma nth_concat_rows:
  assumes "\<forall>row \<in> set rows. length row = m" "i < length rows" "j < m"
  shows "concat rows ! (i * m + j) = rows ! i ! j \<and> i * m + j < length (concat rows)"
  using assms
proof (induction rows arbitrary: i)
  case (Cons row rows)
  show ?case
  proof (cases i)
    case (Suc k)
    with Cons.prems Cons.IH [of k] show ?thesis by (simp add: nth_append)
  qed (use Cons.prems in \<open>simp add: nth_append\<close>)
qed simp

lemma at0_nth: "i < length xs \<Longrightarrow> at0 xs i = xs ! i"
  by (simp add: at0_def nth_opt_Some)

lemma at0_channel_values:
  assumes "i < length samples" "j < length channels"
  shows "at0 (channel_values f channels samples) (i * length channels + j) =
    f (channel_reading (samples ! i) (channels ! j))"
  using nth_concat_rows [of "map (\<lambda>s. map (\<lambda>c. f (channel_reading s c)) channels) samples" "length channels" i j] assms
  by (simp add: channel_values_def at0_nth)

lemma find_distinct_nth:
  "distinct (map f xs) \<Longrightarrow> j < length xs \<Longrightarrow> find (\<lambda>x. f x = f (xs ! j)) xs = Some (xs ! j)"
proof (induction xs arbitrary: j)
  case (Cons x xs)
  show ?case
  proof (cases j)
    case (Suc k)
    with Cons.prems have "f x \<noteq> f (xs ! k)" "k < length xs" by auto
    with Cons Suc show ?thesis by simp
  qed simp
qed simp

lemma names_of_exact: "list_all2 exact_reading channels rs \<Longrightarrow> map rdName rs = map chName channels"
  by (induction rule: list_all2_induct) (simp_all add: exact_reading_def)

lemma channel_reading_exact:
  assumes "exact_sample channels sample" "distinct (map chName channels)" "j < length channels"
  shows "channel_reading sample (channels ! j) = Some (smpReadings sample ! j)"
    "exact_reading (channels ! j) (smpReadings sample ! j)" "j < length (smpReadings sample)"
proof -
  from assms(1) have all: "list_all2 exact_reading channels (smpReadings sample)" by (simp add: exact_sample_def)
  from list_all2_lengthD [OF this] assms(3) show j: "j < length (smpReadings sample)" by simp
  from list_all2_nthD [OF all assms(3)] show e: "exact_reading (channels ! j) (smpReadings sample ! j)" .
  then have "rdName (smpReadings sample ! j) = chName (channels ! j)" by (simp add: exact_reading_def)
  with find_distinct_nth [of rdName "smpReadings sample" j] assms(2) j names_of_exact [OF all]
  show "channel_reading sample (channels ! j) = Some (smpReadings sample ! j)"
    by (simp add: channel_reading_def)
qed

lemma expand_reading:
  assumes "exact_reading c r"
  shows "current_reading (chName c) (chSignal c) ((if rdEnabled r then 1 else (0 :: u8)) \<noteq> 0)
      (if (case rdRaw r of None \<Rightarrow> (0 :: u8) | Some _ \<Rightarrow> 1) \<noteq> 0
       then Some (sint (case rdRaw r of None \<Rightarrow> (0 :: u32) | Some n \<Rightarrow> word_of_int n)) else None)
      (sint (case rdMv r of None \<Rightarrow> (0 :: u32) | Some n \<Rightarrow> word_of_int n))
      (sint (word_of_int (rdCurrentUa r) :: u32)) = r"
  using assms by (auto simp: exact_reading_def current_reading_def sint_int32 split: option.splits)

lemma expand_compact:
  assumes "exact_samples samples"
  shows "expandChunk (ChunkV3 (compactSamples samples)) = samples"
proof (rule nth_equalityI)
  let ?channels = "channels_of samples"
  show "length (expandChunk (ChunkV3 (compactSamples samples))) = length samples"
    by (simp add: expandV3_def compactSamples_def Let_def)
  fix i assume "i < length (expandChunk (ChunkV3 (compactSamples samples)))"
  then have i: "i < length samples" by (simp add: expandV3_def compactSamples_def Let_def)
  with assms have e: "exact_sample ?channels (samples ! i)" and d: "distinct (map chName ?channels)"
    by (auto simp: exact_samples_def list_all_length)
  have len: "length (smpReadings (samples ! i)) = length ?channels"
    using e by (auto simp: exact_sample_def dest: list_all2_lengthD)
  have "smpReadings (expandChunk (ChunkV3 (compactSamples samples)) ! i) = smpReadings (samples ! i)"
  proof (rule nth_equalityI)
    show "length (smpReadings (expandChunk (ChunkV3 (compactSamples samples)) ! i)) = length (smpReadings (samples ! i))"
      using i len by (simp add: expandV3_def compactSamples_def Let_def)
    fix j assume "j < length (smpReadings (expandChunk (ChunkV3 (compactSamples samples)) ! i))"
    then have j: "j < length ?channels" using i by (simp add: expandV3_def compactSamples_def Let_def)
    note r = channel_reading_exact [OF e d j]
    show "smpReadings (expandChunk (ChunkV3 (compactSamples samples)) ! i) ! j = smpReadings (samples ! i) ! j"
      using i j expand_reading [OF r(2)]
      by (cases "rdEnabled (smpReadings (samples ! i) ! j)"; cases "rdRaw (smpReadings (samples ! i) ! j)")
        (simp_all add: expandV3_def compactSamples_def Let_def nth_enumerate_eq at0_channel_values r(1))
  qed
  moreover have "smpOffset (samples ! i) = max 0 (smpOffset (samples ! i))" "smpSequence (samples ! i) = max 0 (smpSequence (samples ! i))"
    using e by (simp_all add: exact_sample_def uint32_def)
  ultimately show "expandChunk (ChunkV3 (compactSamples samples)) ! i = samples ! i"
    using i e by (simp add: expandV3_def compactSamples_def Let_def at0_nth exact_sample_def uint_uint32)
qed

subsection \<open>Every history of the archive\<close>

text \<open>
  The databases a history of transactions can reach from an empty one. Archive ids are fresh
  when an archive begins (the recorder draws them at random); everything else is arbitrary,
  the clock included.
\<close>

inductive reachable :: "database \<Rightarrow> bool" where
  empty: "reachable \<lparr>captureStore = [], chunkStore = []\<rparr>"
| begin_archive: "reachable db \<Longrightarrow> required_id capture = Inr i \<Longrightarrow> chunks_of i (chunkStore db) = [] \<Longrightarrow>
    beginPowerCaptureArchive now capture lease db = Inr db' \<Longrightarrow> reachable db'"
| renew: "reachable db \<Longrightarrow> renewPowerCaptureArchiveLease now i l db = Inr db' \<Longrightarrow> reachable db'"
| append_chunk: "reachable db \<Longrightarrow> appendPowerCaptureChunk now i n samples lease db = Inr (r, db') \<Longrightarrow> reachable db'"
| finish: "reachable db \<Longrightarrow> finishPowerCaptureArchive now capture k db = Inr (r, db') \<Longrightarrow> reachable db'"
| interrupt: "reachable db \<Longrightarrow> interruptPowerCaptureArchive now i capture e f db = Inr (r, db') \<Longrightarrow> reachable db'"
| delete: "reachable db \<Longrightarrow> reachable (deletePowerCaptureArchive i db)"
| clear: "reachable db \<Longrightarrow> clearPowerCaptureArchives now a inc db = (db', k) \<Longrightarrow> reachable db'"
| prune: "reachable db \<Longrightarrow> prunePowerCaptureArchives now m a db = (db', k) \<Longrightarrow> reachable db'"
| recover: "reachable db \<Longrightarrow> recoverStalePowerCaptureArchives stale now finishedAt db = Some (infos, db') \<Longrightarrow> reachable db'"

text \<open>What the counters of a record say of the chunks stored for it.\<close>

definition samples_in :: "(nat \<times> CaptureChunkRecord) list \<Rightarrow> int" where
  "samples_in cs = sum_list (map (\<lambda>(_, c). chunkSampleCount (Some c)) cs)"

definition bytes_in :: "(nat \<times> CaptureChunkRecord) list \<Rightarrow> int" where
  "bytes_in cs = sum_list (map (\<lambda>(_, c). chunkEstimatedBytes (Some c)) cs)"

definition record_ok :: "(nat \<times> CaptureChunkRecord) list \<Rightarrow> CaptureArchiveRecord \<Rightarrow> bool" where
  "record_ok cs r \<longleftrightarrow> arcChunkCount r = int (length cs) \<and> arcPersistedSamples r = samples_in cs \<and>
     arcEstimatedBytes r = bytes_in cs \<and>
     (arcStatus r = Complete \<longrightarrow> pcSampleCount (arcCapture r) = Some (samples_in cs) \<and>
        \<not> pcIncomplete (arcCapture r) \<and> or_default (pcDroppedSamples (arcCapture r)) 0 \<le> 0)"

definition db_ok :: "database \<Rightarrow> bool" where
  "db_ok db \<longleftrightarrow> key_ordered (captureStore db) \<and> key_ordered (chunkStore db) \<and>
     (\<forall>i raw. map_of (captureStore db) i = Some raw \<longrightarrow>
        (\<exists>r. raw = stored r \<and> arcArchiveId r = i \<and> record_ok (chunks_of i (chunkStore db)) r))"

lemma chunk_counts_nonneg [simp]: "0 \<le> samples_in cs"
proof -
  have "0 \<le> chunkSampleCount (Some c)" for c by (cases c) simp_all
  then show ?thesis unfolding samples_in_def by (intro sum_list_nonneg) auto
qed

lemma db_ok_get:
  assumes "db_ok db" "get_archive now i db = Inr r"
  shows "map_of (captureStore db) i = Some (stored r)" "arcArchiveId r = i"
    "record_ok (chunks_of i (chunkStore db)) r"
proof -
  from assms(2) obtain raw where raw: "map_of (captureStore db) i = Some raw" "r = normalizeArchiveRecord now raw"
    by (auto simp: get_archive_def split: option.splits)
  with assms(1) obtain q where "raw = stored q" "arcArchiveId q = i" "record_ok (chunks_of i (chunkStore db)) q"
    unfolding db_ok_def by blast
  with raw show "map_of (captureStore db) i = Some (stored r)" "arcArchiveId r = i"
    "record_ok (chunks_of i (chunkStore db)) r" by simp_all
qed

lemma recording_archive_Inr:
  "recording_archive now i db = Inr r \<longleftrightarrow> get_archive now i db = Inr r \<and> arcStatus r = Recording"
  by (auto simp: recording_archive_def bindR_Inr_iff guardR_Inr_iff)

text \<open>Writing a record back keeps the database sound when the record says the truth.\<close>

lemma db_ok_put:
  assumes "db_ok db" "record_ok (chunks_of (arcArchiveId r) (chunkStore db)) r"
  shows "db_ok (put_archive r db)"
  using assms by (auto simp: db_ok_def put_archive_def key_ordered_put)

lemma lease_fields [simp]:
  "arcArchiveId (applyArchiveLease now r l) = arcArchiveId r"
  "arcChunkCount (applyArchiveLease now r l) = arcChunkCount r"
  "arcPersistedSamples (applyArchiveLease now r l) = arcPersistedSamples r"
  "arcEstimatedBytes (applyArchiveLease now r l) = arcEstimatedBytes r"
  "arcLastSequence (applyArchiveLease now r l) = arcLastSequence r"
  "arcStatus (applyArchiveLease now r l) = arcStatus r"
  "arcPinned (applyArchiveLease now r l) = arcPinned r"
  by (simp_all add: applyArchiveLease_def Let_def split: option.splits)

lemma clear_fields [simp]:
  "arcArchiveId (clearArchiveLease r) = arcArchiveId r"
  "record_ok cs (clearArchiveLease r) \<longleftrightarrow> record_ok cs r"
  by (simp_all add: clearArchiveLease_def record_ok_def)

lemma record_ok_lease:
  "arcStatus r = Recording \<Longrightarrow> record_ok cs (applyArchiveLease now r l) \<longleftrightarrow> record_ok cs r"
  by (simp add: record_ok_def)

lemma db_ok_begin:
  assumes "db_ok db" "required_id capture = Inr i" "chunks_of i (chunkStore db) = []"
    and "beginPowerCaptureArchive now capture lease db = Inr db'"
  shows "db_ok db'"
  using assms
  by (auto simp: beginPowerCaptureArchive_def record_ok_lease intro!: db_ok_put)
    (simp add: record_ok_def samples_in_def bytes_in_def)

lemma db_ok_renew:
  assumes "db_ok db" "renewPowerCaptureArchiveLease now i l db = Inr db'"
  shows "db_ok db'"
  using assms db_ok_get [OF assms(1)]
  by (auto simp: renewPowerCaptureArchiveLease_def bindR_Inr_iff recording_archive_Inr record_ok_lease
      intro!: db_ok_put)

lemma bytes_nonneg [simp]: "0 \<le> bytes_in cs"
proof -
  have "0 \<le> chunkEstimatedBytes (Some c)" for c by (cases c) (simp_all add: ESTIMATED_SAMPLE_BYTES_def)
  then show ?thesis unfolding bytes_in_def by (intro sum_list_nonneg) auto
qed

lemma counts_after_put:
  assumes "key_ordered xs"
  shows "int (length (chunks_of a (put (a, n) c xs))) =
      int (length (chunks_of a xs)) + (if map_of xs (a, n) = None then 1 else 0)"
    "samples_in (chunks_of a (put (a, n) c xs)) =
      samples_in (chunks_of a xs) - chunkSampleCount (map_of xs (a, n)) + chunkSampleCount (Some c)"
    "bytes_in (chunks_of a (put (a, n) c xs)) =
      bytes_in (chunks_of a xs) - chunkEstimatedBytes (map_of xs (a, n)) + chunkEstimatedBytes (Some c)"
proof -
  have "sum_list (map (\<lambda>_. 1) ys) = int (length ys)" for ys :: "(nat \<times> CaptureChunkRecord) list"
    by (induction ys) simp_all
  with sum_chunks_put [OF assms, of "\<lambda>_. 1" a n c]
  show "int (length (chunks_of a (put (a, n) c xs))) =
      int (length (chunks_of a xs)) + (if map_of xs (a, n) = None then 1 else 0)"
    by (simp split: option.splits)
  show "samples_in (chunks_of a (put (a, n) c xs)) =
      samples_in (chunks_of a xs) - chunkSampleCount (map_of xs (a, n)) + chunkSampleCount (Some c)"
    using sum_chunks_put [OF assms, of "\<lambda>(_, c). chunkSampleCount (Some c)" a n c]
    by (simp add: samples_in_def split: option.splits)
  show "bytes_in (chunks_of a (put (a, n) c xs)) =
      bytes_in (chunks_of a xs) - chunkEstimatedBytes (map_of xs (a, n)) + chunkEstimatedBytes (Some c)"
    using sum_chunks_put [OF assms, of "\<lambda>(_, c). chunkEstimatedBytes (Some c)" a n c]
    by (simp add: bytes_in_def split: option.splits)
qed

lemma db_ok_put_chunk:
  assumes "db_ok db" "record_ok (chunks_of i (put (i, n) c (chunkStore db))) r" "arcArchiveId r = i"
  shows "db_ok (put_archive r (db\<lparr>chunkStore := put (i, n) c (chunkStore db)\<rparr>))"
  using assms by (auto simp: db_ok_def put_archive_def key_ordered_put chunks_of_put_other)

lemma append_Inr:
  assumes "appendPowerCaptureChunk now i n samples lease db = Inr (w, db')" "samples \<noteq> []"
  obtains found where "get_archive now i db = Inr found" "arcStatus found = Recording"
    "assertArchiveOwner found lease = Inr ()"
    "db' = put_archive (applyArchiveLease now (append_record now found (map_of (chunkStore db) (i, n)) samples
        (compactSamples samples)) lease)
      (db\<lparr>chunkStore := put (i, n) (ChunkV3 (compactSamples samples)) (chunkStore db)\<rparr>)"
  using assms
  by (auto simp: appendPowerCaptureChunk_def Let_def bindR_Inr_iff recording_archive_Inr)

lemma db_ok_append:
  assumes "db_ok db" "appendPowerCaptureChunk now i n samples lease db = Inr (w, db')"
  shows "db_ok db'"
proof (cases "samples = []")
  case True
  with assms show ?thesis by (simp add: appendPowerCaptureChunk_def)
next
  case False
  let ?comp = "compactSamples samples"
  from assms(2) False obtain found where found: "get_archive now i db = Inr found" "arcStatus found = Recording"
    and db': "db' = put_archive (applyArchiveLease now (append_record now found (map_of (chunkStore db) (i, n)) samples
        ?comp) lease) (db\<lparr>chunkStore := put (i, n) (ChunkV3 ?comp) (chunkStore db)\<rparr>)"
    by (rule append_Inr)
  note ok = db_ok_get [OF assms(1) found(1)]
  have ordered: "key_ordered (chunkStore db)" using assms(1) by (simp add: db_ok_def)
  have "int (v3SampleCount ?comp) = int (length samples)" by (simp add: compactSamples_def Let_def)
  with ok(3) found(2) counts_after_put [OF ordered, of i n "ChunkV3 ?comp"]
    chunk_counts_nonneg [of "chunks_of i (put (i, n) (ChunkV3 ?comp) (chunkStore db))"]
    bytes_nonneg [of "chunks_of i (put (i, n) (ChunkV3 ?comp) (chunkStore db))"]
  have "record_ok (chunks_of i (put (i, n) (ChunkV3 ?comp) (chunkStore db)))
      (append_record now found (map_of (chunkStore db) (i, n)) samples ?comp)"
    by (simp add: record_ok_def append_record_def Let_def)
  with ok(2) found(2) show ?thesis
    unfolding db' by (intro db_ok_put_chunk assms(1)) (simp_all add: record_ok_lease append_record_def Let_def)
qed

lemma ended_fields [simp]:
  "arcArchiveId (finished_record now capture k found) = arcArchiveId found"
  "arcArchiveId (interrupted_record now capture e f found) = arcArchiveId found"
  by (simp_all add: finished_record_def interrupted_record_def Let_def)

lemma record_ok_finished: "record_ok cs found \<Longrightarrow> record_ok cs (finished_record now capture k found)"
  by (cases "pcIncomplete capture") (auto simp: record_ok_def finished_record_def clearArchiveLease_def Let_def)

lemma record_ok_interrupted: "record_ok cs found \<Longrightarrow> record_ok cs (interrupted_record now capture e f found)"
  by (simp add: record_ok_def interrupted_record_def clearArchiveLease_def)

lemma db_ok_finish:
  assumes "db_ok db" "finishPowerCaptureArchive now capture k db = Inr (w, db')"
  shows "db_ok db'"
  using assms db_ok_get [OF assms(1)]
  by (auto simp: finishPowerCaptureArchive_def bindR_Inr_iff Let_def record_ok_finished intro!: db_ok_put)

lemma db_ok_interrupt:
  assumes "db_ok db" "interruptPowerCaptureArchive now i capture e f db = Inr (w, db')"
  shows "db_ok db'"
  using assms db_ok_get [OF assms(1)]
  by (auto simp: interruptPowerCaptureArchive_def bindR_Inr_iff Let_def record_ok_interrupted intro!: db_ok_put)

lemma db_ok_delete: "db_ok db \<Longrightarrow> db_ok (deletePowerCaptureArchive i db)"
  by (auto simp: db_ok_def deletePowerCaptureArchive_def key_ordered_delete map_of_delete chunks_of_delete
      split: if_splits)

lemma db_ok_clear: "db_ok db \<Longrightarrow> db_ok (fst (clearPowerCaptureArchives now a inc db))"
proof -
  have "db_ok (fst acc) \<Longrightarrow> db_ok (fst (foldl (clear_step a inc) acc rs))" for acc rs
    by (induction rs arbitrary: acc) (simp_all add: clear_step_def db_ok_delete)
  then show "db_ok db \<Longrightarrow> ?thesis" by (simp add: clearPowerCaptureArchives_def)
qed

lemma db_ok_prune: "db_ok db \<Longrightarrow> db_ok (fst (prunePowerCaptureArchives now m a db))"
proof -
  have "db_ok db \<Longrightarrow> db_ok (fst (prune_loop m total k rs db))" for total k rs db
    by (induction m total k rs db rule: prune_loop.induct) (simp_all add: db_ok_delete)
  then show "db_ok db \<Longrightarrow> ?thesis" by (simp add: prunePowerCaptureArchives_def Let_def)
qed

lemma rebuild_counts:
  fixes cs :: "(nat \<times> CaptureChunkRecord) list"
  assumes "foldl (\<lambda>s (_, chunk). rebuild_chunk s (expandChunk chunk)) (Some st) cs = Some st'"
  shows "rbCount st' = rbCount st + int (length (concat (map (expandChunk \<circ> snd) cs)))"
proof -
  have none: "foldl (\<lambda>s (_, chunk). rebuild_chunk s (expandChunk chunk)) None cs = None" for cs :: "(nat \<times> CaptureChunkRecord) list"
    by (induction cs) (auto simp: rebuild_chunk_def)
  show ?thesis using assms
  proof (induction cs arbitrary: st)
    case (Cons c cs)
    show ?case
    proof (cases "rebuild_chunk (Some st) (expandChunk (snd c))")
      case None
      with Cons.prems none [of cs] show ?thesis by (simp add: case_prod_beta')
    next
      case (Some st1)
      then have "rbCount st1 = rbCount st + int (length (expandChunk (snd c)))"
        by (auto simp: rebuild_chunk_def split: option.splits)
      with Cons Some show ?thesis by (simp add: case_prod_beta)
    qed
  qed simp
qed

lemma length_expandChunk: "int (length (expandChunk c)) = chunkSampleCount (Some c)"
  by (cases c) (simp_all add: expandV2_def expandV3_def)

lemma samples_in_length: "samples_in cs = int (length (concat (map (expandChunk \<circ> snd) cs)))"
  by (induction cs) (auto simp: samples_in_def length_expandChunk)

lemma chunks_from_all: "chunks_from a 0 db = chunks_of a (chunkStore db)"
  by (simp add: chunks_from_of)

lemma rebuild_count:
  assumes "key_ordered (chunkStore db)" "rebuildPowerCaptureData i db = Some rebuilt"
  shows "recSampleCount rebuilt = samples_in (chunks_of i (chunkStore db))"
  using assms(2) rebuild_counts
  by (fastforce simp: rebuildPowerCaptureData_def iterate_all_chunks [OF assms(1)] samples_in_length chunks_from_all)

lemma recovered_fields:
  "arcArchiveId (recovered_record now rebuilt r) = arcArchiveId r"
  "arcStatus (recovered_record now rebuilt r) = Interrupted"
  by (simp_all add: recovered_record_def Let_def clearArchiveLease_def)

lemma record_ok_recovered:
  "record_ok cs r \<Longrightarrow> recSampleCount rebuilt = samples_in cs \<Longrightarrow> record_ok cs (recovered_record now rebuilt r)"
  by (simp add: record_ok_def recovered_record_def Let_def clearArchiveLease_def)

lemma db_ok_commit:
  assumes "db_ok db" "rebuildPowerCaptureData (arcArchiveId c) db = Some rebuilt"
    and "commit_recovery now fin c rebuilt db = (info, db')"
  shows "db_ok db'"
proof (cases "get_archive now (arcArchiveId c) db")
  case (Inl e)
  with assms show ?thesis by (simp add: commit_recovery_def)
next
  case (Inr r)
  have "key_ordered (chunkStore db)" using assms(1) by (simp add: db_ok_def)
  with db_ok_get [OF assms(1) Inr] assms(2) have "db_ok (put_archive (recovered_record fin rebuilt r) db)"
    by (intro db_ok_put assms(1) record_ok_recovered) (simp_all add: recovered_fields rebuild_count)
  with Inr assms(1,3) show ?thesis
    by (auto simp: commit_recovery_def Let_def split: if_splits)
qed

lemma db_ok_recover:
  assumes "db_ok db" "recoverStalePowerCaptureArchives stale now fin db = Some (infos, db')"
  shows "db_ok db'"
proof -
  have "db_ok db \<Longrightarrow> recover_loop now fin cs db = Some (infos, db') \<Longrightarrow> db_ok db'" for cs infos db db'
  proof (induction now fin cs db arbitrary: infos rule: recover_loop.induct)
    case (2 now fin c cs db)
    then show ?case by (auto split: option.splits prod.splits dest: db_ok_commit)
  qed simp
  with assms show ?thesis by (simp add: recoverStalePowerCaptureArchives_def)
qed

lemma reachable_ok: "reachable db \<Longrightarrow> db_ok db"
proof (induction rule: reachable.induct)
  case empty
  show ?case by (simp add: db_ok_def)
next
  case (clear db now a inc db' k)
  with db_ok_clear [of db now a inc] show ?case by simp
next
  case (prune db now m a db' k)
  with db_ok_prune [of db now m a] show ?case by simp
qed (blast intro: db_ok_begin db_ok_renew db_ok_append db_ok_finish db_ok_interrupt db_ok_delete db_ok_recover)+


definition test_lease :: "string \<Rightarrow> PowerCaptureArchiveLease" where
  "test_lease owner = \<lparr>leaseOwnerId = owner, leaseDurationMs = None, leaseDroppedSamples = None\<rparr>"

definition test_begun :: database where
  "test_begun = put_archive (applyArchiveLease 1000
     \<lparr>arcArchiveId = ''x'', arcStatus = Recording, arcChunkCount = 0, arcPersistedSamples = 0,
      arcEstimatedBytes = 0, arcLastSequence = 0, arcStartedAt = 1000, arcUpdatedAt = 1000,
      arcCompletedAt = None, arcError = None, arcPinned = False, arcOwnerId = None,
      arcLeaseExpiresAt = None, arcCapture = sample_capture\<lparr>pcArchiveId := Some ''x''\<rparr>\<rparr>
      (Some (test_lease ''me''))) \<lparr>captureStore = [], chunkStore = []\<rparr>"

lemma reachable_test_begun: "reachable test_begun"
proof (rule reachable.begin_archive [OF reachable.empty])
  show "required_id (sample_capture\<lparr>pcArchiveId := Some ''x''\<rparr>) = Inr ''x''"
    by (simp add: required_id_def)
  then show "beginPowerCaptureArchive 1000 (sample_capture\<lparr>pcArchiveId := Some ''x''\<rparr>) (Some (test_lease ''me''))
      \<lparr>captureStore = [], chunkStore = []\<rparr> = Inr test_begun"
    by (simp add: beginPowerCaptureArchive_def test_begun_def)
qed simp

lemma map_of_test_begun: "\<exists>raw. map_of (captureStore test_begun) ''x'' = Some raw \<and>
  (let r = normalizeArchiveRecord now raw in arcStatus r = Recording \<and> arcOwnerId r = Some ''me'' \<and>
     arcLeaseExpiresAt r = Some 61000)"
  by (simp add: test_begun_def put_archive_def applyArchiveLease_def test_lease_def Let_def
      normalizedLeaseDuration_def POWER_CAPTURE_LEASE_DURATION_MS_def)


subsection \<open>What is written is read back\<close>

lemma chunks_of_mem: "(n, e) \<in> set (chunks_of a xs) \<longleftrightarrow> ((a, n), e) \<in> set xs"
  by (force simp: chunks_of_def)

lemma chunks_of_put_last:
  assumes "key_ordered xs" "\<forall>x \<in> set (chunks_of a xs). fst x < k"
  shows "chunks_of a (put (a, k) c xs) = chunks_of a xs @ [(k, c)]"
  using assms
proof (induction xs)
  case (Cons x xs)
  obtain i m d where x: "x = ((i, m), d)" by (cases x) auto
  consider "(a, k) = (i, m)" | "(a, k) < (i, m)" | "(a, k) \<noteq> (i, m)" "\<not> (a, k) < (i, m)" by blast
  then show ?case
  proof cases
    case 1
    with Cons.prems show ?thesis by (auto simp: x)
  next
    case 2
    have "chunks_of a (x # xs) = []"
    proof (rule ccontr)
      assume "chunks_of a (x # xs) \<noteq> []"
      then obtain y ys where ys: "chunks_of a (x # xs) = y # ys" by (meson neq_Nil_conv)
      obtain n e where "y = (n, e)" by (cases y)
      with ys have n: "(n, e) \<in> set (chunks_of a (x # xs))" by (simp only: list.set_intros)
      with Cons.prems(2) have "(a, n) < (a, k)" by auto
      moreover have "(i, m) \<le> (a, n)" using n [unfolded chunks_of_mem] Cons.prems(1) by (auto simp: x)
      ultimately show False using 2 by (meson less_le_trans less_trans less_irrefl)
    qed
    moreover from 2 have "put (a, k) c (x # xs) = ((a, k), c) # x # xs" by (auto simp: x)
    ultimately show ?thesis by simp
  next
    case 3
    then have "put (a, k) c (x # xs) = x # put (a, k) c xs" by (auto simp: x)
    with Cons show ?thesis by (cases "i = a") (simp_all add: x)
  qed
qed simp

definition append_next ::
  "int \<Rightarrow> string \<Rightarrow> PowerCaptureArchiveLease option \<Rightarrow> database \<Rightarrow> nat \<times> CaptureSample list \<Rightarrow> store_error + database" where
  "append_next now i lease db chunk =
     map_sum id snd (appendPowerCaptureChunk now i (fst chunk) (snd chunk) lease db)"

lemma append_next_Inr:
  "append_next now i lease db (k, samples) = Inr db' \<longleftrightarrow>
    (\<exists>w. appendPowerCaptureChunk now i k samples lease db = Inr (w, db'))"
  by (cases "appendPowerCaptureChunk now i k samples lease db") (auto simp: append_next_def)

lemma append_all_chunks:
  assumes "db_ok db" "foldR (append_next now i lease) db (enumerate k chunks) = Inr db'"
    and "\<forall>x \<in> set (chunks_of i (chunkStore db)). fst x < k" "[] \<notin> set chunks"
  shows "db_ok db' \<and> chunks_of i (chunkStore db') = chunks_of i (chunkStore db) @
    enumerate k (map (\<lambda>samples. ChunkV3 (compactSamples samples)) chunks)"
  using assms
proof (induction chunks arbitrary: db k)
  case (Cons samples chunks)
  from Cons.prems(2) obtain w db1 where db1: "appendPowerCaptureChunk now i k samples lease db = Inr (w, db1)"
      and rest: "foldR (append_next now i lease) db1 (enumerate (Suc k) chunks) = Inr db'"
    by (auto simp: append_next_Inr bindR_Inr_iff)
  from db1 Cons.prems(4) have store: "chunkStore db1 = put (i, k) (ChunkV3 (compactSamples samples)) (chunkStore db)"
    by (elim append_Inr) (auto simp: put_archive_def)
  have "chunks_of i (chunkStore db1) = chunks_of i (chunkStore db) @ [(k, ChunkV3 (compactSamples samples))]"
    unfolding store using Cons.prems(1,3) by (intro chunks_of_put_last) (simp_all add: db_ok_def)
  moreover from this Cons.prems(3) have "\<forall>x \<in> set (chunks_of i (chunkStore db1)). fst x < Suc k" by auto
  ultimately show ?case
    using Cons.IH [OF db_ok_append [OF Cons.prems(1) db1] rest] Cons.prems(4) by simp
qed simp

text \<open>
  C14: What is archived is read back. When a recording is written in chunks 0, 1, 2, ... to an
  archive that has none, each chunk non-empty and of samples the compact format can hold (32
  bit counters, currents and readings, one set of channels per chunk), then
  \<open>readPowerCaptureSamples\<close> returns exactly the samples written, in order, however many
  batches of 32 chunks it takes.
\<close>

theorem archive_reads_back:
  assumes "reachable db" "chunks_of i (chunkStore db) = []"
    and "foldR (append_next now i lease) db (enumerate 0 chunks) = Inr db'"
    and "list_all (\<lambda>samples. samples \<noteq> [] \<and> exact_samples samples) chunks"
  shows "readPowerCaptureSamples i db' = concat chunks"
proof -
  from assms(4) have "[] \<notin> set chunks" by (auto simp: list_all_iff)
  with append_all_chunks [OF reachable_ok [OF assms(1)] assms(3)] assms(2)
  have db': "db_ok db'" "chunks_of i (chunkStore db') =
      enumerate 0 (map (\<lambda>samples. ChunkV3 (compactSamples samples)) chunks)" by simp_all
  have "map (expandChunk \<circ> snd) (enumerate k (map (\<lambda>samples. ChunkV3 (compactSamples samples)) chunks)) = chunks" for k
    using assms(4) by (induction chunks arbitrary: k) (simp_all add: expand_compact del: expandChunk.simps)
  with db' show ?thesis
    by (simp add: readPowerCaptureSamples_all db_ok_def chunks_from_all)
qed

lemma exact_sample_at_time: "int32 ua \<Longrightarrow> exact_samples [sample_at_time t ua]"
  by (simp add: exact_samples_def channels_of_def sample_at_time_def sample_reading_def exact_sample_def
      exact_reading_def uint32_def int32_def)

theorem archive_reads_back_witness:
  "\<exists>db'. foldR (append_next 2000 ''x'' (Some (test_lease ''me''))) test_begun
       (enumerate 0 [[sample_at_time 0 5], [sample_at_time 1 7]]) = Inr db' \<and>
     readPowerCaptureSamples ''x'' db' = concat [[sample_at_time 0 5], [sample_at_time 1 7]]"
proof -
  have "\<exists>db'. foldR (append_next 2000 ''x'' (Some (test_lease ''me''))) test_begun
       (enumerate 0 [[sample_at_time 0 5], [sample_at_time 1 7]]) = Inr db'"
    by (simp add: append_next_def appendPowerCaptureChunk_def recording_archive_def get_archive_def test_begun_def
        put_archive_def applyArchiveLease_def test_lease_def Let_def assertArchiveOwner_def append_record_def)
  then obtain db' where db': "foldR (append_next 2000 ''x'' (Some (test_lease ''me''))) test_begun
       (enumerate 0 [[sample_at_time 0 5], [sample_at_time 1 7]]) = Inr db'" by blast
  have "chunks_of ''x'' (chunkStore test_begun) = []" by (simp add: test_begun_def put_archive_def)
  moreover have "int32 5" "int32 7" by (simp_all add: int32_def)
  ultimately have "readPowerCaptureSamples ''x'' db' = concat [[sample_at_time 0 5], [sample_at_time 1 7]]"
    by (intro archive_reads_back [OF reachable_test_begun _ db']) (simp_all add: exact_sample_at_time)
  with db' show ?thesis by blast
qed

subsection \<open>A lease protects a recording\<close>

definition untouched :: "string \<Rightarrow> database \<Rightarrow> database \<Rightarrow> bool" where
  "untouched i db db' \<longleftrightarrow> map_of (captureStore db') i = map_of (captureStore db) i \<and>
     chunks_of i (chunkStore db') = chunks_of i (chunkStore db)"

lemma untouched_refl [simp]: "untouched i db db"
  by (simp add: untouched_def)

lemma untouched_trans: "untouched i a b \<Longrightarrow> untouched i b c \<Longrightarrow> untouched i a c"
  by (simp add: untouched_def)

lemma untouched_delete: "i \<noteq> j \<Longrightarrow> untouched i db (deletePowerCaptureArchive j db)"
  by (simp add: untouched_def deletePowerCaptureArchive_def map_of_delete chunks_of_delete)

lemma untouched_put: "i \<noteq> arcArchiveId r \<Longrightarrow> untouched i db (put_archive r db)"
  by (simp add: untouched_def put_archive_def)

lemma untouched_clear:
  "\<forall>r \<in> set rs. arcArchiveId r = i \<longrightarrow> arcStatus r = Recording \<Longrightarrow>
    untouched i (fst acc) (fst (foldl (clear_step a False) acc rs))"
proof (induction rs arbitrary: acc)
  case (Cons r rs)
  have "untouched i (fst acc) (fst (clear_step a False acc r))"
    using Cons.prems untouched_delete [of i "arcArchiveId r" "fst acc"] by (auto simp: clear_step_def)
  moreover from Cons have "untouched i (fst (clear_step a False acc r))
      (fst (foldl (clear_step a False) (clear_step a False acc r) rs))" by (intro Cons.IH) simp
  ultimately show ?case by (auto intro: untouched_trans)
qed simp

lemma untouched_prune:
  "\<forall>r \<in> set rs. infArchiveId r \<noteq> i \<Longrightarrow> untouched i db (fst (prune_loop m tb k rs db))"
proof (induction m tb k rs db rule: prune_loop.induct)
  case (2 m tb k r rs db)
  then have "untouched i db (deletePowerCaptureArchive (infArchiveId r) db)" by (intro untouched_delete) auto
  with 2 show ?case by (auto intro: untouched_trans)
qed simp

lemma untouched_recover:
  "\<forall>c \<in> set cs. arcArchiveId c \<noteq> i \<Longrightarrow> db_ok db \<Longrightarrow> recover_loop now fin cs db = Some (infos, db') \<Longrightarrow>
    untouched i db db'"
proof (induction now fin cs db arbitrary: infos rule: recover_loop.induct)
  case (2 now fin c cs db)
  from 2(4) obtain rebuilt where rebuilt: "rebuildPowerCaptureData (arcArchiveId c) db = Some rebuilt"
    by (auto split: option.splits)
  obtain info db1 where db1: "commit_recovery now fin c rebuilt db = (info, db1)" by fastforce
  with 2(4) rebuilt obtain infos' where rest: "recover_loop now fin cs db1 = Some (infos', db')" by auto
  have "untouched i db db1"
  proof (cases "get_archive now (arcArchiveId c) db")
    case (Inr r)
    with db_ok_get [OF 2(3) Inr] 2(2) have "untouched i db (put_archive (recovered_record fin rebuilt r) db)"
      by (intro untouched_put) (auto simp: recovered_fields)
    with Inr db1 show ?thesis by (auto simp: commit_recovery_def Let_def split: if_splits)
  qed (use db1 in \<open>simp add: commit_recovery_def\<close>)
  moreover have "untouched i db1 db'"
    using 2(1) [OF rebuilt db1 [symmetric] _ db_ok_commit [OF 2(3) rebuilt db1] rest] 2(2) by simp
  ultimately show ?case by (rule untouched_trans)
qed simp

lemma archives_stored:
  assumes "db_ok db" "r \<in> set (archives now db)"
  shows "map_of (captureStore db) (arcArchiveId r) = Some (stored r)"
proof -
  from assms(2) obtain k raw where raw: "(k, raw) \<in> set (captureStore db)" "r = normalizeArchiveRecord now raw"
    by (auto simp: archives_def)
  have "distinct (map fst (captureStore db))"
    using assms(1) by (auto simp: db_ok_def strict_sorted_iff)
  with raw(1) have k: "map_of (captureStore db) k = Some raw" by simp
  with assms(1) obtain q where "raw = stored q" "arcArchiveId q = k" unfolding db_ok_def by blast
  with k raw(2) show ?thesis by simp
qed

text \<open>
  C15: A lease protects a recording. While the lease on a recording archive runs, no other
  session gets at it: renewing it or appending to it under another owner is refused, and
  clearing the finished archives, pruning to any size and recovering stale archives leave
  its record and its chunks exactly as they are.
\<close>

theorem lease_protects_recording:
  assumes "reachable db" "map_of (captureStore db) i = Some raw" "normalizeArchiveRecord now raw = r"
    and "arcStatus r = Recording" "arcOwnerId r = Some owner" "owner \<noteq> []" "archiveLeaseIsActive r now"
    and "leaseOwnerId other \<noteq> owner" "samples \<noteq> []"
  shows "renewPowerCaptureArchiveLease now i other db = Inl (ArchiveOwnedByOther i) \<and>
    appendPowerCaptureChunk now i n samples (Some other) db = Inl (ArchiveOwnedByOther i) \<and>
    untouched i db (fst (clearPowerCaptureArchives now a False db)) \<and>
    untouched i db (fst (prunePowerCaptureArchives now m a db)) \<and>
    (case recoverStalePowerCaptureArchives stale now fin db of
       None \<Rightarrow> True | Some (infos, db') \<Rightarrow> untouched i db db')"
proof (intro conjI)
  note ok = reachable_ok [OF assms(1)]
  have get: "get_archive now i db = Inr r" using assms(2,3) by (simp add: get_archive_def)
  note r = db_ok_get [OF ok get]
  have "assertArchiveOwner r (Some other) = Inl (ArchiveOwnedByOther i)"
    using assms(5,6,8) r(2) by (simp add: assertArchiveOwner_def guardR_def)
  with get assms(4,9) show "renewPowerCaptureArchiveLease now i other db = Inl (ArchiveOwnedByOther i)"
    "appendPowerCaptureChunk now i n samples (Some other) db = Inl (ArchiveOwnedByOther i)"
    by (simp_all add: renewPowerCaptureArchiveLease_def appendPowerCaptureChunk_def recording_archive_def Let_def)
  have same: "q = r" if q: "q \<in> set (archives now db)" "arcArchiveId q = i" for q
  proof -
    from archives_stored [OF ok q(1)] q(2) r(1) have "stored q = stored r" by simp
    then show ?thesis by (metis normalize_stored)
  qed
  show "untouched i db (fst (clearPowerCaptureArchives now a False db))"
    using untouched_clear [of "archives now db" i "(db, 0)" a] same assms(4)
    by (auto simp: clearPowerCaptureArchives_def)
  have "infArchiveId q \<noteq> i" if "q \<in> set (prunable now a db)" for q
    using that same assms(4) by (auto simp: prunable_def listPowerCaptureArchives_def archiveInfo_def)
  then show "untouched i db (fst (prunePowerCaptureArchives now m a db))"
    by (simp add: prunePowerCaptureArchives_def Let_def untouched_prune)
  have "arcArchiveId q \<noteq> i" if "q \<in> set (filter (recovery_candidate stale now) (archives now db))" for q
    using that same assms(7) by (auto simp: recovery_candidate_def)
  then show "case recoverStalePowerCaptureArchives stale now fin db of
      None \<Rightarrow> True | Some (infos, db') \<Rightarrow> untouched i db db'"
    using untouched_recover [of "filter (recovery_candidate stale now) (archives now db)" i db now fin] ok
    by (auto simp: recoverStalePowerCaptureArchives_def split: option.split)
qed

theorem lease_protects_recording_witness:
  "renewPowerCaptureArchiveLease 2000 ''x'' (test_lease ''you'') test_begun = Inl (ArchiveOwnedByOther ''x'') \<and>
    untouched ''x'' test_begun (fst (prunePowerCaptureArchives 2000 0 None test_begun))"
proof -
  from map_of_test_begun [of 2000] obtain raw where raw: "map_of (captureStore test_begun) ''x'' = Some raw"
      "arcStatus (normalizeArchiveRecord 2000 raw) = Recording"
      "arcOwnerId (normalizeArchiveRecord 2000 raw) = Some ''me''"
      "arcLeaseExpiresAt (normalizeArchiveRecord 2000 raw) = Some 61000" by (auto simp: Let_def)
  have "archiveLeaseIsActive (normalizeArchiveRecord 2000 raw) 2000"
    by (simp add: archiveLeaseIsActive_def raw(4))
  with lease_protects_recording [OF reachable_test_begun raw(1) refl raw(2,3), where other = "test_lease ''you''"
      and samples = "[sample_at_time 0 1]" and a = None and m = 0]
  show ?thesis by (simp add: test_lease_def)
qed

subsection \<open>Pruning\<close>

lemma archive_key:
  assumes "db_ok db" "x \<in> set (captureStore db)"
  shows "arcArchiveId (normalizeArchiveRecord now (snd x)) = fst x"
proof -
  have "distinct (map fst (captureStore db))" using assms by (auto simp: db_ok_def strict_sorted_iff)
  with assms(2) have "map_of (captureStore db) (fst x) = Some (snd x)" by simp
  with assms(1) obtain q where "snd x = stored q" "arcArchiveId q = fst x" unfolding db_ok_def by blast
  then show ?thesis by simp
qed

lemma archives_delete:
  assumes "db_ok db"
  shows "archives now (deletePowerCaptureArchive i db) = filter (\<lambda>r. arcArchiveId r \<noteq> i) (archives now db)"
proof -
  have "filter (\<lambda>(k, _). k \<noteq> i) (captureStore db) =
      filter (\<lambda>x. arcArchiveId (normalizeArchiveRecord now (snd x)) \<noteq> i) (captureStore db)"
    using archive_key [OF assms] by (intro filter_cong) auto
  then show ?thesis by (simp add: archives_def deletePowerCaptureArchive_def delete_keys_def filter_map comp_def)
qed

lemma prunable_delete:
  "db_ok db \<Longrightarrow> prunable now a (deletePowerCaptureArchive i db) = filter (\<lambda>r. infArchiveId r \<noteq> i) (prunable now a db)"
  unfolding prunable_def listPowerCaptureArchives_def archives_delete filter_sort filter_filter filter_map
  by (intro arg_cong [of _ _ "sort_key _"] arg_cong [of _ _ "map _"] filter_cong)
    (auto simp: archiveInfo_def comp_def)

lemma prunable_distinct:
  assumes "db_ok db"
  shows "distinct (map infArchiveId (prunable now a db))"
proof -
  have "map infArchiveId (listPowerCaptureArchives now db) = map fst (captureStore db)"
    using archive_key [OF assms] by (simp add: listPowerCaptureArchives_def archives_def archiveInfo_def)
  moreover have "distinct (map fst (captureStore db))" using assms by (auto simp: db_ok_def strict_sorted_iff)
  ultimately have "distinct (listPowerCaptureArchives now db)" "inj_on infArchiveId (set (listPowerCaptureArchives now db))"
    by (metis distinct_map)+
  then show ?thesis unfolding distinct_map by (auto simp: prunable_def intro: inj_on_subset)
qed

lemma prune_loop_drops:
  assumes "db_ok db" "prunable now a db = rs" "prune_loop m (sum_list (map infEstimatedBytes rs)) k rs db = (db', k')"
  shows "\<exists>n. k' = k + n \<and> n \<le> length rs \<and> prunable now a db' = drop n rs \<and>
    (n < length rs \<longrightarrow> sum_list (map infEstimatedBytes (drop n rs)) \<le> m) \<and>
    (\<forall>j < n. m < sum_list (map infEstimatedBytes (drop j rs)))"
  using assms
proof (induction rs arbitrary: db k)
  case (Cons r rs)
  show ?case
  proof (cases "sum_list (map infEstimatedBytes (r # rs)) \<le> m")
    case True
    with Cons.prems show ?thesis by (intro exI [of _ 0]) simp
  next
    case False
    let ?db = "deletePowerCaptureArchive (infArchiveId r) db"
    from prunable_distinct [OF Cons.prems(1), of now a] Cons.prems(2)
    have "filter (\<lambda>q. infArchiveId q \<noteq> infArchiveId r) (r # rs) = rs" by (auto simp: filter_id_conv image_iff)
    then have "prunable now a ?db = rs" using prunable_delete [OF Cons.prems(1)] Cons.prems(2) by simp
    moreover from False Cons.prems(3)
    have "prune_loop m (sum_list (map infEstimatedBytes rs)) (k + 1) rs ?db = (db', k')" by simp
    ultimately obtain n where n: "k' = k + 1 + n" "n \<le> length rs" "prunable now a db' = drop n rs"
        "n < length rs \<longrightarrow> sum_list (map infEstimatedBytes (drop n rs)) \<le> m"
        "\<forall>j < n. m < sum_list (map infEstimatedBytes (drop j rs))"
      using Cons.IH [OF db_ok_delete [OF Cons.prems(1)]] by blast
    have "\<forall>j < Suc n. m < sum_list (map infEstimatedBytes (drop j (r # rs)))"
      using False n(5) by (auto simp: less_Suc_eq_0_disj)
    with n show ?thesis by (intro exI [of _ "Suc n"]) simp
  qed
qed (auto intro: exI [of _ 0])

text \<open>
  Pruning deletes the oldest finished archives, and no more of them than it must. The
  archives that may be pruned (finished, not pinned, not the active one) are afterwards the
  same list, oldest first, without its first \<open>k\<close> entries; either nothing is left of it or it
  fits the budget; and with one archive less deleted it would not have fitted.
\<close>

lemma pruning_deletes_oldest_first:
  assumes "reachable db" "prunePowerCaptureArchives now m a db = (db', k)"
  shows "k \<le> length (prunable now a db) \<and> prunable now a db' = drop k (prunable now a db) \<and>
    (k < length (prunable now a db) \<longrightarrow> sum_list (map infEstimatedBytes (prunable now a db')) \<le> m) \<and>
    (\<forall>j < k. m < sum_list (map infEstimatedBytes (drop j (prunable now a db))))"
  using prune_loop_drops [OF reachable_ok [OF assms(1)] refl, of m now a 0 db' k] assms(2)
  by (auto simp: prunePowerCaptureArchives_def Let_def)

definition test_done :: database where
  "test_done = put_archive (interrupted_record 2000 sample_capture ''unplugged'' False
     (normalizeArchiveRecord 0 (the (map_of (captureStore test_begun) ''x'')))) test_begun"

lemma reachable_test_done: "reachable test_done"
proof -
  from map_of_test_begun [of 0] obtain raw where "map_of (captureStore test_begun) ''x'' = Some raw" by blast
  moreover from reachable_ok [OF reachable_test_begun] this obtain q where "raw = stored q"
    unfolding db_ok_def by blast
  ultimately have "\<exists>w. interruptPowerCaptureArchive 2000 ''x'' sample_capture ''unplugged'' False test_begun =
      Inr (w, test_done)"
    by (simp add: interruptPowerCaptureArchive_def get_archive_def test_done_def Let_def)
  with reachable.interrupt [OF reachable_test_begun] show ?thesis by blast
qed

lemma pruning_deletes_oldest_first_witness:
  "\<exists>db' k. prunePowerCaptureArchives 5000 (- 1) None test_done = (db', k) \<and>
     length (prunable 5000 None test_done) = 1 \<and> prunable 5000 None db' = drop k (prunable 5000 None test_done)"
proof -
  obtain db' k where p: "prunePowerCaptureArchives 5000 (- 1) None test_done = (db', k)" by fastforce
  moreover have "length (prunable 5000 None test_done) = 1"
    by (simp add: prunable_def listPowerCaptureArchives_def archives_def test_done_def put_archive_def
        archiveInfo_def interrupted_record_def clearArchiveLease_def test_begun_def applyArchiveLease_def
        test_lease_def Let_def)
  ultimately show ?thesis using pruning_deletes_oldest_first [OF reachable_test_done p] by blast
qed

end
