(* ===== verification/Streaming_Capture.thy ===== *)
theory Streaming_Capture
  imports Capture_Store
begin

text \<open>
  Streaming power captures (\<open>streamingCaptureModel.ts\<close>, \<open>streamingCapturePersistence.ts\<close>,
  \<open>streamingCaptureFinalize.ts\<close>, \<open>powerCaptureStop.ts\<close> and the message handlers of
  \<open>hooks/useBoardCapture.ts\<close> and \<open>useBoardCaptureMessages.ts\<close>): samples arrive from the board,
  are numbered, summarised, thinned for the preview and cut into chunks; the chunks are written
  one after another by a chain of promises; a stop handshake, a failed write, a lost socket or a
  timer ends the recording, and what was written is sealed.

  The chain of promises is the list of the writes that have not run, together with the reason of
  the first one that failed: a failed link skips the writes behind it but not their handlers. A
  continuation after an \<open>await\<close> is a step of its own, so other events may come between. The
  numbers of a message are the integers the board sends.
\<close>

subsection \<open>Messages of errors\<close>

text \<open>The errors a write of the chain can throw; \<open>StorageInsufficient\<close> is thrown before a recording starts.\<close>

fun store_error_text :: "store_error \<Rightarrow> string" where
  "store_error_text ArchiveIdRequired = ''Power capture archive id is required''"
| "store_error_text (ArchiveDoesNotExist i) = ''Power capture archive '' @ i @ '' does not exist''"
| "store_error_text (ArchiveNotRecording i) = ''Power capture archive '' @ i @ '' is not recording''"
| "store_error_text (ArchiveOwnedByOther i) =
     ''Power capture archive '' @ i @ '' is owned by another browser session''"

definition storage_behind :: string where
  "storage_behind = ''Host storage is not keeping up with the capture stream; recording was stopped before browser memory could grow without limit''"

subsection \<open>The handshake that stops a capture\<close>

datatype handshake_state = StopPending | StopAcknowledged | StopFailed string

record PowerCaptureStopHandshake =
  hsRequestId :: string
  hsState :: handshake_state

definition createPowerCaptureStopHandshake :: "string \<Rightarrow> PowerCaptureStopHandshake" where
  "createPowerCaptureStopHandshake requestId = \<lparr>hsRequestId = requestId, hsState = StopPending\<rparr>"

definition acceptsTelemetry :: "PowerCaptureStopHandshake \<Rightarrow> bool" where
  "acceptsTelemetry h \<longleftrightarrow> hsState h = StopPending"

definition settle_stop :: "handshake_state \<Rightarrow> PowerCaptureStopHandshake \<Rightarrow> bool \<times> PowerCaptureStopHandshake" where
  "settle_stop next h = (if hsState h \<noteq> StopPending then (False, h) else (True, h\<lparr>hsState := next\<rparr>))"

definition acknowledge_stop :: "string \<Rightarrow> PowerCaptureStopHandshake \<Rightarrow> bool \<times> PowerCaptureStopHandshake" where
  "acknowledge_stop responseId h =
     (if responseId \<noteq> hsRequestId h then (False, h) else settle_stop StopAcknowledged h)"

definition fail_stop :: "string \<Rightarrow> PowerCaptureStopHandshake \<Rightarrow> bool \<times> PowerCaptureStopHandshake" where
  "fail_stop reason h = settle_stop (StopFailed reason) h"

definition stop_timeout :: "PowerCaptureStopHandshake \<Rightarrow> PowerCaptureStopHandshake" where
  "stop_timeout h =
     (if hsState h \<noteq> StopPending then h
      else h\<lparr>hsState := StopFailed ''Timed out waiting for the debugger to acknowledge capture_stop''\<rparr>)"

subsection \<open>Sessions\<close>

definition MAX_WEB_STREAMING_RATE_HZ :: rat where "MAX_WEB_STREAMING_RATE_HZ = 500"
definition POWER_ARCHIVE_CHUNK_SAMPLES :: nat where "POWER_ARCHIVE_CHUNK_SAMPLES = 200"
definition POWER_PREVIEW_MAX_SAMPLES :: nat where "POWER_PREVIEW_MAX_SAMPLES = 3000"
definition POWER_ARCHIVE_MAX_QUEUED_CHUNKS :: nat where "POWER_ARCHIVE_MAX_QUEUED_CHUNKS = 8"
definition POWER_CAPTURE_LEASE_RENEW_INTERVAL_MS :: int where
  "POWER_CAPTURE_LEASE_RENEW_INTERVAL_MS = 10000"
definition TELEMETRY_STREAM_BATCH_SIZE :: int where "TELEMETRY_STREAM_BATCH_SIZE = 20"

record StreamingCaptureConfig =
  cfgTrigger :: string
  cfgSource :: string
  cfgEdge :: string
  cfgThresholdUa :: rat
  cfgRateHz :: rat
  cfgPreSamples :: int
  cfgPostSamples :: int
  cfgStreaming :: bool
  cfgStopAfterMs :: "rat option"

text \<open>
  A write of the chain; a chunk written by a flush has no callback for its error. The deletion
  that a discarded recording leaves behind hangs on the chain as well.
\<close>

datatype write_job =
    BeginJob PowerCapture PowerCaptureArchiveLease
  | RenewJob
  | AppendJob nat "CaptureSample list" bool
  | DeleteJob

text \<open>Where the function behind \<open>finalizePromise\<close> stands.\<close>

datatype finalize_phase =
    NotFinalizing
  | AwaitStop
  | AwaitWrites
  | AwaitFinish PowerCapture
  | AwaitInterrupt PowerCapture string bool string
  | Finalized

record StreamingCaptureSession =
  ssConfig :: StreamingCaptureConfig
  ssArchiveId :: string
  ssOwnerId :: string
  ssCaptureId :: int
  ssCapturedAt :: int
  ssTriggerDeviceTimeUs :: rat
  ssTriggerSampleSequence :: int
  ssTriggerOffset :: int
  ssTriggered :: bool
  ssFinishing :: bool
  ssRequestedIncomplete :: bool
  ssInterruptionReason :: "string option"
  ssStopHandshake :: "PowerCaptureStopHandshake option"
  ssFinalize :: finalize_phase
  ssArchiveStarted :: bool
  ssPreBuffer :: "CaptureSample list"
  ssPendingChunk :: "CaptureSample list"
  ssPreview :: "CaptureSample list"
  ssPreviewStride :: int
  ssTotalSamples :: int
  ssDroppedSamples :: int
  ssLastStoredSequence :: int
  ssChunkIndex :: nat
  ssJobs :: "write_job list"
  ssChainError :: "string option"
  ssQueuedChunks :: nat
  ssPersistedSamples :: int
  ssPersistedBytes :: int
  ssLastPersistedSequence :: int
  ssWriteError :: "string option"
  ssAccumulator :: PowerCaptureAccumulator
  ssStopTimer :: bool
  ssLastProgressAt :: int
  ssLastLeaseRenewedAt :: int

definition createStreamingCaptureSession :: "StreamingCaptureConfig \<Rightarrow> string \<Rightarrow> string \<Rightarrow> StreamingCaptureSession" where
  "createStreamingCaptureSession config archiveId ownerId =
     \<lparr>ssConfig = config, ssArchiveId = archiveId, ssOwnerId = ownerId, ssCaptureId = 0, ssCapturedAt = 0,
      ssTriggerDeviceTimeUs = 0, ssTriggerSampleSequence = 0, ssTriggerOffset = -1, ssTriggered = False,
      ssFinishing = False, ssRequestedIncomplete = False, ssInterruptionReason = None,
      ssStopHandshake = None, ssFinalize = NotFinalizing, ssArchiveStarted = False, ssPreBuffer = [],
      ssPendingChunk = [], ssPreview = [], ssPreviewStride = 1, ssTotalSamples = 0, ssDroppedSamples = 0,
      ssLastStoredSequence = 0, ssChunkIndex = 0, ssJobs = [], ssChainError = None, ssQueuedChunks = 0,
      ssPersistedSamples = 0, ssPersistedBytes = 0, ssLastPersistedSequence = 0, ssWriteError = None,
      ssAccumulator = createPowerCaptureAccumulator, ssStopTimer = False, ssLastProgressAt = 0,
      ssLastLeaseRenewedAt = 0\<rparr>"

definition preview_trigger :: "CaptureSample list \<Rightarrow> int" where
  "preview_trigger preview = (case find_index smpTriggered preview of None \<Rightarrow> -1 | Some i \<Rightarrow> int i)"

definition streamingCaptureRecord ::
  "StreamingCaptureSession \<Rightarrow> bool \<Rightarrow> string option \<Rightarrow> PowerCapture" where
  "streamingCaptureRecord s incomplete interruptionReason =
     (let hasDroppedSamples = ssDroppedSamples s > 0
      in \<lparr>pcId = ssCaptureId s, pcTrigger = cfgTrigger (ssConfig s), pcSource = cfgSource (ssConfig s),
          pcEdge = cfgEdge (ssConfig s), pcThresholdUa = cfgThresholdUa (ssConfig s),
          pcRateHz = cfgRateHz (ssConfig s), pcPreSamples = ssTriggerOffset s,
          pcPostSamples = max 0 (ssTotalSamples s - ssTriggerOffset s - 1),
          pcTriggerOffset = preview_trigger (ssPreview s), pcSamples = ssPreview s,
          pcCapturedAt = ssCapturedAt s, pcArchiveId = Some (ssArchiveId s),
          pcSampleCount = Some (ssTotalSamples s), pcDroppedSamples = Some (ssDroppedSamples s),
          pcTriggerDeviceTimeUs = Some (ssTriggerDeviceTimeUs s),
          pcIncomplete = (incomplete \<or> hasDroppedSamples),
          pcInterruptionReason = (case interruptionReason of Some r \<Rightarrow> Some r
            | None \<Rightarrow> if hasDroppedSamples then Some (reason_text (DroppedSamples (ssDroppedSamples s))) else None),
          pcSummaries = Some (finalizePowerCaptureSummaries (ssAccumulator s))\<rparr>)"

definition streamingCaptureLease :: "StreamingCaptureSession \<Rightarrow> PowerCaptureArchiveLease" where
  "streamingCaptureLease s =
     \<lparr>leaseOwnerId = ssOwnerId s, leaseDurationMs = Some (js_int POWER_CAPTURE_LEASE_DURATION_MS),
      leaseDroppedSamples = Some (ssDroppedSamples s)\<rparr>"


subsection \<open>Accepting and queueing samples\<close>

definition queueStreamingLeaseRenewal :: "int \<Rightarrow> StreamingCaptureSession \<Rightarrow> StreamingCaptureSession" where
  "queueStreamingLeaseRenewal now s =
     (if \<not> ssArchiveStarted s \<or> ssFinishing s \<or> ssWriteError s \<noteq> None \<or>
         now - ssLastLeaseRenewedAt s < POWER_CAPTURE_LEASE_RENEW_INTERVAL_MS then s
      else s\<lparr>ssLastLeaseRenewedAt := now, ssJobs := ssJobs s @ [RenewJob]\<rparr>)"

definition queueStreamingChunk ::
  "CaptureSample list \<Rightarrow> nat \<Rightarrow> bool \<Rightarrow> StreamingCaptureSession \<Rightarrow> StreamingCaptureSession" where
  "queueStreamingChunk chunk index callback s =
     s\<lparr>ssQueuedChunks := ssQueuedChunks s + 1, ssJobs := ssJobs s @ [AppendJob index chunk callback]\<rparr>"

definition flushStreamingCaptureChunk :: "StreamingCaptureSession \<Rightarrow> StreamingCaptureSession" where
  "flushStreamingCaptureChunk s =
     (if ssWriteError s \<noteq> None \<or> ssPendingChunk s = [] then s
      else queueStreamingChunk (ssPendingChunk s) (ssChunkIndex s) False
        (s\<lparr>ssPendingChunk := [], ssChunkIndex := ssChunkIndex s + 1\<rparr>))"

text \<open>The loop over the incoming samples: old sequence numbers are skipped, the others numbered.\<close>

definition accept_sample ::
  "StreamingCaptureSession \<times> CaptureSample list \<Rightarrow> CaptureSample \<Rightarrow> StreamingCaptureSession \<times> CaptureSample list" where
  "accept_sample = (\<lambda>(s, normalized) sample.
     if smpSequence sample \<le> ssLastStoredSequence s then (s, normalized)
     else
       let offset = ssTotalSamples s;
           triggered = (ssTriggerOffset s < 0 \<and>
             (if ssTriggerSampleSequence s > 0 then smpSequence sample \<ge> ssTriggerSampleSequence s
              else smpTimeUs sample \<ge> ssTriggerDeviceTimeUs s))
       in (s\<lparr>ssTriggerOffset := (if triggered then offset else ssTriggerOffset s),
             ssLastStoredSequence := smpSequence sample, ssTotalSamples := ssTotalSamples s + 1\<rparr>,
           normalized @ [sample\<lparr>smpOffset := offset, smpTriggered := triggered\<rparr>]))"

text \<open>
  The loop that cuts full chunks off, and whether it stopped with the storage error.
\<close>

function queue_full_chunks :: "StreamingCaptureSession \<Rightarrow> StreamingCaptureSession \<times> string option" where
  "queue_full_chunks s =
     (if length (ssPendingChunk s) < POWER_ARCHIVE_CHUNK_SAMPLES then (s, None)
      else
        let chunk = take POWER_ARCHIVE_CHUNK_SAMPLES (ssPendingChunk s); index = ssChunkIndex s;
            s' = s\<lparr>ssPendingChunk := drop POWER_ARCHIVE_CHUNK_SAMPLES (ssPendingChunk s), ssChunkIndex := index + 1\<rparr>
        in if ssQueuedChunks s' \<ge> POWER_ARCHIVE_MAX_QUEUED_CHUNKS
           then (s'\<lparr>ssWriteError := Some storage_behind\<rparr>, Some storage_behind)
           else queue_full_chunks (queueStreamingChunk chunk index True s'))"
  by pat_completeness auto

termination
  by (relation "measure (\<lambda>s. length (ssPendingChunk s))")
    (simp_all add: queueStreamingChunk_def POWER_ARCHIVE_CHUNK_SAMPLES_def)

declare queue_full_chunks.simps [simp del]

text \<open>
  \<open>None\<close> when the loop of the preview does not end. The second component is the error given to
  \<open>onWriteError\<close>.
\<close>

definition queueStreamingSamples ::
  "CaptureSample list \<Rightarrow> StreamingCaptureSession \<Rightarrow> (StreamingCaptureSession \<times> string option) option" where
  "queueStreamingSamples incoming s =
     (if ssFinishing s \<or> ssWriteError s \<noteq> None then Some (s, None)
      else
        let (s', normalized) = foldl accept_sample (s, []) incoming
        in if normalized = [] then Some (s', None)
           else map_option (\<lambda>(preview, stride). queue_full_chunks
             (s'\<lparr>ssAccumulator := appendPowerCaptureSummary (ssAccumulator s') normalized,
                 ssPreview := preview, ssPreviewStride := stride,
                 ssPendingChunk := ssPendingChunk s' @ normalized\<rparr>))
               (appendPowerCapturePreview (ssPreview s') normalized (ssPreviewStride s') POWER_PREVIEW_MAX_SAMPLES))"

subsection \<open>Running the writes\<close>

text \<open>
  The next link of the chain runs: its write on the database, or, after an earlier failure,
  only its handler. \<open>fault\<close> is the browser's own error (quota, aborted transaction), with which
  the transaction has no effect. The last component is the error given to \<open>onWriteError\<close>.
\<close>

definition write_failed :: "string \<Rightarrow> bool \<Rightarrow> StreamingCaptureSession \<Rightarrow> StreamingCaptureSession \<times> string option" where
  "write_failed e callback s =
     (if ssWriteError s \<noteq> None then (s\<lparr>ssChainError := Some e\<rparr>, None)
      else (s\<lparr>ssChainError := Some e, ssWriteError := Some e\<rparr>, if callback then Some e else None))"

definition job_result ::
  "string option \<Rightarrow> (store_error + 'a) \<Rightarrow> string + 'a" where
  "job_result fault r = (case fault of Some e \<Rightarrow> Inl e
     | None \<Rightarrow> (case r of Inl e \<Rightarrow> Inl (store_error_text e) | Inr a \<Rightarrow> Inr a))"

definition run_begin ::
  "int \<Rightarrow> string option \<Rightarrow> PowerCapture \<Rightarrow> PowerCaptureArchiveLease \<Rightarrow> StreamingCaptureSession \<Rightarrow> database \<Rightarrow>
    StreamingCaptureSession \<times> database \<times> string option" where
  "run_begin now fault capture lease s db =
     (case job_result fault (beginPowerCaptureArchive now capture (Some lease) db) of
        Inl e \<Rightarrow> (s\<lparr>ssChainError := Some e\<rparr>, db, None)
      | Inr db' \<Rightarrow> (s, db', None))"

definition run_renew ::
  "int \<Rightarrow> string option \<Rightarrow> StreamingCaptureSession \<Rightarrow> database \<Rightarrow> StreamingCaptureSession \<times> database \<times> string option" where
  "run_renew now fault s db =
     (case (case ssChainError s of Some e \<Rightarrow> Inl e
          | None \<Rightarrow> job_result fault (renewPowerCaptureArchiveLease now (ssArchiveId s) (streamingCaptureLease s) db)) of
        Inl e \<Rightarrow> (case write_failed e True s of (s', cb) \<Rightarrow> (s', db, cb))
      | Inr db' \<Rightarrow> (s, db', None))"

definition run_append ::
  "int \<Rightarrow> string option \<Rightarrow> nat \<Rightarrow> CaptureSample list \<Rightarrow> bool \<Rightarrow> StreamingCaptureSession \<Rightarrow> database \<Rightarrow>
    StreamingCaptureSession \<times> database \<times> string option" where
  "run_append now fault index chunk callback s db =
     (let s' = s\<lparr>ssQueuedChunks := ssQueuedChunks s - 1\<rparr>
      in case (case ssChainError s of Some e \<Rightarrow> Inl e
          | None \<Rightarrow> job_result fault
              (appendPowerCaptureChunk now (ssArchiveId s) index chunk (Some (streamingCaptureLease s)) db)) of
           Inl e \<Rightarrow> (case write_failed e callback s' of (s'', cb) \<Rightarrow> (s'', db, cb))
         | Inr (w, db') \<Rightarrow> (s'\<lparr>ssPersistedSamples := wrPersistedSamples w, ssPersistedBytes := wrEstimatedBytes w,
                             ssLastPersistedSequence := wrLastSequence w\<rparr>, db', None))"

definition run_write ::
  "int \<Rightarrow> string option \<Rightarrow> StreamingCaptureSession \<Rightarrow> database \<Rightarrow> StreamingCaptureSession \<times> database \<times> string option" where
  "run_write now fault s db =
     (case ssJobs s of [] \<Rightarrow> (s, db, None)
      | job # jobs \<Rightarrow>
          let s' = s\<lparr>ssJobs := jobs\<rparr>
          in case job of
               BeginJob capture lease \<Rightarrow> run_begin now fault capture lease s' db
             | RenewJob \<Rightarrow> run_renew now fault s' db
             | AppendJob index chunk callback \<Rightarrow> run_append now fault index chunk callback s' db
             | DeleteJob \<Rightarrow>
                 (s', if ssChainError s = None \<and> fault = None then deletePowerCaptureArchive (ssArchiveId s) db else db, None))"


subsection \<open>The recorder\<close>

datatype BoardCaptureState = CaptureIdle | CaptureConnecting | CaptureArmed | CaptureRecording | CaptureReceiving

record BoardCaptureProgress =
  bcReceived :: int
  bcTotal :: int
  bcPersisted :: int
  bcQueuedChunks :: nat
  bcDropped :: int

record LiveSubscribeMessage =
  lsRateHz :: int
  lsBatchSize :: int

definition liveSubscribeMessage :: "rat \<Rightarrow> rat \<Rightarrow> LiveSubscribeMessage" where
  "liveSubscribeMessage rateHz batchSize =
     \<lparr>lsRateHz = max 1 (min 1000 (round_half_up rateHz)),
      lsBatchSize = max 1 (min TELEMETRY_STREAM_BATCH_SIZE (round_half_up batchSize))\<rparr>"

definition defaultLiveSubscribeMessage :: LiveSubscribeMessage where
  "defaultLiveSubscribeMessage = liveSubscribeMessage 60 1"

record PowerCaptureArmMessage =
  armTrigger :: string
  armOutput :: string
  armGpio :: string
  armEdge :: string
  armThresholdUa :: rat
  armRateHz :: rat
  armPreSamples :: int
  armPostSamples :: int

definition powerCaptureArmMessage :: "StreamingCaptureConfig \<Rightarrow> PowerCaptureArmMessage" where
  "powerCaptureArmMessage config =
     \<lparr>armTrigger = cfgTrigger config,
      armOutput = (if cfgTrigger config = ''gpio'' then [] else cfgSource config),
      armGpio = (if cfgTrigger config = ''gpio'' then cfgSource config else []),
      armEdge = cfgEdge config, armThresholdUa = cfgThresholdUa config, armRateHz = cfgRateHz config,
      armPreSamples = 0, armPostSamples = 1\<rparr>"

datatype board_message =
    Subscribe LiveSubscribeMessage
  | ArmCapture PowerCaptureArmMessage
  | StopCapture string
  | CancelCapture

text \<open>What the user interface, the promise of \<open>armCapture\<close> and the board are told, in order.\<close>

datatype recorder_output =
    SetState BoardCaptureState
  | SetProgress "BoardCaptureProgress option"
  | SetError "string option"
  | CaptureDone PowerCapture
  | Sent board_message
  | ArmResolved
  | ArmRejected string

text \<open>
  One recording: its session, whether \<open>streamingCaptureRef\<close> still refers to it, the database it
  shares with other sessions, the socket (\<open>rcSendError\<close> is what \<open>send\<close> throws), and whether the
  promise of \<open>armCapture\<close> is open.
\<close>

record recorder =
  rcSession :: StreamingCaptureSession
  rcAttached :: bool
  rcDb :: database
  rcSocketOpen :: bool
  rcSendError :: "string option"
  rcArming :: bool
  rcLog :: "recorder_output list"

definition say :: "recorder_output list \<Rightarrow> recorder \<Rightarrow> recorder" where
  "say out r = r\<lparr>rcLog := rcLog r @ out\<rparr>"

definition with_session :: "(StreamingCaptureSession \<Rightarrow> StreamingCaptureSession) \<Rightarrow> recorder \<Rightarrow> recorder" where
  "with_session f r = r\<lparr>rcSession := f (rcSession r)\<rparr>"

definition send_if_open :: "board_message \<Rightarrow> recorder \<Rightarrow> recorder" where
  "send_if_open m r = (if rcSocketOpen r then say [Sent m] r else r)"

text \<open>What \<open>armCapture\<close> checks before a streaming capture; the plan of the storage is checked after that.\<close>

definition arm_check :: "string option \<Rightarrow> StreamingCaptureConfig \<Rightarrow> string + unit" where
  "arm_check protocol config =
     (if \<not> cfgStreaming config then Inr ()
      else guardR (protocol = Some ''host-stream-v1'')
        (''Power capture requires firmware protocol host-stream-v1; the debugger reported '' @
          or_default protocol ''not reported'')
       (guardR (cfgRateHz config \<le> MAX_WEB_STREAMING_RATE_HZ)
        ''Continuous Web recording is limited to 500 Hz to keep USB telemetry and the control API responsive''
       (guardR (cfgPreSamples config \<le> MAX_POWER_CAPTURE_PRE_TRIGGER_SAMPLES)
        ''Pre-trigger history is limited to 60000 samples to protect browser memory''
        (Inr ()))))"

text \<open>The recorder after a checked \<open>armCapture\<close> of a streaming capture.\<close>

definition arm_recorder :: "StreamingCaptureConfig \<Rightarrow> string \<Rightarrow> string \<Rightarrow> database \<Rightarrow> bool \<Rightarrow> recorder" where
  "arm_recorder config archiveId ownerId db open_socket =
     \<lparr>rcSession = createStreamingCaptureSession config archiveId ownerId, rcAttached = True, rcDb = db,
      rcSocketOpen = open_socket, rcSendError = None, rcArming = True,
      rcLog = [SetProgress None, SetState CaptureConnecting, SetError None] @
        (if open_socket then [Sent (Subscribe (liveSubscribeMessage (cfgRateHz config) (of_int TELEMETRY_STREAM_BATCH_SIZE))),
           Sent (ArmCapture (powerCaptureArmMessage config))] else [])\<rparr>"

subsection \<open>Discarding and finalizing\<close>

definition fail_handshake :: "string \<Rightarrow> StreamingCaptureSession \<Rightarrow> StreamingCaptureSession" where
  "fail_handshake reason s = s\<lparr>ssStopHandshake := map_option (\<lambda>h. snd (fail_stop reason h)) (ssStopHandshake s)\<rparr>"

definition discardStreamingCaptureArchive :: "recorder \<Rightarrow> recorder" where
  "discardStreamingCaptureArchive r =
     (if \<not> rcAttached r then r
      else send_if_open (Subscribe defaultLiveSubscribeMessage)
        (r\<lparr>rcAttached := False,
           rcSession := (let s = fail_handshake ''Power capture was discarded'' (rcSession r\<lparr>ssFinishing := True\<rparr>)
             in s\<lparr>ssStopTimer := False,
                  ssJobs := ssJobs s @ (if ssArchiveStarted s then [DeleteJob] else [])\<rparr>)\<rparr>))"

definition request_incomplete :: "string option \<Rightarrow> StreamingCaptureSession \<Rightarrow> StreamingCaptureSession" where
  "request_incomplete reason s =
     s\<lparr>ssRequestedIncomplete := True,
       ssInterruptionReason := (case ssInterruptionReason s of Some r \<Rightarrow> Some r | None \<Rightarrow> reason)\<rparr>"

text \<open>The acknowledgement closes the capture: telemetry is ignored from here and the tail is flushed.\<close>

definition seal_capture :: "StreamingCaptureSession \<Rightarrow> StreamingCaptureSession" where
  "seal_capture s = (flushStreamingCaptureChunk (s\<lparr>ssFinishing := True\<rparr>))\<lparr>ssFinalize := AwaitWrites\<rparr>"

definition start_finalize :: "recorder \<Rightarrow> recorder" where
  "start_finalize r =
     (let r1 = say [SetState CaptureReceiving] (with_session (\<lambda>s. s\<lparr>ssStopTimer := False\<rparr>) r);
          h = createPowerCaptureStopHandshake (''web-stop-'' @ string_of_int (ssCaptureId (rcSession r)))
      in if rcSocketOpen r
         then let r2 = with_session (\<lambda>s. s\<lparr>ssStopHandshake := Some h, ssFinalize := AwaitStop\<rparr>) r1
              in case rcSendError r of
                   None \<Rightarrow> say [Sent (StopCapture (hsRequestId h))] r2
                 | Some e \<Rightarrow> with_session (fail_handshake e) r2
         else with_session (seal_capture \<circ>
           request_incomplete (Some ''Live WebSocket disconnected before capture_stop was acknowledged'')) r1)"

definition finalizeStreamingCaptureArchive :: "bool \<Rightarrow> string option \<Rightarrow> recorder \<Rightarrow> recorder" where
  "finalizeStreamingCaptureArchive incomplete reason r =
     (if \<not> rcAttached r \<or> \<not> ssTriggered (rcSession r) then r
      else
        let r' = (if incomplete
              then with_session (fail_handshake (or_default reason ''Power capture was interrupted while stopping'') \<circ>
                request_incomplete reason) r
              else r)
        in if ssFinalize (rcSession r') \<noteq> NotFinalizing then r' else start_finalize r')"

text \<open>The continuation after the handshake.\<close>

definition resume_stop :: "StreamingCaptureSession \<Rightarrow> StreamingCaptureSession" where
  "resume_stop s =
     (case ssStopHandshake s of
        None \<Rightarrow> s
      | Some h \<Rightarrow> (case hsState h of
          StopPending \<Rightarrow> s
        | StopAcknowledged \<Rightarrow> seal_capture s
        | StopFailed reason \<Rightarrow> seal_capture (request_incomplete (Some reason) s)))"

definition interrupt_capture :: "string \<Rightarrow> StreamingCaptureSession \<Rightarrow> StreamingCaptureSession" where
  "interrupt_capture message s =
     (let reason = or_default (ssInterruptionReason s) message;
          partial = streamingCaptureRecord s True (Some reason)
      in s\<lparr>ssFinalize := AwaitInterrupt
            (partial\<lparr>pcSampleCount := Some (ssPersistedSamples s),
               pcSamples := filter (\<lambda>sample. smpSequence sample \<le> ssLastPersistedSequence s) (pcSamples partial)\<rparr>)
            reason (ssWriteError s \<noteq> None) message\<rparr>)"

text \<open>The continuation after the last write.\<close>

definition resume_writes :: "StreamingCaptureSession \<Rightarrow> StreamingCaptureSession" where
  "resume_writes s =
     (if ssJobs s \<noteq> [] then s
      else case (case ssChainError s of Some e \<Rightarrow> Some e | None \<Rightarrow> ssWriteError s) of
          Some e \<Rightarrow> interrupt_capture e s
        | None \<Rightarrow> s\<lparr>ssFinalize := AwaitFinish
            (streamingCaptureRecord s (ssRequestedIncomplete s) (ssInterruptionReason s))\<rparr>)"

definition finally_done :: "recorder \<Rightarrow> recorder" where
  "finally_done r =
     send_if_open (Subscribe defaultLiveSubscribeMessage)
       (say [SetProgress None, SetState CaptureIdle]
         (with_session (\<lambda>s. s\<lparr>ssFinalize := Finalized\<rparr>) (r\<lparr>rcAttached := False\<rparr>)))"

definition resume_finish :: "int \<Rightarrow> string option \<Rightarrow> PowerCapture \<Rightarrow> recorder \<Rightarrow> recorder" where
  "resume_finish now fault completed r =
     (case job_result fault (finishPowerCaptureArchive now completed (int (ssChunkIndex (rcSession r))) (rcDb r)) of
        Inl e \<Rightarrow> with_session (interrupt_capture e) r
      | Inr (archived, db') \<Rightarrow>
          finally_done (say (CaptureDone (infCapture archived) #
            (case ssInterruptionReason (rcSession r) of
               Some reason \<Rightarrow> if reason = [] then [] else [SetError (Some reason)] | None \<Rightarrow> []))
            (r\<lparr>rcDb := db'\<rparr>)))"

definition resume_interrupt ::
  "int \<Rightarrow> string option \<Rightarrow> PowerCapture \<Rightarrow> string \<Rightarrow> bool \<Rightarrow> string \<Rightarrow> recorder \<Rightarrow> recorder" where
  "resume_interrupt now fault partial reason isFailed message r =
     finally_done (say [SetError (Some message)]
       (case job_result fault
            (interruptPowerCaptureArchive now (ssArchiveId (rcSession r)) partial reason isFailed (rcDb r)) of
          Inl _ \<Rightarrow> r
        | Inr (archived, db') \<Rightarrow> say [CaptureDone (infCapture archived)] (r\<lparr>rcDb := db'\<rparr>)))"

definition resume_finalize :: "int \<Rightarrow> string option \<Rightarrow> recorder \<Rightarrow> recorder" where
  "resume_finalize now fault r =
     (case ssFinalize (rcSession r) of
        AwaitStop \<Rightarrow> with_session resume_stop r
      | AwaitWrites \<Rightarrow> with_session resume_writes r
      | AwaitFinish completed \<Rightarrow> resume_finish now fault completed r
      | AwaitInterrupt partial reason isFailed message \<Rightarrow> resume_interrupt now fault partial reason isFailed message r
      | _ \<Rightarrow> r)"


subsection \<open>Messages of the board and calls of the user interface\<close>

definition stop_for_storage_error :: "string option \<Rightarrow> recorder \<Rightarrow> recorder" where
  "stop_for_storage_error e r =
     (case e of None \<Rightarrow> r
      | Some message \<Rightarrow> finalizeStreamingCaptureArchive True (Some message) (say [SetError (Some message)] r))"

definition resetCapture :: "string option \<Rightarrow> recorder \<Rightarrow> recorder" where
  "resetCapture reason r =
     (let r1 = (if rcArming r
            then say [ArmRejected (or_default reason ''Power capture arming was cancelled'')] (r\<lparr>rcArming := False\<rparr>)
            else r)
      in say [SetProgress None, SetState CaptureIdle] (discardStreamingCaptureArchive r1))"

definition keep_pre_buffer :: "StreamingCaptureConfig \<Rightarrow> CaptureSample list \<Rightarrow> CaptureSample list" where
  "keep_pre_buffer config buffer =
     (let keep = max (cfgPreSamples config + TELEMETRY_STREAM_BATCH_SIZE * 2) (TELEMETRY_STREAM_BATCH_SIZE * 2)
      in drop (length buffer - nat keep) buffer)"

definition capture_progress :: "StreamingCaptureSession \<Rightarrow> BoardCaptureProgress" where
  "capture_progress s =
     \<lparr>bcReceived = ssTotalSamples s,
      bcTotal = (case cfgStopAfterMs (ssConfig s) of
          None \<Rightarrow> 0
        | Some ms \<Rightarrow> if ms = 0 then 0
            else ssTriggerOffset s + 1 + round_half_up (ms * cfgRateHz (ssConfig s) / 1000)),
      bcPersisted = ssPersistedSamples s, bcQueuedChunks = ssQueuedChunks s, bcDropped = ssDroppedSamples s\<rparr>"

definition report_progress :: "int \<Rightarrow> recorder \<Rightarrow> recorder" where
  "report_progress now r =
     (if now - ssLastProgressAt (rcSession r) \<ge> 250
      then say [SetProgress (Some (capture_progress (rcSession r)))]
        (with_session (\<lambda>s. s\<lparr>ssLastProgressAt := now\<rparr>) r)
      else r)"

text \<open>A handler that queues samples; \<open>None\<close> when the preview loop hangs.\<close>

definition with_samples :: "CaptureSample list \<Rightarrow> recorder \<Rightarrow> recorder option" where
  "with_samples samples r =
     map_option (\<lambda>(s, e). stop_for_storage_error e (r\<lparr>rcSession := s\<rparr>)) (queueStreamingSamples samples (rcSession r))"

definition accepts_telemetry :: "recorder \<Rightarrow> bool" where
  "accepts_telemetry r \<longleftrightarrow> rcAttached r \<and> \<not> ssFinishing (rcSession r) \<and>
     (case ssStopHandshake (rcSession r) of None \<Rightarrow> True | Some h \<Rightarrow> acceptsTelemetry h)"

definition on_telemetry :: "int \<Rightarrow> int \<Rightarrow> CaptureSample list \<Rightarrow> recorder \<Rightarrow> recorder option" where
  "on_telemetry now dropped samples r =
     (if \<not> accepts_telemetry r then Some r
      else
        let r1 = with_session (\<lambda>s. queueStreamingLeaseRenewal now
              (s\<lparr>ssDroppedSamples := ssDroppedSamples s + max 0 dropped\<rparr>)) r
        in if \<not> ssTriggered (rcSession r1)
           then Some (with_session (\<lambda>s. s\<lparr>ssPreBuffer := keep_pre_buffer (ssConfig s) (ssPreBuffer s @ samples)\<rparr>) r1)
           else map_option (report_progress now) (with_samples samples r1))"

text \<open>\<open>xs.slice(-n)\<close>; for \<open>n = 0\<close> that is \<open>xs.slice(-0)\<close>, the whole array.\<close>

definition slice_last :: "int \<Rightarrow> 'a list \<Rightarrow> 'a list" where
  "slice_last n xs = (if n \<le> 0 then drop (nat (- n)) xs else drop (length xs - nat n) xs)"

definition at_or_after_trigger :: "StreamingCaptureSession \<Rightarrow> CaptureSample \<Rightarrow> bool" where
  "at_or_after_trigger s sample \<longleftrightarrow>
     (if ssTriggerSampleSequence s > 0 then smpSequence sample \<ge> ssTriggerSampleSequence s
      else smpTimeUs sample \<ge> ssTriggerDeviceTimeUs s)"

text \<open>The samples that open the recording: the wanted history and what arrived since the trigger.\<close>

definition opening_samples :: "StreamingCaptureSession \<Rightarrow> CaptureSample list" where
  "opening_samples s =
     slice_last (cfgPreSamples (ssConfig s)) (filter (\<lambda>sample. \<not> at_or_after_trigger s sample) (ssPreBuffer s)) @
     filter (at_or_after_trigger s) (ssPreBuffer s)"

definition mark_triggered ::
  "int \<Rightarrow> int \<Rightarrow> rat \<Rightarrow> int \<Rightarrow> int \<Rightarrow> StreamingCaptureSession \<Rightarrow> StreamingCaptureSession" where
  "mark_triggered now captureId deviceTimeUs sampleSequence dropped s =
     s\<lparr>ssCaptureId := captureId, ssCapturedAt := now, ssTriggerDeviceTimeUs := deviceTimeUs,
       ssTriggerSampleSequence := sampleSequence,
       ssDroppedSamples := max (ssDroppedSamples s) (max 0 dropped), ssTriggered := True, ssArchiveStarted := True\<rparr>"

definition begin_archive :: "int \<Rightarrow> StreamingCaptureSession \<Rightarrow> StreamingCaptureSession" where
  "begin_archive now s =
     s\<lparr>ssPreBuffer := [], ssLastLeaseRenewedAt := now,
       ssJobs := [BeginJob (streamingCaptureRecord s False None) (streamingCaptureLease s)]\<rparr>"

definition start_stop_timer :: "recorder \<Rightarrow> recorder" where
  "start_stop_timer = with_session (\<lambda>s. case cfgStopAfterMs (ssConfig s) of
     Some ms \<Rightarrow> if ms > 0 then s\<lparr>ssStopTimer := True\<rparr> else s | None \<Rightarrow> s)"

definition on_triggered :: "int \<Rightarrow> int \<Rightarrow> rat \<Rightarrow> int \<Rightarrow> int \<Rightarrow> recorder \<Rightarrow> recorder option" where
  "on_triggered now captureId deviceTimeUs sampleSequence dropped r =
     (if \<not> rcAttached r then Some (say [SetState CaptureRecording] r)
      else
        let marked = mark_triggered now captureId deviceTimeUs sampleSequence dropped (rcSession r)
        in map_option (\<lambda>r'. start_stop_timer (say [SetState CaptureRecording,
             SetProgress (Some (capture_progress (rcSession r')))] r'))
           (with_samples (opening_samples marked) (r\<lparr>rcSession := begin_archive now marked\<rparr>)))"

definition on_armed :: "recorder \<Rightarrow> recorder" where
  "on_armed r = say (SetState CaptureArmed # (if rcArming r then [ArmResolved] else [])) (r\<lparr>rcArming := False\<rparr>)"

definition on_stop_result :: "string \<Rightarrow> recorder \<Rightarrow> recorder" where
  "on_stop_result responseId r =
     (if \<not> rcAttached r then r
      else case ssStopHandshake (rcSession r) of
          None \<Rightarrow> r
        | Some h \<Rightarrow> (case acknowledge_stop responseId h of (acknowledged, h') \<Rightarrow>
            say (if acknowledged then [SetState CaptureReceiving] else [])
              (with_session (\<lambda>s. s\<lparr>ssStopHandshake := Some h'\<rparr>) r)))"

definition on_stop_error :: "string \<Rightarrow> recorder \<Rightarrow> recorder" where
  "on_stop_error message r =
     (if \<not> rcAttached r then r else say [SetError (Some message)] (with_session (fail_handshake message) r))"

definition on_capture_error :: "string \<Rightarrow> recorder \<Rightarrow> recorder" where
  "on_capture_error message r = say [SetError (Some message)] (resetCapture (Some message) r)"

definition stopCapture :: "recorder \<Rightarrow> recorder" where
  "stopCapture r =
     (if rcAttached r \<and> ssTriggered (rcSession r) then finalizeStreamingCaptureArchive False None r
      else send_if_open (StopCapture ''web-stop'') r)"

definition cancelCapture :: "recorder \<Rightarrow> recorder" where
  "cancelCapture r =
     resetCapture (Some ''Power capture was cancelled'')
       (if rcAttached r then send_if_open CancelCapture r else r)"

definition handleSocketFailure :: "string \<Rightarrow> recorder \<Rightarrow> recorder" where
  "handleSocketFailure message r =
     (if rcAttached r \<and> ssTriggered (rcSession r)
      then finalizeStreamingCaptureArchive True (Some message) r else resetCapture (Some message) r)"

definition handleSessionCleanup :: "recorder \<Rightarrow> recorder" where
  "handleSessionCleanup r =
     (if rcAttached r \<and> ssTriggered (rcSession r)
      then finalizeStreamingCaptureArchive True (Some ''Live session ended before the recording stopped'') r
      else if rcAttached r \<and> ssFinishing (rcSession r) then r
      else resetCapture None r)"

definition run_next_write :: "int \<Rightarrow> string option \<Rightarrow> recorder \<Rightarrow> recorder" where
  "run_next_write now fault r =
     (case run_write now fault (rcSession r) (rcDb r) of
        (s, db, e) \<Rightarrow> stop_for_storage_error e (r\<lparr>rcSession := s, rcDb := db\<rparr>))"

text \<open>A database whose records say the truth about their chunks.\<close>

definition sound_db :: "database \<Rightarrow> bool" where
  "sound_db db \<longleftrightarrow> key_ordered (captureStore db) \<and> key_ordered (chunkStore db) \<and>
     list_all (\<lambda>(i, raw). let r = normalizeArchiveRecord 0 raw
       in raw = stored r \<and> arcArchiveId r = i \<and> record_ok (chunks_of i (chunkStore db)) r) (captureStore db)"

lemma sound_db_ok: "sound_db db \<Longrightarrow> db_ok db"
  unfolding sound_db_def db_ok_def Let_def by (auto simp: list_all_iff dest!: map_of_SomeD)

datatype recorder_event =
    Telemetry int int "CaptureSample list"
  | Triggered int int rat int int
  | Armed
  | StopResult string
  | StopError string
  | CaptureError string
  | StopTimer
  | StopTimeout
  | UserStop
  | UserCancel
  | SocketFails string
  | SessionEnds
  | SocketChanges bool "string option"
  | RunWrite int "string option"
  | ResumeFinalize int "string option"
  | OtherSession database

text \<open>
  The board reports the trigger of an armed capture once, and what other sessions do to the
  database leaves this archive, which carries a fresh id and a running lease, as it is.
\<close>

fun recorder_event_step :: "recorder \<Rightarrow> recorder_event \<Rightarrow> recorder option" where
  "recorder_event_step r (Telemetry now dropped samples) = on_telemetry now dropped samples r"
| "recorder_event_step r (Triggered now captureId t n dropped) =
     (if ssTriggered (rcSession r) then Some r else on_triggered now captureId t n dropped r)"
| "recorder_event_step r Armed = Some (on_armed r)"
| "recorder_event_step r (StopResult i) = Some (on_stop_result i r)"
| "recorder_event_step r (StopError m) = Some (on_stop_error m r)"
| "recorder_event_step r (CaptureError m) = Some (on_capture_error m r)"
| "recorder_event_step r StopTimer =
     Some (if ssStopTimer (rcSession r) then finalizeStreamingCaptureArchive False None r else r)"
| "recorder_event_step r StopTimeout =
     Some (with_session (\<lambda>s. s\<lparr>ssStopHandshake := map_option stop_timeout (ssStopHandshake s)\<rparr>) r)"
| "recorder_event_step r UserStop = Some (stopCapture r)"
| "recorder_event_step r UserCancel = Some (cancelCapture r)"
| "recorder_event_step r (SocketFails m) = Some (handleSocketFailure m r)"
| "recorder_event_step r SessionEnds = Some (handleSessionCleanup r)"
| "recorder_event_step r (SocketChanges open_socket e) = Some (r\<lparr>rcSocketOpen := open_socket, rcSendError := e\<rparr>)"
| "recorder_event_step r (RunWrite now fault) = Some (run_next_write now fault r)"
| "recorder_event_step r (ResumeFinalize now fault) = Some (resume_finalize now fault r)"
| "recorder_event_step r (OtherSession db) =
     Some (if sound_db db \<and> untouched (ssArchiveId (rcSession r)) (rcDb r) db then r\<lparr>rcDb := db\<rparr> else r)"

definition recorder_step :: "recorder option \<Rightarrow> recorder_event \<Rightarrow> recorder option" where
  "recorder_step r e = Option.bind r (\<lambda>r. recorder_event_step r e)"


subsection \<open>What a session has accepted\<close>

text \<open>
  \<open>acc\<close> is the recording so far: numbered from 0, in strictly rising sequence, with the trigger
  marked once, at the trigger offset.
\<close>

definition recorded :: "StreamingCaptureSession \<Rightarrow> CaptureSample list \<Rightarrow> bool" where
  "recorded s acc \<longleftrightarrow>
     map smpOffset acc = map int [0..<length acc] \<and> ssTotalSamples s = int (length acc) \<and>
     sorted_wrt (<) (map smpSequence acc) \<and> (\<forall>x \<in> set acc. smpSequence x \<le> ssLastStoredSequence s) \<and>
     map smpTriggered acc = map (\<lambda>k. int k = ssTriggerOffset s) [0..<length acc] \<and>
     - 1 \<le> ssTriggerOffset s \<and> ssTriggerOffset s < ssTotalSamples s"

lemma recorded_simps [simp]:
  "recorded (s\<lparr>ssFinishing := b\<rparr>) = recorded s" "recorded (s\<lparr>ssFinalize := p\<rparr>) = recorded s"
  "recorded (s\<lparr>ssPendingChunk := c\<rparr>) = recorded s" "recorded (s\<lparr>ssChunkIndex := n\<rparr>) = recorded s"
  "recorded (s\<lparr>ssJobs := js\<rparr>) = recorded s" "recorded (s\<lparr>ssQueuedChunks := n\<rparr>) = recorded s"
  "recorded (s\<lparr>ssWriteError := e\<rparr>) = recorded s" "recorded (s\<lparr>ssChainError := e\<rparr>) = recorded s"
  "recorded (s\<lparr>ssPreview := c\<rparr>) = recorded s" "recorded (s\<lparr>ssPreviewStride := i\<rparr>) = recorded s"
  "recorded (s\<lparr>ssAccumulator := a\<rparr>) = recorded s" "recorded (s\<lparr>ssLastLeaseRenewedAt := i\<rparr>) = recorded s"
  "recorded (s\<lparr>ssPersistedSamples := i\<rparr>) = recorded s" "recorded (s\<lparr>ssPersistedBytes := i\<rparr>) = recorded s"
  "recorded (s\<lparr>ssLastPersistedSequence := i\<rparr>) = recorded s"
  by (simp_all add: recorded_def fun_eq_iff)

text \<open>The parts of a session that accepting samples does not change.\<close>

definition same_but_counters :: "StreamingCaptureSession \<Rightarrow> StreamingCaptureSession \<Rightarrow> bool" where
  "same_but_counters s s' \<longleftrightarrow>
     s'\<lparr>ssTriggerOffset := 0, ssLastStoredSequence := 0, ssTotalSamples := 0\<rparr> =
     s\<lparr>ssTriggerOffset := 0, ssLastStoredSequence := 0, ssTotalSamples := 0\<rparr>"

lemma same_but_counters_fields:
  assumes "same_but_counters s s'"
  shows
    "ssConfig s' = ssConfig s" "ssArchiveId s' = ssArchiveId s" "ssOwnerId s' = ssOwnerId s"
    "ssCaptureId s' = ssCaptureId s" "ssCapturedAt s' = ssCapturedAt s" "ssTriggerDeviceTimeUs s' =
    ssTriggerDeviceTimeUs s" "ssTriggerSampleSequence s' = ssTriggerSampleSequence s" "ssTriggered s' =
    ssTriggered s" "ssFinishing s' = ssFinishing s" "ssRequestedIncomplete s' = ssRequestedIncomplete s"
    "ssInterruptionReason s' = ssInterruptionReason s" "ssStopHandshake s' = ssStopHandshake s"
    "ssFinalize s' = ssFinalize s" "ssArchiveStarted s' = ssArchiveStarted s" "ssPreBuffer s' =
    ssPreBuffer s" "ssPendingChunk s' = ssPendingChunk s" "ssPreview s' = ssPreview s" "ssPreviewStride
    s' = ssPreviewStride s" "ssDroppedSamples s' = ssDroppedSamples s" "ssChunkIndex s' = ssChunkIndex
    s" "ssJobs s' = ssJobs s" "ssChainError s' = ssChainError s" "ssQueuedChunks s' = ssQueuedChunks s"
    "ssWriteError s' = ssWriteError s" "ssAccumulator s' = ssAccumulator s"
  using assms by (cases s; cases s'; simp add: same_but_counters_def)+

lemma accept_sample_recorded:
  assumes "recorded s acc" "accept_sample (s, normalized) sample = (s', normalized')"
  shows "\<exists>new. normalized' = normalized @ new \<and> recorded s' (acc @ new) \<and> same_but_counters s s'"
proof (cases "smpSequence sample \<le> ssLastStoredSequence s")
  case True
  with assms show ?thesis by (intro exI [of _ "[]"]) (simp add: accept_sample_def same_but_counters_def)
next
  case False
  define t where "t \<longleftrightarrow> ssTriggerOffset s < 0 \<and>
    (if ssTriggerSampleSequence s > 0 then smpSequence sample \<ge> ssTriggerSampleSequence s
     else smpTimeUs sample \<ge> ssTriggerDeviceTimeUs s)"
  define off where "off = (if t then ssTotalSamples s else ssTriggerOffset s)"
  define x where "x = sample\<lparr>smpOffset := ssTotalSamples s, smpTriggered := t\<rparr>"
  from assms(2) False have s': "normalized' = normalized @ [x]"
      "s' = s\<lparr>ssTriggerOffset := off, ssLastStoredSequence := smpSequence sample, ssTotalSamples := ssTotalSamples s + 1\<rparr>"
    by (simp_all add: accept_sample_def Let_def x_def off_def t_def)
  have x: "smpOffset x = int (length acc)" "smpTriggered x = t" "smpSequence x = smpSequence sample"
    using assms(1) by (simp_all add: x_def recorded_def)
  have "t \<Longrightarrow> ssTriggerOffset s < 0" by (simp add: t_def)
  with assms(1) have off: "map (\<lambda>k. int k = ssTriggerOffset s) [0..<length acc] = map (\<lambda>k. int k = off) [0..<length acc]"
    "t \<longleftrightarrow> int (length acc) = off" "-1 \<le> off" "off \<le> ssTotalSamples s"
    by (auto simp: recorded_def off_def)
  have "recorded s' (acc @ [x])"
    using assms(1) False off x unfolding s'(2) by (fastforce simp: recorded_def sorted_wrt_append)
  moreover have "same_but_counters s s'" unfolding s'(2) by (simp add: same_but_counters_def)
  ultimately show ?thesis using s'(1) by (intro exI [of _ "[x]"]) simp
qed

lemma accept_samples_recorded:
  assumes "recorded s acc" "foldl accept_sample (s, normalized) incoming = (s', normalized')"
  shows "\<exists>new. normalized' = normalized @ new \<and> recorded s' (acc @ new) \<and> same_but_counters s s'"
  using assms
proof (induction incoming arbitrary: s acc normalized)
  case Nil
  then show ?case by (intro exI [of _ "[]"]) (simp add: same_but_counters_def)
next
  case (Cons x xs)
  obtain s1 n1 where one: "accept_sample (s, normalized) x = (s1, n1)" by fastforce
  from accept_sample_recorded [OF Cons.prems(1) one] obtain new1 where
    1: "n1 = normalized @ new1" "recorded s1 (acc @ new1)" "same_but_counters s s1" by blast
  from Cons.prems(2) one have "foldl accept_sample (s1, n1) xs = (s', normalized')" by simp
  from Cons.IH [OF 1(2) this] obtain new2 where
    2: "normalized' = n1 @ new2" "recorded s' ((acc @ new1) @ new2)" "same_but_counters s1 s'" by blast
  have "same_but_counters s s'" using 1(3) 2(3) by (simp add: same_but_counters_def)
  with 1(1) 2(1,2) show ?case by (intro exI [of _ "new1 @ new2"]) simp
qed

text \<open>A recording pins two samples at most, so the loop of its preview always ends.\<close>

lemma two_pinned:
  assumes "recorded s acc"
  shows "length (filter pinned_sample acc) \<le> 2"
proof -
  have "filter pinned_sample acc = map ((!) acc) (filter (\<lambda>k. pinned_sample (acc ! k)) [0..<length acc])"
    by (subst map_nth [symmetric, of acc]) (simp add: filter_map o_def del: map_nth)
  moreover have "pinned_sample (acc ! k) \<longleftrightarrow> int k = ssTriggerOffset s \<or> k = 0" if "k < length acc" for k
  proof -
    from assms have "map smpOffset acc ! k = map int [0..<length acc] ! k"
      "map smpTriggered acc ! k = map (\<lambda>k. int k = ssTriggerOffset s) [0..<length acc] ! k"
      by (simp_all only: recorded_def)
    with that show ?thesis by (auto simp: pinned_sample_def)
  qed
  then have "filter (\<lambda>k. pinned_sample (acc ! k)) [0..<length acc] =
      filter (\<lambda>k. int k = ssTriggerOffset s \<or> k = 0) [0..<length acc]"
    by (intro filter_cong) auto
  moreover have "length (filter (\<lambda>k. int k = t \<or> k = 0) [0..<n]) \<le> 2" for t n
  proof -
    have "set (filter (\<lambda>k. int k = t \<or> k = 0) [0..<n]) \<subseteq> {nat t, 0}" by auto
    then have "card (set (filter (\<lambda>k. int k = t \<or> k = 0) [0..<n])) \<le> card {nat t, 0}"
      by (intro card_mono) simp_all
    also have "\<dots> \<le> 2" by (cases "nat t = 0") simp_all
    finally have "card (set (filter (\<lambda>k. int k = t \<or> k = 0) [0..<n])) \<le> 2" .
    then show ?thesis by (subst distinct_card [symmetric]) simp_all
  qed
  ultimately show ?thesis by simp
qed

lemma recorded_preview:
  assumes "recorded s (old @ new)" "1 \<le> stride"
  shows "\<exists>st. stride \<le> st \<and> appendPowerCapturePreview (filter (kept stride) old) new stride POWER_PREVIEW_MAX_SAMPLES =
      Some (filter (kept st) (old @ new), st) \<and> length (filter (kept st) (old @ new)) \<le> POWER_PREVIEW_MAX_SAMPLES"
proof -
  from offsets_bounded obtain b where b: "\<forall>s \<in> set (old @ new). \<bar>smpOffset s\<bar> < b" by blast
  have "length (filter pinned_sample (old @ new)) \<le> POWER_PREVIEW_MAX_SAMPLES"
    using two_pinned [OF assms(1)] by (simp add: POWER_PREVIEW_MAX_SAMPLES_def)
  with compact_preview_total [of "old @ new" b stride POWER_PREVIEW_MAX_SAMPLES] b assms(2) show ?thesis
    by (auto simp: appendPowerCapturePreview_def max_def)
qed


subsection \<open>The invariant of a session\<close>

fun append_of :: "write_job \<Rightarrow> (nat \<times> CaptureSample list) list" where
  "append_of (AppendJob index chunk _) = [(index, chunk)]"
| "append_of _ = []"

definition appends :: "write_job list \<Rightarrow> (nat \<times> CaptureSample list) list" where
  "appends jobs = concat (map append_of jobs)"

lemma appends_simps [simp]:
  "appends [] = []" "appends (j # jobs) = append_of j @ appends jobs" "appends (xs @ ys) = appends xs @ appends ys"
  by (simp_all add: appends_def)

fun is_begin :: "write_job \<Rightarrow> bool" where
  "is_begin (BeginJob _ _) = True"
| "is_begin _ = False"

abbreviation begins :: "write_job list \<Rightarrow> bool" where
  "begins jobs \<equiv> list_ex is_begin jobs"

text \<open>
  While no write has failed, the chunks stored, the chunks in the chain and the pending samples
  are the recording, in order, and the preview is its thinned copy.
\<close>

definition stream_ok ::
  "StreamingCaptureSession \<Rightarrow> CaptureSample list list \<Rightarrow> CaptureSample list \<Rightarrow> bool" where
  "stream_ok s written acc \<longleftrightarrow>
     recorded s acc \<and> acc = concat written @ concat (map snd (appends (ssJobs s))) @ ssPendingChunk s \<and>
     map fst (appends (ssJobs s)) = [length written..<ssChunkIndex s] \<and> length written \<le> ssChunkIndex s \<and>
     [] \<notin> set written \<and> [] \<notin> snd ` set (appends (ssJobs s)) \<and>
     length (ssPendingChunk s) < POWER_ARCHIVE_CHUNK_SAMPLES \<and> ssQueuedChunks s = length (appends (ssJobs s)) \<and>
     1 \<le> ssPreviewStride s \<and> ssPreview s = filter (kept (ssPreviewStride s)) acc"

lemma stream_ok_simps [simp]:
  "stream_ok (s\<lparr>ssFinishing := b\<rparr>) = stream_ok s" "stream_ok (s\<lparr>ssFinalize := p\<rparr>) = stream_ok s"
  "stream_ok (s\<lparr>ssWriteError := e\<rparr>) = stream_ok s" "stream_ok (s\<lparr>ssChainError := e\<rparr>) = stream_ok s"
  "stream_ok (s\<lparr>ssPersistedSamples := i\<rparr>) = stream_ok s" "stream_ok (s\<lparr>ssPersistedBytes := i\<rparr>) = stream_ok s"
  "stream_ok (s\<lparr>ssLastPersistedSequence := i\<rparr>) = stream_ok s"
  by (simp_all add: stream_ok_def fun_eq_iff)

lemma stream_ok_recorded: "stream_ok s written acc \<Longrightarrow> recorded s acc"
  unfolding stream_ok_def by blast

lemma stream_ok_concat:
  "stream_ok s written acc \<Longrightarrow> acc = concat written @ concat (map snd (appends (ssJobs s))) @ ssPendingChunk s"
  unfolding stream_ok_def by blast

lemma stream_ok_parts:
  "stream_ok s written acc \<Longrightarrow> map fst (appends (ssJobs s)) = [length written..<ssChunkIndex s] \<and>
     length written \<le> ssChunkIndex s \<and> [] \<notin> set written \<and> [] \<notin> snd ` set (appends (ssJobs s)) \<and>
     length (ssPendingChunk s) < POWER_ARCHIVE_CHUNK_SAMPLES \<and> ssQueuedChunks s = length (appends (ssJobs s)) \<and>
     1 \<le> ssPreviewStride s"
  unfolding stream_ok_def by blast

text \<open>The archive holds what the finished writes put there, unless it was deleted.\<close>

definition archive_ok :: "StreamingCaptureSession \<Rightarrow> database \<Rightarrow> CaptureSample list list \<Rightarrow> bool" where
  "archive_ok s db written \<longleftrightarrow>
     (if begins (ssJobs s)
      then written = []
      else map_of (captureStore db) (ssArchiveId s) = None \<or>
        chunks_of (ssArchiveId s) (chunkStore db) = enumerate 0 (map (\<lambda>c. ChunkV3 (compactSamples c)) written))"

lemma archive_ok_simps [simp]:
  "archive_ok (s\<lparr>ssFinishing := b\<rparr>) = archive_ok s" "archive_ok (s\<lparr>ssFinalize := p\<rparr>) = archive_ok s"
  "archive_ok (s\<lparr>ssWriteError := e\<rparr>) = archive_ok s" "archive_ok (s\<lparr>ssChainError := e\<rparr>) = archive_ok s"
  "archive_ok (s\<lparr>ssPersistedSamples := i\<rparr>) = archive_ok s" "archive_ok (s\<lparr>ssPersistedBytes := i\<rparr>) = archive_ok s"
  "archive_ok (s\<lparr>ssLastPersistedSequence := i\<rparr>) = archive_ok s" "archive_ok (s\<lparr>ssQueuedChunks := n\<rparr>) = archive_ok s"
  by (simp_all add: archive_ok_def fun_eq_iff)

definition not_started :: "StreamingCaptureSession \<Rightarrow> database \<Rightarrow> bool" where
  "not_started s db \<longleftrightarrow>
     \<not> ssArchiveStarted s \<and> ssFinalize s = NotFinalizing \<and> ssJobs s = [] \<and> ssPendingChunk s = [] \<and> ssPreview s = [] \<and>
     1 \<le> ssPreviewStride s \<and> ssTotalSamples s = 0 \<and> ssTriggerOffset s = -1 \<and> ssChunkIndex s = 0 \<and> ssQueuedChunks s = 0 \<and>
     ssChainError s = None \<and> ssWriteError s = None \<and>
     map_of (captureStore db) (ssArchiveId s) = None \<and> chunks_of (ssArchiveId s) (chunkStore db) = []"

definition nothing_left :: "StreamingCaptureSession \<Rightarrow> bool" where
  "nothing_left s \<longleftrightarrow> ssFinishing s \<and> ssWriteError s = None \<and> ssChainError s = None \<and> ssPendingChunk s = [] \<and>
     list_all (\<lambda>j. j = DeleteJob) (ssJobs s)"

fun phase_ok :: "StreamingCaptureSession \<Rightarrow> finalize_phase \<Rightarrow> bool" where
  "phase_ok s NotFinalizing = True"
| "phase_ok s AwaitStop = True"
| "phase_ok s AwaitWrites = (ssFinishing s \<and> (ssWriteError s = None \<longrightarrow> ssPendingChunk s = []))"
| "phase_ok s (AwaitFinish c) = (nothing_left s \<and> pcArchiveId c = Some (ssArchiveId s) \<and> pcSampleCount c = Some (ssTotalSamples s))"
| "phase_ok s _ = ssFinishing s"

definition jobs_ok :: "StreamingCaptureSession \<Rightarrow> database \<Rightarrow> bool" where
  "jobs_ok s db \<longleftrightarrow> ssArchiveId s \<noteq> [] \<and> \<not> begins (tl (ssJobs s)) \<and>
     (\<forall>c l. BeginJob c l \<in> set (ssJobs s) \<longrightarrow> pcArchiveId c = Some (ssArchiveId s) \<and>
        map_of (captureStore db) (ssArchiveId s) = None \<and> chunks_of (ssArchiveId s) (chunkStore db) = [])"

definition session_ok :: "StreamingCaptureSession \<Rightarrow> database \<Rightarrow> bool" where
  "session_ok s db \<longleftrightarrow> jobs_ok s db \<and> phase_ok s (ssFinalize s) \<and> (\<not> ssTriggered s \<longrightarrow> not_started s db) \<and>
     (ssTriggered s \<and> ssWriteError s = None \<longrightarrow>
       (\<exists>written acc. stream_ok s written acc \<and> (ssChainError s = None \<longrightarrow> archive_ok s db written)))"

lemma session_ok_startedI:
  assumes "jobs_ok s db" "phase_ok s (ssFinalize s)" "ssTriggered s"
    and "ssWriteError s = None \<Longrightarrow> stream_ok s written acc"
    and "ssWriteError s = None \<Longrightarrow> ssChainError s = None \<Longrightarrow> archive_ok s db written"
  shows "session_ok s db"
  unfolding session_ok_def using assms(1-3)
  by (intro conjI impI exI [of _ written] exI [of _ acc]) (auto intro: assms(4,5))

lemma session_ok_parts:
  assumes "session_ok s db"
  shows "jobs_ok s db" "phase_ok s (ssFinalize s)" "\<not> ssTriggered s \<Longrightarrow> not_started s db"
  using assms unfolding session_ok_def by blast+

lemma session_ok_streamE:
  assumes "session_ok s db" "ssTriggered s" "ssWriteError s = None"
  obtains written acc where "stream_ok s written acc" "ssChainError s = None \<longrightarrow> archive_ok s db written"
proof -
  from assms have "\<exists>written acc. stream_ok s written acc \<and> (ssChainError s = None \<longrightarrow> archive_ok s db written)"
    unfolding session_ok_def by blast
  then show thesis by (elim exE conjE) (rule that)
qed

text \<open>Steps that only touch fields the invariant does not read.\<close>

definition same_core :: "StreamingCaptureSession \<Rightarrow> StreamingCaptureSession \<Rightarrow> bool" where
  "same_core s s' \<longleftrightarrow>
     ssArchiveId s' = ssArchiveId s \<and> ssTriggered s' = ssTriggered s \<and> ssFinishing s' = ssFinishing s \<and>
     ssFinalize s' = ssFinalize s \<and> ssArchiveStarted s' = ssArchiveStarted s \<and> ssPendingChunk s' = ssPendingChunk s \<and>
     ssPreview s' = ssPreview s \<and> ssPreviewStride s' = ssPreviewStride s \<and> ssTotalSamples s' = ssTotalSamples s \<and>
     ssLastStoredSequence s' = ssLastStoredSequence s \<and> ssTriggerOffset s' = ssTriggerOffset s \<and>
     ssChunkIndex s' = ssChunkIndex s \<and> ssJobs s' = ssJobs s \<and> ssChainError s' = ssChainError s \<and>
     ssQueuedChunks s' = ssQueuedChunks s \<and> ssWriteError s' = ssWriteError s"

lemma session_ok_core: "same_core s s' \<Longrightarrow> session_ok s' db = session_ok s db"
proof -
  assume same: "same_core s s'"
  then have "phase_ok s' p = phase_ok s p" for p by (cases p) (simp_all add: same_core_def nothing_left_def)
  with same show ?thesis
    by (simp add: same_core_def session_ok_def jobs_ok_def not_started_def stream_ok_def archive_ok_def recorded_def)
qed

lemma session_ok_untouched:
  assumes "session_ok s db" "untouched (ssArchiveId s) db db'"
  shows "session_ok s db'"
proof -
  from assms(2) have "not_started s db' = not_started s db" "jobs_ok s db' = jobs_ok s db" "archive_ok s db' w = archive_ok s db w" for w
    by (simp_all add: untouched_def not_started_def archive_ok_def jobs_ok_def)
  then have "session_ok s db' = session_ok s db" by (simp only: session_ok_def)
  with assms(1) show ?thesis by simp
qed

lemma finalizing_finishing:
  "session_ok s db \<Longrightarrow> ssFinalize s \<noteq> NotFinalizing \<Longrightarrow> ssFinalize s \<noteq> AwaitStop \<Longrightarrow> ssFinishing s"
  by (cases "ssFinalize s") (auto simp: session_ok_def nothing_left_def)

lemma session_ok_renew:
  assumes "session_ok s db"
  shows "session_ok (queueStreamingLeaseRenewal now s) db"
proof (cases "\<not> ssArchiveStarted s \<or> ssFinishing s \<or> ssWriteError s \<noteq> None \<or>
    now - ssLastLeaseRenewedAt s < POWER_CAPTURE_LEASE_RENEW_INTERVAL_MS")
  case True
  with assms show ?thesis by (simp add: queueStreamingLeaseRenewal_def)
next
  case False
  let ?s = "s\<lparr>ssLastLeaseRenewedAt := now, ssJobs := ssJobs s @ [RenewJob]\<rparr>"
  from False assms have trig: "ssTriggered s" by (auto simp: session_ok_def not_started_def)
  have ph: "ssFinalize s = NotFinalizing \<or> ssFinalize s = AwaitStop" using finalizing_finishing [OF assms] False by blast
  have "stream_ok ?s written acc = stream_ok s written acc" "archive_ok ?s db written = archive_ok s db written" for written acc
    by (simp_all add: stream_ok_def archive_ok_def)
  moreover have "jobs_ok ?s db = jobs_ok s db" by (cases "ssJobs s") (auto simp: jobs_ok_def)
  ultimately have "session_ok ?s db" using assms trig ph by (auto simp: session_ok_def)
  with False show ?thesis by (simp add: queueStreamingLeaseRenewal_def)
qed


text \<open>Queueing keeps the recording: a chunk moves from the pending samples to the chain.\<close>

lemma stream_ok_chunk:
  assumes "stream_ok s written acc" "chunk @ rest = ssPendingChunk s" "chunk \<noteq> []" "length rest < POWER_ARCHIVE_CHUNK_SAMPLES"
  shows "stream_ok (queueStreamingChunk chunk (ssChunkIndex s) cb
      (s\<lparr>ssPendingChunk := rest, ssChunkIndex := ssChunkIndex s + 1\<rparr>)) written acc"
  using assms by (auto simp: stream_ok_def queueStreamingChunk_def)

definition queue_ok :: "StreamingCaptureSession \<Rightarrow> CaptureSample list list \<Rightarrow> CaptureSample list \<Rightarrow> bool" where
  "queue_ok s written acc \<longleftrightarrow>
     recorded s acc \<and> acc = concat written @ concat (map snd (appends (ssJobs s))) @ ssPendingChunk s \<and>
     map fst (appends (ssJobs s)) = [length written..<ssChunkIndex s] \<and> length written \<le> ssChunkIndex s \<and>
     [] \<notin> set written \<and> [] \<notin> snd ` set (appends (ssJobs s)) \<and> ssQueuedChunks s = length (appends (ssJobs s)) \<and>
     1 \<le> ssPreviewStride s \<and> ssPreview s = filter (kept (ssPreviewStride s)) acc"

lemma stream_ok_queue_ok:
  "stream_ok s written acc \<longleftrightarrow> queue_ok s written acc \<and> length (ssPendingChunk s) < POWER_ARCHIVE_CHUNK_SAMPLES"
  by (auto simp: stream_ok_def queue_ok_def)

lemma queue_ok_chunk:
  assumes "queue_ok s written acc" "chunk @ rest = ssPendingChunk s" "chunk \<noteq> []"
  shows "queue_ok (queueStreamingChunk chunk (ssChunkIndex s) cb
      (s\<lparr>ssPendingChunk := rest, ssChunkIndex := ssChunkIndex s + 1\<rparr>)) written acc"
  using assms by (auto simp: queue_ok_def queueStreamingChunk_def)

text \<open>What cutting chunks off leaves alone.\<close>

definition queue_frame :: "StreamingCaptureSession \<Rightarrow> StreamingCaptureSession \<Rightarrow> bool" where
  "queue_frame s s' \<longleftrightarrow>
     ssArchiveId s' = ssArchiveId s \<and> ssTriggered s' = ssTriggered s \<and> ssFinishing s' = ssFinishing s \<and>
     ssFinalize s' = ssFinalize s \<and> ssArchiveStarted s' = ssArchiveStarted s \<and> ssChainError s' = ssChainError s \<and>
     (\<exists>more. ssJobs s' = ssJobs s @ more \<and> list_all (\<lambda>j. append_of j \<noteq> []) more)"

lemma queue_frame_refl: "queue_frame s s"
  by (auto simp: queue_frame_def)

lemma queue_frame_trans: "queue_frame s s1 \<Longrightarrow> queue_frame s1 s2 \<Longrightarrow> queue_frame s s2"
  by (auto simp: queue_frame_def)

lemma queue_full_chunks_ok:
  assumes "queue_ok s written acc" "queue_full_chunks s = (s', e)"
  shows "queue_frame s s' \<and> (e = None \<longrightarrow> stream_ok s' written acc \<and> ssWriteError s' = ssWriteError s) \<and>
    (e \<noteq> None \<longrightarrow> ssWriteError s' = e)"
  using assms
proof (induction s arbitrary: s' e rule: queue_full_chunks.induct)
  case (1 s)
  show ?case
  proof (cases "length (ssPendingChunk s) < POWER_ARCHIVE_CHUNK_SAMPLES")
    case True
    with 1(2,3) show ?thesis
      by (simp add: queue_full_chunks.simps [of s] stream_ok_queue_ok queue_frame_refl)
  next
    case False
    let ?s = "s\<lparr>ssPendingChunk := drop POWER_ARCHIVE_CHUNK_SAMPLES (ssPendingChunk s), ssChunkIndex := ssChunkIndex s + 1\<rparr>"
    let ?chunk = "take POWER_ARCHIVE_CHUNK_SAMPLES (ssPendingChunk s)"
    let ?next = "queueStreamingChunk ?chunk (ssChunkIndex s) True ?s"
    have unfold: "queue_full_chunks s = (if ssQueuedChunks ?s \<ge> POWER_ARCHIVE_MAX_QUEUED_CHUNKS
        then (?s\<lparr>ssWriteError := Some storage_behind\<rparr>, Some storage_behind) else queue_full_chunks ?next)"
      using False by (subst queue_full_chunks.simps) (simp only: if_False Let_def)
    show ?thesis
    proof (cases "ssQueuedChunks ?s \<ge> POWER_ARCHIVE_MAX_QUEUED_CHUNKS")
      case True
      with 1(3) unfold show ?thesis by (auto simp: queue_frame_def)
    next
      case False2: False
      from False have "?chunk \<noteq> []" by (auto simp: POWER_ARCHIVE_CHUNK_SAMPLES_def)
      then have next_ok: "queue_ok ?next written acc" by (intro queue_ok_chunk [OF 1(2)]) simp_all
      have "queue_full_chunks ?next = (s', e)" using 1(3) unfold False2 by (simp only: if_False)
      from 1(1) [OF False refl refl refl False2 next_ok this]
      have "queue_frame ?next s' \<and> (e = None \<longrightarrow> stream_ok s' written acc \<and> ssWriteError s' = ssWriteError ?next) \<and>
          (e \<noteq> None \<longrightarrow> ssWriteError s' = e)" .
      moreover have "queue_frame s ?next" by (auto simp: queue_frame_def queueStreamingChunk_def)
      ultimately show ?thesis using queue_frame_trans [of s ?next s'] by (simp add: queueStreamingChunk_def)
    qed
  qed
qed


lemma append_not_begin: "list_all (\<lambda>j. append_of j \<noteq> []) jobs \<Longrightarrow> \<not> begins jobs"
proof (induction jobs)
  case (Cons j jobs)
  then show ?case by (cases j) simp_all
qed simp

lemma begins_append [simp]: "begins (xs @ ys) \<longleftrightarrow> begins xs \<or> begins ys"
  by (auto simp: list_ex_iff)

lemma archive_ok_frame:
  assumes "queue_frame s s'"
  shows "archive_ok s' db written = archive_ok s db written"
  using assms append_not_begin by (auto simp: queue_frame_def archive_ok_def)

lemma jobs_ok_frame:
  assumes "jobs_ok s db" "queue_frame s s'"
  shows "jobs_ok s' db"
proof -
  from assms(2) obtain more where more: "ssJobs s' = ssJobs s @ more" "\<not> begins more" "ssArchiveId s' = ssArchiveId s"
    using append_not_begin by (auto simp: queue_frame_def)
  from more(2) have "\<not> begins (tl more)" by (cases more) simp_all
  moreover from more(2) have "BeginJob c l \<notin> set more" for c l by (auto simp: list_ex_iff)
  ultimately show ?thesis using assms(1) more by (cases "ssJobs s") (auto simp: jobs_ok_def)
qed

lemma phase_ok_active: "\<not> ssFinishing s \<Longrightarrow> phase_ok s p \<Longrightarrow> p = NotFinalizing \<or> p = AwaitStop"
  by (cases p) (simp_all add: nothing_left_def)

lemma session_ok_active:
  assumes "session_ok s db" "ssTriggered s" "\<not> ssFinishing s" "queue_frame s s'"
    and "ssChainError s = None \<Longrightarrow> archive_ok s db written"
    and "ssWriteError s' = None \<Longrightarrow> stream_ok s' written acc"
  shows "session_ok s' db"
proof -
  from assms(1,3) have "ssFinalize s = NotFinalizing \<or> ssFinalize s = AwaitStop"
    using phase_ok_active by (simp add: session_ok_def)
  moreover from assms(4) have frame: "ssFinalize s' = ssFinalize s" "ssTriggered s'" "ssChainError s' = ssChainError s"
    using assms(2) by (simp_all add: queue_frame_def)
  ultimately have "phase_ok s' (ssFinalize s')" by (elim disjE) simp_all
  moreover have "jobs_ok s db" using assms(1) unfolding session_ok_def by blast
  then have "jobs_ok s' db" by (rule jobs_ok_frame) (rule assms(4))
  moreover have "ssChainError s' = None \<longrightarrow> archive_ok s' db written"
    using assms(5) frame(3) by (simp add: archive_ok_frame [OF assms(4)])
  ultimately show ?thesis using frame(2) assms(6) by (intro session_ok_startedI) simp_all
qed

lemma queueStreamingSamples_ok:
  assumes "session_ok s db" "ssTriggered s"
  shows "\<exists>s' e. queueStreamingSamples incoming s = Some (s', e) \<and> session_ok s' db \<and> queue_frame s s' \<and>
    (e \<noteq> None \<longrightarrow> ssWriteError s' = e)"
proof (cases "ssFinishing s \<or> ssWriteError s \<noteq> None")
  case True
  with assms show ?thesis by (auto simp: queueStreamingSamples_def queue_frame_refl)
next
  case False
  from False have none: "ssWriteError s = None" by simp
  from session_ok_streamE [OF assms none] obtain written acc where ok: "stream_ok s written acc"
    "ssChainError s = None \<longrightarrow> archive_ok s db written" .
  obtain s1 new where fold: "foldl accept_sample (s, []) incoming = (s1, new)" by fastforce
  from accept_samples_recorded [OF stream_ok_recorded [OF ok(1)] fold] have rec1: "recorded s1 (acc @ new)" and same_s1: "same_but_counters s s1"
    by auto
  note same = same_but_counters_fields [OF same_s1]
  have frame1: "queue_frame s s1" using same by (auto simp: queue_frame_def)
  show ?thesis
  proof (cases "new = []")
    case True
    with ok(1) rec1 have "stream_ok s1 written acc" by (auto simp: stream_ok_def same)
    then have "session_ok s1 db" using False by (intro session_ok_active [OF assms _ frame1 mp [OF ok(2)]]) simp_all
    with True False fold frame1 show ?thesis by (auto simp: queueStreamingSamples_def)
  next
    case False2: False
    from recorded_preview [OF rec1, of "ssPreviewStride s"] ok(1) obtain st where
      st: "1 \<le> st" "appendPowerCapturePreview (ssPreview s1) new (ssPreviewStride s1) POWER_PREVIEW_MAX_SAMPLES =
        Some (filter (kept st) (acc @ new), st)" by (auto simp: stream_ok_def same)
    define s2 where "s2 = s1\<lparr>ssAccumulator := appendPowerCaptureSummary (ssAccumulator s1) new,
      ssPreview := filter (kept st) (acc @ new), ssPreviewStride := st, ssPendingChunk := ssPendingChunk s1 @ new\<rparr>"
    obtain s' e where cut: "queue_full_chunks s2 = (s', e)" by fastforce
    have result: "queueStreamingSamples incoming s = Some (s', e)"
      using False False2 fold st(2) cut by (simp add: queueStreamingSamples_def s2_def)
    have frame2: "queue_frame s s2" using same by (auto simp: queue_frame_def s2_def)
    have rec2: "recorded s2 (acc @ new)" using rec1 by (simp add: s2_def)
    have split2: "acc @ new = concat written @ concat (map snd (appends (ssJobs s2))) @ ssPendingChunk s2"
      using stream_ok_concat [OF ok(1)] by (simp add: s2_def same)
    have "queue_ok s2 written (acc @ new)"
      unfolding queue_ok_def
      by (intro conjI rec2 split2) (insert stream_ok_parts [OF ok(1)] st(1), simp_all add: s2_def same)
    from queue_full_chunks_ok [OF this cut] have frame3: "queue_frame s2 s'"
      and e: "e = None \<Longrightarrow> stream_ok s' written (acc @ new)" "e \<noteq> None \<Longrightarrow> ssWriteError s' = e" by auto
    have frame: "queue_frame s s'" by (rule queue_frame_trans [OF frame2 frame3])
    have "session_ok s' db"
    proof (rule session_ok_active [OF assms _ frame mp [OF ok(2)]])
      show "\<not> ssFinishing s" using False by simp
      show "stream_ok s' written (acc @ new)" if "ssWriteError s' = None" using e that by (cases e) auto
    qed
    with result frame e(2) show ?thesis by blast
  qed
qed

text \<open>Flushing queues the tail; from then on nothing is pending unless a write has failed.\<close>

lemma flush_ok:
  assumes "stream_ok s written acc" "ssWriteError s = None"
  shows "stream_ok (flushStreamingCaptureChunk s) written acc"
  using stream_ok_chunk [OF assms(1), of "ssPendingChunk s" "[]" False] assms
  by (auto simp: flushStreamingCaptureChunk_def POWER_ARCHIVE_CHUNK_SAMPLES_def)

lemma flush_frame: "queue_frame s (flushStreamingCaptureChunk s)"
  by (auto simp: flushStreamingCaptureChunk_def queue_frame_def queueStreamingChunk_def)

lemma flush_pending:
  "ssWriteError (flushStreamingCaptureChunk s) = ssWriteError s"
  "ssWriteError s = None \<Longrightarrow> ssPendingChunk (flushStreamingCaptureChunk s) = []"
  by (auto simp: flushStreamingCaptureChunk_def queueStreamingChunk_def)

lemma seal_ok:
  assumes "session_ok s db" "ssTriggered s"
  shows "session_ok (seal_capture s) db"
proof -
  let ?s = "s\<lparr>ssFinishing := True\<rparr>"
  let ?f = "flushStreamingCaptureChunk ?s"
  note frame = flush_frame [of ?s]
  have keeps: "ssFinishing ?f" "ssTriggered ?f" "ssChainError ?f = ssChainError s"
    using frame assms(2) by (simp_all add: queue_frame_def)
  let ?g = "?f\<lparr>ssFinalize := AwaitWrites\<rparr>"
  have "jobs_ok ?f db" using session_ok_parts(1) [OF assms(1)] by (intro jobs_ok_frame [OF _ frame]) (simp add: jobs_ok_def)
  then have jobs: "jobs_ok ?g db" by (simp add: jobs_ok_def)
  have phase: "phase_ok ?g (ssFinalize ?g)" using keeps flush_pending [of ?s] by simp
  have "session_ok ?g db"
  proof (cases "ssWriteError s = None")
    case True
    from session_ok_streamE [OF assms True] obtain written acc where
      ok: "stream_ok s written acc" "ssChainError s = None \<longrightarrow> archive_ok s db written" .
    have "stream_ok ?f written acc" using ok(1) True by (intro flush_ok) simp_all
    moreover have "archive_ok ?g db written = archive_ok s db written"
      using archive_ok_frame [OF frame] by simp
    ultimately show ?thesis using ok(2) keeps jobs phase by (intro session_ok_startedI) simp_all
  next
    case False
    with keeps jobs phase flush_pending [of ?s] show ?thesis by (intro session_ok_startedI) auto
  qed
  then show ?thesis by (simp add: seal_capture_def)
qed


subsection \<open>Writes keep the invariant\<close>

definition session_kept :: "StreamingCaptureSession \<Rightarrow> StreamingCaptureSession \<Rightarrow> bool" where
  "session_kept s s' \<longleftrightarrow> ssTriggered s' = ssTriggered s \<and> ssFinishing s' = ssFinishing s \<and> ssArchiveId s' = ssArchiveId s"

lemma write_failed_ok:
  assumes "session_ok s db" "ssTriggered s" "write_failed e cb s1 = (s', e')"
    and "\<not> begins (tl (ssJobs s1))" "set (ssJobs s1) \<subseteq> set (ssJobs s)" "\<not> nothing_left s"
    and "session_kept s s1" "ssFinalize s1 = ssFinalize s"
  shows "session_ok s' db \<and> session_kept s s'"
proof -
  from assms(3) have s': "ssWriteError s' \<noteq> None" "ssTriggered s'" "ssFinishing s' = ssFinishing s"
    "ssArchiveId s' = ssArchiveId s" "ssJobs s' = ssJobs s1" "ssFinalize s' = ssFinalize s"
    using assms(2,7,8) by (auto simp: write_failed_def session_kept_def split: if_splits)
  note parts = session_ok_parts [OF assms(1)]
  have "jobs_ok s' db" using parts(1) assms(4,5) s' by (auto simp: jobs_ok_def)
  moreover have "phase_ok s' (ssFinalize s')" using parts(2) assms(6) s' by (cases "ssFinalize s") auto
  ultimately show ?thesis using s' assms(2) by (auto intro: session_ok_startedI simp: session_kept_def)
qed

lemma job_result_cases:
  "job_result fault r = Inr a \<Longrightarrow> fault = None \<and> r = Inr a"
  by (auto simp: job_result_def split: option.splits sum.splits)

lemma run_begin_ok:
  assumes "db_ok db" "session_ok s db" "ssTriggered s" "ssJobs s = BeginJob capture lease # jobs"
    and "run_begin now fault capture lease (s\<lparr>ssJobs := jobs\<rparr>) db = (s', db', e)"
  shows "db_ok db' \<and> session_ok s' db' \<and> session_kept s s'"
proof -
  let ?s = "s\<lparr>ssJobs := jobs\<rparr>"
  note parts = session_ok_parts [OF assms(2)]
  have head: "BeginJob capture lease \<in> set (ssJobs s)" "tl (ssJobs s) = jobs" by (simp_all add: assms(4))
  from parts(1) [unfolded jobs_ok_def] head have fresh: "\<not> begins jobs" "ssArchiveId s \<noteq> []" "pcArchiveId capture = Some (ssArchiveId s)"
    "map_of (captureStore db) (ssArchiveId s) = None" "chunks_of (ssArchiveId s) (chunkStore db) = []"
    by blast+
  from fresh(1) have no_begin: "BeginJob c l \<notin> set jobs" for c l by (auto simp: list_ex_iff)
  from fresh(1) have tail: "\<not> begins (tl jobs)" by (cases jobs) simp_all
  have phase: "phase_ok (?s\<lparr>ssChainError := x\<rparr>) (ssFinalize s)" "phase_ok ?s (ssFinalize s)" for x
    using parts(2) assms(4) by (cases "ssFinalize s"; auto simp: nothing_left_def)+
  have stream: "stream_ok ?s written acc = stream_ok s written acc" for written acc
    using assms(4) by (simp add: stream_ok_def)
  have id: "required_id capture = Inr (ssArchiveId s)" using fresh(2,3) by (simp add: required_id_def)
  show ?thesis
  proof (cases "job_result fault (beginPowerCaptureArchive now capture (Some lease) db)")
    case (Inl x)
    with assms(5) have s': "s' = ?s\<lparr>ssChainError := Some x\<rparr>" "db' = db" by (auto simp: run_begin_def)
    have jobs: "jobs_ok s' db" using fresh tail no_begin by (simp add: jobs_ok_def s')
    have "session_ok s' db"
    proof (cases "ssWriteError s = None")
      case True
      from session_ok_streamE [OF assms(2,3) True] obtain written acc where "stream_ok s written acc" .
      with stream jobs phase assms(3) show ?thesis
        by (intro session_ok_startedI [of _ _ written acc]) (simp_all add: s')
    next
      case False
      with jobs phase assms(3) show ?thesis by (intro session_ok_startedI) (auto simp: s')
    qed
    with assms(1) s' show ?thesis by (simp add: session_kept_def)
  next
    case (Inr d)
    from job_result_cases [OF this] have begun: "beginPowerCaptureArchive now capture (Some lease) db = Inr d" by simp
    from Inr assms(5) have s': "s' = ?s" "db' = d" by (auto simp: run_begin_def)
    from begun id have store: "chunkStore d = chunkStore db"
      by (auto simp: beginPowerCaptureArchive_def put_archive_def)
    have jobs: "jobs_ok s' d" using fresh tail no_begin by (simp add: jobs_ok_def s')
    have "session_ok s' d"
    proof (cases "ssWriteError s = None")
      case True
      from session_ok_streamE [OF assms(2,3) True] obtain written acc where
        ok: "stream_ok s written acc" "ssChainError s = None \<longrightarrow> archive_ok s db written" .
      then have "ssChainError s = None \<longrightarrow> archive_ok ?s d written"
        using assms(4) fresh by (auto simp: archive_ok_def store)
      with ok stream jobs phase assms(3) show ?thesis
        by (intro session_ok_startedI [of _ _ written acc]) (simp_all add: s')
    next
      case False
      with jobs phase assms(3) show ?thesis by (intro session_ok_startedI) (auto simp: s')
    qed
    with db_ok_begin [OF assms(1) id fresh(5) begun] s' show ?thesis by (simp add: session_kept_def)
  qed
qed

lemma append_keeps_chunks:
  assumes "db_ok db" "appendPowerCaptureChunk now i (length written) chunk lease db = Inr (w, db')" "chunk \<noteq> []"
    and "map_of (captureStore db) i = None \<or> chunks_of i (chunkStore db) =
      enumerate 0 (map (\<lambda>c. ChunkV3 (compactSamples c)) written)"
  shows "chunks_of i (chunkStore db') = enumerate 0 (map (\<lambda>c. ChunkV3 (compactSamples c)) (written @ [chunk]))"
proof -
  from assms(2,3) obtain found where found: "get_archive now i db = Inr found"
    and store: "chunkStore db' = put (i, length written) (ChunkV3 (compactSamples chunk)) (chunkStore db)"
    by (elim append_Inr) (auto simp: put_archive_def)
  from found assms(4) have old: "chunks_of i (chunkStore db) = enumerate 0 (map (\<lambda>c. ChunkV3 (compactSamples c)) written)"
    by (auto simp: get_archive_def)
  have "\<forall>x \<in> set (chunks_of i (chunkStore db)). fst x < length written"
    unfolding old by (auto simp: enumerate_eq_zip dest: set_zip_leftD)
  with assms(1) have "chunks_of i (chunkStore db') = chunks_of i (chunkStore db) @ [(length written, ChunkV3 (compactSamples chunk))]"
    unfolding store by (intro chunks_of_put_last) (simp_all add: db_ok_def)
  with old show ?thesis by (simp add: enumerate_append_eq)
qed


lemma jobs_ok_tail:
  assumes "jobs_ok s db" "ssJobs s = job # jobs"
  shows "\<not> begins (tl jobs)" "\<not> begins jobs" "jobs_ok (s\<lparr>ssJobs := jobs\<rparr>) db'"
proof -
  from assms have "\<not> begins jobs" by (simp add: jobs_ok_def)
  moreover from this have "\<not> begins (tl jobs)" "BeginJob c l \<notin> set jobs" for c l
    by (cases jobs; auto simp: list_ex_iff)+
  ultimately show "\<not> begins (tl jobs)" "\<not> begins jobs" "jobs_ok (s\<lparr>ssJobs := jobs\<rparr>) db'"
    using assms(1) by (simp_all add: jobs_ok_def)
qed

lemma archive_ok_later:
  "\<not> begins (ssJobs s) \<Longrightarrow> archive_ok s db written \<longleftrightarrow> map_of (captureStore db) (ssArchiveId s) = None \<or>
     chunks_of (ssArchiveId s) (chunkStore db) = enumerate 0 (map (\<lambda>c. ChunkV3 (compactSamples c)) written)"
  by (simp add: archive_ok_def)

lemma run_renew_ok:
  assumes "db_ok db" "session_ok s db" "ssTriggered s" "ssJobs s = RenewJob # jobs"
    and "run_renew now fault (s\<lparr>ssJobs := jobs\<rparr>) db = (s', db', e)"
  shows "db_ok db' \<and> session_ok s' db' \<and> session_kept s s'"
proof -
  let ?s = "s\<lparr>ssQueuedChunks := ssQueuedChunks s, ssJobs := jobs\<rparr>"
  have s: "s\<lparr>ssJobs := jobs\<rparr> = ?s" by simp
  note parts = session_ok_parts [OF assms(2)] and tail = jobs_ok_tail [OF session_ok_parts(1) [OF assms(2)] assms(4)]
  have busy: "\<not> nothing_left s" using assms(4) by (simp add: nothing_left_def)
  have fails: "?thesis" if "db' = db" "write_failed x True ?s = (s', e)" for x
  proof -
    have "session_ok s' db \<and> session_kept s s'"
      by (rule write_failed_ok [OF assms(2,3) that(2) _ _ busy]) (use tail(1) assms(4) in \<open>auto simp: session_kept_def\<close>)
    with that(1) assms(1) show ?thesis by simp
  qed
  show ?thesis
  proof (cases "ssChainError s")
    case (Some x)
    with assms(5) show ?thesis by (intro fails [of x]) (auto simp: run_renew_def split: prod.splits)
  next
    case None
    let ?r = "renewPowerCaptureArchiveLease now (ssArchiveId s) (streamingCaptureLease ?s) db"
    show ?thesis
    proof (cases "job_result fault ?r")
      case (Inl x)
      with None assms(5) show ?thesis by (intro fails [of x]) (auto simp: run_renew_def split: prod.splits)
    next
      case (Inr d)
      from job_result_cases [OF this] have renewed: "?r = Inr d" by simp
      then obtain found where found: "get_archive now (ssArchiveId s) db = Inr found" and store: "chunkStore d = chunkStore db"
        by (auto simp: renewPowerCaptureArchiveLease_def bindR_Inr_iff recording_archive_Inr put_archive_def)
      from Inr None assms(5) have s': "s' = ?s" "db' = d" by (auto simp: run_renew_def)
      have jobs: "jobs_ok s' d" using tail(3) by (simp add: s')
      have phase: "phase_ok s' (ssFinalize s')" using parts(2) busy by (cases "ssFinalize s") (auto simp: s')
      have "session_ok s' d"
      proof (cases "ssWriteError s = None")
        case True
        from session_ok_streamE [OF assms(2,3) True] obtain written acc where
          ok: "stream_ok s written acc" "ssChainError s = None \<longrightarrow> archive_ok s db written" .
        have "stream_ok ?s written acc = stream_ok s written acc" using assms(4) by (simp add: stream_ok_def)
        moreover have "archive_ok ?s d written"
          using ok(2) None assms(4) tail(2) found by (auto simp: archive_ok_later store get_archive_def)
        ultimately show ?thesis using jobs phase assms(3) ok(1)
          by (intro session_ok_startedI [of _ _ written acc]) (simp_all add: s')
      next
        case False
        with jobs phase assms(3) show ?thesis by (intro session_ok_startedI) (auto simp: s')
      qed
      with db_ok_renew [OF assms(1) renewed] s' show ?thesis by (simp add: session_kept_def)
    qed
  qed
qed

lemma run_append_ok:
  assumes "db_ok db" "session_ok s db" "ssTriggered s" "ssJobs s = AppendJob index chunk cb # jobs"
    and "run_append now fault index chunk cb (s\<lparr>ssJobs := jobs\<rparr>) db = (s', db', e)"
  shows "db_ok db' \<and> session_ok s' db' \<and> session_kept s s'"
proof -
  let ?s = "s\<lparr>ssJobs := jobs, ssQueuedChunks := ssQueuedChunks s - 1\<rparr>"
  note parts = session_ok_parts [OF assms(2)] and tail = jobs_ok_tail [OF session_ok_parts(1) [OF assms(2)] assms(4)]
  have busy: "\<not> nothing_left s" using assms(4) by (simp add: nothing_left_def)
  have fails: "?thesis" if "db' = db" "write_failed x cb ?s = (s', e)" for x
  proof -
    have "session_ok s' db \<and> session_kept s s'"
      by (rule write_failed_ok [OF assms(2,3) that(2) _ _ busy]) (use tail(1) assms(4) in \<open>auto simp: session_kept_def\<close>)
    with that(1) assms(1) show ?thesis by simp
  qed
  show ?thesis
  proof (cases "ssChainError s")
    case (Some x)
    with assms(5) show ?thesis by (intro fails [of x]) (auto simp: run_append_def split: prod.splits)
  next
    case None
    let ?r = "appendPowerCaptureChunk now (ssArchiveId s) index chunk (Some (streamingCaptureLease (s\<lparr>ssJobs := jobs\<rparr>))) db"
    show ?thesis
    proof (cases "job_result fault ?r")
      case (Inl x)
      with None assms(5) show ?thesis by (intro fails [of x]) (auto simp: run_append_def split: prod.splits)
    next
      case (Inr wd)
      obtain w d where wd: "wd = (w, d)" by (cases wd)
      from job_result_cases [OF Inr] have appended: "?r = Inr (w, d)" by (simp add: wd)
      define s1 where "s1 = ?s\<lparr>ssPersistedSamples := wrPersistedSamples w, ssPersistedBytes := wrEstimatedBytes w,
        ssLastPersistedSequence := wrLastSequence w\<rparr>"
      from Inr None assms(5) have s': "s' = s1" "db' = d" by (auto simp: run_append_def wd s1_def)
      have same: "ssTriggered s1" "ssChainError s1 = None" "ssWriteError s1 = ssWriteError s" "ssFinalize s1 = ssFinalize s"
        using assms(3) None by (simp_all add: s1_def)
      have jobs: "jobs_ok s1 d" using tail(3) [of d] by (simp add: s1_def jobs_ok_def)
      have phase: "phase_ok s1 (ssFinalize s1)" using parts(2) busy by (cases "ssFinalize s") (auto simp: s1_def)
      have "session_ok s1 d"
      proof (cases "ssWriteError s = None")
        case True
        from session_ok_streamE [OF assms(2,3) True] obtain written acc where
          ok: "stream_ok s written acc" "ssChainError s = None \<longrightarrow> archive_ok s db written" .
        from stream_ok_parts [OF ok(1)] assms(4) have eq: "index # map fst (appends jobs) = [length written..<ssChunkIndex s]"
          and chunk: "chunk \<noteq> []" by auto
        from eq have less: "length written < ssChunkIndex s" by (cases "length written < ssChunkIndex s") simp_all
        from eq chunk less have index: "index = length written" "chunk \<noteq> []" "length written < ssChunkIndex s"
          "map fst (appends jobs) = [Suc (length written)..<ssChunkIndex s]" by (simp_all add: upt_conv_Cons)
        have "stream_ok ?s (written @ [chunk]) acc"
          using stream_ok_concat [OF ok(1)] stream_ok_parts [OF ok(1)] stream_ok_recorded [OF ok(1)] ok(1) index assms(4)
          unfolding stream_ok_def by simp
        then have "stream_ok s1 (written @ [chunk]) acc" by (simp add: s1_def)
        moreover have "chunks_of (ssArchiveId s) (chunkStore d) =
            enumerate 0 (map (\<lambda>c. ChunkV3 (compactSamples c)) (written @ [chunk]))"
          using append_keeps_chunks [OF assms(1) appended [unfolded index(1)] index(2)] ok(2) None assms(4) tail(2)
          by (simp add: archive_ok_later)
        then have "archive_ok s1 d (written @ [chunk])" using tail(2) by (simp add: s1_def archive_ok_later)
        ultimately show ?thesis using jobs phase same by (intro session_ok_startedI) simp_all
      next
        case False
        with jobs phase same show ?thesis by (intro session_ok_startedI) auto
      qed
      with db_ok_append [OF assms(1) appended] s' show ?thesis by (simp add: session_kept_def s1_def)
    qed
  qed
qed


lemma run_delete_ok:
  assumes "db_ok db" "session_ok s db" "ssTriggered s" "ssJobs s = DeleteJob # jobs"
    and "d = (if ssChainError s = None \<and> fault = None then deletePowerCaptureArchive (ssArchiveId s) db else db)"
  shows "db_ok d \<and> session_ok (s\<lparr>ssJobs := jobs\<rparr>) d"
proof -
  let ?s = "s\<lparr>ssJobs := jobs\<rparr>"
  note parts = session_ok_parts [OF assms(2)] and tail = jobs_ok_tail [OF session_ok_parts(1) [OF assms(2)] assms(4)]
  have phase: "phase_ok ?s (ssFinalize ?s)"
    using parts(2) assms(4) by (cases "ssFinalize s") (auto simp: nothing_left_def)
  have "session_ok ?s d"
  proof (cases "ssWriteError s = None")
    case True
    from session_ok_streamE [OF assms(2,3) True] obtain written acc where
      ok: "stream_ok s written acc" "ssChainError s = None \<longrightarrow> archive_ok s db written" .
    have "stream_ok ?s written acc = stream_ok s written acc" using assms(4) by (simp add: stream_ok_def)
    moreover have "ssChainError s = None \<longrightarrow> archive_ok ?s d written"
      using ok(2) assms(4,5) tail(2) by (simp add: archive_ok_later deletePowerCaptureArchive_def map_of_delete)
    ultimately show ?thesis using ok(1) tail(3) phase assms(3)
      by (intro session_ok_startedI [of _ _ written acc]) simp_all
  next
    case False
    with tail(3) phase assms(3) show ?thesis by (intro session_ok_startedI) auto
  qed
  with assms(1,5) show ?thesis by (simp add: db_ok_delete)
qed

lemma run_write_ok:
  assumes "db_ok db" "session_ok s db" "run_write now fault s db = (s', db', e)"
  shows "db_ok db' \<and> session_ok s' db' \<and> session_kept s s'"
proof (cases "ssJobs s")
  case Nil
  with assms show ?thesis by (simp add: run_write_def session_kept_def)
next
  case (Cons job jobs)
  then have trig: "ssTriggered s" using session_ok_parts(3) [OF assms(2)] by (auto simp: not_started_def)
  show ?thesis
  proof (cases job)
    case (BeginJob c l)
    with Cons assms(3) show ?thesis
      by (intro run_begin_ok [OF assms(1,2) trig, of c l jobs]) (simp_all add: run_write_def)
  next
    case RenewJob
    with Cons assms(3) show ?thesis
      by (intro run_renew_ok [OF assms(1,2) trig, of jobs]) (simp_all add: run_write_def)
  next
    case (AppendJob n c cb)
    with Cons assms(3) show ?thesis
      by (intro run_append_ok [OF assms(1,2) trig, of n c cb jobs]) (simp_all add: run_write_def)
  next
    case DeleteJob
    with Cons assms(3) have "s' = s\<lparr>ssJobs := jobs\<rparr>"
      "db' = (if ssChainError s = None \<and> fault = None then deletePowerCaptureArchive (ssArchiveId s) db else db)"
      by (auto simp: run_write_def)
    with run_delete_ok [OF assms(1,2) trig Cons [unfolded DeleteJob] this(2)] show ?thesis
      by (simp add: session_kept_def)
  qed
qed

subsection \<open>The invariant of a recorder\<close>

definition recorder_ok :: "recorder \<Rightarrow> bool" where
  "recorder_ok r \<longleftrightarrow> db_ok (rcDb r) \<and> session_ok (rcSession r) (rcDb r) \<and>
     (rcAttached r \<and> \<not> ssTriggered (rcSession r) \<longrightarrow> \<not> ssFinishing (rcSession r))"

lemma say_fields [simp]:
  "rcSession (say out r) = rcSession r" "rcDb (say out r) = rcDb r" "rcAttached (say out r) = rcAttached r"
  "rcSocketOpen (say out r) = rcSocketOpen r" "rcSendError (say out r) = rcSendError r"
  "rcLog (say out r) = rcLog r @ out" "rcArming (say out r) = rcArming r" "recorder_ok (say out r) = recorder_ok r"
  by (simp_all add: say_def recorder_ok_def)

lemma send_if_open_fields [simp]:
  "rcSession (send_if_open m r) = rcSession r" "rcDb (send_if_open m r) = rcDb r"
  "rcAttached (send_if_open m r) = rcAttached r" "recorder_ok (send_if_open m r) = recorder_ok r"
  by (simp_all add: send_if_open_def)

lemma with_session_fields [simp]:
  "rcSession (with_session f r) = f (rcSession r)" "rcDb (with_session f r) = rcDb r"
  "rcAttached (with_session f r) = rcAttached r" "rcSocketOpen (with_session f r) = rcSocketOpen r"
  "rcSendError (with_session f r) = rcSendError r" "rcLog (with_session f r) = rcLog r"
  by (simp_all add: with_session_def)

lemma recorder_ok_core:
  assumes "\<And>s. same_core s (f s)"
  shows "recorder_ok (with_session f r) = recorder_ok r"
  using session_ok_core [OF assms, of "rcSession r" "rcDb r"] assms [of "rcSession r"]
  by (simp add: recorder_ok_def same_core_def)

lemma core_steps:
  "same_core s (fail_handshake reason s)" "same_core s (request_incomplete why s)"
  "same_core s (s\<lparr>ssStopTimer := b\<rparr>)" "same_core s (s\<lparr>ssStopHandshake := h\<rparr>)"
  "same_core s (s\<lparr>ssDroppedSamples := i\<rparr>)" "same_core s (s\<lparr>ssPreBuffer := xs\<rparr>)" "same_core s (s\<lparr>ssLastProgressAt := i\<rparr>)"
  by (simp_all add: same_core_def fail_handshake_def request_incomplete_def)

lemma same_core_trans: "same_core s t \<Longrightarrow> same_core t u \<Longrightarrow> same_core s u"
  by (simp add: same_core_def)

lemma session_ok_phase:
  assumes "session_ok s db" "ssTriggered s" "phase_ok s p"
  shows "session_ok (s\<lparr>ssFinalize := p\<rparr>) db"
proof -
  have jobs: "jobs_ok (s\<lparr>ssFinalize := p\<rparr>) db" using session_ok_parts(1) [OF assms(1)] by (simp add: jobs_ok_def)
  have "phase_ok (s\<lparr>ssFinalize := p\<rparr>) p" using assms(3) by (cases p) (simp_all add: nothing_left_def)
  with jobs show ?thesis
  proof (cases "ssWriteError s = None")
    case True
    from session_ok_streamE [OF assms(1,2) True] obtain written acc where
      "stream_ok s written acc" "ssChainError s = None \<longrightarrow> archive_ok s db written" .
    with jobs \<open>phase_ok (s\<lparr>ssFinalize := p\<rparr>) p\<close> assms(2) show ?thesis
      by (intro session_ok_startedI [of _ _ written acc]) simp_all
  qed (use assms(2) in \<open>auto intro: session_ok_startedI\<close>)
qed

lemma start_finalize_ok:
  assumes "recorder_ok r" "ssTriggered (rcSession r)"
  shows "recorder_ok (start_finalize r)"
proof -
  let ?t = "(rcSession r)\<lparr>ssStopTimer := False\<rparr>"
  from assms(1) have s: "session_ok (rcSession r) (rcDb r)" by (simp add: recorder_ok_def)
  have t: "session_ok ?t (rcDb r)" using s session_ok_core [OF core_steps(3)] by blast
  show ?thesis
  proof (cases "rcSocketOpen r")
    case True
    let ?u = "?t\<lparr>ssStopHandshake := Some (createPowerCaptureStopHandshake
      (''web-stop-'' @ string_of_int (ssCaptureId (rcSession r)))), ssFinalize := AwaitStop\<rparr>"
    have "session_ok (?t\<lparr>ssStopHandshake := h\<rparr>) (rcDb r)" for h using t session_ok_core [OF core_steps(4)] by blast
    from session_ok_phase [OF this, of _ AwaitStop] assms(2) have u: "session_ok ?u (rcDb r)" by simp
    then have "session_ok (fail_handshake x ?u) (rcDb r)" for x using session_ok_core [OF core_steps(1)] by blast
    with u True assms show ?thesis
      by (auto simp: start_finalize_def Let_def recorder_ok_def fail_handshake_def split: option.split)
  next
    case False
    let ?u = "request_incomplete (Some ''Live WebSocket disconnected before capture_stop was acknowledged'') ?t"
    have "session_ok ?u (rcDb r)" using t session_ok_core [OF core_steps(2)] by blast
    moreover have "ssTriggered ?u" using assms(2) by (simp add: request_incomplete_def)
    ultimately have "session_ok (seal_capture ?u) (rcDb r)" by (rule seal_ok)
    moreover have "ssTriggered (seal_capture ?u)"
      using \<open>ssTriggered ?u\<close> flush_frame [of "?u\<lparr>ssFinishing := True\<rparr>"] by (simp add: seal_capture_def queue_frame_def)
    ultimately show ?thesis using False assms by (simp add: start_finalize_def Let_def recorder_ok_def)
  qed
qed


lemma finalize_ok:
  assumes "recorder_ok r"
  shows "recorder_ok (finalizeStreamingCaptureArchive incomplete reason r)"
proof -
  let ?r = "if incomplete
    then with_session (fail_handshake (or_default reason ''Power capture was interrupted while stopping'') \<circ>
      request_incomplete reason) r
    else r"
  have "same_core s ((fail_handshake x \<circ> request_incomplete reason) s)" for x s
    using same_core_trans [OF core_steps(2,1)] by simp
  then have "recorder_ok ?r" using assms recorder_ok_core by simp
  moreover have "ssTriggered (rcSession ?r) = ssTriggered (rcSession r)"
    by (simp add: fail_handshake_def request_incomplete_def)
  ultimately show ?thesis
    using assms start_finalize_ok [of ?r] unfolding finalizeStreamingCaptureArchive_def Let_def by simp
qed

lemma discard_ok:
  assumes "recorder_ok r"
  shows "recorder_ok (discardStreamingCaptureArchive r)"
proof (cases "rcAttached r")
  case True
  let ?s = "rcSession r" and ?db = "rcDb r"
  let ?jobs = "ssJobs ?s @ (if ssArchiveStarted ?s then [DeleteJob] else [])"
  let ?t = "?s\<lparr>ssFinishing := True, ssJobs := ?jobs\<rparr>"
  from assms have s: "session_ok ?s ?db" and db: "db_ok ?db" by (simp_all add: recorder_ok_def)
  note parts = session_ok_parts [OF s]
  have jobs: "jobs_ok ?t ?db" using parts(1) by (cases "ssJobs ?s") (auto simp: jobs_ok_def)
  have phase: "phase_ok ?t (ssFinalize ?t)" using parts(2) by (cases "ssFinalize ?s") (auto simp: nothing_left_def)
  have "session_ok ?t ?db"
  proof (cases "ssTriggered ?s")
    case False
    then have "ssArchiveStarted ?s = False" using parts(3) by (simp add: not_started_def)
    with False jobs phase parts(3) show ?thesis by (simp add: session_ok_def not_started_def jobs_ok_def)
  next
    case trig: True
    show ?thesis
    proof (cases "ssWriteError ?s = None")
      case True
      from session_ok_streamE [OF s trig True] obtain written acc where
        ok: "stream_ok ?s written acc" "ssChainError ?s = None \<longrightarrow> archive_ok ?s ?db written" .
      have "stream_ok ?t written acc = stream_ok ?s written acc" "archive_ok ?t ?db written = archive_ok ?s ?db written"
        by (simp_all add: stream_ok_def archive_ok_def)
      with ok jobs phase trig show ?thesis by (intro session_ok_startedI [of _ _ written acc]) simp_all
    next
      case False
      with jobs phase trig show ?thesis by (intro session_ok_startedI) auto
    qed
  qed
  moreover have "same_core ?t (rcSession (discardStreamingCaptureArchive r))"
    using True by (simp add: discardStreamingCaptureArchive_def same_core_def fail_handshake_def Let_def)
  ultimately have "session_ok (rcSession (discardStreamingCaptureArchive r)) ?db" using session_ok_core by blast
  with db True show ?thesis by (simp add: recorder_ok_def discardStreamingCaptureArchive_def)
qed (use assms in \<open>simp add: discardStreamingCaptureArchive_def\<close>)

lemma recorder_ok_arming [simp]: "recorder_ok (r\<lparr>rcArming := b\<rparr>) = recorder_ok r"
  by (simp add: recorder_ok_def)

lemma reset_ok: "recorder_ok r \<Longrightarrow> recorder_ok (resetCapture reason r)"
  by (simp add: resetCapture_def Let_def discard_ok)

lemma storage_error_ok: "recorder_ok r \<Longrightarrow> recorder_ok (stop_for_storage_error e r)"
  by (cases e) (simp_all add: stop_for_storage_error_def finalize_ok)

lemma with_samples_ok:
  assumes "recorder_ok r" "ssTriggered (rcSession r)"
  shows "\<exists>r'. with_samples samples r = Some r' \<and> recorder_ok r'"
proof -
  from assms(1) have "session_ok (rcSession r) (rcDb r)" "db_ok (rcDb r)" by (simp_all add: recorder_ok_def)
  with queueStreamingSamples_ok [OF _ assms(2)] obtain s' e where
    q: "queueStreamingSamples samples (rcSession r) = Some (s', e)" "session_ok s' (rcDb r)" "queue_frame (rcSession r) s'"
    by blast
  have "recorder_ok (r\<lparr>rcSession := s'\<rparr>)"
    using q(2,3) assms \<open>db_ok (rcDb r)\<close> by (simp add: recorder_ok_def queue_frame_def)
  with q(1) show ?thesis by (simp add: with_samples_def storage_error_ok)
qed

lemma report_progress_ok: "recorder_ok (report_progress now r) = recorder_ok r"
proof -
  have "recorder_ok (with_session (\<lambda>s. s\<lparr>ssLastProgressAt := now\<rparr>) r) = recorder_ok r"
    by (rule recorder_ok_core) (rule core_steps)
  then show ?thesis by (simp add: report_progress_def)
qed

lemma telemetry_ok:
  assumes "recorder_ok r"
  shows "\<exists>r'. on_telemetry now dropped samples r = Some r' \<and> recorder_ok r'"
proof (cases "accepts_telemetry r")
  case True
  let ?d = "(rcSession r)\<lparr>ssDroppedSamples := ssDroppedSamples (rcSession r) + max 0 dropped\<rparr>"
  define r1 where "r1 = with_session (\<lambda>s. queueStreamingLeaseRenewal now
    (s\<lparr>ssDroppedSamples := ssDroppedSamples s + max 0 dropped\<rparr>)) r"
  from assms have ok: "session_ok (rcSession r) (rcDb r)" "db_ok (rcDb r)" by (simp_all add: recorder_ok_def)
  have "session_ok ?d (rcDb r)" using ok(1) session_ok_core [OF core_steps(5)] by blast
  then have "session_ok (queueStreamingLeaseRenewal now ?d) (rcDb r)" by (rule session_ok_renew)
  moreover have "ssFinishing (queueStreamingLeaseRenewal now ?d) = ssFinishing (rcSession r)"
    "ssTriggered (queueStreamingLeaseRenewal now ?d) = ssTriggered (rcSession r)"
    by (simp_all add: queueStreamingLeaseRenewal_def)
  ultimately have r1: "recorder_ok r1" using assms by (simp add: recorder_ok_def r1_def)
  show ?thesis
  proof (cases "ssTriggered (rcSession r1)")
    case trig: True
    from with_samples_ok [OF r1 trig] obtain r' where "with_samples samples r1 = Some r'" "recorder_ok r'" by blast
    with True trig show ?thesis by (simp add: on_telemetry_def r1_def [symmetric] Let_def report_progress_ok)
  next
    case False
    have "recorder_ok (with_session (\<lambda>s. s\<lparr>ssPreBuffer := keep_pre_buffer (ssConfig s) (ssPreBuffer s @ samples)\<rparr>) r1)"
      using r1 recorder_ok_core [OF core_steps(6)] by simp
    with True False show ?thesis by (simp add: on_telemetry_def r1_def [symmetric] Let_def)
  qed
qed (use assms in \<open>simp add: on_telemetry_def\<close>)


lemma begin_ok:
  assumes "session_ok s db" "\<not> ssTriggered s"
  shows "session_ok (begin_archive now (mark_triggered now' captureId t n dropped s)) db"
proof -
  let ?s = "begin_archive now (mark_triggered now' captureId t n dropped s)"
  note parts = session_ok_parts [OF assms(1)] and fresh = session_ok_parts(3) [OF assms, unfolded not_started_def]
  have jobs: "jobs_ok ?s db"
    using parts(1) fresh by (simp add: jobs_ok_def begin_archive_def mark_triggered_def streamingCaptureRecord_def Let_def)
  have stream: "stream_ok ?s [] []"
    using fresh by (simp add: stream_ok_def recorded_def begin_archive_def mark_triggered_def POWER_ARCHIVE_CHUNK_SAMPLES_def)
  have "archive_ok ?s db []" by (simp add: archive_ok_def begin_archive_def)
  moreover have "phase_ok ?s (ssFinalize ?s)" "ssTriggered ?s"
    using fresh by (simp_all add: begin_archive_def mark_triggered_def)
  ultimately show ?thesis using jobs stream by (intro session_ok_startedI)
qed

lemma stop_timer_ok: "recorder_ok (start_stop_timer r) = recorder_ok r"
proof -
  have "same_core s (case cfgStopAfterMs (ssConfig s) of
      Some ms \<Rightarrow> if ms > 0 then s\<lparr>ssStopTimer := True\<rparr> else s | None \<Rightarrow> s)" for s
    by (simp add: same_core_def split: option.split)
  from recorder_ok_core [OF this] show ?thesis by (simp add: start_stop_timer_def)
qed

lemma triggered_ok:
  assumes "recorder_ok r" "\<not> ssTriggered (rcSession r)"
  shows "\<exists>r'. on_triggered now captureId t n dropped r = Some r' \<and> recorder_ok r'"
proof (cases "rcAttached r")
  case True
  define s where "s = begin_archive now (mark_triggered now captureId t n dropped (rcSession r))"
  from assms(1) have ok: "session_ok (rcSession r) (rcDb r)" "db_ok (rcDb r)" by (simp_all add: recorder_ok_def)
  have s: "session_ok s (rcDb r)" unfolding s_def by (rule begin_ok [OF ok(1) assms(2)])
  have trig: "ssTriggered s" by (simp add: s_def begin_archive_def mark_triggered_def)
  with s ok(2) have "recorder_ok (r\<lparr>rcSession := s\<rparr>)" by (simp add: recorder_ok_def)
  from with_samples_ok [OF this] trig obtain r' where
    "with_samples samples (r\<lparr>rcSession := s\<rparr>) = Some (r' samples) \<and> recorder_ok (r' samples)" for samples
    by simp metis
  with True show ?thesis by (simp add: on_triggered_def Let_def s_def [symmetric] stop_timer_ok)
qed (use assms in \<open>simp add: on_triggered_def\<close>)

lemma run_next_write_ok:
  assumes "recorder_ok r"
  shows "recorder_ok (run_next_write now fault r)"
proof -
  obtain s db e where w: "run_write now fault (rcSession r) (rcDb r) = (s, db, e)" by (cases "run_write now fault (rcSession r) (rcDb r)") auto
  from run_write_ok [OF _ _ w] assms have "recorder_ok (r\<lparr>rcSession := s, rcDb := db\<rparr>)"
    by (auto simp: recorder_ok_def session_kept_def)
  with w show ?thesis by (simp add: run_next_write_def storage_error_ok)
qed

text \<open>The last steps of a recording.\<close>

lemma phase_triggered: "session_ok s db \<Longrightarrow> ssFinalize s \<noteq> NotFinalizing \<Longrightarrow> ssTriggered s"
  by (auto simp: session_ok_def not_started_def)

lemma resume_stop_ok:
  assumes "session_ok s db" "ssTriggered s"
  shows "session_ok (resume_stop s) db \<and> ssTriggered (resume_stop s)"
proof -
  have seal: "session_ok (seal_capture t) db \<and> ssTriggered (seal_capture t)" if "session_ok t db" "ssTriggered t" for t
    using seal_ok [OF that] that(2) flush_frame [of "t\<lparr>ssFinishing := True\<rparr>"] by (simp add: seal_capture_def queue_frame_def)
  have "session_ok (request_incomplete why s) db" "ssTriggered (request_incomplete why s)" for why
    using assms session_ok_core [OF core_steps(2)] by (simp_all add: request_incomplete_def)
  with seal assms show ?thesis by (auto simp: resume_stop_def split: option.split handshake_state.split)
qed

lemma interrupt_ok:
  assumes "session_ok s db" "ssTriggered s" "ssFinishing s"
  shows "session_ok (interrupt_capture m s) db" "ssTriggered (interrupt_capture m s)"
  using session_ok_phase [OF assms(1,2)] assms(2,3) by (simp_all add: interrupt_capture_def Let_def)

lemma resume_writes_ok:
  assumes "session_ok s db" "ssFinalize s = AwaitWrites"
  shows "session_ok (resume_writes s) db \<and> ssTriggered (resume_writes s)"
proof -
  have trig: "ssTriggered s" using phase_triggered [OF assms(1)] assms(2) by simp
  from session_ok_parts(2) [OF assms(1)] assms(2) have fin: "ssFinishing s" "ssWriteError s = None \<longrightarrow> ssPendingChunk s = []"
    by simp_all
  show ?thesis
  proof (cases "ssJobs s = [] \<and> ssChainError s = None \<and> ssWriteError s = None")
    case True
    let ?c = "streamingCaptureRecord s (ssRequestedIncomplete s) (ssInterruptionReason s)"
    have "phase_ok s (AwaitFinish ?c)"
      using True fin by (simp add: nothing_left_def streamingCaptureRecord_def Let_def)
    with session_ok_phase [OF assms(1) trig this] True trig show ?thesis by (simp add: resume_writes_def)
  next
    case False
    with interrupt_ok [OF assms(1) trig fin(1)] assms(1) trig show ?thesis
      by (auto simp: resume_writes_def split: option.split)
  qed
qed


lemma session_ok_sealed:
  assumes "session_ok s db" "ssTriggered s" "chunkStore db' = chunkStore db"
    and "map_of (captureStore db) (ssArchiveId s) \<noteq> None"
  shows "session_ok s db'"
proof -
  from session_ok_parts(1) [OF assms(1)] assms(4) have no_begin: "BeginJob c l \<notin> set (ssJobs s)" for c l
    unfolding jobs_ok_def by metis
  then have "is_begin j \<Longrightarrow> j \<notin> set (ssJobs s)" for j by (cases j) auto
  then have "\<not> begins (ssJobs s)" by (auto simp: list_ex_iff)
  then have archive: "archive_ok s db written \<Longrightarrow> archive_ok s db' written" for written
    using assms(3,4) by (simp add: archive_ok_later)
  have jobs: "jobs_ok s db'" using session_ok_parts(1) [OF assms(1)] no_begin by (simp add: jobs_ok_def)
  show ?thesis
  proof (cases "ssWriteError s = None")
    case True
    from session_ok_streamE [OF assms(1,2) True] obtain written acc where
      "stream_ok s written acc" "ssChainError s = None \<longrightarrow> archive_ok s db written" .
    with archive jobs session_ok_parts(2) [OF assms(1)] assms(2) show ?thesis
      by (intro session_ok_startedI [of _ _ written acc]) simp_all
  next
    case False
    with jobs session_ok_parts(2) [OF assms(1)] assms(2) show ?thesis by (intro session_ok_startedI) auto
  qed
qed

lemma finally_ok:
  assumes "db_ok (rcDb r)" "session_ok (rcSession r) (rcDb r)" "ssTriggered (rcSession r)" "ssFinishing (rcSession r)"
  shows "recorder_ok (finally_done r)"
  using session_ok_phase [OF assms(2,3), of Finalized] assms
  by (simp add: finally_done_def recorder_ok_def)

lemma get_archive_stored: "get_archive now i db = Inr found \<Longrightarrow> map_of (captureStore db) i \<noteq> None"
  by (auto simp: get_archive_def split: option.splits)

lemma resume_finish_ok:
  assumes "recorder_ok r" "ssFinalize (rcSession r) = AwaitFinish completed"
  shows "recorder_ok (resume_finish now fault completed r)"
proof -
  let ?s = "rcSession r"
  from assms(1) have ok: "session_ok ?s (rcDb r)" "db_ok (rcDb r)" by (simp_all add: recorder_ok_def)
  have trig: "ssTriggered ?s" using phase_triggered [OF ok(1)] assms(2) by simp
  from session_ok_parts(2) [OF ok(1)] assms(2) have fin: "ssFinishing ?s" "pcArchiveId completed = Some (ssArchiveId ?s)"
    by (simp_all add: nothing_left_def)
  from session_ok_parts(1) [OF ok(1)] fin(2) have id: "required_id completed = Inr (ssArchiveId ?s)"
    by (simp add: jobs_ok_def required_id_def)
  show ?thesis
  proof (cases "job_result fault (finishPowerCaptureArchive now completed (int (ssChunkIndex ?s)) (rcDb r))")
    case (Inl e)
    with interrupt_ok [OF ok(1) trig fin(1)] ok(2) show ?thesis by (simp add: resume_finish_def recorder_ok_def)
  next
    case (Inr res)
    obtain info db' where res: "res = (info, db')" by (cases res)
    from job_result_cases [OF Inr] have finished: "finishPowerCaptureArchive now completed (int (ssChunkIndex ?s)) (rcDb r) = Inr (info, db')"
      by (simp add: res)
    from finished id obtain found where "get_archive now (ssArchiveId ?s) (rcDb r) = Inr found" and "chunkStore db' = chunkStore (rcDb r)"
      by (auto simp: finishPowerCaptureArchive_def bindR_Inr_iff Let_def put_archive_def)
    with session_ok_sealed [OF ok(1) trig] get_archive_stored have "session_ok ?s db'" by blast
    moreover have "db_ok db'" by (rule db_ok_finish [OF ok(2) finished])
    ultimately show ?thesis using Inr trig fin(1) by (simp add: resume_finish_def res finally_ok)
  qed
qed

lemma resume_interrupt_ok:
  assumes "recorder_ok r" "ssFinalize (rcSession r) = AwaitInterrupt partial reason isFailed message"
  shows "recorder_ok (resume_interrupt now fault partial reason isFailed message r)"
proof -
  let ?s = "rcSession r"
  from assms(1) have ok: "session_ok ?s (rcDb r)" "db_ok (rcDb r)" by (simp_all add: recorder_ok_def)
  have trig: "ssTriggered ?s" using phase_triggered [OF ok(1)] assms(2) by simp
  from session_ok_parts(2) [OF ok(1)] assms(2) have fin: "ssFinishing ?s" by simp
  show ?thesis
  proof (cases "job_result fault (interruptPowerCaptureArchive now (ssArchiveId ?s) partial reason isFailed (rcDb r))")
    case (Inl e)
    with finally_ok [of "say [SetError (Some message)] r"] ok trig fin show ?thesis by (simp add: resume_interrupt_def)
  next
    case (Inr res)
    obtain info db' where res: "res = (info, db')" by (cases res)
    from job_result_cases [OF Inr] have ended:
      "interruptPowerCaptureArchive now (ssArchiveId ?s) partial reason isFailed (rcDb r) = Inr (info, db')"
      by (simp add: res)
    then obtain found where "get_archive now (ssArchiveId ?s) (rcDb r) = Inr found" and "chunkStore db' = chunkStore (rcDb r)"
      by (auto simp: interruptPowerCaptureArchive_def bindR_Inr_iff Let_def put_archive_def)
    with session_ok_sealed [OF ok(1) trig] get_archive_stored have "session_ok ?s db'" by blast
    moreover have "db_ok db'" by (rule db_ok_interrupt [OF ok(2) ended])
    ultimately show ?thesis using Inr trig fin by (simp add: resume_interrupt_def res finally_ok)
  qed
qed

lemma resume_ok:
  assumes "recorder_ok r"
  shows "recorder_ok (resume_finalize now fault r)"
proof -
  from assms have ok: "session_ok (rcSession r) (rcDb r)" "db_ok (rcDb r)" by (simp_all add: recorder_ok_def)
  show ?thesis
  proof (cases "ssFinalize (rcSession r)")
    case AwaitStop
    with resume_stop_ok [OF ok(1)] phase_triggered [OF ok(1)] ok(2) show ?thesis
      by (simp add: resume_finalize_def recorder_ok_def)
  next
    case AwaitWrites
    with resume_writes_ok [OF ok(1)] ok(2) show ?thesis by (simp add: resume_finalize_def recorder_ok_def)
  next
    case (AwaitFinish c)
    with resume_finish_ok [OF assms] show ?thesis by (simp add: resume_finalize_def)
  next
    case (AwaitInterrupt c reason isFailed m)
    with resume_interrupt_ok [OF assms] show ?thesis by (simp add: resume_finalize_def)
  qed (use assms in \<open>simp_all add: resume_finalize_def\<close>)
qed

lemma event_ok:
  assumes "recorder_ok r"
  shows "\<exists>r'. recorder_event_step r e = Some r' \<and> recorder_ok r'"
proof (cases e)
  case (Telemetry now dropped samples)
  with telemetry_ok [OF assms] show ?thesis by simp
next
  case (Triggered now captureId t n dropped)
  with triggered_ok [OF assms] assms show ?thesis by simp
next
  case Armed
  with assms show ?thesis by (simp add: on_armed_def)
next
  case (StopResult i)
  have "recorder_ok (with_session (\<lambda>s. s\<lparr>ssStopHandshake := h\<rparr>) r)" for h
    using recorder_ok_core [OF core_steps(4)] assms by simp
  with StopResult assms show ?thesis by (simp add: on_stop_result_def split: option.split prod.split)
next
  case (StopError m)
  with recorder_ok_core [OF core_steps(1)] assms show ?thesis by (simp add: on_stop_error_def)
next
  case (CaptureError m)
  with reset_ok [OF assms] show ?thesis by (simp add: on_capture_error_def)
next
  case StopTimeout
  have "same_core s (s\<lparr>ssStopHandshake := map_option stop_timeout (ssStopHandshake s)\<rparr>)" for s by (rule core_steps)
  with StopTimeout recorder_ok_core assms show ?thesis by simp
next
  case UserStop
  with finalize_ok assms show ?thesis by (simp add: stopCapture_def)
next
  case UserCancel
  with reset_ok assms show ?thesis by (simp add: cancelCapture_def)
next
  case (SocketFails m)
  with finalize_ok reset_ok assms show ?thesis by (simp add: handleSocketFailure_def)
next
  case SessionEnds
  with finalize_ok reset_ok assms show ?thesis by (simp add: handleSessionCleanup_def)
next
  case (OtherSession db)
  with assms session_ok_untouched sound_db_ok show ?thesis by (auto simp: recorder_ok_def)
qed (use assms finalize_ok run_next_write_ok resume_ok in \<open>simp_all add: recorder_ok_def\<close>)


subsection \<open>A capture is delivered once\<close>

fun is_delivery :: "recorder_output \<Rightarrow> bool" where
  "is_delivery (CaptureDone _) = True"
| "is_delivery _ = False"

abbreviation deliveries :: "recorder \<Rightarrow> recorder_output list" where
  "deliveries r \<equiv> filter is_delivery (rcLog r)"

definition finalized :: "recorder \<Rightarrow> bool" where
  "finalized r \<longleftrightarrow> ssFinalize (rcSession r) = Finalized"

definition quiet_step :: "recorder \<Rightarrow> recorder \<Rightarrow> bool" where
  "quiet_step r r' \<longleftrightarrow> deliveries r' = deliveries r \<and> finalized r' = finalized r"

lemma quiet_refl: "quiet_step r r"
  by (simp add: quiet_step_def)

lemma quiet_trans: "quiet_step r s \<Longrightarrow> quiet_step s t \<Longrightarrow> quiet_step r t"
  by (simp add: quiet_step_def)

lemma quiet_say: "filter is_delivery out = [] \<Longrightarrow> quiet_step r (say out r)"
  by (simp add: quiet_step_def finalized_def)

lemma quiet_session: "(\<And>s. ssFinalize (f s) = ssFinalize s) \<Longrightarrow> quiet_step r (with_session f r)"
  by (simp add: quiet_step_def finalized_def)

lemma quiet_send: "quiet_step r (send_if_open m r)"
  by (simp add: send_if_open_def quiet_say quiet_refl)

lemma finalize_field [simp]:
  "ssFinalize (fail_handshake x s) = ssFinalize s" "ssFinalize (request_incomplete y s) = ssFinalize s"
  "ssFinalize (queueStreamingLeaseRenewal now s) = ssFinalize s"
  "ssFinalize (flushStreamingCaptureChunk s) = ssFinalize s"
  by (simp_all add: fail_handshake_def request_incomplete_def queueStreamingLeaseRenewal_def
      flushStreamingCaptureChunk_def queueStreamingChunk_def)

lemma quiet_finalize: "quiet_step r (finalizeStreamingCaptureArchive incomplete reason r)"
proof -
  have start: "quiet_step r (start_finalize r)" if "ssFinalize (rcSession r) = NotFinalizing" for r
    using that by (simp add: start_finalize_def Let_def quiet_step_def finalized_def seal_capture_def split: option.split)
  let ?r = "if incomplete
    then with_session (fail_handshake (or_default reason ''Power capture was interrupted while stopping'') \<circ>
      request_incomplete reason) r
    else r"
  have "quiet_step r ?r" by (simp add: quiet_session quiet_refl)
  with quiet_trans [OF this start] show ?thesis
    unfolding finalizeStreamingCaptureArchive_def Let_def by (simp add: quiet_refl)
qed

lemma quiet_storage: "quiet_step r (stop_for_storage_error e r)"
proof (cases e)
  case (Some m)
  have "quiet_step r (say [SetError (Some m)] r)" by (simp add: quiet_say)
  from quiet_trans [OF this quiet_finalize] Some show ?thesis by (simp add: stop_for_storage_error_def)
qed (simp add: stop_for_storage_error_def quiet_refl)

lemma quiet_discard: "quiet_step r (discardStreamingCaptureArchive r)"
  by (simp add: discardStreamingCaptureArchive_def send_if_open_def quiet_step_def finalized_def Let_def)

lemma quiet_reset: "quiet_step r (resetCapture reason r)"
proof -
  have "quiet_step r (if rcArming r then say [ArmRejected (or_default reason ''Power capture arming was cancelled'')] (r\<lparr>rcArming := False\<rparr>) else r)"
    (is "quiet_step r ?a") by (simp add: quiet_step_def finalized_def)
  from quiet_trans [OF this quiet_discard] have "quiet_step r (discardStreamingCaptureArchive ?a)" .
  from quiet_trans [OF this quiet_say] show ?thesis by (simp add: resetCapture_def Let_def)
qed

lemma accept_finalize: "ssFinalize (fst (foldl accept_sample (s, n) xs)) = ssFinalize s"
proof (induction xs arbitrary: s n)
  case (Cons x xs)
  obtain s' n' where one: "accept_sample (s, n) x = (s', n')" by fastforce
  then have "ssFinalize s' = ssFinalize s" by (auto simp: accept_sample_def Let_def split: if_splits)
  with Cons one show ?case by simp
qed simp

lemma full_chunks_finalize: "ssFinalize (fst (queue_full_chunks s)) = ssFinalize s"
proof (induction s rule: queue_full_chunks.induct)
  case (1 s)
  then show ?case
    by (subst queue_full_chunks.simps) (simp add: Let_def queueStreamingChunk_def)
qed

lemma queue_finalize:
  assumes "queueStreamingSamples xs s = Some (s', e)"
  shows "ssFinalize s' = ssFinalize s"
proof (cases "ssFinishing s \<or> ssWriteError s \<noteq> None")
  case False
  obtain s1 n where f: "foldl accept_sample (s, []) xs = (s1, n)" by fastforce
  with accept_finalize [of s "[]" xs] have s1: "ssFinalize s1 = ssFinalize s" by simp
  from False f assms s1 show ?thesis
    using full_chunks_finalize [of "s1\<lparr>ssAccumulator := a, ssPreview := b, ssPreviewStride := c, ssPendingChunk := d\<rparr>" for a b c d]
    by (auto simp: queueStreamingSamples_def split: if_splits) (metis fst_conv)
qed (use assms in \<open>simp add: queueStreamingSamples_def\<close>)

lemma quiet_samples: "with_samples xs r = Some r' \<Longrightarrow> quiet_step r r'"
proof -
  assume "with_samples xs r = Some r'"
  then obtain s e where q: "queueStreamingSamples xs (rcSession r) = Some (s, e)" "r' = stop_for_storage_error e (r\<lparr>rcSession := s\<rparr>)"
    by (auto simp: with_samples_def)
  have "quiet_step r (r\<lparr>rcSession := s\<rparr>)" using queue_finalize [OF q(1)] by (simp add: quiet_step_def finalized_def)
  from quiet_trans [OF this quiet_storage] q(2) show ?thesis by simp
qed


lemma quiet_run: "quiet_step r (run_next_write now fault r)"
proof -
  obtain s db e where w: "run_write now fault (rcSession r) (rcDb r) = (s, db, e)"
    by (cases "run_write now fault (rcSession r) (rcDb r)") auto
  have "ssFinalize s = ssFinalize (rcSession r)"
    using w unfolding run_write_def
    by (auto simp: run_begin_def run_renew_def run_append_def write_failed_def Let_def
        split: list.splits write_job.splits sum.splits prod.splits option.splits if_splits)
  then have "quiet_step r (r\<lparr>rcSession := s, rcDb := db\<rparr>)" by (simp add: quiet_step_def finalized_def)
  from quiet_trans [OF this quiet_storage] w show ?thesis by (simp add: run_next_write_def)
qed

lemma quiet_telemetry: "on_telemetry now dropped xs r = Some r' \<Longrightarrow> quiet_step r r'"
proof -
  assume telemetry: "on_telemetry now dropped xs r = Some r'"
  let ?r1 = "with_session (\<lambda>s. queueStreamingLeaseRenewal now (s\<lparr>ssDroppedSamples := ssDroppedSamples s + max 0 dropped\<rparr>)) r"
  have 1: "quiet_step r ?r1" by (rule quiet_session) simp
  have 2: "quiet_step a (report_progress now a)" for a
    by (simp add: report_progress_def quiet_step_def finalized_def)
  have 3: "quiet_step a (with_session (\<lambda>s. s\<lparr>ssPreBuffer := keep_pre_buffer (ssConfig s) (ssPreBuffer s @ xs)\<rparr>) a)" for a
    by (rule quiet_session) simp
  from telemetry show ?thesis
    using quiet_trans [OF 1 3] quiet_trans [OF quiet_trans [OF 1 quiet_samples] 2]
    by (auto simp: on_telemetry_def Let_def quiet_refl split: if_splits)
qed

lemma quiet_triggered: "on_triggered now captureId t n dropped r = Some r' \<Longrightarrow> quiet_step r r'"
proof -
  assume triggered: "on_triggered now captureId t n dropped r = Some r'"
  have 1: "quiet_step r (r\<lparr>rcSession := begin_archive now (mark_triggered now captureId t n dropped (rcSession r))\<rparr>)"
    by (simp add: quiet_step_def finalized_def begin_archive_def mark_triggered_def)
  have 2: "quiet_step a (start_stop_timer a)" for a
    unfolding start_stop_timer_def by (rule quiet_session) (simp split: option.split)
  have 3: "quiet_step a (say [SetState CaptureRecording, SetProgress p] a)" for a p by (simp add: quiet_say)
  from triggered show ?thesis
    using quiet_trans [OF quiet_trans [OF quiet_trans [OF 1 quiet_samples] 3] 2]
    by (auto simp: on_triggered_def Let_def quiet_say split: if_splits)
qed

lemma quiet_event:
  assumes "recorder_event_step r e = Some r'" "\<And>now fault. e \<noteq> ResumeFinalize now fault"
  shows "quiet_step r r'"
proof (cases e)
  case (Telemetry now dropped xs)
  with assms quiet_telemetry show ?thesis by simp
next
  case (Triggered now captureId t n dropped)
  with assms quiet_triggered show ?thesis by (auto simp: quiet_refl split: if_splits)
next
  case (StopResult i)
  with assms show ?thesis
    by (auto simp: on_stop_result_def quiet_step_def finalized_def split: if_splits option.splits prod.splits)
next
  case (StopError m)
  with assms show ?thesis
    by (cases "rcAttached r") (auto simp: on_stop_error_def quiet_step_def finalized_def)
next
  case (CaptureError m)
  with assms(1) have "r' = say [SetError (Some m)] (resetCapture (Some m) r)" by (simp add: on_capture_error_def)
  with quiet_trans [OF quiet_reset quiet_say] show ?thesis by simp
next
  case UserStop
  with assms quiet_finalize quiet_send show ?thesis by (auto simp: stopCapture_def)
next
  case UserCancel
  with assms have "r' = resetCapture (Some ''Power capture was cancelled'')
      (if rcAttached r then send_if_open CancelCapture r else r)" by (simp add: cancelCapture_def)
  moreover have "quiet_step r (if rcAttached r then send_if_open CancelCapture r else r)"
    by (simp add: quiet_send quiet_refl)
  ultimately show ?thesis using quiet_trans quiet_reset by blast
next
  case (SocketFails m)
  with assms quiet_finalize quiet_reset show ?thesis by (auto simp: handleSocketFailure_def)
next
  case SessionEnds
  with assms quiet_finalize quiet_reset show ?thesis by (auto simp: handleSessionCleanup_def quiet_refl split: if_splits)
next
  case (ResumeFinalize now fault)
  with assms(2) show ?thesis by blast
qed (use assms quiet_finalize quiet_run in
    \<open>auto simp: on_armed_def quiet_step_def finalized_def split: if_splits\<close>)

lemma finally_facts [simp]:
  "deliveries (finally_done r) = deliveries r" "finalized (finally_done r)"
  by (simp_all add: finally_done_def finalized_def) (simp add: send_if_open_def)

text \<open>A resumption delivers only in its last step, and never after it.\<close>

lemma resume_deliveries:
  assumes "resume_finalize now fault r = r'"
  shows "(finalized r \<longrightarrow> r' = r) \<and>
    (\<not> finalized r \<longrightarrow> deliveries r' = deliveries r \<or>
       finalized r' \<and> (\<exists>c. deliveries r' = deliveries r @ [CaptureDone c]))"
proof -
  have log: "filter is_delivery (case reason of None \<Rightarrow> [] | Some m \<Rightarrow> if m = [] then [] else [SetError (Some m)]) = []" for reason
    by (simp split: option.split)
  show ?thesis
    using assms
    by (auto simp: resume_finalize_def resume_finish_def resume_interrupt_def finalized_def [of r] log
        split: finalize_phase.splits sum.splits prod.splits)
qed

definition recorder_inv :: "recorder option \<Rightarrow> bool" where
  "recorder_inv state = (case state of None \<Rightarrow> False
     | Some r \<Rightarrow> recorder_ok r \<and> length (deliveries r) \<le> (if finalized r then 1 else 0))"

definition recorder_le :: "recorder option \<Rightarrow> recorder option \<Rightarrow> bool" where
  "recorder_le a b = (case (a, b) of
     (Some r, Some r') \<Rightarrow> (finalized r \<longrightarrow> finalized r' \<and> deliveries r' = deliveries r)
   | (None, None) \<Rightarrow> True
   | _ \<Rightarrow> False)"

lemma recorder_inv_step:
  assumes "recorder_inv state"
  shows "recorder_inv (recorder_step state e) \<and> recorder_le state (recorder_step state e)"
proof -
  from assms obtain r where r: "state = Some r" "recorder_ok r" "length (deliveries r) \<le> (if finalized r then 1 else 0)"
    by (auto simp: recorder_inv_def split: option.splits)
  from event_ok [OF r(2)] obtain r' where r': "recorder_event_step r e = Some r'" "recorder_ok r'" by blast
  have "length (deliveries r') \<le> (if finalized r' then 1 else 0) \<and>
      (finalized r \<longrightarrow> finalized r' \<and> deliveries r' = deliveries r)"
  proof (cases "\<exists>now fault. e = ResumeFinalize now fault")
    case True
    then obtain now fault where "e = ResumeFinalize now fault" by blast
    with r'(1) have "resume_finalize now fault r = r'" by simp
    from resume_deliveries [OF this] r(3) show ?thesis by (auto split: if_splits)
  next
    case False
    with quiet_event [OF r'(1)] r(3) show ?thesis by (auto simp: quiet_step_def)
  qed
  with r(1) r' show ?thesis by (simp add: recorder_step_def recorder_inv_def recorder_le_def)
qed

interpretation recorder_machine: guarded_machine recorder_step recorder_inv recorder_le
proof
  show "recorder_inv s \<Longrightarrow> recorder_inv (recorder_step s e)" for s e using recorder_inv_step by blast
  show "recorder_inv s \<Longrightarrow> recorder_le s (recorder_step s e)" for s e using recorder_inv_step by blast
  show "recorder_le s s" for s by (simp add: recorder_le_def split: option.split)
  show "recorder_le s t \<Longrightarrow> recorder_le t u \<Longrightarrow> recorder_le s u" for s t u
    by (auto simp: recorder_le_def split: option.splits)
qed


subsection \<open>What a recorder promises\<close>

text \<open>A database that has never seen the archive, as a fresh random id makes it.\<close>

definition fresh_archive :: "string \<Rightarrow> database \<Rightarrow> bool" where
  "fresh_archive i db \<longleftrightarrow> i \<noteq> [] \<and> map_of (captureStore db) i = None \<and> chunks_of i (chunkStore db) = []"

lemma recorder_inv_armed:
  assumes "reachable db" "fresh_archive i db"
  shows "recorder_inv (Some (arm_recorder config i owner db sock))"
  using reachable_ok [OF assms(1)] assms(2)
  by (simp add: recorder_inv_def recorder_ok_def arm_recorder_def createStreamingCaptureSession_def session_ok_def
      jobs_ok_def not_started_def fresh_archive_def finalized_def)


text \<open>
  A capture is handed to the user interface at most once, and only in the last step of the
  finalization; whatever happens afterwards, nothing more is delivered.
\<close>

lemma capture_delivered_once:
  assumes "reachable db" "fresh_archive i db"
    and "foldl recorder_step (Some (arm_recorder config i owner db sock)) es = Some r"
    and "foldl recorder_step (Some r) later = Some r'"
  shows "length (deliveries r) \<le> (if finalized r then 1 else 0) \<and>
    (finalized r \<longrightarrow> finalized r' \<and> deliveries r' = deliveries r)"
proof -
  from recorder_machine.inv_run [OF recorder_inv_armed [OF assms(1,2)]] assms(3)
  have inv: "recorder_inv (Some r)" by metis
  from recorder_machine.le_run [OF this, of later] assms(4) have "recorder_le (Some r) (Some r')" by simp
  with inv show ?thesis by (simp add: recorder_inv_def recorder_le_def)
qed

lemma samples_in_written:
  "samples_in (enumerate k (map (\<lambda>c. ChunkV3 (compactSamples c)) written)) = int (length (concat written))"
  by (induction written arbitrary: k) (simp_all add: samples_in_def compactSamples_def Let_def)

lemma expand_written:
  "list_all exact_samples written \<Longrightarrow>
    map (expandChunk \<circ> snd) (enumerate k (map (\<lambda>c. ChunkV3 (compactSamples c)) written)) = written"
  by (induction written arbitrary: k) (simp_all add: expand_compact del: expandChunk.simps)

lemma delivered_complete:
  assumes "resume_finalize now fault r = r'" "deliveries r' = deliveries r @ [CaptureDone c]" "\<not> pcIncomplete c"
  shows "\<exists>completed info. ssFinalize (rcSession r) = AwaitFinish completed \<and>
    finishPowerCaptureArchive now completed (int (ssChunkIndex (rcSession r))) (rcDb r) = Inr (info, rcDb r') \<and>
    c = infCapture info"
proof (cases "ssFinalize (rcSession r)")
  case (AwaitFinish completed)
  let ?f = "finishPowerCaptureArchive now completed (int (ssChunkIndex (rcSession r))) (rcDb r)"
  show ?thesis
  proof (cases "job_result fault ?f")
    case (Inl e)
    with AwaitFinish assms show ?thesis by (auto simp: resume_finalize_def resume_finish_def)
  next
    case (Inr res)
    obtain info db' where res: "res = (info, db')" by (cases res)
    from job_result_cases [OF Inr] have "?f = Inr (info, db')" by (simp add: res)
    moreover have "rcDb r' = db'" using Inr AwaitFinish assms(1)
      by (auto simp: resume_finalize_def resume_finish_def res finally_done_def)
    moreover have "c = infCapture info"
    proof -
      have "filter is_delivery (case reason of None \<Rightarrow> [] | Some m \<Rightarrow> if m = [] then [] else [SetError (Some m)]) = []" for reason
        by (simp split: option.split)
      with Inr AwaitFinish assms(1,2) show ?thesis by (auto simp: resume_finalize_def resume_finish_def res)
    qed
    ultimately show ?thesis using AwaitFinish by blast
  qed
next
  case (AwaitInterrupt partial reason isFailed message)
  let ?f = "interruptPowerCaptureArchive now (ssArchiveId (rcSession r)) partial reason isFailed (rcDb r)"
  show ?thesis
  proof (cases "job_result fault ?f")
    case (Inl e)
    with AwaitInterrupt assms show ?thesis by (auto simp: resume_finalize_def resume_interrupt_def)
  next
    case (Inr res)
    obtain info db' where res: "res = (info, db')" by (cases res)
    from job_result_cases [OF Inr] have "?f = Inr (info, db')" by (simp add: res)
    then have "pcIncomplete (infCapture info)"
      by (auto simp: interruptPowerCaptureArchive_def bindR_Inr_iff Let_def interrupted_record_def archiveInfo_def clearArchiveLease_def)
    moreover have "c = infCapture info"
      using Inr AwaitInterrupt assms(1,2) by (auto simp: resume_finalize_def resume_interrupt_def res)
    ultimately show ?thesis using assms(3) by simp
  qed
qed (use assms in \<open>auto simp: resume_finalize_def\<close>)

text \<open>
  C5: A capture that is delivered as complete is the whole recording. Its sample count is the
  number of samples accepted, the archive holds exactly the chunks of the accepted samples, in
  order and numbered from 0, and reading the archive back returns them, for samples the compact
  format can hold.
\<close>

theorem complete_capture_is_whole:
  assumes "reachable db" "fresh_archive i db"
    and "foldl recorder_step (Some (arm_recorder config i owner db sock)) es = Some r"
    and "recorder_event_step r (ResumeFinalize now fault) = Some r'"
    and "deliveries r' = deliveries r @ [CaptureDone c]" "\<not> pcIncomplete c"
  shows "\<exists>written. recorded (rcSession r) (concat written) \<and>
    pcSampleCount c = Some (int (length (concat written))) \<and>
    chunks_of (ssArchiveId (rcSession r)) (chunkStore (rcDb r')) =
      enumerate 0 (map (\<lambda>chunk. ChunkV3 (compactSamples chunk)) written) \<and>
    (list_all exact_samples written \<longrightarrow>
      readPowerCaptureSamples (ssArchiveId (rcSession r)) (rcDb r') = concat written)"
proof -
  let ?s = "rcSession r"
  from recorder_machine.inv_run [OF recorder_inv_armed [OF assms(1,2)]] assms(3)
  have "recorder_inv (Some r)" by metis
  then have ok: "session_ok ?s (rcDb r)" "db_ok (rcDb r)" by (simp_all add: recorder_inv_def recorder_ok_def)
  have step: "resume_finalize now fault r = r'" using assms(4) by simp
  from delivered_complete [OF step assms(5,6)] obtain completed info where
    phase: "ssFinalize ?s = AwaitFinish completed"
    and finish: "finishPowerCaptureArchive now completed (int (ssChunkIndex ?s)) (rcDb r) = Inr (info, rcDb r')"
    and c: "c = infCapture info" by blast
  from session_ok_parts(2) [OF ok(1)] phase have left: "nothing_left ?s" "pcArchiveId completed = Some (ssArchiveId ?s)"
    by simp_all
  have trig: "ssTriggered ?s" using phase_triggered [OF ok(1)] phase by simp
  from left(1) session_ok_streamE [OF ok(1) trig] obtain written acc where
    stream: "stream_ok ?s written acc" "ssChainError ?s = None \<longrightarrow> archive_ok ?s (rcDb r) written"
    by (auto simp: nothing_left_def)
  from left(1) have jobs: "list_all (\<lambda>j. j = DeleteJob) (ssJobs ?s)" by (simp add: nothing_left_def)
  then have none: "appends (ssJobs ?s) = []" "\<not> begins (ssJobs ?s)" by (induction "ssJobs ?s") (auto simp: list_all_iff list_ex_iff appends_def)
  have acc: "acc = concat written" using stream_ok_concat [OF stream(1)] none(1) left(1) by (simp add: nothing_left_def)
  from session_ok_parts(1) [OF ok(1)] left(2) have id: "required_id completed = Inr (ssArchiveId ?s)"
    by (simp add: jobs_ok_def required_id_def)
  from finish id obtain found where found: "get_archive now (ssArchiveId ?s) (rcDb r) = Inr found"
    and info: "info = archiveInfo (finished_record now completed (int (ssChunkIndex ?s)) found)"
    and db': "rcDb r' = put_archive (finished_record now completed (int (ssChunkIndex ?s)) found) (rcDb r)"
    by (auto simp: finishPowerCaptureArchive_def bindR_Inr_iff Let_def)
  have chunks: "chunks_of (ssArchiveId ?s) (chunkStore (rcDb r)) = enumerate 0 (map (\<lambda>chunk. ChunkV3 (compactSamples chunk)) written)"
    using stream(2) left(1) none(2) get_archive_stored [OF found] by (auto simp: archive_ok_later nothing_left_def)
  have "arcPersistedSamples found = int (length acc)"
    using db_ok_get(3) [OF ok(2) found] by (simp add: record_ok_def chunks samples_in_written acc)
  then have count: "pcSampleCount c = Some (int (length (concat written)))"
    by (simp add: c info archiveInfo_def finished_record_def Let_def clearArchiveLease_def acc)
  have store: "chunkStore (rcDb r') = chunkStore (rcDb r)" by (simp add: db' put_archive_def)
  have "key_ordered (chunkStore (rcDb r'))" using ok(2) by (simp add: store db_ok_def)
  then have "list_all exact_samples written \<longrightarrow> readPowerCaptureSamples (ssArchiveId ?s) (rcDb r') = concat written"
    using expand_written [of written 0] by (simp add: readPowerCaptureSamples_all chunks_from_all store chunks)
  with count chunks store stream_ok_recorded [OF stream(1)] acc show ?thesis by (intro exI [of _ written]) simp
qed



text \<open>A recording of one sample, from arming to the last step.\<close>

definition test_config :: StreamingCaptureConfig where
  "test_config = \<lparr>cfgTrigger = ''manual'', cfgSource = [], cfgEdge = ''rising'', cfgThresholdUa = 0,
     cfgRateHz = 100, cfgPreSamples = 0, cfgPostSamples = 0, cfgStreaming = True, cfgStopAfterMs = None\<rparr>"

text \<open>Three samples arrived before the trigger and no history was asked for: all three are recorded.\<close>

definition test_history :: StreamingCaptureSession where
  "test_history = (createStreamingCaptureSession test_config ''a'' ''me'')
     \<lparr>ssTriggerDeviceTimeUs := 5, ssPreBuffer := map (\<lambda>t. sample_at_time t 0) [1, 2, 3, 6]\<rparr>"


definition test_recorder :: recorder where
  "test_recorder = arm_recorder test_config ''a'' ''me'' \<lparr>captureStore = [], chunkStore = []\<rparr> True"

definition test_events :: "recorder_event list" where
  "test_events = [Armed, Triggered 1000 7 0 0 0, RunWrite 1001 None,
     Telemetry 1002 0 [(sample_at_time 0 5)\<lparr>smpSequence := 1\<rparr>], UserStop, StopResult ''web-stop-7'',
     ResumeFinalize 1003 None, RunWrite 1004 None, ResumeFinalize 1005 None]"

definition delivered_sample_count :: "recorder option \<Rightarrow> int option" where
  "delivered_sample_count state = Option.bind state (\<lambda>r. case deliveries r of
     [CaptureDone c] \<Rightarrow> if pcIncomplete c then None else pcSampleCount c | _ \<Rightarrow> None)"

lemma test_run:
  "deliveries (the (foldl recorder_step (Some test_recorder) test_events)) = []"
  "delivered_sample_count (foldl recorder_step (Some test_recorder) (test_events @ [ResumeFinalize 1006 None])) = Some 1"
  by code_simp+


lemma fresh_test: "fresh_archive ''a'' \<lparr>captureStore = [], chunkStore = []\<rparr>"
  by (simp add: fresh_archive_def chunks_of_def)


lemma test_run_delivers:
  obtains r r' c where "foldl recorder_step (Some test_recorder) test_events = Some r"
    "recorder_event_step r (ResumeFinalize 1006 None) = Some r'" "deliveries r = []" "deliveries r' = [CaptureDone c]"
    "\<not> pcIncomplete c" "pcSampleCount c = Some 1"
proof -
  from test_run(2) obtain r' where r': "recorder_step (foldl recorder_step (Some test_recorder) test_events)
      (ResumeFinalize 1006 None) = Some r'" "delivered_sample_count (Some r') = Some 1"
    by (auto simp: delivered_sample_count_def bind_eq_Some_conv)
  then obtain r where r: "foldl recorder_step (Some test_recorder) test_events = Some r"
      "recorder_event_step r (ResumeFinalize 1006 None) = Some r'"
    by (auto simp: recorder_step_def bind_eq_Some_conv)
  from r'(2) obtain c where "deliveries r' = [CaptureDone c]" "\<not> pcIncomplete c" "pcSampleCount c = Some 1"
    by (auto simp: delivered_sample_count_def split: list.splits recorder_output.splits if_splits)
  with r test_run(1) that show thesis by simp
qed

lemma capture_delivered_once_witness:
  "\<exists>r. foldl recorder_step (Some test_recorder) test_events = Some r \<and>
    length (deliveries r) \<le> (if finalized r then 1 else 0)"
proof -
  obtain r where r: "foldl recorder_step (Some test_recorder) test_events = Some r" by (rule test_run_delivers)
  from capture_delivered_once [OF reachable.empty fresh_test r [unfolded test_recorder_def], of "[]" r] r
  show ?thesis by (intro exI [of _ r]) simp
qed

theorem complete_capture_is_whole_witness:
  "\<exists>r r' c written. recorder_event_step r (ResumeFinalize 1006 None) = Some r' \<and>
    deliveries r' = [CaptureDone c] \<and> pcSampleCount c = Some 1 \<and> length (concat written) = 1 \<and>
    chunks_of (ssArchiveId (rcSession r)) (chunkStore (rcDb r')) =
      enumerate 0 (map (\<lambda>chunk. ChunkV3 (compactSamples chunk)) written)"
proof -
  obtain r r' c where r: "foldl recorder_step (Some test_recorder) test_events = Some r"
    "recorder_event_step r (ResumeFinalize 1006 None) = Some r'" "deliveries r = []" "deliveries r' = [CaptureDone c]"
    "\<not> pcIncomplete c" "pcSampleCount c = Some 1" by (rule test_run_delivers)
  from r(3,4) have "deliveries r' = deliveries r @ [CaptureDone c]" by simp
  from complete_capture_is_whole [OF reachable.empty fresh_test r(1) [unfolded test_recorder_def] r(2) this r(5)]
  obtain written where "pcSampleCount c = Some (int (length (concat written)))"
    "chunks_of (ssArchiveId (rcSession r)) (chunkStore (rcDb r')) =
      enumerate 0 (map (\<lambda>chunk. ChunkV3 (compactSamples chunk)) written)" by blast
  with r(2,4,6) show ?thesis by (intro exI conjI) auto
qed

end
