(* ===== verification/Logic_Analyzer.thy ===== *)
theory Logic_Analyzer
  imports Sigrok_Frames
begin

text \<open>
  The logic analyzer's configuration (\<open>web/src/lib/logicAnalyzer.ts\<close>): normalisation of
  rates, pins and counts, the rules that decide which capture plans the firmware supports,
  and the CONFIG request built from a configuration. Numbers are JavaScript numbers
  throughout; each message the code throws or returns is a constructor of
  \<open>capture_reason\<close>.
\<close>

subsection \<open>Constants\<close>

definition LOGIC_ANALYZER_MAX_SAMPLES :: jsnum where
  [simp]: "LOGIC_ANALYZER_MAX_SAMPLES = Fin 0xffff"
definition LOGIC_ANALYZER_HIGH_RATE_MAX_SAMPLES :: jsnum where
  [simp]: "LOGIC_ANALYZER_HIGH_RATE_MAX_SAMPLES = Fin 100000"
definition LOGIC_ANALYZER_MIN_SAMPLE_RATE_HZ :: jsnum where
  [simp]: "LOGIC_ANALYZER_MIN_SAMPLE_RATE_HZ = Fin 100000"
definition LOGIC_ANALYZER_WEB_STREAM_MAX_SAMPLE_RATE_HZ :: jsnum where
  [simp]: "LOGIC_ANALYZER_WEB_STREAM_MAX_SAMPLE_RATE_HZ = Fin 25000000"
definition LOGIC_ANALYZER_MIN_PRE_TRIGGER_SAMPLE_RATE_HZ :: jsnum where
  [simp]: "LOGIC_ANALYZER_MIN_PRE_TRIGGER_SAMPLE_RATE_HZ = Fin 1000000"
definition LOGIC_ANALYZER_MAX_PRE_TRIGGER_SAMPLE_RATE_HZ :: jsnum where
  [simp]: "LOGIC_ANALYZER_MAX_PRE_TRIGGER_SAMPLE_RATE_HZ = Fin 25000000"
definition LOGIC_ANALYZER_MAX_PRE_TRIGGER_TOTAL_SAMPLES :: int where
  [simp]: "LOGIC_ANALYZER_MAX_PRE_TRIGGER_TOTAL_SAMPLES = 512"
definition LOGIC_ANALYZER_MAX_PRE_TRIGGER_SAMPLES :: jsnum where
  [simp]: "LOGIC_ANALYZER_MAX_PRE_TRIGGER_SAMPLES = Fin 511"
definition PRE_TRIGGER_SINGLE_USABLE_SAMPLES :: int where
  [simp]: "PRE_TRIGGER_SINGLE_USABLE_SAMPLES = 260096"
definition PRE_TRIGGER_FAST8_USABLE_SAMPLES :: int where
  [simp]: "PRE_TRIGGER_FAST8_USABLE_SAMPLES = 30720"
definition PRE_TRIGGER_WIDE11_USABLE_SAMPLES :: int where
  [simp]: "PRE_TRIGGER_WIDE11_USABLE_SAMPLES = 14336"
definition PRE_TRIGGER_MINIMUM_POLL_INTERVALS :: int where
  [simp]: "PRE_TRIGGER_MINIMUM_POLL_INTERVALS = 2"
definition LOGIC_ANALYZER_SAMPLE_RATES_HZ :: "int list" where
  "LOGIC_ANALYZER_SAMPLE_RATES_HZ =
    [100000, 300000, 500000, 1000000, 2000000, 5000000, 10000000, 16000000, 25000000,
     50000000, 100000000, 125000000]"
definition LOGIC_ANALYZER_MAX_SAMPLE_RATE_HZ :: jsnum where
  [simp]: "LOGIC_ANALYZER_MAX_SAMPLE_RATE_HZ = js_int (last LOGIC_ANALYZER_SAMPLE_RATES_HZ)"
definition MAX_SAFE_INTEGER :: jsnum where
  [simp]: "MAX_SAFE_INTEGER = Fin 9007199254740991"
definition SIGROK_DISABLED_PINS :: "int list" where
  "SIGROK_DISABLED_PINS = [7, 8, 9]"
definition CONFIG_V2_EXACT_WIDE11_PINS :: "int list" where
  "CONFIG_V2_EXACT_WIDE11_PINS = [10, 11, 12, 13, 14, 15, 16, 17, 18, 19, 20]"
definition CAPTURE_AVAILABLE_PINS :: "int list" where
  "CAPTURE_AVAILABLE_PINS = SIGROK_DISABLED_PINS @ CONFIG_V2_EXACT_WIDE11_PINS"

subsection \<open>Configurations\<close>

datatype LogicAnalyzerTriggerType = TrigNone | TrigRising | TrigFalling | TrigEither

record LogicAnalyzerConfig =
  selectedPins :: "jsnum list"
  sampleRateHz :: jsnum
  preSamples :: jsnum
  postSamples :: jsnum
  triggerType :: LogicAnalyzerTriggerType
  triggerPin :: jsnum

record LogicAnalyzerSigrokRequestOptions =
  optStream :: bool
  optConfigV2 :: bool
  optPackedBurst :: bool
  optCaps :: "SigrokCapsResp option"

datatype SigrokModeId = FAST8 | WIDE11

datatype plan_name = PlanFast8 | PlanWide11 | PlanSelected

datatype capture_reason =
    Wide11At125MHz
  | StreamAbove25MHz
  | StreamNeedsPackedBurst
  | Fast8NeedsPackedBurst
  | PostNeedsConfigV2
  | PostUnsupportedPlan
  | PostNeedsPackedBurst
  | PostTooMany
  | PreAtLeast1
  | PreAtMost511
  | PreNeedsTrigger
  | PreRateRange
  | PrePostAtLeast1
  | PreTotal512
  | PrePlanUnsupported
  | PreInfeasible plan_name int jsnum int
  | PreNotAdvertised SigrokModeId
  | NoSupportedPin
  | PinNotInMode jsnum SigrokModeId
  | TriggerPinNotInMode jsnum SigrokModeId

fun mode_value :: "SigrokModeId \<Rightarrow> u8" where
  "mode_value FAST8 = 1"
| "mode_value WIDE11 = 2"

subsection \<open>Normalisation of numbers\<close>

definition clampInteger :: "jsnum \<Rightarrow> jsnum \<Rightarrow> jsnum \<Rightarrow> jsnum" where
  "clampInteger value minimum maximum =
     (if \<not> isFinite value then minimum else js_min maximum (js_max minimum (js_trunc value)))"

text \<open>The nearest rate of the table; on a tie the lower one.\<close>

fun nearest_rate :: "int \<Rightarrow> int \<Rightarrow> int \<Rightarrow> int list \<Rightarrow> int" where
  "nearest_rate truncatedRate nearestRate nearestDistance [] = nearestRate"
| "nearest_rate truncatedRate nearestRate nearestDistance (candidateRate # rest) =
     (let candidateDistance = \<bar>truncatedRate - candidateRate\<bar>
      in if candidateDistance < nearestDistance \<or>
            candidateDistance = nearestDistance \<and> candidateRate < nearestRate
         then nearest_rate truncatedRate candidateRate candidateDistance rest
         else nearest_rate truncatedRate nearestRate nearestDistance rest)"

fun normalizeLogicAnalyzerSampleRate :: "jsnum \<Rightarrow> jsnum" where
  "normalizeLogicAnalyzerSampleRate (Fin requestedRate) =
     (let truncatedRate = rat_trunc requestedRate
      in if js_le (js_int truncatedRate) LOGIC_ANALYZER_MIN_SAMPLE_RATE_HZ
         then LOGIC_ANALYZER_MIN_SAMPLE_RATE_HZ
         else if js_le LOGIC_ANALYZER_MAX_SAMPLE_RATE_HZ (js_int truncatedRate)
         then LOGIC_ANALYZER_MAX_SAMPLE_RATE_HZ
         else let first = hd LOGIC_ANALYZER_SAMPLE_RATES_HZ
              in js_int (nearest_rate truncatedRate first \<bar>truncatedRate - first\<bar>
                   (tl LOGIC_ANALYZER_SAMPLE_RATES_HZ)))"
| "normalizeLogicAnalyzerSampleRate _ = LOGIC_ANALYZER_MIN_SAMPLE_RATE_HZ"

definition dedupeAndSortPins :: "jsnum list \<Rightarrow> jsnum list" where
  "dedupeAndSortPins pins = sort (remdups pins)"

definition keep_pins :: "int list \<Rightarrow> jsnum list \<Rightarrow> jsnum list" where
  "keep_pins allowed pins =
     concat (map (\<lambda>pin. if \<not> isFinite pin then []
       else let normalizedPin = js_trunc pin
            in if normalizedPin \<in> set (map (\<lambda>p. js_int p) allowed) then [normalizedPin] else []) pins)"

definition normalizeLogicAnalyzerSelectedPins :: "jsnum list \<Rightarrow> jsnum list" where
  "normalizeLogicAnalyzerSelectedPins pins =
     dedupeAndSortPins (keep_pins CONFIG_V2_EXACT_WIDE11_PINS pins)"

definition normalizeCaptureSelectedPins :: "jsnum list \<Rightarrow> jsnum list" where
  "normalizeCaptureSelectedPins pins = dedupeAndSortPins (keep_pins CAPTURE_AVAILABLE_PINS pins)"

subsection \<open>Capture plans\<close>

definition isWebSigrokPinSupported :: "jsnum \<Rightarrow> bool" where
  "isWebSigrokPinSupported pin \<longleftrightarrow> pin \<in> set (map (\<lambda>p. js_int p) CONFIG_V2_EXACT_WIDE11_PINS)"

definition hasExactWide11PinSelection :: "jsnum list \<Rightarrow> bool" where
  "hasExactWide11PinSelection pins \<longleftrightarrow>
     length pins = length CONFIG_V2_EXACT_WIDE11_PINS \<and>
     list_all (\<lambda>(index, pin). js_eq (pins ! index) (js_int pin))
       (enumerate 0 CONFIG_V2_EXACT_WIDE11_PINS)"

definition isFast8PhysicalSpanSelection :: "jsnum list \<Rightarrow> bool" where
  "isFast8PhysicalSpanSelection pins \<longleftrightarrow>
     length pins > 0 \<and> list_all (\<lambda>pin. js_le (Fin 10) pin \<and> js_le pin (Fin 17)) pins"

definition isWide11PhysicalSpanSelection :: "jsnum list \<Rightarrow> bool" where
  "isWide11PhysicalSpanSelection pins \<longleftrightarrow>
     length pins > 0 \<and> list_all (\<lambda>pin. js_le (Fin 10) pin \<and> js_le pin (Fin 20)) pins \<and>
     \<not> isFast8PhysicalSpanSelection pins"

definition getLogicAnalyzerPreTriggerUsableSampleCapacity :: "jsnum list \<Rightarrow> int option" where
  "getLogicAnalyzerPreTriggerUsableSampleCapacity pins =
     (if length pins = 1 then Some PRE_TRIGGER_SINGLE_USABLE_SAMPLES
      else if isFast8PhysicalSpanSelection pins then Some PRE_TRIGGER_FAST8_USABLE_SAMPLES
      else if isWide11PhysicalSpanSelection pins then Some PRE_TRIGGER_WIDE11_USABLE_SAMPLES
      else None)"

definition supportsLegacyConfigV2ExactWide11PackedBurst :: "LogicAnalyzerConfig \<Rightarrow> bool" where
  "supportsLegacyConfigV2ExactWide11PackedBurst config \<longleftrightarrow>
     js_eq (sampleRateHz config) (Fin 100000000) \<and> hasExactWide11PinSelection (selectedPins config)"

definition supportsHighRatePackedBurst :: "LogicAnalyzerConfig \<Rightarrow> bool" where
  "supportsHighRatePackedBurst config =
     (if length (selectedPins config) = 0 then False
      else if js_eq (sampleRateHz config) (Fin 100000000) then True
      else if js_eq (sampleRateHz config) (Fin 125000000)
      then isFast8PhysicalSpanSelection (selectedPins config)
      else False)"

definition getLogicAnalyzerUnsupportedRateReason :: "LogicAnalyzerConfig \<Rightarrow> capture_reason option" where
  "getLogicAnalyzerUnsupportedRateReason config =
     (if length (selectedPins config) = 0 then None
      else if js_eq (sampleRateHz config) (Fin 125000000) \<and>
              \<not> isFast8PhysicalSpanSelection (selectedPins config)
      then Some Wide11At125MHz else None)"

definition supportsBoundedPackedBurst :: "LogicAnalyzerConfig \<Rightarrow> bool" where
  "supportsBoundedPackedBurst config \<longleftrightarrow>
     length (selectedPins config) > 0 \<and> getLogicAnalyzerUnsupportedRateReason config = None"

definition calculateMaxSamples :: jsnum where
  "calculateMaxSamples = LOGIC_ANALYZER_MAX_SAMPLES"

definition calculateMaxSamplesForCapabilities :: "bool \<Rightarrow> jsnum" where
  "calculateMaxSamplesForCapabilities supportsV2 =
     (if supportsV2 then LOGIC_ANALYZER_HIGH_RATE_MAX_SAMPLES else LOGIC_ANALYZER_MAX_SAMPLES)"

definition getLogicAnalyzerSelectionMaxSamples :: "LogicAnalyzerConfig \<Rightarrow> jsnum" where
  "getLogicAnalyzerSelectionMaxSamples config =
     (if supportsBoundedPackedBurst config then LOGIC_ANALYZER_HIGH_RATE_MAX_SAMPLES
      else LOGIC_ANALYZER_MAX_SAMPLES)"

definition getLogicAnalyzerMaxSamplesForConfig ::
  "LogicAnalyzerConfig \<Rightarrow> LogicAnalyzerSigrokRequestOptions \<Rightarrow> jsnum" where
  "getLogicAnalyzerMaxSamplesForConfig config options =
     (if optPackedBurst options \<and> optConfigV2 options \<and> supportsBoundedPackedBurst config
      then getLogicAnalyzerSelectionMaxSamples config
      else if optConfigV2 options \<and> supportsLegacyConfigV2ExactWide11PackedBurst config
      then LOGIC_ANALYZER_HIGH_RATE_MAX_SAMPLES
      else LOGIC_ANALYZER_MAX_SAMPLES)"

definition getLogicAnalyzerStreamLimitReason :: "LogicAnalyzerConfig \<Rightarrow> capture_reason option" where
  "getLogicAnalyzerStreamLimitReason config =
     (case getLogicAnalyzerUnsupportedRateReason config of
        Some r \<Rightarrow> Some r
      | None \<Rightarrow>
          if js_le (sampleRateHz config) LOGIC_ANALYZER_WEB_STREAM_MAX_SAMPLE_RATE_HZ then None
          else if supportsHighRatePackedBurst config then None else Some StreamAbove25MHz)"

definition getLogicAnalyzerNegotiatedCapabilityReason ::
  "LogicAnalyzerConfig \<Rightarrow> LogicAnalyzerSigrokRequestOptions \<Rightarrow> capture_reason option" where
  "getLogicAnalyzerNegotiatedCapabilityReason config options =
     (let isPotentialHighRatePackedBurst = supportsHighRatePackedBurst config;
          isPotentialBoundedPackedBurst = supportsBoundedPackedBurst config;
          isLegacyExactWide11 = supportsLegacyConfigV2ExactWide11PackedBurst config
      in if optStream options then
           (if js_le (sampleRateHz config) LOGIC_ANALYZER_WEB_STREAM_MAX_SAMPLE_RATE_HZ then None
            else if \<not> isPotentialHighRatePackedBurst then None
            else if \<not> optPackedBurst options then Some StreamNeedsPackedBurst
            else None)
         else if js_le (postSamples config) LOGIC_ANALYZER_MAX_SAMPLES then
           (if isPotentialHighRatePackedBurst \<and> isFast8PhysicalSpanSelection (selectedPins config) \<and>
               \<not> optPackedBurst options
            then Some Fast8NeedsPackedBurst else None)
         else if \<not> optConfigV2 options then Some PostNeedsConfigV2
         else if isLegacyExactWide11 \<and>
                 js_eq (postSamples config) LOGIC_ANALYZER_HIGH_RATE_MAX_SAMPLES then None
         else if \<not> isPotentialBoundedPackedBurst then Some PostUnsupportedPlan
         else if \<not> optPackedBurst options then Some PostNeedsPackedBurst
         else if js_lt LOGIC_ANALYZER_HIGH_RATE_MAX_SAMPLES (postSamples config)
         then Some PostTooMany else None)"

subsection \<open>Pre-trigger capture\<close>

fun js_ceil_div :: "jsnum \<Rightarrow> int \<Rightarrow> int" where
  "js_ceil_div (Fin r) n = \<lceil>r / of_int n\<rceil>"
| "js_ceil_div _ _ = 0"

definition getLogicAnalyzerPreTriggerGenericReason ::
  "LogicAnalyzerConfig \<Rightarrow> bool \<Rightarrow> capture_reason option" where
  "getLogicAnalyzerPreTriggerGenericReason config enforceTotal =
     (if js_eq (preSamples config) (Fin 0) then None
      else if \<not> isInteger (preSamples config) \<or> js_lt (preSamples config) (Fin 1)
      then Some PreAtLeast1
      else if js_lt LOGIC_ANALYZER_MAX_PRE_TRIGGER_SAMPLES (preSamples config)
      then Some PreAtMost511
      else if triggerType config = TrigNone then Some PreNeedsTrigger
      else if \<not> isFinite (sampleRateHz config) \<or>
              js_lt (sampleRateHz config) LOGIC_ANALYZER_MIN_PRE_TRIGGER_SAMPLE_RATE_HZ \<or>
              js_lt LOGIC_ANALYZER_MAX_PRE_TRIGGER_SAMPLE_RATE_HZ (sampleRateHz config)
      then Some PreRateRange
      else if \<not> isInteger (postSamples config) \<or> js_lt (postSamples config) (Fin 1)
      then Some PrePostAtLeast1
      else if enforceTotal \<and>
              js_lt (js_int LOGIC_ANALYZER_MAX_PRE_TRIGGER_TOTAL_SAMPLES)
                (js_add (preSamples config) (postSamples config))
      then Some PreTotal512
      else case getLogicAnalyzerPreTriggerUsableSampleCapacity (selectedPins config) of
        None \<Rightarrow> Some PrePlanUnsupported
      | Some usableCapacity \<Rightarrow>
          let minimumRetentionSamples =
                PRE_TRIGGER_MINIMUM_POLL_INTERVALS * js_ceil_div (sampleRateHz config) 1000
          in if usableCapacity < minimumRetentionSamples then
               (let modeName =
                      (if isFast8PhysicalSpanSelection (selectedPins config) then PlanFast8
                       else if isWide11PhysicalSpanSelection (selectedPins config) then PlanWide11
                       else PlanSelected)
                in Some (PreInfeasible modeName usableCapacity (sampleRateHz config)
                     minimumRetentionSamples))
             else None)"

definition getSigrokModeForPins :: "jsnum list \<Rightarrow> SigrokModeId" where
  "getSigrokModeForPins pins = (if list_ex (\<lambda>pin. js_le (Fin 18) pin) pins then WIDE11 else FAST8)"

definition PRE_TRIGGER :: u8 where "PRE_TRIGGER = push_bit 5 1"

text \<open>\<open>modes.find\<close>; an absent byte is not equal to any mode, absent flags have no bit set.\<close>

definition getLogicAnalyzerPreTriggerReason ::
  "LogicAnalyzerConfig \<Rightarrow> LogicAnalyzerSigrokRequestOptions \<Rightarrow> capture_reason option" where
  "getLogicAnalyzerPreTriggerReason config options =
     (let genericReason = getLogicAnalyzerPreTriggerGenericReason config True
      in if genericReason \<noteq> None \<or> js_eq (preSamples config) (Fin 0) then genericReason
         else
           let modeId = getSigrokModeForPins (selectedPins config);
               modeCaps = (case optCaps options of None \<Rightarrow> None
                 | Some k \<Rightarrow> find (\<lambda>mode. capsModeId mode = Some (mode_value modeId)) (modes k))
           in case modeCaps of None \<Rightarrow> Some (PreNotAdvertised modeId)
              | Some m \<Rightarrow>
                  if (case modeFlags m of None \<Rightarrow> 0 | Some f \<Rightarrow> f) AND PRE_TRIGGER = 0
                  then Some (PreNotAdvertised modeId) else None)"

datatype LogicAnalyzerStreamStopReason = Manual | AutoBufferFull | UnexpectedStop

definition classifyLogicAnalyzerStreamStop ::
  "LogicAnalyzerConfig \<Rightarrow> jsnum \<Rightarrow> bool \<Rightarrow> LogicAnalyzerStreamStopReason" where
  "classifyLogicAnalyzerStreamStop config sampleCount userInitiated =
     (if userInitiated then Manual
      else if supportsHighRatePackedBurst config \<and>
              js_eq sampleCount LOGIC_ANALYZER_HIGH_RATE_MAX_SAMPLES
      then AutoBufferFull
      else UnexpectedStop)"

definition getLogicAnalyzerConfigValidationError ::
  "LogicAnalyzerConfig \<Rightarrow> LogicAnalyzerSigrokRequestOptions \<Rightarrow> capture_reason option" where
  "getLogicAnalyzerConfigValidationError config options =
     (case getLogicAnalyzerUnsupportedRateReason config of Some r \<Rightarrow> Some r
      | None \<Rightarrow>
        case (if optStream options then getLogicAnalyzerStreamLimitReason config else None) of
          Some r \<Rightarrow> Some r
        | None \<Rightarrow>
          case getLogicAnalyzerPreTriggerReason config options of Some r \<Rightarrow> Some r
          | None \<Rightarrow> getLogicAnalyzerNegotiatedCapabilityReason config options)"

subsection \<open>Normalisation of configurations\<close>

definition normalizeLogicAnalyzerConfigBase :: "LogicAnalyzerConfig \<Rightarrow> LogicAnalyzerConfig" where
  "normalizeLogicAnalyzerConfigBase config =
     (let pins = normalizeLogicAnalyzerSelectedPins (selectedPins config)
      in config\<lparr>selectedPins := pins,
           sampleRateHz := normalizeLogicAnalyzerSampleRate (sampleRateHz config),
           preSamples := (if isFinite (preSamples config) then js_trunc (preSamples config) else Fin 0),
           postSamples := clampInteger (postSamples config) (Fin 1) MAX_SAFE_INTEGER,
           triggerPin := clampInteger (triggerPin config) (Fin 0)
             (js_int (max 0 (int (length pins) - 1)))\<rparr>)"

definition normalizeLogicAnalyzerLocalConfig :: "LogicAnalyzerConfig \<Rightarrow> LogicAnalyzerConfig" where
  "normalizeLogicAnalyzerLocalConfig config =
     (let normalizedConfig = normalizeLogicAnalyzerConfigBase config
      in if js_le (preSamples normalizedConfig) (Fin 0) \<or>
            getLogicAnalyzerPreTriggerGenericReason normalizedConfig False \<noteq> None
         then normalizedConfig\<lparr>preSamples := Fin 0\<rparr>
         else normalizedConfig\<lparr>postSamples := js_min (postSamples normalizedConfig)
                (js_sub (js_int LOGIC_ANALYZER_MAX_PRE_TRIGGER_TOTAL_SAMPLES)
                  (preSamples normalizedConfig))\<rparr>)"

definition normalizeLogicAnalyzerConfig ::
  "LogicAnalyzerConfig \<Rightarrow> LogicAnalyzerSigrokRequestOptions \<Rightarrow> capture_reason + LogicAnalyzerConfig" where
  "normalizeLogicAnalyzerConfig config options =
     (let normalizedConfig = normalizeLogicAnalyzerConfigBase config;
          validationConfig =
            (if js_lt (Fin 0) (preSamples normalizedConfig) then
               normalizedConfig\<lparr>postSamples := (if isFinite (postSamples config)
                 then js_trunc (postSamples config) else Fin 0)\<rparr>
             else normalizedConfig)
      in case getLogicAnalyzerConfigValidationError validationConfig options of
           Some r \<Rightarrow> Inl r | None \<Rightarrow> Inr normalizedConfig)"

subsection \<open>The CONFIG request\<close>

definition mapSigrokLogicalChannel :: "jsnum \<Rightarrow> SigrokModeId \<Rightarrow> jsnum option" where
  "mapSigrokLogicalChannel pin modeId =
     (if modeId = FAST8 then
        (if js_le (Fin 10) pin \<and> js_le pin (Fin 17) then Some (js_sub pin (Fin 10)) else None)
      else if js_le (Fin 10) pin \<and> js_le pin (Fin 20) then Some (js_sub pin (Fin 10)) else None)"

text \<open>\<open>1 << n\<close>: the shift amount is \<open>n\<close> as a 32 bit integer, modulo 32.\<close>

definition js_shl1 :: "jsnum \<Rightarrow> u32" where
  "js_shl1 n = push_bit (unat (toInt32 n AND 31)) 1"

fun mask_loop :: "SigrokModeId \<Rightarrow> u32 \<Rightarrow> jsnum list \<Rightarrow> capture_reason + u32" where
  "mask_loop modeId m [] = Inr m"
| "mask_loop modeId m (pin # pins) =
     (case mapSigrokLogicalChannel pin modeId of None \<Rightarrow> Inl (PinNotInMode pin modeId)
      | Some logicalChannel \<Rightarrow> mask_loop modeId (m OR js_shl1 logicalChannel) pins)"

definition buildSigrokChannelMask :: "jsnum list \<Rightarrow> SigrokModeId \<Rightarrow> capture_reason + u32" where
  "buildSigrokChannelMask pins modeId = mask_loop modeId 0 pins"

fun mapTriggerType :: "LogicAnalyzerTriggerType \<Rightarrow> jsnum" where
  "mapTriggerType TrigRising = Fin 1"
| "mapTriggerType TrigFalling = Fin 2"
| "mapTriggerType TrigEither = Fin 3"
| "mapTriggerType TrigNone = Fin 0"

text \<open>\<open>pins[i] ?? null\<close> for a number \<open>i\<close>.\<close>

fun pin_at :: "jsnum list \<Rightarrow> jsnum \<Rightarrow> jsnum option" where
  "pin_at pins (Fin r) = (if 0 \<le> r \<and> of_int \<lfloor>r\<rfloor> = r then nth_opt pins (nat \<lfloor>r\<rfloor>) else None)"
| "pin_at pins _ = None"

fun rate_khz :: "jsnum \<Rightarrow> jsnum" where
  "rate_khz (Fin r) = js_max (Fin 1) (js_round (Fin (r / 1000)))"
| "rate_khz x = js_max (Fin 1) x"

text \<open>The request of a normalised and validated configuration.\<close>

definition request_of ::
  "LogicAnalyzerConfig \<Rightarrow> LogicAnalyzerSigrokRequestOptions \<Rightarrow> capture_reason + SigrokConfigReq" where
  "request_of cfg options =
     (let modeId = getSigrokModeForPins (selectedPins cfg);
          triggerPinNumber = (if triggerType cfg = TrigNone then None
            else pin_at (selectedPins cfg) (triggerPin cfg));
          triggerChannel = (case triggerPinNumber of None \<Rightarrow> Some (Fin 0)
            | Some p \<Rightarrow> mapSigrokLogicalChannel p modeId)
      in case triggerChannel of None \<Rightarrow> Inl (TriggerPinNotInMode (the triggerPinNumber) modeId)
         | Some channel \<Rightarrow>
           bindR (buildSigrokChannelMask (selectedPins cfg) modeId) (\<lambda>m. Inr
             \<lparr>reqModeId = js_int (uint (mode_value modeId)),
              reqTriggerType = mapTriggerType (triggerType cfg),
              reqTriggerChannel = channel,
              reqChannelMask = js_int (sint m),
              reqSamplerateKhz = rate_khz (sampleRateHz cfg),
              reqPreSamples = (if optStream options then Fin 0 else preSamples cfg),
              reqPostSamples = (if optStream options then Fin 0 else postSamples cfg)\<rparr>))"

definition buildSigrokCaptureRequest ::
  "LogicAnalyzerConfig \<Rightarrow> LogicAnalyzerSigrokRequestOptions \<Rightarrow> capture_reason + SigrokConfigReq" where
  "buildSigrokCaptureRequest config options =
     bindR (normalizeLogicAnalyzerConfig
         (if optStream options then config\<lparr>preSamples := Fin 0, postSamples := Fin 1\<rparr> else config)
         options) (\<lambda>normalizedConfig.
       if length (selectedPins normalizedConfig) = 0 then Inl NoSupportedPin
       else case getLogicAnalyzerConfigValidationError normalizedConfig options of
         Some validationError \<Rightarrow> Inl validationError
       | None \<Rightarrow> request_of normalizedConfig options)"

subsection \<open>Rates\<close>

definition better_rate :: "int \<Rightarrow> int \<Rightarrow> int \<Rightarrow> bool" where
  "better_rate t b c \<longleftrightarrow> \<bar>t - b\<bar> < \<bar>t - c\<bar> \<or> \<bar>t - b\<bar> = \<bar>t - c\<bar> \<and> b \<le> c"

lemma better_rate_refl: "better_rate t b b"
  by (simp add: better_rate_def)

lemma better_rate_trans: "better_rate t a b \<Longrightarrow> better_rate t b c \<Longrightarrow> better_rate t a c"
  by (auto simp: better_rate_def)

lemma nearest_rate_best:
  "let b' = nearest_rate t b \<bar>t - b\<bar> cs
   in b' \<in> insert b (set cs) \<and> better_rate t b' b \<and> (\<forall>c \<in> set cs. better_rate t b' c)"
proof (induction cs arbitrary: b)
  case Nil
  then show ?case by (simp add: better_rate_refl)
next
  case (Cons c cs)
  show ?case
  proof (cases "\<bar>t - c\<bar> < \<bar>t - b\<bar> \<or> \<bar>t - c\<bar> = \<bar>t - b\<bar> \<and> c < b")
    case True
    then have "better_rate t c b" by (auto simp: better_rate_def)
    with True Cons.IH [of c] show ?thesis
      by (auto simp: Let_def intro: better_rate_trans)
  next
    case False
    then have "better_rate t b c" by (auto simp: better_rate_def)
    with False Cons.IH [of b] show ?thesis
      by (auto simp: Let_def intro: better_rate_trans)
  qed
qed

lemma rates_set: "set LOGIC_ANALYZER_SAMPLE_RATES_HZ =
    insert (hd LOGIC_ANALYZER_SAMPLE_RATES_HZ) (set (tl LOGIC_ANALYZER_SAMPLE_RATES_HZ))"
  by (simp add: LOGIC_ANALYZER_SAMPLE_RATES_HZ_def)

lemma rates_range: "c \<in> set LOGIC_ANALYZER_SAMPLE_RATES_HZ \<Longrightarrow> 100000 \<le> c \<and> c \<le> 125000000"
  by (auto simp: LOGIC_ANALYZER_SAMPLE_RATES_HZ_def)

lemma normalize_rate_Fin:
  obtains b where "normalizeLogicAnalyzerSampleRate (Fin r) = js_int b"
    "b \<in> set LOGIC_ANALYZER_SAMPLE_RATES_HZ"
    "\<And>c. c \<in> set LOGIC_ANALYZER_SAMPLE_RATES_HZ \<Longrightarrow> better_rate (rat_trunc r) b c"
proof -
  define t where "t = rat_trunc r"
  define b where "b = nearest_rate t (hd LOGIC_ANALYZER_SAMPLE_RATES_HZ)
    \<bar>t - hd LOGIC_ANALYZER_SAMPLE_RATES_HZ\<bar> (tl LOGIC_ANALYZER_SAMPLE_RATES_HZ)"
  have max: "LOGIC_ANALYZER_MAX_SAMPLE_RATE_HZ = js_int 125000000"
    by (simp add: LOGIC_ANALYZER_SAMPLE_RATES_HZ_def)
  have eq: "normalizeLogicAnalyzerSampleRate (Fin r) =
      (if t \<le> 100000 then js_int 100000 else if 125000000 \<le> t then js_int 125000000 else js_int b)"
    unfolding normalizeLogicAnalyzerSampleRate.simps Let_def t_def [symmetric] b_def [symmetric] max
      LOGIC_ANALYZER_MIN_SAMPLE_RATE_HZ_def
    by (simp del: of_int_le_numeral_iff add: of_int_le_iff [of _ 100000, simplified])
  consider "t \<le> 100000" | "125000000 \<le> t" | "\<not> t \<le> 100000" "\<not> 125000000 \<le> t" by blast
  then show thesis
  proof cases
    case 1
    with that [of 100000] eq rates_range show thesis
      by (force simp: better_rate_def t_def LOGIC_ANALYZER_SAMPLE_RATES_HZ_def)
  next
    case 2
    with that [of 125000000] eq rates_range show thesis
      by (force simp: better_rate_def t_def LOGIC_ANALYZER_SAMPLE_RATES_HZ_def)
  next
    case 3
    have "b \<in> set LOGIC_ANALYZER_SAMPLE_RATES_HZ"
      "\<forall>c \<in> set LOGIC_ANALYZER_SAMPLE_RATES_HZ. better_rate t b c"
      unfolding rates_set b_def
      using nearest_rate_best [of t "hd LOGIC_ANALYZER_SAMPLE_RATES_HZ" "tl LOGIC_ANALYZER_SAMPLE_RATES_HZ"]
      by (simp_all add: Let_def)
    with 3 that [of b] eq show thesis by (simp add: t_def)
  qed
qed

text \<open>
  The sample rate a configuration is normalised to is one of the twelve rates the
  hardware offers; no other rate is nearer to the (truncated) requested one, and on a tie
  the lower rate is taken. Not-a-number and the infinities give the lowest rate.
\<close>

lemma sample_rate_is_nearest:
  "\<exists>b \<in> set LOGIC_ANALYZER_SAMPLE_RATES_HZ. normalizeLogicAnalyzerSampleRate rate = js_int b \<and>
     (case rate of
        Fin r \<Rightarrow> \<forall>c \<in> set LOGIC_ANALYZER_SAMPLE_RATES_HZ.
          \<bar>rat_trunc r - b\<bar> < \<bar>rat_trunc r - c\<bar> \<or> \<bar>rat_trunc r - b\<bar> = \<bar>rat_trunc r - c\<bar> \<and> b \<le> c
      | _ \<Rightarrow> b = 100000)"
proof (cases rate)
  case (Fin r)
  show ?thesis
    by (rule normalize_rate_Fin [of r]) (auto simp: Fin better_rate_def)
qed (auto simp: LOGIC_ANALYZER_SAMPLE_RATES_HZ_def)

lemma sample_rate_is_nearest_witness:
  "\<exists>b. normalizeLogicAnalyzerSampleRate (Fin 20500000) = js_int b \<and>
     \<bar>20500000 - b\<bar> \<le> \<bar>20500000 - 16000000\<bar>"
proof -
  obtain b where b: "normalizeLogicAnalyzerSampleRate (Fin 20500000) = js_int b"
    and best: "\<forall>c \<in> set LOGIC_ANALYZER_SAMPLE_RATES_HZ.
      \<bar>20500000 - b\<bar> < \<bar>20500000 - c\<bar> \<or> \<bar>20500000 - b\<bar> = \<bar>20500000 - c\<bar> \<and> b \<le> c"
    using sample_rate_is_nearest [of "Fin 20500000"]
    by (simp del: normalizeLogicAnalyzerSampleRate.simps) blast
  have "16000000 \<in> set LOGIC_ANALYZER_SAMPLE_RATES_HZ"
    by (simp add: LOGIC_ANALYZER_SAMPLE_RATES_HZ_def)
  from bspec [OF best this] b show ?thesis by auto
qed

lemma normalize_rate_range:
  obtains b where "normalizeLogicAnalyzerSampleRate x = js_int b" "100000 \<le> b" "b \<le> 125000000"
proof (cases x)
  case (Fin r)
  show thesis
    by (rule normalize_rate_Fin [of r]) (use Fin that rates_range in blast)
qed (use that [of 100000] in simp_all)

subsection \<open>Pins\<close>

fun int_of :: "jsnum \<Rightarrow> int" where
  "int_of (Fin r) = rat_trunc r"
| "int_of _ = 0"

lemma set_keep_pins: "set (keep_pins allowed pins) \<subseteq> (\<lambda>p. js_int p) ` set allowed"
  by (auto simp: keep_pins_def Let_def)

lemma sort_of_ints:
  assumes "set xs \<subseteq> (\<lambda>p. js_int p) ` A"
  obtains ps where "dedupeAndSortPins xs = map (\<lambda>p. js_int p) ps" "sorted ps" "distinct ps"
    "set ps \<subseteq> A" "set (map (\<lambda>p. js_int p) ps) = set xs"
proof
  let ?ps = "map int_of (dedupeAndSortPins xs)"
  have set: "set (dedupeAndSortPins xs) = set xs" by (simp add: dedupeAndSortPins_def)
  show eq: "dedupeAndSortPins xs = map (\<lambda>p. js_int p) ?ps"
    using assms set by (auto intro!: map_idI [symmetric] simp: comp_def)
  have "sorted (dedupeAndSortPins xs)" by (simp add: dedupeAndSortPins_def)
  then have "sorted (map (\<lambda>p. js_int p) ?ps)" using eq by simp
  then show "sorted ?ps" by (simp add: sorted_map del: map_map)
  have "distinct (map (\<lambda>p. js_int p) ?ps)"
    using eq by (simp add: dedupeAndSortPins_def)
  then show "distinct ?ps" by (simp add: distinct_map del: map_map)
  show "set ?ps \<subseteq> A" using assms set by auto
  show "set (map (\<lambda>p. js_int p) ?ps) = set xs" using eq set by simp
qed

lemma set_wide11_pins: "set CONFIG_V2_EXACT_WIDE11_PINS = {10..20}"
  by (simp add: CONFIG_V2_EXACT_WIDE11_PINS_def set_eq_iff) presburger

lemma normalized_pins:
  obtains ps where "normalizeLogicAnalyzerSelectedPins pins = map (\<lambda>p. js_int p) ps" "sorted ps"
    "distinct ps" "set ps \<subseteq> {10..20}"
proof -
  from set_wide11_pins set_keep_pins [of CONFIG_V2_EXACT_WIDE11_PINS pins]
  have "set (keep_pins CONFIG_V2_EXACT_WIDE11_PINS pins) \<subseteq> (\<lambda>p. js_int p) ` {10..20}" by simp
  from sort_of_ints [OF this] that show thesis
    unfolding normalizeLogicAnalyzerSelectedPins_def by blast
qed


subsection \<open>Normal forms of configurations\<close>

lemma clampInteger_int:
  assumes "lo \<le> hi"
  obtains k where "clampInteger v (js_int lo) (js_int hi) = js_int k" "lo \<le> k" "k \<le> hi"
    "\<And>i. v = js_int i \<Longrightarrow> k = min hi (max lo i)"
proof (cases v)
  case (Fin r)
  let ?k = "min hi (max lo (rat_trunc r))"
  have "clampInteger v (js_int lo) (js_int hi) = js_int ?k"
    unfolding Fin clampInteger_def
    by (simp add: of_int_min [symmetric] of_int_max [symmetric] del: of_int_min of_int_max)
  then show thesis using assms by (intro that [of ?k]) (auto simp: Fin)
qed (use that [of lo] assms in \<open>auto simp: clampInteger_def\<close>)

definition normal_config :: "LogicAnalyzerConfig \<Rightarrow> bool" where
  "normal_config c \<longleftrightarrow>
     (\<exists>ps. selectedPins c = map (\<lambda>p. js_int p) ps \<and> sorted ps \<and> distinct ps \<and> set ps \<subseteq> {10..20}) \<and>
     (\<exists>b \<in> set LOGIC_ANALYZER_SAMPLE_RATES_HZ. sampleRateHz c = js_int b) \<and>
     (\<exists>p. preSamples c = js_int p) \<and>
     (\<exists>q. postSamples c = js_int q \<and> 1 \<le> q \<and> q \<le> 9007199254740991) \<and>
     (\<exists>k. triggerPin c = js_int k \<and> 0 \<le> k \<and> k \<le> max 0 (int (length (selectedPins c)) - 1))"

lemma normal_config_base: "normal_config (normalizeLogicAnalyzerConfigBase c)"
proof -
  let ?pins = "normalizeLogicAnalyzerSelectedPins (selectedPins c)"
  have pins: "\<exists>ps. ?pins = map (\<lambda>p. js_int p) ps \<and> sorted ps \<and> distinct ps \<and> set ps \<subseteq> {10..20}"
    by (rule normalized_pins) blast
  have rate: "\<exists>b \<in> set LOGIC_ANALYZER_SAMPLE_RATES_HZ.
      normalizeLogicAnalyzerSampleRate (sampleRateHz c) = js_int b"
  proof (cases "sampleRateHz c")
    case (Fin r)
    show ?thesis unfolding Fin by (rule normalize_rate_Fin [of r]) blast
  qed (auto simp: LOGIC_ANALYZER_SAMPLE_RATES_HZ_def)
  have pre: "\<exists>p. (if isFinite (preSamples c) then js_trunc (preSamples c) else Fin 0) = js_int p"
    by (cases "preSamples c") (auto intro: exI [of _ 0])
  have post: "\<exists>q. clampInteger (postSamples c) (Fin 1) MAX_SAFE_INTEGER = js_int q \<and>
      1 \<le> q \<and> q \<le> 9007199254740991"
    by (rule clampInteger_int [of 1 9007199254740991 "postSamples c"]) auto
  have trig: "\<exists>k. clampInteger (triggerPin c) (Fin 0) (js_int n) = js_int k \<and> 0 \<le> k \<and> k \<le> n"
    if "0 \<le> n" for n
    by (rule clampInteger_int [OF that, of "triggerPin c"]) auto
  show ?thesis
    unfolding normal_config_def normalizeLogicAnalyzerConfigBase_def Let_def
    using pins rate pre post trig [of "max 0 (int (length ?pins) - 1)"]
    by simp
qed

lemma keep_pins_ints:
  "set ps \<subseteq> set allowed \<Longrightarrow> keep_pins allowed (map (\<lambda>p. js_int p) ps) = map (\<lambda>p. js_int p) ps"
  by (induction ps) (auto simp: keep_pins_def)

lemma dedupe_sorted:
  assumes "sorted ps" "distinct ps"
  shows "dedupeAndSortPins (map (\<lambda>p. js_int p) ps) = map (\<lambda>p. js_int p) ps"
proof -
  have "sorted (map (\<lambda>p. js_int p) ps)" using assms(1) by (simp add: sorted_map)
  moreover have "distinct (map (\<lambda>p. js_int p) ps)" using assms(2) by (simp add: distinct_map inj_on_def)
  ultimately show ?thesis
    by (simp add: dedupeAndSortPins_def distinct_remdups_id sort_key_id_if_sorted)
qed

lemma normalize_rate_table:
  assumes "b \<in> set LOGIC_ANALYZER_SAMPLE_RATES_HZ"
  shows "normalizeLogicAnalyzerSampleRate (js_int b) = js_int b"
proof (rule normalize_rate_Fin [of "of_int b"])
  fix b'
  assume n: "normalizeLogicAnalyzerSampleRate (js_int b) = js_int b'"
    and best: "\<And>c. c \<in> set LOGIC_ANALYZER_SAMPLE_RATES_HZ \<Longrightarrow> better_rate (rat_trunc (of_int b)) b' c"
  from best [OF assms] have "b' = b" by (auto simp: better_rate_def)
  with n show ?thesis by (simp only:)
qed

lemma normal_config_fixed:
  assumes "normal_config c"
  shows "normalizeLogicAnalyzerConfigBase c = c"
proof -
  obtain ps b p q k where f: "selectedPins c = map (\<lambda>p. js_int p) ps" "sorted ps" "distinct ps"
    "set ps \<subseteq> {10..20}" "b \<in> set LOGIC_ANALYZER_SAMPLE_RATES_HZ" "sampleRateHz c = js_int b"
    "preSamples c = js_int p" "postSamples c = js_int q" "1 \<le> q" "q \<le> 9007199254740991"
    "triggerPin c = js_int k" "0 \<le> k" "k \<le> max 0 (int (length (selectedPins c)) - 1)"
    using assms unfolding normal_config_def by blast
  have allowed: "set ps \<subseteq> set CONFIG_V2_EXACT_WIDE11_PINS"
    using f(4) by (simp add: set_wide11_pins)
  have pins: "normalizeLogicAnalyzerSelectedPins (selectedPins c) = selectedPins c"
    unfolding normalizeLogicAnalyzerSelectedPins_def f(1) keep_pins_ints [OF allowed]
    by (rule dedupe_sorted [OF f(2,3)])
  have rate: "normalizeLogicAnalyzerSampleRate (sampleRateHz c) = sampleRateHz c"
    unfolding f(6) by (rule normalize_rate_table [OF f(5)])
  have post: "clampInteger (postSamples c) (Fin 1) MAX_SAFE_INTEGER = postSamples c"
    by (rule clampInteger_int [of 1 9007199254740991 "postSamples c"]) (use f(8-10) in auto)
  have trig: "clampInteger (triggerPin c) (Fin 0) (js_int n) = triggerPin c" if "k \<le> n" "0 \<le> n" for n
    by (rule clampInteger_int [OF that(2), of "triggerPin c"]) (use f(11,12) that in auto)
  show ?thesis
    unfolding normalizeLogicAnalyzerConfigBase_def Let_def pins rate post trig [OF f(13) max.cobounded1]
    using f(7) by simp
qed

lemma generic_reason_total:
  assumes "getLogicAnalyzerPreTriggerGenericReason c False = None"
    and "preSamples c = js_int p" "postSamples c = js_int q" "1 \<le> p"
  shows "p \<le> 511" "1 \<le> q"
    and "1 \<le> q' \<Longrightarrow> p + q' \<le> 512 \<Longrightarrow>
      getLogicAnalyzerPreTriggerGenericReason (c\<lparr>postSamples := js_int q'\<rparr>) t = None"
proof -
  have p: "p \<noteq> 0" "\<not> p < 1" using assms(4) by auto
  show "p \<le> 511" "1 \<le> q"
    using assms p by (auto simp: getLogicAnalyzerPreTriggerGenericReason_def split: if_splits)
  assume q': "1 \<le> q'" "p + q' \<le> 512"
  then have "(of_int p + of_int q' :: rat) \<le> 512"
    by (metis of_int_add of_int_le_numeral_iff)
  with assms p q' show "getLogicAnalyzerPreTriggerGenericReason (c\<lparr>postSamples := js_int q'\<rparr>) t = None"
    unfolding getLogicAnalyzerPreTriggerGenericReason_def
    by (auto simp: Let_def split: if_splits option.splits)
qed

lemma normal_config_updates:
  "normal_config c \<Longrightarrow> normal_config (c\<lparr>preSamples := Fin 0\<rparr>)"
  "normal_config c \<Longrightarrow> 1 \<le> q \<Longrightarrow> q \<le> 512 \<Longrightarrow> normal_config (c\<lparr>postSamples := js_int q\<rparr>)"
  unfolding normal_config_def by (auto intro: exI [of _ 0])

text \<open>
  The configuration a user edits is always brought into a state the capture rules
  accept: after \<open>normalizeLogicAnalyzerLocalConfig\<close> there is either no pre-trigger window,
  or one of 1 to 511 samples with at least one sample after the trigger and at most 512 in
  all, and the generic pre-trigger check (total included) has nothing to complain about.
  Normalising a second time changes nothing.
\<close>

lemma local_config_is_capturable:
  "let cfg = normalizeLogicAnalyzerLocalConfig config
   in getLogicAnalyzerPreTriggerGenericReason cfg True = None \<and>
      (preSamples cfg = Fin 0 \<or>
       (\<exists>p q. preSamples cfg = js_int p \<and> postSamples cfg = js_int q \<and> 1 \<le> p \<and> 1 \<le> q \<and> p + q \<le> 512)) \<and>
      normalizeLogicAnalyzerLocalConfig cfg = cfg"
proof -
  let ?n = "normalizeLogicAnalyzerConfigBase config"
  have n: "normal_config ?n" by (rule normal_config_base)
  then obtain p q where pq: "preSamples ?n = js_int p" "postSamples ?n = js_int q"
    unfolding normal_config_def by blast
  show ?thesis
  proof (cases "p \<le> 0 \<or> getLogicAnalyzerPreTriggerGenericReason ?n False \<noteq> None")
    case True
    then have cfg: "normalizeLogicAnalyzerLocalConfig config = ?n\<lparr>preSamples := Fin 0\<rparr>"
      unfolding normalizeLogicAnalyzerLocalConfig_def Let_def pq by auto
    have fixed: "normalizeLogicAnalyzerConfigBase (?n\<lparr>preSamples := Fin 0\<rparr>) = ?n\<lparr>preSamples := Fin 0\<rparr>"
      by (rule normal_config_fixed [OF normal_config_updates(1) [OF n]])
    show ?thesis
      unfolding cfg Let_def
      by (simp add: normalizeLogicAnalyzerLocalConfig_def fixed getLogicAnalyzerPreTriggerGenericReason_def)
  next
    case False
    define q' where "q' = min q (512 - p)"
    from False have p: "1 \<le> p" and g: "getLogicAnalyzerPreTriggerGenericReason ?n False = None" by auto
    note total = generic_reason_total [OF g pq p]
    have q': "1 \<le> q'" "p + q' \<le> 512" "q' \<le> 512" using total(1,2) p by (auto simp: q'_def)
    have eq: "js_min (js_int x) (js_sub (js_int LOGIC_ANALYZER_MAX_PRE_TRIGGER_TOTAL_SAMPLES) (js_int p)) =
        js_int (min x (512 - p))" for x
      by (simp add: of_int_min)
    have cfg: "normalizeLogicAnalyzerLocalConfig config = ?n\<lparr>postSamples := js_int q'\<rparr>" (is "_ = ?c")
      unfolding normalizeLogicAnalyzerLocalConfig_def Let_def pq eq using False p
      by (auto simp: q'_def)
    have c: "preSamples ?c = js_int p" "postSamples ?c = js_int q'" using pq by simp_all
    have ok: "getLogicAnalyzerPreTriggerGenericReason ?c t = None" for t
      by (rule total(3) [OF q'(1,2)])
    have fixed: "normalizeLogicAnalyzerConfigBase ?c = ?c"
      by (rule normal_config_fixed [OF normal_config_updates(2) [OF n q'(1,3)]])
    have min: "min q' (512 - p) = q'" using q' by simp
    have idem: "normalizeLogicAnalyzerLocalConfig ?c = ?c"
      unfolding normalizeLogicAnalyzerLocalConfig_def Let_def fixed c eq min using ok p by simp
    show ?thesis
      unfolding cfg Let_def using ok idem c p q' by blast
  qed
qed


subsection \<open>Requests\<close>

lemma shl1_pin: "10 \<le> p \<Longrightarrow> p \<le> 20 \<Longrightarrow> js_shl1 (js_int (p - 10)) = 2 ^ nat (p - 10)"
proof -
  assume p: "10 \<le> p" "p \<le> 20"
  then have "p = 10 \<or> p = 11 \<or> p = 12 \<or> p = 13 \<or> p = 14 \<or> p = 15 \<or> p = 16 \<or> p = 17 \<or>
      p = 18 \<or> p = 19 \<or> p = 20"
    by presburger
  then show ?thesis by (elim disjE) (simp_all add: js_shl1_def)
qed

lemma map_channel:
  assumes "10 \<le> p" "p \<le> 20" "mode = FAST8 \<longrightarrow> p \<le> 17"
  shows "mapSigrokLogicalChannel (js_int p) mode = Some (js_int (p - 10))"
proof -
  have "js_le (Fin 10) (js_int p)" "js_le (js_int p) (Fin 20)" "mode = FAST8 \<longrightarrow> js_le (js_int p) (Fin 17)"
    using assms by simp_all
  then show ?thesis by (simp add: mapSigrokLogicalChannel_def)
qed

lemma mask_loop_bits:
  assumes "set ps \<subseteq> {10..20}" "mode = FAST8 \<longrightarrow> set ps \<subseteq> {10..17}"
  shows "\<exists>m'. mask_loop mode m (map (\<lambda>p. js_int p) ps) = Inr m' \<and>
    (\<forall>i. bit m' i \<longleftrightarrow> bit m i \<or> 10 + int i \<in> set ps)"
  using assms
proof (induction ps arbitrary: m)
  case (Cons p ps)
  have p: "10 \<le> p" "p \<le> 20" "mode = FAST8 \<longrightarrow> p \<le> 17" using Cons.prems by auto
  have b: "bit (2 ^ nat (p - 10) :: u32) i \<longleftrightarrow> 10 + int i = p" for i
    using p by (auto simp: bit_simps)
  have "\<exists>m'. mask_loop mode (m OR 2 ^ nat (p - 10)) (map (\<lambda>p. js_int p) ps) = Inr m' \<and>
      (\<forall>i. bit m' i \<longleftrightarrow> bit (m OR 2 ^ nat (p - 10)) i \<or> 10 + int i \<in> set ps)"
    using Cons.prems by (intro Cons.IH) auto
  then obtain m' where m': "mask_loop mode (m OR 2 ^ nat (p - 10)) (map (\<lambda>p. js_int p) ps) = Inr m'"
    "\<And>i. bit m' i \<longleftrightarrow> bit (m OR 2 ^ nat (p - 10)) i \<or> 10 + int i \<in> set ps" by blast
  have "mask_loop mode m (map (\<lambda>p. js_int p) (p # ps)) = Inr m'"
    unfolding list.map mask_loop.simps map_channel [OF p] option.case shl1_pin [OF p(1,2)] by (rule m'(1))
  moreover have "bit m' i \<longleftrightarrow> bit m i \<or> 10 + int i \<in> set (p # ps)" for i
    unfolding m'(2) bit_or_iff b by auto
  ultimately show ?case by blast
qed simp

lemma mode_pins:
  assumes "set ps \<subseteq> {10..20}" "getSigrokModeForPins (map (\<lambda>p. js_int p) ps) = FAST8"
  shows "set ps \<subseteq> {10..17}"
proof
  fix p
  assume p: "p \<in> set ps"
  have "\<not> js_le (Fin 18) (js_int p)"
    using assms(2) p by (auto simp: getSigrokModeForPins_def list_ex_iff split: if_splits)
  with assms(1) p show "p \<in> {10..17}" by auto
qed

lemma channel_mask:
  assumes "set ps \<subseteq> {10..20}" "mode = getSigrokModeForPins (map (\<lambda>p. js_int p) ps)"
  obtains m where "buildSigrokChannelMask (map (\<lambda>p. js_int p) ps) mode = Inr m"
    "\<And>i. bit m i \<longleftrightarrow> 10 + int i \<in> set ps"
  using mask_loop_bits [OF assms(1), of mode 0] mode_pins [OF assms(1)] assms(2)
  unfolding buildSigrokChannelMask_def by auto

lemma small_mask:
  assumes "\<And>i. bit (m :: u32) i \<Longrightarrow> i < n" "n \<le> 31"
  shows "sint m = uint m" "uint m < 2 ^ n"
proof -
  have t: "take_bit n m = m"
    using assms(1) by (intro bit_word_eqI) (auto simp: bit_simps)
  then have "uint m = take_bit n (uint m)"
    by (metis unsigned_take_bit_eq)
  then show u: "uint m < 2 ^ n"
    by (metis take_bit_int_less_exp)
  have "(2::int) ^ n \<le> 2 ^ 31" using assms(2) by (intro power_increasing) auto
  with u have "uint m < 2147483648" by simp
  moreover have "\<not> bit m 31" using assms by fastforce
  ultimately show "sint m = uint m"
    by (simp add: sint_uint signed_take_bit_eq_if_positive bit_uint_iff bit_simps take_bit_int_eq_self_iff)
qed

lemma rate_khz_thousands: "1 \<le> k \<Longrightarrow> rate_khz (js_int (1000 * k)) = js_int k"
proof -
  assume k: "1 \<le> k"
  have "\<lfloor>(of_int k :: rat) + 1 / 2\<rfloor> = k" by linarith
  with k show ?thesis by (simp add: max_def)
qed

lemma rate_khz_table:
  assumes "b \<in> set LOGIC_ANALYZER_SAMPLE_RATES_HZ"
  obtains k where "rate_khz (js_int b) = js_int k" "b = 1000 * k" "100 \<le> k" "k \<le> 125000"
proof -
  have "1000 dvd b" "100000 \<le> b" "b \<le> 125000000"
    using assms by (auto simp: LOGIC_ANALYZER_SAMPLE_RATES_HZ_def)
  then obtain k where "b = 1000 * k" "100 \<le> k" "k \<le> 125000" by (auto elim!: dvdE)
  with that rate_khz_thousands show thesis by simp
qed

text \<open>Mode, mask and trigger of a request agree with the selected pins.\<close>

definition request_pins :: "SigrokConfigReq \<Rightarrow> int list \<Rightarrow> LogicAnalyzerTriggerType \<Rightarrow> bool" where
  "request_pins req ps trig \<longleftrightarrow>
     (\<exists>m. reqChannelMask req = js_int m \<and> 0 < m \<and> m < 2 ^ 11 \<and>
        (\<forall>i. bit m i \<longleftrightarrow> 10 + int i \<in> set ps) \<and>
        (reqModeId req = Fin 1 \<longrightarrow> m < 2 ^ 8) \<and>
        (trig \<noteq> TrigNone \<longrightarrow>
          (\<exists>ch. reqTriggerChannel req = js_int ch \<and> 0 \<le> ch \<and> ch < 11 \<and> bit m (nat ch)))) \<and>
     (reqModeId req = Fin 1 \<or> reqModeId req = Fin 2) \<and>
     reqTriggerType req = mapTriggerType trig \<and>
     (trig = TrigNone \<longrightarrow> reqTriggerChannel req = Fin 0)"

lemma mask_of_pins:
  assumes ps: "set ps \<subseteq> {10..20}" "ps \<noteq> []" and bits: "\<And>i. bit (m :: u32) i \<longleftrightarrow> 10 + int i \<in> set ps"
  shows "sint m = uint m" "0 < uint m" "uint m < 2 ^ 11" "bit (uint m) i \<longleftrightarrow> 10 + int i \<in> set ps"
    and "set ps \<subseteq> {10..17} \<Longrightarrow> uint m < 2 ^ 8"
proof -
  have small: "i < 11" if "bit m i" for i using that bits ps(1) by auto
  show "sint m = uint m" "uint m < 2 ^ 11" by (rule small_mask [OF small]; simp)+
  show u: "bit (uint m) i \<longleftrightarrow> 10 + int i \<in> set ps" for i
    using bits [of i] by (auto simp: bit_uint_iff dest: bit_imp_le_length)
  obtain p where "p \<in> set ps" using ps(2) by (cases ps) auto
  with ps(1) u [of "nat (p - 10)"] have "bit (uint m) (nat (p - 10))" by auto
  then have "uint m \<noteq> 0" by auto
  then show "0 < uint m" using uint_ge_0 [of m] by linarith
  assume "set ps \<subseteq> {10..17}"
  then have "bit m i \<Longrightarrow> i < 8" for i using bits by auto
  then show "uint m < 2 ^ 8" by (intro small_mask(2)) simp_all
qed

lemma request_of_normal:
  assumes n: "normal_config cfg" and ps: "selectedPins cfg = map (\<lambda>p. js_int p) ps" "ps \<noteq> []"
  obtains req where "request_of cfg options = Inr req" "request_pins req ps (triggerType cfg)"
    "reqSamplerateKhz req = rate_khz (sampleRateHz cfg)"
    "reqPreSamples req = (if optStream options then Fin 0 else preSamples cfg)"
    "reqPostSamples req = (if optStream options then Fin 0 else postSamples cfg)"
proof -
  let ?mode = "getSigrokModeForPins (selectedPins cfg)"
  obtain ps' where "selectedPins cfg = map (\<lambda>p. js_int p) ps'" "set ps' \<subseteq> {10..20}"
    using n unfolding normal_config_def by blast
  with ps have "ps' = ps" by (simp add: inj_map_eq_map inj_on_def)
  with \<open>set ps' \<subseteq> {10..20}\<close> have range: "set ps \<subseteq> {10..20}" by simp
  have fast: "?mode = FAST8 \<Longrightarrow> set ps \<subseteq> {10..17}" using mode_pins [OF range] ps by simp
  obtain m where m: "buildSigrokChannelMask (selectedPins cfg) ?mode = Inr m"
    "\<And>i. bit m i \<longleftrightarrow> 10 + int i \<in> set ps"
    using channel_mask [OF range refl] ps by metis
  note um = mask_of_pins [OF range ps(2) m(2)]
  obtain k where k: "triggerPin cfg = js_int k" "0 \<le> k" "k < int (length ps)"
    using n ps unfolding normal_config_def by (cases ps) auto
  let ?p = "ps ! nat k"
  have p: "?p \<in> set ps" using k by simp
  with range have p_range: "10 \<le> ?p" "?p \<le> 20" by auto
  have "pin_at (selectedPins cfg) (triggerPin cfg) = Some (js_int ?p)"
    using k ps(1) by (simp add: nth_opt_def)
  moreover have "mapSigrokLogicalChannel (js_int ?p) ?mode = Some (js_int (?p - 10))"
  proof (intro map_channel impI)
    assume "?mode = FAST8"
    then show "?p \<le> 17" using fast p by fastforce
  qed (use p_range in simp_all)
  ultimately have channel: "(case (if triggerType cfg = TrigNone then None
        else pin_at (selectedPins cfg) (triggerPin cfg)) of None \<Rightarrow> Some (Fin 0)
      | Some p \<Rightarrow> mapSigrokLogicalChannel p ?mode) =
      Some (if triggerType cfg = TrigNone then Fin 0 else js_int (?p - 10))"
    by (simp del: of_int_diff)
  have bit: "bit (uint m) (nat (?p - 10))" using um(4) [of "nat (?p - 10)"] p p_range by simp
  let ?req = "\<lparr>reqModeId = js_int (uint (mode_value ?mode)),
    reqTriggerType = mapTriggerType (triggerType cfg),
    reqTriggerChannel = (if triggerType cfg = TrigNone then Fin 0 else js_int (?p - 10)),
    reqChannelMask = js_int (sint m), reqSamplerateKhz = rate_khz (sampleRateHz cfg),
    reqPreSamples = (if optStream options then Fin 0 else preSamples cfg),
    reqPostSamples = (if optStream options then Fin 0 else postSamples cfg)\<rparr>"
  have modes: "?mode = FAST8 \<and> reqModeId ?req = Fin 1 \<or> ?mode = WIDE11 \<and> reqModeId ?req = Fin 2"
    by (cases ?mode) simp_all
  have trig: "\<exists>ch. reqTriggerChannel ?req = js_int ch \<and> 0 \<le> ch \<and> ch < 11 \<and> bit (uint m) (nat ch)"
    if "triggerType cfg \<noteq> TrigNone"
    using that bit p_range by (intro exI [of _ "?p - 10"]) (simp del: of_int_diff)
  have "\<exists>M. reqChannelMask ?req = js_int M \<and> 0 < M \<and> M < 2 ^ 11 \<and>
      (\<forall>i. bit M i \<longleftrightarrow> 10 + int i \<in> set ps) \<and> (reqModeId ?req = Fin 1 \<longrightarrow> M < 2 ^ 8) \<and>
      (triggerType cfg \<noteq> TrigNone \<longrightarrow>
        (\<exists>ch. reqTriggerChannel ?req = js_int ch \<and> 0 \<le> ch \<and> ch < 11 \<and> bit M (nat ch)))"
  proof (rule exI [of _ "uint m"], intro conjI impI allI)
    show "reqChannelMask ?req = js_int (uint m)" by (simp only: um(1) SigrokConfigReq.simps)
    show "uint m < 2 ^ 8" if "reqModeId ?req = Fin 1"
      by (rule um(5)) (use that modes fast in auto)
  qed (use um(2-4) trig in blast)+
  with modes have "request_pins ?req ps (triggerType cfg)"
    unfolding request_pins_def by auto
  moreover have "request_of cfg options = Inr ?req"
    unfolding request_of_def Let_def channel m(1) by simp
  ultimately show thesis by (intro that [of ?req]) simp_all
qed


lemma normalizeLogicAnalyzerConfig_Inr:
  "normalizeLogicAnalyzerConfig config options = Inr cfg \<Longrightarrow> cfg = normalizeLogicAnalyzerConfigBase config"
  by (auto simp: normalizeLogicAnalyzerConfig_def Let_def split: option.splits)

lemma base_selectedPins [simp]:
  "selectedPins (normalizeLogicAnalyzerConfigBase config) =
     normalizeLogicAnalyzerSelectedPins (selectedPins config)"
  "triggerType (normalizeLogicAnalyzerConfigBase config) = triggerType config"
  by (simp_all add: normalizeLogicAnalyzerConfigBase_def Let_def)

lemma js_int_list_obtain:
  assumes "normal_config cfg"
  obtains ps where "selectedPins cfg = map (\<lambda>p. js_int p) ps" "sorted ps" "distinct ps" "set ps \<subseteq> {10..20}"
  using assms unfolding normal_config_def by blast

lemma capture_request_cases:
  defines "config' options config \<equiv>
    (if optStream options then config\<lparr>preSamples := Fin 0, postSamples := Fin 1\<rparr> else config)"
  assumes "buildSigrokCaptureRequest config options = res"
  shows "(\<exists>e. normalizeLogicAnalyzerConfig (config' options config) options = Inl e \<and> res = Inl e) \<or>
    (\<exists>cfg. cfg = normalizeLogicAnalyzerConfigBase (config' options config) \<and>
      (selectedPins cfg = [] \<and> res = Inl NoSupportedPin \<or>
       (\<exists>e. getLogicAnalyzerConfigValidationError cfg options = Some e \<and> res = Inl e) \<or>
       selectedPins cfg \<noteq> [] \<and> getLogicAnalyzerConfigValidationError cfg options = None \<and>
         res = request_of cfg options))"
proof (cases "normalizeLogicAnalyzerConfig (config' options config) options")
  case (Inl e)
  with assms show ?thesis by (auto simp: buildSigrokCaptureRequest_def)
next
  case (Inr cfg)
  with assms have "res = (if length (selectedPins cfg) = 0 then Inl NoSupportedPin
       else case getLogicAnalyzerConfigValidationError cfg options of
         Some validationError \<Rightarrow> Inl validationError | None \<Rightarrow> request_of cfg options)"
    by (simp add: buildSigrokCaptureRequest_def)
  with normalizeLogicAnalyzerConfig_Inr [OF Inr] show ?thesis
    by (cases "getLogicAnalyzerConfigValidationError cfg options") auto
qed

lemma capture_request_Inr:
  assumes "buildSigrokCaptureRequest config options = Inr req"
  obtains cfg ps where "normal_config cfg" "selectedPins cfg = map (\<lambda>p. js_int p) ps"
    "map (\<lambda>p. js_int p) ps = normalizeLogicAnalyzerSelectedPins (selectedPins config)"
    "getLogicAnalyzerConfigValidationError cfg options = None"
    "request_pins req ps (triggerType config)"
    "reqSamplerateKhz req = rate_khz (sampleRateHz cfg)"
    "reqPreSamples req = (if optStream options then Fin 0 else preSamples cfg)"
    "reqPostSamples req = (if optStream options then Fin 0 else postSamples cfg)"
proof -
  let ?config = "if optStream options then config\<lparr>preSamples := Fin 0, postSamples := Fin 1\<rparr> else config"
  let ?cfg = "normalizeLogicAnalyzerConfigBase ?config"
  from capture_request_cases [OF assms]
  have pins: "selectedPins ?cfg \<noteq> []" and valid: "getLogicAnalyzerConfigValidationError ?cfg options = None"
    and req: "request_of ?cfg options = Inr req" by auto
  have n: "normal_config ?cfg" by (rule normal_config_base)
  from n obtain ps where ps: "selectedPins ?cfg = map (\<lambda>p. js_int p) ps"
    by (rule js_int_list_obtain)
  with pins have "ps \<noteq> []" by auto
  from request_of_normal [OF n ps this, of options] req
  have fields: "request_pins req ps (triggerType ?cfg)" "reqSamplerateKhz req = rate_khz (sampleRateHz ?cfg)"
    "reqPreSamples req = (if optStream options then Fin 0 else preSamples ?cfg)"
    "reqPostSamples req = (if optStream options then Fin 0 else postSamples ?cfg)"
    by (metis sum.inject(2))+
  have same: "selectedPins ?config = selectedPins config" "triggerType ?config = triggerType config"
    by simp_all
  show thesis
    by (rule that [OF n ps _ valid]) (use fields same ps in \<open>simp_all only: base_selectedPins\<close>)
qed

lemma fits_uintI: "0 \<le> i \<Longrightarrow> i < 2 ^ n \<Longrightarrow> fits_uint n (js_int i)"
  by (auto simp: fits_uint_def)

lemma fits_uint_0: "fits_uint n (Fin 0)"
  using fits_uintI [of 0 n] by simp

lemma fits_uint_mono: "fits_uint n v \<Longrightarrow> n \<le> m \<Longrightarrow> fits_uint m v"
  unfolding fits_uint_def by (metis le_less_trans not_le power_increasing_iff one_less_numeral_iff semiring_norm(76) less_le_trans)

lemma request_pins_fit:
  assumes "request_pins req ps trig"
  shows "fits_uint 8 (reqModeId req)" "fits_uint 8 (reqTriggerType req)"
    "fits_uint 8 (reqTriggerChannel req)" "fits_uint 16 (reqChannelMask req)"
proof -
  have small: "fits_uint 8 (Fin 1)" "fits_uint 8 (Fin 2)" "fits_uint 8 (Fin 3)"
    using fits_uintI [of 1 8] fits_uintI [of 2 8] fits_uintI [of 3 8] by simp_all
  show "fits_uint 8 (reqModeId req)" using assms small by (auto simp: request_pins_def)
  show "fits_uint 8 (reqTriggerType req)"
    using assms small fits_uint_0 by (cases trig) (auto simp: request_pins_def)
  show "fits_uint 8 (reqTriggerChannel req)"
    using assms fits_uint_0 by (cases "trig = TrigNone") (auto simp: request_pins_def intro!: fits_uintI)
  show "fits_uint 16 (reqChannelMask req)"
    using assms by (auto simp: request_pins_def intro!: fits_uintI)
qed

lemma normal_rate_fits:
  assumes "normal_config cfg"
  shows "fits_uint 24 (rate_khz (sampleRateHz cfg))"
proof -
  obtain b where b: "b \<in> set LOGIC_ANALYZER_SAMPLE_RATES_HZ" "sampleRateHz cfg = js_int b"
    using assms unfolding normal_config_def by blast
  show ?thesis
    unfolding b(2) by (rule rate_khz_table [OF b(1)]) (simp add: fits_uintI)
qed

lemma valid_counts_fit:
  assumes "normal_config cfg" "getLogicAnalyzerConfigValidationError cfg options = None"
    "\<not> optStream options"
  shows "fits_uint 16 (preSamples cfg)" "fits_uint 32 (postSamples cfg)"
    "fits_uint 16 (postSamples cfg) \<or> optConfigV2 options"
proof -
  obtain p q where pq: "preSamples cfg = js_int p" "postSamples cfg = js_int q" "1 \<le> q"
    using assms(1) unfolding normal_config_def by blast
  from assms(2) have pre: "getLogicAnalyzerPreTriggerGenericReason cfg True = None"
    and neg: "getLogicAnalyzerNegotiatedCapabilityReason cfg options = None"
    by (auto simp: getLogicAnalyzerConfigValidationError_def getLogicAnalyzerPreTriggerReason_def
        Let_def split: option.splits if_splits)
  from pre have "p = 0 \<or> 1 \<le> p \<and> p \<le> 511"
    by (auto simp: getLogicAnalyzerPreTriggerGenericReason_def pq split: if_splits)
  then show "fits_uint 16 (preSamples cfg)" unfolding pq by (auto intro!: fits_uintI)
  from neg assms(3) have "q \<le> 65535 \<or> q \<le> 100000 \<and> optConfigV2 options"
    by (auto simp: getLogicAnalyzerNegotiatedCapabilityReason_def Let_def pq split: if_splits)
  with pq(3) show "fits_uint 32 (postSamples cfg)" "fits_uint 16 (postSamples cfg) \<or> optConfigV2 options"
    unfolding pq by (auto intro!: fits_uintI)
qed

lemma config_request_sendable:
  assumes "fits_uint 8 (reqModeId req)" "fits_uint 8 (reqTriggerType req)"
      "fits_uint 8 (reqTriggerChannel req)" "fits_uint 16 (reqChannelMask req)"
      "fits_uint 24 (reqSamplerateKhz req)" "fits_uint 16 (reqPreSamples req)"
      "fits_uint 32 (reqPostSamples req)" "fits_uint 16 (reqPostSamples req) \<or> cap"
  shows "\<exists>t p. buildSigrokConfigFrameRequest req cap None = Inr (t, p) \<and> readConfig t p = req"
proof (cases "fits_uint 16 (reqPostSamples req)")
  case True
  then obtain p where p: "buildSigrokConfigPayloadV1 req = Inr p"
    using assms buildSigrokConfigPayloadV1_Inr_iff [of req] by (auto simp: configV1_checks)
  have "\<not> configNeedsV2 req"
    using configNeedsV2_fits [of req] True assms fits_uint_mono [OF assms(6), of 32] by simp
  with p readConfigV1_build [OF p] show ?thesis
    by (simp add: buildSigrokConfigFrameRequest_def readConfig_def)
next
  case False
  have pre: "fits_uint 32 (reqPreSamples req)" using fits_uint_mono [OF assms(6), of 32] by simp
  then obtain p where p: "buildSigrokConfigPayloadV2 req = Inr p"
    using assms buildSigrokConfigPayloadV2_Inr_iff [of req] by (auto simp: configV2_checks)
  have "configNeedsV2 req" "cap"
    using configNeedsV2_fits [of req] False assms pre by auto
  with p readConfigV2_build [OF p] show ?thesis
    by (simp add: buildSigrokConfigFrameRequest_def readConfig_def)
qed

text \<open>
  A CONFIG request names exactly the pins the user selected: bit \<open>i\<close> of its channel
  mask is set when GP\<open>10 + i\<close> is among the selected pins that exist, the mask is not empty
  and fits the mode (8 channels in FAST8, 11 in WIDE11), and a trigger's channel is one of
  the channels captured.
\<close>

lemma capture_request_selects_pins:
  assumes "buildSigrokCaptureRequest config options = Inr req"
  shows "\<exists>m. reqChannelMask req = js_int m \<and> 0 < m \<and> m < (if reqModeId req = Fin 1 then 2 ^ 8 else 2 ^ 11) \<and>
    (\<forall>i. bit m i \<longleftrightarrow> js_int (10 + int i) \<in> set (normalizeLogicAnalyzerSelectedPins (selectedPins config))) \<and>
    (if triggerType config = TrigNone then reqTriggerType req = Fin 0 \<and> reqTriggerChannel req = Fin 0
     else \<exists>ch. reqTriggerChannel req = js_int (int ch) \<and> bit m ch)"
proof -
  obtain ps where pins: "map (\<lambda>p. js_int p) ps = normalizeLogicAnalyzerSelectedPins (selectedPins config)"
    and req: "request_pins req ps (triggerType config)"
    using capture_request_Inr [OF assms] by metis
  have mem: "x \<in> set ps \<longleftrightarrow> js_int x \<in> set (normalizeLogicAnalyzerSelectedPins (selectedPins config))" for x
    unfolding pins [symmetric] by auto
  obtain m where m: "reqChannelMask req = js_int m" "0 < m" "m < 2 ^ 11"
    "\<forall>i. bit m i \<longleftrightarrow> 10 + int i \<in> set ps" "reqModeId req = Fin 1 \<longrightarrow> m < 2 ^ 8"
    and ch: "triggerType config \<noteq> TrigNone \<longrightarrow>
      (\<exists>ch. reqTriggerChannel req = js_int ch \<and> 0 \<le> ch \<and> ch < 11 \<and> bit m (nat ch))"
    and none: "reqTriggerType req = mapTriggerType (triggerType config)"
      "triggerType config = TrigNone \<longrightarrow> reqTriggerChannel req = Fin 0"
    using req unfolding request_pins_def by blast
  from ch have "triggerType config \<noteq> TrigNone \<Longrightarrow> \<exists>ch. reqTriggerChannel req = js_int (int ch) \<and> bit m ch"
    by (metis int_nat_eq)
  with m none mem show ?thesis by (intro exI [of _ m]) auto
qed


lemma capture_request_selects_pins_witness:
  "\<exists>m. bit m (3::nat) \<and> (264::rat) = of_int m \<and> buildSigrokCaptureRequest
     \<lparr>selectedPins = [Fin 13, Fin 18], sampleRateHz = Fin 1000000, preSamples = Fin 0,
      postSamples = Fin 100, triggerType = TrigRising, triggerPin = Fin 1\<rparr>
     \<lparr>optStream = False, optConfigV2 = False, optPackedBurst = False, optCaps = None\<rparr> =
    Inr \<lparr>reqModeId = Fin 2, reqTriggerType = Fin 1, reqTriggerChannel = Fin 8,
      reqChannelMask = Fin 264, reqSamplerateKhz = Fin 1000, reqPreSamples = Fin 0,
      reqPostSamples = Fin 100\<rparr>" (is "\<exists>m. _ \<and> _ \<and> buildSigrokCaptureRequest ?config ?options = Inr ?req")
proof -
  have b: "buildSigrokCaptureRequest ?config ?options = Inr ?req" by code_simp
  have pin: "js_int (10 + int 3) \<in> set (normalizeLogicAnalyzerSelectedPins [Fin 13, Fin 18])"
    by code_simp
  from capture_request_selects_pins [OF b] obtain m where m: "reqChannelMask ?req = js_int m"
    "\<forall>i. bit m i \<longleftrightarrow> js_int (10 + int i) \<in> set (normalizeLogicAnalyzerSelectedPins (selectedPins ?config))"
    by blast
  have "bit m 3" using spec [OF m(2), of 3] pin by (simp only: LogicAnalyzerConfig.select_convs)
  with b m(1) show ?thesis by (intro exI [of _ m] conjI) (simp_all only: SigrokConfigReq.select_convs jsnum.inject)
qed

text \<open>
  C13: Every CONFIG request built for a capture can be sent. Whatever configuration was
  asked for, if \<open>buildSigrokCaptureRequest\<close> returns a request then the automatic encoding
  accepts it under the capabilities it was built for, so \<open>configure\<close> cannot fail on its
  field checks, and the payload the firmware receives reads back as that request.
\<close>

theorem capture_request_can_be_sent:
  assumes "buildSigrokCaptureRequest config options = Inr req"
  shows "\<exists>t p. buildSigrokConfigFrameRequest req (optConfigV2 options) None = Inr (t, p) \<and>
    readConfig t p = req"
proof -
  obtain cfg ps where n: "normal_config cfg" and valid: "getLogicAnalyzerConfigValidationError cfg options = None"
    and pins: "request_pins req ps (triggerType config)"
    and rate: "reqSamplerateKhz req = rate_khz (sampleRateHz cfg)"
    and pre: "reqPreSamples req = (if optStream options then Fin 0 else preSamples cfg)"
    and post: "reqPostSamples req = (if optStream options then Fin 0 else postSamples cfg)"
    using capture_request_Inr [OF assms] by metis
  have wire: "fits_uint 8 (reqModeId req)" "fits_uint 8 (reqTriggerType req)"
      "fits_uint 8 (reqTriggerChannel req)" "fits_uint 16 (reqChannelMask req)"
    using request_pins_fit [OF pins] by auto
  have rate: "fits_uint 24 (reqSamplerateKhz req)"
    unfolding rate by (rule normal_rate_fits [OF n])
  have samples: "fits_uint 16 (reqPreSamples req)" "fits_uint 32 (reqPostSamples req)"
    "fits_uint 16 (reqPostSamples req) \<or> optConfigV2 options"
    using valid_counts_fit [OF n valid] unfolding pre post by (auto simp: fits_uint_0)
  show ?thesis
    by (rule config_request_sendable [OF wire rate samples])
qed

theorem capture_request_can_be_sent_witness:
  "\<exists>t p. buildSigrokConfigFrameRequest
      \<lparr>reqModeId = Fin 2, reqTriggerType = Fin 1, reqTriggerChannel = Fin 8,
       reqChannelMask = Fin 264, reqSamplerateKhz = Fin 1000, reqPreSamples = Fin 100,
       reqPostSamples = Fin 412\<rparr> False None = Inr (t, p)" (is "\<exists>t p. buildSigrokConfigFrameRequest ?req _ _ = _")
proof -
  let ?caps = "\<lparr>modeCount = Some 1, modes = [\<lparr>capsModeId = Some 2, modeFlags = Some 0x3e, channelCount = Some 11,
      sampleBytes = Some 2, maxSamplerateKhz = 100000, capsCompression = Some 0\<rparr>]\<rparr>"
  have b: "buildSigrokCaptureRequest \<lparr>selectedPins = [Fin 13, Fin 18], sampleRateHz = Fin 1000000,
      preSamples = Fin 100, postSamples = Fin 412, triggerType = TrigRising, triggerPin = Fin 1\<rparr>
      \<lparr>optStream = False, optConfigV2 = False, optPackedBurst = False, optCaps = Some ?caps\<rparr> = Inr ?req"
    by code_simp
  from capture_request_can_be_sent [OF b] show ?thesis
    by (simp only: LogicAnalyzerSigrokRequestOptions.select_convs) blast
qed

end
