(* ===== verification/Logic_Capture.thy ===== *)
theory Logic_Capture
  imports Logic_Analyzer Sigrok_Samples
begin

text \<open>
  From DATA frames to a capture (\<open>web/src/lib/logicAnalyzer.ts\<close>): the 24 bit sample index
  and its unwrapping, the unpacking of samples, the assembly of a bounded capture with its
  ordering checks, and the normalisation of captures received from elsewhere.
\<close>

subsection \<open>Sample indices\<close>

text \<open>\<open>%\<close> keeps the sign of the dividend.\<close>

definition js_rem :: "int \<Rightarrow> int \<Rightarrow> int" where
  "js_rem a b = (if a < 0 then - ((- a) mod b) else a mod b)"

definition normalizeSigrokSampleIndex :: "jsnum \<Rightarrow> int" where
  "normalizeSigrokSampleIndex sampleIndex =
     (case sampleIndex of
        Fin r \<Rightarrow>
          let modulo = js_rem (rat_trunc r) SIGROK_SAMPLE_INDEX_MODULO
          in if modulo < 0 then modulo + SIGROK_SAMPLE_INDEX_MODULO else modulo
      | _ \<Rightarrow> 0)"

fun best_cycle :: "int \<Rightarrow> int \<Rightarrow> int \<Rightarrow> int \<Rightarrow> int list \<Rightarrow> int" where
  "best_cycle normalizedIndex ref bestCandidate bestDistance [] = bestCandidate"
| "best_cycle normalizedIndex ref bestCandidate bestDistance (cycle # cycles) =
     (let candidate = normalizedIndex + cycle * SIGROK_SAMPLE_INDEX_MODULO;
          distance = \<bar>candidate - ref\<bar>
      in if distance < bestDistance then best_cycle normalizedIndex ref candidate distance cycles
         else best_cycle normalizedIndex ref bestCandidate bestDistance cycles)"

definition unwrapSigrokSampleIndex :: "jsnum \<Rightarrow> int \<Rightarrow> int" where
  "unwrapSigrokSampleIndex sampleIndex referenceAbsoluteIndex =
     (let normalizedIndex = normalizeSigrokSampleIndex sampleIndex;
          baseCycle = referenceAbsoluteIndex div SIGROK_SAMPLE_INDEX_MODULO;
          candidateCycles = [baseCycle - 1, baseCycle, baseCycle + 1];
          bestCandidate = normalizedIndex + hd candidateCycles * SIGROK_SAMPLE_INDEX_MODULO
      in best_cycle normalizedIndex referenceAbsoluteIndex bestCandidate
           \<bar>bestCandidate - referenceAbsoluteIndex\<bar> (tl candidateCycles))"

subsection \<open>Samples\<close>

text \<open>The sample at an offset; \<open>|=\<close> and \<open><<\<close> work on signed 32 bit integers.\<close>

definition sample_at :: "bytes \<Rightarrow> nat \<Rightarrow> nat \<Rightarrow> int" where
  "sample_at packed stride offset =
     sint (foldl (\<lambda>v byteIndex. v OR push_bit (byteIndex * 8) (bits_at packed (offset + byteIndex)))
       (bits_at packed offset) [1..<stride])"

text \<open>The loop over offsets; the stride is at least 1.\<close>

function unpack_loop :: "bytes \<Rightarrow> nat \<Rightarrow> nat \<Rightarrow> int list" where
  "unpack_loop packed stride offset =
     (if 0 < stride \<and> offset + stride \<le> length packed
      then sample_at packed stride offset #
           unpack_loop packed stride (offset + stride)
      else [])"
  by pat_completeness auto
termination
  by (relation "measure (\<lambda>(packed, n, offset). length packed - offset)") auto

declare unpack_loop.simps [simp del]

definition unpackSigrokSamples :: "bytes \<Rightarrow> u32 \<Rightarrow> int list" where
  "unpackSigrokSamples packed channelMask =
     (let stride = max 1 ((countChannelBits channelMask + 7) div 8)
      in unpack_loop packed stride 0)"

subsection \<open>Assembly of a bounded capture\<close>

record SigrokBoundedCaptureFrame =
  boundedMeta :: SigrokDataMeta
  boundedSamples :: bytes

record SigrokBoundedCaptureAssembly =
  firstSampleIndex :: int
  asmSampleCount :: int
  asmTriggerIndex :: int
  asmValues :: "int list"

datatype assembly_error =
    NoDataFrames
  | MaskChanged
  | SampleCountMismatch
  | OutOfOrder
  | GapDetected
  | TriggerOutsideWindow

text \<open>The closure's variables: \<open>firstSampleIndex\<close>, \<open>expectedNextIndex\<close> and \<open>values\<close>.\<close>

fun assemble_frames :: "u32 \<Rightarrow> nat \<Rightarrow> int \<times> int \<times> int list \<Rightarrow>
    SigrokBoundedCaptureFrame list \<Rightarrow> assembly_error + int \<times> int \<times> int list" where
  "assemble_frames channelMask frameIndex state [] = Inr state"
| "assemble_frames channelMask frameIndex (first, expectedNextIndex, vals) (frame # frames) =
     guardR (metaChannelMask (boundedMeta frame) = channelMask) MaskChanged (
       let frameValues = unpackSigrokSamples (boundedSamples frame) channelMask
       in guardR (length frameValues = metaSampleCount (boundedMeta frame)) SampleCountMismatch (
         let sampleIndex = js_int (int (metaSampleIndex (boundedMeta frame)));
             frameStartIndex = (if frameIndex = 0 then normalizeSigrokSampleIndex sampleIndex
               else unwrapSigrokSampleIndex sampleIndex expectedNextIndex);
             next = (vals @ frameValues, frameStartIndex + int (metaSampleCount (boundedMeta frame)))
         in if frameIndex = 0 then
              assemble_frames channelMask (frameIndex + 1) (frameStartIndex, snd next, fst next) frames
            else if frameStartIndex \<noteq> expectedNextIndex then
              Inl (if frameStartIndex < expectedNextIndex then OutOfOrder else GapDetected)
            else assemble_frames channelMask (frameIndex + 1) (first, snd next, fst next) frames))"

definition assembleBoundedSigrokCapture ::
  "SigrokBoundedCaptureFrame list \<Rightarrow> u32 \<Rightarrow> jsnum option \<Rightarrow>
    assembly_error + SigrokBoundedCaptureAssembly" where
  "assembleBoundedSigrokCapture frames channelMask triggerSampleIndex =
     guardR (length frames \<noteq> 0) NoDataFrames (
       bindR (assemble_frames channelMask 0 (0, 0, []) frames) (\<lambda>(first, expectedNextIndex, vals).
         let triggerIndex = (case triggerSampleIndex of None \<Rightarrow> 0
               | Some t \<Rightarrow> unwrapSigrokSampleIndex t first - first)
         in guardR (triggerSampleIndex = None \<or>
                    \<not> (triggerIndex < 0 \<or> triggerIndex \<ge> int (length vals))) TriggerOutsideWindow
              (Inr \<lparr>firstSampleIndex = first, asmSampleCount = int (length vals),
                    asmTriggerIndex = triggerIndex, asmValues = vals\<rparr>)))"

subsection \<open>Captures received from elsewhere\<close>

record LogicAnalyzerCaptureConfig =
  capPinCount :: jsnum
  capPinBase :: jsnum
  capSelectedPins :: "jsnum list option"
  capTriggerPin :: "jsnum option"

record LogicAnalyzerSample =
  timestampUs :: jsnum
  sampleValues :: jsnum

record LogicAnalyzerCapture =
  capConfig :: LogicAnalyzerCaptureConfig
  capSampleCount :: jsnum
  capTriggerIndex :: jsnum
  capSamples :: "LogicAnalyzerSample list"

definition AVAILABLE_PINS_length :: nat where
  "AVAILABLE_PINS_length = 11"

definition normalizeLogicAnalyzerCaptureConfig ::
  "LogicAnalyzerCaptureConfig \<Rightarrow> LogicAnalyzerCaptureConfig" where
  "normalizeLogicAnalyzerCaptureConfig config =
     (let pins = map_option normalizeCaptureSelectedPins (capSelectedPins config);
          pinCountLimit = (case pins of Some ps \<Rightarrow> length ps | None \<Rightarrow> AVAILABLE_PINS_length);
          pinCount = clampInteger (capPinCount config) (Fin 1) (js_int (max 1 (int pinCountLimit)));
          pinBase = (case pins of Some (p # _) \<Rightarrow> p
                     | _ \<Rightarrow> clampInteger (capPinBase config) (Fin 7) (Fin 29));
          trigger = map_option (\<lambda>t. clampInteger t (Fin 0)
            (js_max (Fin 0) (js_sub pinCount (Fin 1)))) (capTriggerPin config)
      in config\<lparr>capPinBase := pinBase, capPinCount := pinCount, capSelectedPins := pins,
           capTriggerPin := trigger\<rparr>)"

definition normalizeLogicAnalyzerCaptureSamples ::
  "LogicAnalyzerSample list \<Rightarrow> nat \<Rightarrow> LogicAnalyzerSample list" where
  "normalizeLogicAnalyzerCaptureSamples samples count =
     map (\<lambda>sample. \<lparr>timestampUs = (if isFinite (timestampUs sample) then timestampUs sample else Fin 0),
           sampleValues = (if isFinite (sampleValues sample) then js_trunc (sampleValues sample) else Fin 0)\<rparr>)
       (take count samples)"

definition normalizeLogicAnalyzerCapture :: "LogicAnalyzerCapture \<Rightarrow> LogicAnalyzerCapture" where
  "normalizeLogicAnalyzerCapture capture =
     (let config = normalizeLogicAnalyzerCaptureConfig (capConfig capture);
          count = clampInteger (capSampleCount capture) (Fin 0) (js_int (int (length (capSamples capture))));
          samples = normalizeLogicAnalyzerCaptureSamples (capSamples capture) (nat (int_of count));
          triggerIndex = (if js_eq count (Fin 0) then Fin 0
            else clampInteger (capTriggerIndex capture) (Fin 0) (js_sub count (Fin 1)))
      in capture\<lparr>capConfig := config, capSampleCount := count, capTriggerIndex := triggerIndex,
           capSamples := samples\<rparr>)"

text \<open>
  The sample data of a sigrok session file: two bytes per sample, little-endian, zero where
  a sample is missing. \<open>count\<close> is the capture's sample count.
\<close>

definition sr_logic_data :: "LogicAnalyzerSample list \<Rightarrow> nat \<Rightarrow> bytes" where
  "sr_logic_data samples count =
     concat (map (\<lambda>i. case nth_opt samples i of None \<Rightarrow> [0, 0]
       | Some sample \<Rightarrow> [byte_of (toInt32 (sampleValues sample)) 0, byte_of (toInt32 (sampleValues sample)) 8])
       [0..<count])"

text \<open>The rows of a CSV export: the bits of each present sample; the shift count is modulo 32.\<close>

definition csv_rows :: "LogicAnalyzerSample list \<Rightarrow> nat \<Rightarrow> nat \<Rightarrow> nat list list" where
  "csv_rows samples pinCount count =
     concat (map (\<lambda>i. case nth_opt samples i of None \<Rightarrow> []
       | Some sample \<Rightarrow> [map (\<lambda>b. unat (signed_drop_bit (b mod 32) (toInt32 (sampleValues sample)) AND 1))
           [0..<pinCount]]) [0..<count])"

subsection \<open>Unwrapping is right within half a cycle\<close>

lemma normalize_index_mod:
  "normalizeSigrokSampleIndex (Fin r) = rat_trunc r mod 16777216"
proof -
  let ?t = "rat_trunc r"
  have "- (- ?t mod 16777216) + (if ?t mod 16777216 = 0 then 0 else 16777216) = ?t mod 16777216"
    by (simp add: zmod_zminus1_eq_if)
  then show ?thesis
    by (auto simp: normalizeSigrokSampleIndex_def js_rem_def Let_def zmod_zminus1_eq_if split: if_splits)
qed

lemma normalize_index_range: "0 \<le> normalizeSigrokSampleIndex x" "normalizeSigrokSampleIndex x < 16777216"
proof -
  have "0 \<le> normalizeSigrokSampleIndex x \<and> normalizeSigrokSampleIndex x < 16777216"
  proof (cases x)
    case (Fin r)
    then show ?thesis by (simp add: normalize_index_mod)
  qed (simp_all add: normalizeSigrokSampleIndex_def)
  then show "0 \<le> normalizeSigrokSampleIndex x" "normalizeSigrokSampleIndex x < 16777216" by blast+
qed

lemma unwrap_spec:
  defines "M \<equiv> 16777216 :: int"
  shows "unwrapSigrokSampleIndex x ref mod M = normalizeSigrokSampleIndex x"
    and "- (M div 2) \<le> unwrapSigrokSampleIndex x ref - ref" "unwrapSigrokSampleIndex x ref - ref < M div 2"
proof -
  let ?n = "normalizeSigrokSampleIndex x"
  let ?u = "unwrapSigrokSampleIndex x ref"
  define b where "b = ref div M"
  define q where "q = ref mod M"
  have ref: "ref = b * M + q" "0 \<le> q" "q < M" by (simp_all add: b_def q_def M_def)
  have n: "0 \<le> ?n" "?n < M" using normalize_index_range by (simp_all add: M_def)
  have modulo: "SIGROK_SAMPLE_INDEX_MODULO = M" by (simp add: M_def)
  have u: "?u = (if \<bar>?n + b * M - ref\<bar> < \<bar>?n + (b - 1) * M - ref\<bar>
      then (if \<bar>?n + (b + 1) * M - ref\<bar> < \<bar>?n + b * M - ref\<bar> then ?n + (b + 1) * M else ?n + b * M)
      else (if \<bar>?n + (b + 1) * M - ref\<bar> < \<bar>?n + (b - 1) * M - ref\<bar> then ?n + (b + 1) * M
        else ?n + (b - 1) * M))"
    unfolding unwrapSigrokSampleIndex_def Let_def modulo b_def [symmetric]
      list.sel best_cycle.simps by (rule refl)
  have dist: "?n + b * M - ref = ?n - q" "?n + (b - 1) * M - ref = ?n - q - M"
    "?n + (b + 1) * M - ref = ?n - q + M"
    by (simp_all add: ref(1) algebra_simps)
  have "?u \<in> {?n + (b - 1) * M, ?n + b * M, ?n + (b + 1) * M}" unfolding u by auto
  then show "?u mod M = ?n" using n by auto
  show "- (M div 2) \<le> ?u - ref" "?u - ref < M div 2"
    unfolding u using n ref(2,3) dist by (auto simp: M_def split: if_splits)
qed

lemma unwrap_near:
  assumes "- 8388608 \<le> x - ref" "x - ref < 8388608" "normalizeSigrokSampleIndex s = x mod 16777216"
  shows "unwrapSigrokSampleIndex s ref = x"
proof -
  let ?u = "unwrapSigrokSampleIndex s ref"
  have "?u mod 16777216 = x mod 16777216"
    using unwrap_spec(1) [of s ref] assms(3) by (simp only:)
  then have "16777216 dvd ?u - x" by (simp only: mod_eq_dvd_iff)
  then obtain k where k: "?u - x = 16777216 * k" by (auto elim!: dvdE)
  have "- 16777216 < ?u - x" "?u - x < 16777216"
    using unwrap_spec(2,3) [where x = s and ref = ref] assms(1,2) by simp_all
  with k have "- 1 < k" "k < 1" by linarith+
  then have "k = 0" by simp
  with k show ?thesis by simp
qed

subsection \<open>Assembling what was sent\<close>

text \<open>The frames a device sends for consecutive blocks of samples, its counter at \<open>start\<close>.\<close>

fun sent_frames :: "u32 \<Rightarrow> u8 \<Rightarrow> nat \<Rightarrow> bytes list \<Rightarrow> SigrokBoundedCaptureFrame list" where
  "sent_frames channelMask enc start [] = []"
| "sent_frames channelMask enc start (b # bs) =
     \<lparr>boundedMeta = \<lparr>metaSampleIndex = start mod 16777216,
        metaSampleCount = length (unpackSigrokSamples b channelMask),
        metaCompression = enc, metaChannelMask = channelMask\<rparr>, boundedSamples = b\<rparr> #
     sent_frames channelMask enc (start + length (unpackSigrokSamples b channelMask)) bs"

definition unpack_all :: "u32 \<Rightarrow> bytes list \<Rightarrow> int list" where
  "unpack_all channelMask bs = concat (map (\<lambda>b. unpackSigrokSamples b channelMask) bs)"

lemma normalize_sent: "normalizeSigrokSampleIndex (js_int (int (n mod 16777216))) = int n mod 16777216"
  by (simp add: normalize_index_mod zmod_int del: of_int_of_nat_eq)

lemma assemble_sent_rest:
  "0 < i \<Longrightarrow> assemble_frames m i (first, int start, vals) (sent_frames m c start bs) =
     Inr (first, int start + int (length (unpack_all m bs)), vals @ unpack_all m bs)"
proof (induction bs arbitrary: i start vals)
  case (Cons b bs)
  let ?n = "length (unpackSigrokSamples b m)"
  have u: "unwrapSigrokSampleIndex (js_int (int (start mod 16777216))) (int start) = int start"
    by (rule unwrap_near) (simp_all only: normalize_sent diff_self)
  have "assemble_frames m i (first, int start, vals) (sent_frames m c start (b # bs)) =
      assemble_frames m (i + 1) (first, int (start + ?n), vals @ unpackSigrokSamples b m)
        (sent_frames m c (start + ?n) bs)"
    using Cons.prems u by (simp add: Let_def del: of_int_of_nat_eq)
  with Cons.IH [of "i + 1" "start + ?n" "vals @ unpackSigrokSamples b m"] show ?case
    by (simp add: unpack_all_def)
qed (simp add: unpack_all_def)

lemma assemble_sent:
  assumes "bs \<noteq> []" "start < 16777216"
  shows "assemble_frames m 0 (0, 0, []) (sent_frames m c start bs) =
     Inr (int start, int start + int (length (unpack_all m bs)), unpack_all m bs)"
proof (cases bs)
  case (Cons b bs')
  let ?n = "length (unpackSigrokSamples b m)"
  have n: "normalizeSigrokSampleIndex (js_int (int (start mod 16777216))) = int start"
    unfolding normalize_sent using assms(2) by (simp add: zmod_int [symmetric])
  have "assemble_frames m 0 (0, 0, []) (sent_frames m c start bs) =
      assemble_frames m 1 (int start, int (start + ?n), unpackSigrokSamples b m)
        (sent_frames m c (start + ?n) bs')"
    using n Cons by (simp add: Let_def del: of_int_of_nat_eq)
  with Cons assemble_sent_rest [of 1 m "int start" "start + ?n" "unpackSigrokSamples b m" c bs'] show ?thesis
    by (simp add: unpack_all_def)
qed (simp add: assms)

text \<open>
  C11: Assembly inverts framing. Blocks of samples sent with a 24 bit sample counter that
  may wrap any number of times are put back together in order, and a trigger marked by the
  wrapped counter value of one of the first 2^23 samples is found at that sample.
\<close>

theorem assembly_inverts_framing:
  assumes "bs \<noteq> []" "start < 16777216" "k < length (unpack_all m bs)" "k < 8388608"
  shows "assembleBoundedSigrokCapture (sent_frames m c start bs) m
       (Some (js_int (int ((start + k) mod 16777216)))) =
     Inr \<lparr>firstSampleIndex = int start, asmSampleCount = int (length (unpack_all m bs)),
          asmTriggerIndex = int k, asmValues = unpack_all m bs\<rparr>"
proof -
  have u: "unwrapSigrokSampleIndex (js_int (int ((start + k) mod 16777216))) (int start) = int (start + k)"
  proof (rule unwrap_near)
    show "normalizeSigrokSampleIndex (js_int (int ((start + k) mod 16777216))) = int (start + k) mod 16777216"
      by (rule normalize_sent)
  qed (use assms(4) in simp_all)
  have "length (sent_frames m c start bs) \<noteq> 0" using assms(1) by (cases bs) simp_all
  then show ?thesis
    using assms(3) u unfolding assembleBoundedSigrokCapture_def assemble_sent [OF assms(1,2)]
    by (simp add: Let_def del: of_int_of_nat_eq)
qed

theorem assembly_inverts_framing_witness:
  "assembleBoundedSigrokCapture (sent_frames 1 0 16777215 [[1], [0, 1]]) 1 (Some (Fin 1)) =
     Inr \<lparr>firstSampleIndex = 16777215, asmSampleCount = 3, asmTriggerIndex = 2, asmValues = [1, 0, 1]\<rparr>"
proof -
  have vals: "unpack_all 1 [[1], [0, 1]] = [1, 0, 1]" by code_simp
  show ?thesis
    using assembly_inverts_framing [of "[[1], [0, 1]]" 16777215 2 1 0] by (simp add: vals)
qed

text \<open>The converse: what an accepted list of frames looks like.\<close>

fun frames_ok :: "u32 \<Rightarrow> int \<Rightarrow> SigrokBoundedCaptureFrame list \<Rightarrow> bool" where
  "frames_ok m idx [] = True"
| "frames_ok m idx (f # fs) =
     (metaChannelMask (boundedMeta f) = m \<and>
      length (unpackSigrokSamples (boundedSamples f) m) = metaSampleCount (boundedMeta f) \<and>
      int (metaSampleIndex (boundedMeta f)) mod 16777216 = idx mod 16777216 \<and>
      frames_ok m (idx + int (metaSampleCount (boundedMeta f))) fs)"

lemma normalize_int: "normalizeSigrokSampleIndex (js_int i) = i mod 16777216"
  by (simp add: normalize_index_mod del: of_int_of_nat_eq)

lemma assemble_rest_iff:
  "0 < i \<Longrightarrow> assemble_frames m i (first, idx, vals) fs = Inr (first', idx', vals') \<longleftrightarrow>
     frames_ok m idx fs \<and> first' = first \<and>
     vals' = vals @ unpack_all m (map boundedSamples fs) \<and>
     idx' = idx + int (length (unpack_all m (map boundedSamples fs)))"
proof (induction fs arbitrary: i idx vals)
  case (Cons f fs)
  let ?n = "metaSampleCount (boundedMeta f)"
  let ?s = "int (metaSampleIndex (boundedMeta f))"
  have u: "unwrapSigrokSampleIndex (js_int ?s) idx = idx \<longleftrightarrow> ?s mod 16777216 = idx mod 16777216"
    using unwrap_spec(1) [of "js_int ?s" idx] unwrap_near [of idx idx "js_int ?s"]
    by (auto simp: normalize_int simp del: of_int_of_nat_eq)
  have "assemble_frames m i (first, idx, vals) (f # fs) = Inr (first', idx', vals') \<longleftrightarrow>
      metaChannelMask (boundedMeta f) = m \<and>
      length (unpackSigrokSamples (boundedSamples f) m) = ?n \<and> ?s mod 16777216 = idx mod 16777216 \<and>
      assemble_frames m (i + 1) (first, idx + int ?n, vals @ unpackSigrokSamples (boundedSamples f) m) fs =
        Inr (first', idx', vals')"
    using Cons.prems u by (auto simp: Let_def guardR_Inr_iff simp del: of_int_of_nat_eq)
  with Cons.IH [of "i + 1"] show ?case
    by (auto simp: unpack_all_def)
qed (auto simp: unpack_all_def)

lemma assemble_iff:
  assumes "fs \<noteq> []"
  shows "assemble_frames m 0 (0, 0, []) fs = Inr (first, idx', vals) \<longleftrightarrow>
     first = int (metaSampleIndex (boundedMeta (hd fs))) mod 16777216 \<and> frames_ok m first fs \<and>
     vals = unpack_all m (map boundedSamples fs) \<and> idx' = first + int (length vals)"
proof (cases fs)
  case (Cons f fs')
  let ?n = "metaSampleCount (boundedMeta f)"
  let ?s = "int (metaSampleIndex (boundedMeta f))"
  have "assemble_frames m 0 (0, 0, []) fs = Inr (first, idx', vals) \<longleftrightarrow>
      metaChannelMask (boundedMeta f) = m \<and> length (unpackSigrokSamples (boundedSamples f) m) = ?n \<and>
      assemble_frames m 1 (?s mod 16777216, ?s mod 16777216 + int ?n,
        unpackSigrokSamples (boundedSamples f) m) fs' = Inr (first, idx', vals)"
    using Cons by (auto simp: Let_def guardR_Inr_iff normalize_int simp del: of_int_of_nat_eq)
  then show ?thesis
    unfolding assemble_rest_iff [OF zero_less_one] using Cons by (auto simp: unpack_all_def)
qed (simp add: assms)

text \<open>
  C38: Only contiguous frames are accepted. A capture is returned exactly when there is a
  frame, every frame has the capture's channel mask and announces the number of samples its
  payload unpacks to, every frame's 24 bit index continues where the one before ended, and
  the trigger, if one is given, falls inside the window. The capture then holds the
  unpacked samples of all frames in order.
\<close>

theorem assembly_characterised:
  "assembleBoundedSigrokCapture fs m trigger = Inr a \<longleftrightarrow>
     fs \<noteq> [] \<and> firstSampleIndex a = int (metaSampleIndex (boundedMeta (hd fs))) mod 16777216 \<and>
     frames_ok m (firstSampleIndex a) fs \<and>
     asmValues a = unpack_all m (map boundedSamples fs) \<and>
     asmSampleCount a = int (length (asmValues a)) \<and>
     (case trigger of None \<Rightarrow> asmTriggerIndex a = 0
      | Some t \<Rightarrow> asmTriggerIndex a = unwrapSigrokSampleIndex t (firstSampleIndex a) - firstSampleIndex a \<and>
          0 \<le> asmTriggerIndex a \<and> asmTriggerIndex a < asmSampleCount a)"
proof (cases "fs = []")
  case True
  then show ?thesis by (simp add: assembleBoundedSigrokCapture_def)
next
  case False
  have "assembleBoundedSigrokCapture fs m trigger = Inr a \<longleftrightarrow>
      (\<exists>first idx vals. assemble_frames m 0 (0, 0, []) fs = Inr (first, idx, vals) \<and>
         (case trigger of None \<Rightarrow> True
          | Some t \<Rightarrow> 0 \<le> unwrapSigrokSampleIndex t first - first \<and>
              unwrapSigrokSampleIndex t first - first < int (length vals)) \<and>
         a = \<lparr>firstSampleIndex = first, asmSampleCount = int (length vals),
              asmTriggerIndex = (case trigger of None \<Rightarrow> 0
                | Some t \<Rightarrow> unwrapSigrokSampleIndex t first - first), asmValues = vals\<rparr>)"
    using False
    by (cases trigger) (auto simp: assembleBoundedSigrokCapture_def bindR_Inr_iff guardR_Inr_iff Let_def)
  then show ?thesis
    unfolding assemble_iff [OF False] using False
    by (cases a; cases trigger) auto
qed

subsection \<open>Normalised captures\<close>

text \<open>
  A capture taken from elsewhere is made safe to index. After normalisation its sample
  count is the number of samples it holds, never more than it came with; its trigger index
  points at one of them (or is 0 when there is none); its values are integers; and exporting
  it fills two bytes for every sample and one CSV row for every sample.
\<close>

lemma normalized_capture_is_indexable:
  "let c = normalizeLogicAnalyzerCapture capture; n = length (capSamples c)
   in capSampleCount c = js_int (int n) \<and> n \<le> length (capSamples capture) \<and>
      (\<exists>t. capTriggerIndex c = js_int (int t) \<and> (t < n \<or> t = 0)) \<and>
      list_all (\<lambda>s. isInteger (sampleValues s) \<and> isFinite (timestampUs s)) (capSamples c) \<and>
      length (sr_logic_data (capSamples c) n) = 2 * n \<and>
      length (csv_rows (capSamples c) pins n) = n"
proof -
  let ?c = "normalizeLogicAnalyzerCapture capture"
  obtain k where k: "clampInteger (capSampleCount capture) (js_int 0)
      (js_int (int (length (capSamples capture)))) = js_int k" "0 \<le> k" "k \<le> int (length (capSamples capture))"
    by (rule clampInteger_int [of 0 "int (length (capSamples capture))" "capSampleCount capture"]) auto
  then have count: "clampInteger (capSampleCount capture) (Fin 0)
      (js_int (int (length (capSamples capture)))) = js_int k" by simp
  have samples: "capSamples ?c = normalizeLogicAnalyzerCaptureSamples (capSamples capture) (nat k)"
    unfolding normalizeLogicAnalyzerCapture_def Let_def count by simp
  then have n: "length (capSamples ?c) = nat k"
    using k(2,3) by (auto simp: normalizeLogicAnalyzerCaptureSamples_def min_def)
  have c: "capSampleCount ?c = js_int (int (nat k))"
    unfolding normalizeLogicAnalyzerCapture_def Let_def count using k by simp
  have "\<exists>t. capTriggerIndex ?c = js_int (int t) \<and> (t < nat k \<or> t = 0)"
  proof (cases "k = 0")
    case True
    then show ?thesis unfolding normalizeLogicAnalyzerCapture_def Let_def count by simp
  next
    case False
    obtain t where t: "clampInteger (capTriggerIndex capture) (js_int 0) (js_int (k - 1)) = js_int t"
      "0 \<le> t" "t \<le> k - 1"
      by (rule clampInteger_int [of 0 "k - 1" "capTriggerIndex capture"]) (use False k in auto)
    then have "capTriggerIndex ?c = js_int t"
      unfolding normalizeLogicAnalyzerCapture_def Let_def count using False by simp
    with t show ?thesis by (intro exI [of _ "nat t"]) simp
  qed
  moreover have "list_all (\<lambda>s. isInteger (sampleValues s) \<and> isFinite (timestampUs s)) (capSamples ?c)"
    unfolding samples normalizeLogicAnalyzerCaptureSamples_def
    by (auto simp: list_all_iff isFinite_iff)
  moreover have "length (sr_logic_data xs m) = 2 * m" for xs m
    by (induction m) (simp_all add: sr_logic_data_def split: option.split)
  moreover have "length (csv_rows xs pins m) = m" if "m \<le> length xs" for xs m
    using that by (induction m) (simp_all add: csv_rows_def)
  ultimately show ?thesis
    unfolding Let_def n c using k n by auto
qed

end
