(* ===== verification/Json.thy ===== *)
theory Json
  imports Linkr_Prelude
begin

text \<open>
  Values that come from \<open>JSON.parse\<close> and the checks the code makes on them before use. A
  property that is absent is \<open>None\<close>, JavaScript's \<open>undefined\<close>. The text is parsed by the
  language's own \<open>JSON.parse\<close>, which is an argument where a text is read.
\<close>

datatype json =
    JNull
  | JBool bool
  | JNum jsnum
  | JStr string
  | JArr "json list"
  | JObj "(string \<times> json) list"

text \<open>\<open>value.name\<close>; an array has none of the properties the code asks for.\<close>

fun json_get :: "string \<Rightarrow> json \<Rightarrow> json option" where
  "json_get name (JObj fields) = map_of fields name"
| "json_get name _ = None"

text \<open>\<open>typeof value === "object" && value !== null\<close>, with and without arrays.\<close>

fun json_record :: "json option \<Rightarrow> bool" where
  "json_record (Some (JObj _)) = True"
| "json_record _ = False"

fun json_object :: "json option \<Rightarrow> bool" where
  "json_object (Some (JObj _)) = True"
| "json_object (Some (JArr _)) = True"
| "json_object _ = False"

fun json_string :: "json option \<Rightarrow> string option" where
  "json_string (Some (JStr s)) = Some s"
| "json_string _ = None"

fun json_num :: "json option \<Rightarrow> jsnum option" where
  "json_num (Some (JNum x)) = Some x"
| "json_num _ = None"

fun json_bool :: "json option \<Rightarrow> bool option" where
  "json_bool (Some (JBool b)) = Some b"
| "json_bool _ = None"

text \<open>A field of a value that may be missing: \<open>value?.name\<close>.\<close>

definition json_field :: "string \<Rightarrow> json option \<Rightarrow> json option" where
  "json_field name v = Option.bind v (json_get name)"

lemma json_field_simps [simp]:
  "json_field name None = None" "json_field name (Some v) = json_get name v"
  by (simp_all add: json_field_def)

lemma json_record_iff: "json_record v \<longleftrightarrow> (\<exists>fs. v = Some (JObj fs))"
  by (cases v rule: json_record.cases) auto

lemma json_string_iff: "json_string v = Some s \<longleftrightarrow> v = Some (JStr s)"
  by (cases v rule: json_string.cases) auto

lemma json_num_iff: "json_num v = Some x \<longleftrightarrow> v = Some (JNum x)"
  by (cases v rule: json_num.cases) auto

lemma json_bool_iff: "json_bool v = Some b \<longleftrightarrow> v = Some (JBool b)"
  by (cases v rule: json_bool.cases) auto

end
