(* ===== verification/Logic_Decoder.thy ===== *)
theory Logic_Decoder
  imports Logic_Capture Json "HOL-Library.Product_Lexorder" "HOL-Library.Multiset"
begin

text \<open>
  Protocol decoding of a capture (\<open>web/src/lib/logicDecoder.ts\<close>): the pins of each protocol,
  the request for the decoder module, the checks on its answer and the layout of annotations in
  lanes. The decoder module itself is a WebAssembly file that the build produces; it is an
  argument from requests to the parsed answer. The capture's sample rates are those of
  \<open>logicAnalyzer.ts\<close>.
\<close>

subsection \<open>Rates of a capture\<close>

record RatedCaptureConfig = LogicAnalyzerCaptureConfig +
  rateSampleRateHz :: "jsnum option"
  rateRequestedSampleRateHz :: "jsnum option"
  rateActualSampleRateHz :: "jsnum option"
  rateSamplePeriodPs :: "jsnum option"

definition normalizePositiveNumber :: "jsnum option \<Rightarrow> rat option" where
  "normalizePositiveNumber v = (case v of Some (Fin r) \<Rightarrow> if r > 0 then Some r else None | _ \<Rightarrow> None)"

definition normalizeSampleRateFromPeriod :: "jsnum option \<Rightarrow> rat option" where
  "normalizeSampleRateFromPeriod v = map_option (\<lambda>p. 1000000000000 / p) (normalizePositiveNumber v)"

text \<open>\<open>??\<close>.\<close>

definition or_else :: "'a option \<Rightarrow> 'a option \<Rightarrow> 'a option" where
  "or_else x y = (case x of None \<Rightarrow> y | _ \<Rightarrow> x)"

definition getLogicAnalyzerActualSampleRate :: "RatedCaptureConfig \<Rightarrow> rat" where
  "getLogicAnalyzerActualSampleRate config =
     the (or_else (normalizePositiveNumber (rateActualSampleRateHz config))
       (or_else (normalizeSampleRateFromPeriod (rateSamplePeriodPs config))
       (or_else (normalizePositiveNumber (rateSampleRateHz config))
       (or_else (normalizePositiveNumber (rateRequestedSampleRateHz config)) (Some 100000)))))"

definition getLogicAnalyzerSamplePeriodPs :: "RatedCaptureConfig \<Rightarrow> rat option" where
  "getLogicAnalyzerSamplePeriodPs config =
     (case normalizePositiveNumber (rateSamplePeriodPs config) of
        Some p \<Rightarrow> Some p
      | None \<Rightarrow>
          let rate = getLogicAnalyzerActualSampleRate config
          in if rate > 0 then Some (1000000000000 / rate) else None)"

record RatedCapture =
  ratedConfig :: RatedCaptureConfig
  ratedSampleCount :: jsnum
  ratedSamples :: "LogicAnalyzerSample list"

subsection \<open>Configurations\<close>

datatype LogicDecoderProtocolName = Uart | I2c | Spi
datatype LogicDecoderParity = ParityNone | ParityEven | ParityOdd
datatype LogicDecoderBitOrder = MsbFirst | LsbFirst
datatype LogicDecoderSignalName = SigRx | SigScl | SigSda | SigSclk | SigMosi | SigMiso | SigCs

record LogicDecoderUartConfig =
  rxPin :: "jsnum option"
  baud :: jsnum
  dataBits :: jsnum
  parity :: LogicDecoderParity
  stopBits :: jsnum
  inverted :: bool

record LogicDecoderI2cConfig =
  sclPin :: "jsnum option"
  sdaPin :: "jsnum option"

record LogicDecoderSpiConfig =
  sclkPin :: "jsnum option"
  mosiPin :: "jsnum option"
  misoPin :: "jsnum option"
  csPin :: "jsnum option"
  csActiveHigh :: bool
  spiMode :: jsnum
  bitOrder :: LogicDecoderBitOrder
  bitsPerWord :: jsnum

record LogicDecoderProtocolConfigs =
  uartConfig :: LogicDecoderUartConfig
  i2cConfig :: LogicDecoderI2cConfig
  spiConfig :: LogicDecoderSpiConfig

text \<open>A pin that is available and unused, the preferred one first; the used pins are threaded.\<close>

definition nextDistinctPin ::
  "jsnum list \<Rightarrow> jsnum set \<Rightarrow> jsnum option \<Rightarrow> bool \<Rightarrow> jsnum option \<times> jsnum set" where
  "nextDistinctPin availablePins usedPins preferredPin allowNull =
     (case (case preferredPin of
              Some p \<Rightarrow> if p \<in> set availablePins \<and> p \<notin> usedPins then Some p else None
            | None \<Rightarrow> None) of
        Some p \<Rightarrow> (Some p, insert p usedPins)
      | None \<Rightarrow>
          (case find (\<lambda>pin. pin \<notin> usedPins) availablePins of
             None \<Rightarrow> (if allowNull then None else nth_opt availablePins 0, usedPins)
           | Some fallback \<Rightarrow> (Some fallback, insert fallback usedPins)))"

definition coerceOptionalPin :: "jsnum option \<Rightarrow> jsnum list \<Rightarrow> jsnum option" where
  "coerceOptionalPin v availablePins = (case v of Some p \<Rightarrow> if p \<in> set availablePins then Some p else None | None \<Rightarrow> None)"

definition coerceRequiredPin :: "jsnum option \<Rightarrow> jsnum list \<Rightarrow> jsnum option" where
  "coerceRequiredPin v availablePins = or_else (coerceOptionalPin v availablePins) (nth_opt availablePins 0)"

definition roundPositiveInteger :: "jsnum option \<Rightarrow> int" where
  "roundPositiveInteger v =
     (case v of Some (Fin r) \<Rightarrow> if r \<le> 0 then 1 else max 1 \<lfloor>r + 1 / 2\<rfloor> | _ \<Rightarrow> 1)"

definition captureBitMask :: "nat \<Rightarrow> u32" where
  "captureBitMask bitCount =
     (if bitCount = 0 then 0 else if bitCount \<ge> 16 then 0xffff else push_bit bitCount 1 - 1)"

text \<open>\<open>Math.min(hi, Math.max(lo, x))\<close>.\<close>

definition js_clamp :: "int \<Rightarrow> int \<Rightarrow> jsnum \<Rightarrow> jsnum" where
  "js_clamp lo hi x = js_min (js_int hi) (js_max (js_int lo) x)"

definition reconcileLogicDecoderConfigs ::
  "LogicDecoderProtocolConfigs \<Rightarrow> jsnum list \<Rightarrow> LogicDecoderProtocolConfigs" where
  "reconcileLogicDecoderConfigs configs availablePins =
     (let (rx, _) = nextDistinctPin availablePins {} (rxPin (uartConfig configs)) False;
          (scl, used) = nextDistinctPin availablePins {} (sclPin (i2cConfig configs)) False;
          (sda, _) = nextDistinctPin availablePins used (sdaPin (i2cConfig configs)) False;
          (sclk, used1) = nextDistinctPin availablePins {} (sclkPin (spiConfig configs)) False;
          (mosi, used2) = nextDistinctPin availablePins used1 (mosiPin (spiConfig configs)) True;
          (miso, used3) = nextDistinctPin availablePins used2 (misoPin (spiConfig configs)) True;
          (cs, _) = nextDistinctPin availablePins used3 (csPin (spiConfig configs)) True
      in \<lparr>uartConfig = (uartConfig configs)\<lparr>rxPin := rx,
            baud := js_int (roundPositiveInteger (Some (baud (uartConfig configs)))),
            dataBits := js_clamp 5 9 (js_int (roundPositiveInteger (Some (dataBits (uartConfig configs))))),
            stopBits := js_clamp 1 2 (js_int (roundPositiveInteger (Some (stopBits (uartConfig configs)))))\<rparr>,
          i2cConfig = \<lparr>sclPin = scl, sdaPin = sda\<rparr>,
          spiConfig = (spiConfig configs)\<lparr>sclkPin := sclk, mosiPin := mosi, misoPin := miso, csPin := cs,
            spiMode := js_clamp 0 3 (js_trunc (spiMode (spiConfig configs))),
            bitsPerWord := js_clamp 1 16 (js_int (roundPositiveInteger (Some (bitsPerWord (spiConfig configs)))))\<rparr>\<rparr>)"

definition createDefaultLogicDecoderConfigs :: "jsnum list \<Rightarrow> LogicDecoderProtocolConfigs" where
  "createDefaultLogicDecoderConfigs availablePins =
     reconcileLogicDecoderConfigs
       \<lparr>uartConfig = \<lparr>rxPin = nth_opt availablePins 0, baud = Fin 115200, dataBits = Fin 8, parity = ParityNone,
          stopBits = Fin 1, inverted = False\<rparr>,
        i2cConfig = \<lparr>sclPin = nth_opt availablePins 0,
          sdaPin = or_else (nth_opt availablePins 1) (nth_opt availablePins 0)\<rparr>,
        spiConfig = \<lparr>sclkPin = nth_opt availablePins 0, mosiPin = nth_opt availablePins 1,
          misoPin = nth_opt availablePins 2, csPin = nth_opt availablePins 3, csActiveHigh = False,
          spiMode = Fin 0, bitOrder = MsbFirst, bitsPerWord = Fin 8\<rparr>\<rparr> availablePins"

definition updateLogicDecoderSignalPin ::
  "LogicDecoderProtocolConfigs \<Rightarrow> LogicDecoderProtocolName \<Rightarrow> LogicDecoderSignalName \<Rightarrow> jsnum option \<Rightarrow> jsnum list \<Rightarrow>
    LogicDecoderProtocolConfigs" where
  "updateLogicDecoderSignalPin configs protocol signal pin availablePins =
     (let required = coerceRequiredPin pin availablePins; optional = coerceOptionalPin pin availablePins;
          next = (case (protocol, signal) of
              (Uart, SigRx) \<Rightarrow> configs\<lparr>uartConfig := (uartConfig configs)\<lparr>rxPin := required\<rparr>\<rparr>
            | (I2c, SigScl) \<Rightarrow> configs\<lparr>i2cConfig := (i2cConfig configs)\<lparr>sclPin := required\<rparr>\<rparr>
            | (I2c, SigSda) \<Rightarrow> configs\<lparr>i2cConfig := (i2cConfig configs)\<lparr>sdaPin := required\<rparr>\<rparr>
            | (Spi, SigSclk) \<Rightarrow> configs\<lparr>spiConfig := (spiConfig configs)\<lparr>sclkPin := required\<rparr>\<rparr>
            | (Spi, SigMosi) \<Rightarrow> configs\<lparr>spiConfig := (spiConfig configs)\<lparr>mosiPin := optional\<rparr>\<rparr>
            | (Spi, SigMiso) \<Rightarrow> configs\<lparr>spiConfig := (spiConfig configs)\<lparr>misoPin := optional\<rparr>\<rparr>
            | (Spi, SigCs) \<Rightarrow> configs\<lparr>spiConfig := (spiConfig configs)\<lparr>csPin := optional\<rparr>\<rparr>
            | _ \<Rightarrow> configs)
      in reconcileLogicDecoderConfigs next availablePins)"

subsection \<open>The request\<close>

datatype decoder_error =
    NoSamples
  | SelectUartRx
  | SelectI2cPins
  | SelectSpiClock
  | SelectSpiData
  | PinNotInCapture string jsnum
  | SameChannel string string
  | NotAnObject string
  | NotANonEmptyString string
  | NotANonNegativeInteger string
  | NotAPositiveInteger string
  | EndsBeforeStart string nat
  | UnsupportedSchema string
  | NotAnArray string
  | UnknownSeverity nat
  | StartBeyondSamples string nat
  | EndBeyondSamples string nat
  | NoOkField
  | DecoderFailed string

record LogicDecoderChannelMapping =
  mapName :: string
  mapBit :: nat

record LogicDecoderPackedSamples =
  packedSampleRateHz :: int
  packedSamplePeriodPs :: int
  packedSampleCount :: jsnum
  packedChannels :: "LogicDecoderChannelMapping list"
  packedWords :: "u32 list"

datatype protocol_options =
    UartOptions string int jsnum LogicDecoderParity jsnum bool
  | I2cOptions string string
  | SpiOptions string "string option" "string option" "string option" bool jsnum LogicDecoderBitOrder jsnum

record LogicDecoderRequest =
  reqSchema :: string
  reqSamples :: LogicDecoderPackedSamples
  reqProtocol :: protocol_options

definition LOGIC_DECODER_REQUEST_SCHEMA_VERSION :: string where
  "LOGIC_DECODER_REQUEST_SCHEMA_VERSION = ''radxa.logic-decoder.request.v1''"

definition LOGIC_DECODER_RESULT_SCHEMA_VERSION :: string where
  "LOGIC_DECODER_RESULT_SCHEMA_VERSION = ''radxa.logic-decoder.result.v1''"

text \<open>The argument of \<open>slice(0, n)\<close> and of \<open>{ length: n }\<close>; the counts of a capture are finite.\<close>

definition slice_to :: "jsnum \<Rightarrow> 'a list \<Rightarrow> 'a list" where
  "slice_to n xs =
     (case n of
        Fin r \<Rightarrow> if rat_trunc r < 0 then take (nat (int (length xs) + rat_trunc r)) xs else take (nat (rat_trunc r)) xs
      | PosInf \<Rightarrow> xs | _ \<Rightarrow> [])"

definition array_length :: "jsnum \<Rightarrow> nat" where
  "array_length n = (case n of Fin r \<Rightarrow> nat (rat_trunc r) | _ \<Rightarrow> 0)"

definition getLogicDecoderCapturePins :: "RatedCaptureConfig \<Rightarrow> jsnum list" where
  "getLogicDecoderCapturePins config =
     (case capSelectedPins config of
        Some (p # ps) \<Rightarrow> slice_to (capPinCount config) (p # ps)
      | _ \<Rightarrow> map (\<lambda>i. js_add (capPinBase config) (js_int (int i))) [0..<array_length (capPinCount config)])"

definition getMappedChannelBit :: "jsnum list \<Rightarrow> jsnum \<Rightarrow> string \<Rightarrow> decoder_error + LogicDecoderChannelMapping" where
  "getMappedChannelBit capturePins pin signal =
     (case find_index (js_eq pin) capturePins of
        None \<Rightarrow> Inl (PinNotInCapture signal pin)
      | Some b \<Rightarrow> Inr \<lparr>mapName = signal, mapBit = b\<rparr>)"

fun unique_pins :: "(jsnum \<times> string) list \<Rightarrow> (string \<times> jsnum option) list \<Rightarrow> decoder_error + unit" where
  "unique_pins seen [] = Inr ()"
| "unique_pins seen ((signal, None) # entries) = unique_pins seen entries"
| "unique_pins seen ((signal, Some pin) # entries) =
     (case map_of seen pin of
        Some previous \<Rightarrow> Inl (SameChannel signal previous)
      | None \<Rightarrow> unique_pins ((pin, signal) # seen) entries)"

definition validateUniquePins :: "(string \<times> jsnum option) list \<Rightarrow> decoder_error + unit" where
  "validateUniquePins entries = unique_pins [] entries"

definition buildPackedWords :: "RatedCapture \<Rightarrow> u32 list" where
  "buildPackedWords capture =
     (let mask = captureBitMask (length (getLogicDecoderCapturePins (ratedConfig capture)))
      in map (\<lambda>sample. toInt32 (js_trunc (sampleValues sample)) AND mask)
           (slice_to (ratedSampleCount capture) (ratedSamples capture)))"

fun map_channels :: "jsnum list \<Rightarrow> (string \<times> jsnum option) list \<Rightarrow> decoder_error + LogicDecoderChannelMapping list" where
  "map_channels pins [] = Inr []"
| "map_channels pins ((signal, None) # entries) = map_channels pins entries"
| "map_channels pins ((signal, Some pin) # entries) =
     bindR (getMappedChannelBit pins pin signal) (\<lambda>m. bindR (map_channels pins entries) (\<lambda>ms. Inr (m # ms)))"

definition buildLogicDecoderRequest ::
  "RatedCapture \<Rightarrow> LogicDecoderProtocolName \<Rightarrow> LogicDecoderProtocolConfigs \<Rightarrow> decoder_error + LogicDecoderRequest" where
  "buildLogicDecoderRequest capture protocol configs =
     (let pins = getLogicDecoderCapturePins (ratedConfig capture);
          packed = (\<lambda>channels. \<lparr>
            packedSampleRateHz = roundPositiveInteger (Some (Fin (getLogicAnalyzerActualSampleRate (ratedConfig capture)))),
            packedSamplePeriodPs =
              roundPositiveInteger (map_option Fin (getLogicAnalyzerSamplePeriodPs (ratedConfig capture))),
            packedSampleCount = ratedSampleCount capture, packedChannels = channels,
            packedWords = buildPackedWords capture\<rparr>);
          request = (\<lambda>channels options. \<lparr>reqSchema = LOGIC_DECODER_REQUEST_SCHEMA_VERSION,
            reqSamples = packed channels, reqProtocol = options\<rparr>);
          present = (\<lambda>pin name. if pin = None then None else Some name)
      in guardR (\<not> js_eq (ratedSampleCount capture) (Fin 0)) NoSamples (
        case protocol of
          Uart \<Rightarrow>
            let uart = uartConfig configs
            in guardR (rxPin uart \<noteq> None) SelectUartRx (
               bindR (map_channels pins [(''rx'', rxPin uart)]) (\<lambda>channels.
                 Inr (request channels (UartOptions ''rx'' (roundPositiveInteger (Some (baud uart)))
                   (js_clamp 5 9 (js_trunc (dataBits uart))) (parity uart)
                   (js_clamp 1 2 (js_trunc (stopBits uart))) (inverted uart)))))
        | I2c \<Rightarrow>
            let entries = [(''scl'', sclPin (i2cConfig configs)), (''sda'', sdaPin (i2cConfig configs))]
            in guardR (sclPin (i2cConfig configs) \<noteq> None \<and> sdaPin (i2cConfig configs) \<noteq> None) SelectI2cPins (
               bindR (validateUniquePins entries) (\<lambda>_.
               bindR (map_channels pins entries) (\<lambda>channels. Inr (request channels (I2cOptions ''scl'' ''sda'')))))
        | Spi \<Rightarrow>
            let spi = spiConfig configs;
                entries = [(''sclk'', sclkPin spi), (''mosi'', mosiPin spi), (''miso'', misoPin spi), (''cs'', csPin spi)]
            in guardR (sclkPin spi \<noteq> None) SelectSpiClock (
               guardR (mosiPin spi \<noteq> None \<or> misoPin spi \<noteq> None) SelectSpiData (
               bindR (validateUniquePins entries) (\<lambda>_.
               bindR (map_channels pins entries) (\<lambda>channels.
                 Inr (request channels (SpiOptions ''sclk'' (present (mosiPin spi) ''mosi'')
                   (present (misoPin spi) ''miso'') (present (csPin spi) ''cs'') (csActiveHigh spi)
                   (js_clamp 0 3 (js_trunc (spiMode spi))) (bitOrder spi)
                   (js_clamp 1 16 (js_trunc (bitsPerWord spi))))))))) ))"

subsection \<open>The answer\<close>

record LogicDecoderAnnotation =
  startSample :: nat
  endSample :: nat
  annRow :: string
  annClass :: string
  shortText :: string
  longText :: string
  annData :: "json option"

datatype LogicDecoderDiagnosticSeverity = SevInfo | SevWarning | SevError

record LogicDecoderDiagnostic =
  diagStart :: nat
  diagEnd :: nat
  severity :: LogicDecoderDiagnosticSeverity
  diagCode :: string
  diagMessage :: string

record LogicDecoderResult =
  resultSchema :: string
  annotations :: "LogicDecoderAnnotation list"
  diagnostics :: "LogicDecoderDiagnostic list"

definition readString :: "json option \<Rightarrow> string \<Rightarrow> decoder_error + string" where
  "readString v path = (case json_string v of Some (c # cs) \<Rightarrow> Inr (c # cs) | _ \<Rightarrow> Inl (NotANonEmptyString path))"

definition integer_of :: "json option \<Rightarrow> int option" where
  "integer_of v = (case json_num v of Some (Fin r) \<Rightarrow> if of_int \<lfloor>r\<rfloor> = r then Some \<lfloor>r\<rfloor> else None | _ \<Rightarrow> None)"

definition readNonNegativeInteger :: "json option \<Rightarrow> string \<Rightarrow> decoder_error + nat" where
  "readNonNegativeInteger v path =
     (case integer_of v of Some i \<Rightarrow> if 0 \<le> i then Inr (nat i) else Inl (NotANonNegativeInteger path)
      | None \<Rightarrow> Inl (NotANonNegativeInteger path))"

definition readPositiveInteger :: "json option \<Rightarrow> string \<Rightarrow> decoder_error + nat" where
  "readPositiveInteger v path =
     (case integer_of v of Some i \<Rightarrow> if 0 < i then Inr (nat i) else Inl (NotAPositiveInteger path)
      | None \<Rightarrow> Inl (NotAPositiveInteger path))"

definition validateAnnotation :: "json \<Rightarrow> nat \<Rightarrow> decoder_error + LogicDecoderAnnotation" where
  "validateAnnotation v index =
     (let path = (\<lambda>field. ''annotations['' @ string_of_nat index @ ''].'' @ field)
      in guardR (json_object (Some v)) (NotAnObject ''annotation'') (
         bindR (readNonNegativeInteger (json_get ''startSample'' v) (path ''startSample'')) (\<lambda>s.
         bindR (readPositiveInteger (json_get ''endSample'' v) (path ''endSample'')) (\<lambda>e.
         bindR (readString (json_get ''row'' v) (path ''row'')) (\<lambda>row.
         bindR (readString (json_get ''class'' v) (path ''class'')) (\<lambda>cls.
         bindR (readString (json_get ''shortText'' v) (path ''shortText'')) (\<lambda>short.
         bindR (readString (json_get ''longText'' v) (path ''longText'')) (\<lambda>long.
         guardR (s < e) (EndsBeforeStart ''annotation'' index) (
           Inr \<lparr>startSample = s, endSample = e, annRow = row, annClass = cls, shortText = short,
             longText = long, annData = json_get ''data'' v\<rparr>)))))))))"

definition severity_of :: "string \<Rightarrow> LogicDecoderDiagnosticSeverity option" where
  "severity_of s = map_of [(''info'', SevInfo), (''warning'', SevWarning), (''error'', SevError)] s"

definition validateDiagnostic :: "json \<Rightarrow> nat \<Rightarrow> decoder_error + LogicDecoderDiagnostic" where
  "validateDiagnostic v index =
     (let path = (\<lambda>field. ''diagnostics['' @ string_of_nat index @ ''].'' @ field)
      in guardR (json_object (Some v)) (NotAnObject ''diagnostic'') (
         bindR (readString (json_get ''severity'' v) (path ''severity'')) (\<lambda>text.
         case severity_of text of None \<Rightarrow> Inl (UnknownSeverity index)
         | Some sev \<Rightarrow>
         bindR (readNonNegativeInteger (json_get ''startSample'' v) (path ''startSample'')) (\<lambda>s.
         bindR (readPositiveInteger (json_get ''endSample'' v) (path ''endSample'')) (\<lambda>e.
         bindR (readString (json_get ''code'' v) (path ''code'')) (\<lambda>code.
         bindR (readString (json_get ''message'' v) (path ''message'')) (\<lambda>message.
         guardR (s < e) (EndsBeforeStart ''diagnostic'' index) (
           Inr \<lparr>diagStart = s, diagEnd = e, severity = sev, diagCode = code, diagMessage = message\<rparr>))))))))"

definition validateSampleBounds :: "nat \<Rightarrow> nat \<Rightarrow> jsnum \<Rightarrow> string \<Rightarrow> nat \<Rightarrow> decoder_error + unit" where
  "validateSampleBounds s e sampleCount path index =
     guardR (\<not> js_le sampleCount (js_int (int s))) (StartBeyondSamples path index) (
     guardR (\<not> js_lt sampleCount (js_int (int e))) (EndBeyondSamples path index) (Inr ()))"

text \<open>\<open>array.map(f)\<close> with an \<open>f\<close> that may throw, and \<open>array.forEach\<close>.\<close>

fun mapR :: "nat \<Rightarrow> ('x \<Rightarrow> nat \<Rightarrow> 'e + 'y) \<Rightarrow> 'x list \<Rightarrow> 'e + 'y list" where
  "mapR i f [] = Inr []"
| "mapR i f (x # xs) = bindR (f x i) (\<lambda>y. bindR (mapR (i + 1) f xs) (\<lambda>ys. Inr (y # ys)))"

fun json_array :: "json option \<Rightarrow> json list option" where
  "json_array (Some (JArr vs)) = Some vs"
| "json_array _ = None"

definition validateDecoderResult :: "json option \<Rightarrow> jsnum option \<Rightarrow> decoder_error + LogicDecoderResult" where
  "validateDecoderResult v sampleCount =
     guardR (json_object v) (NotAnObject ''result'') (
     bindR (readString (json_field ''schemaVersion'' v) ''result.schemaVersion'') (\<lambda>schema.
     guardR (schema = LOGIC_DECODER_RESULT_SCHEMA_VERSION) (UnsupportedSchema schema) (
     case json_array (json_field ''annotations'' v) of None \<Rightarrow> Inl (NotAnArray ''result.annotations'') | Some avs \<Rightarrow>
     case json_array (json_field ''diagnostics'' v) of None \<Rightarrow> Inl (NotAnArray ''result.diagnostics'') | Some dvs \<Rightarrow>
     bindR (mapR 0 validateAnnotation avs) (\<lambda>as.
     bindR (mapR 0 validateDiagnostic dvs) (\<lambda>ds.
     bindR (case sampleCount of None \<Rightarrow> Inr [] | Some n \<Rightarrow>
        mapR 0 (\<lambda>a i. validateSampleBounds (startSample a) (endSample a) n ''annotations'' i) as) (\<lambda>_.
     bindR (case sampleCount of None \<Rightarrow> Inr [] | Some n \<Rightarrow>
        mapR 0 (\<lambda>d i. validateSampleBounds (diagStart d) (diagEnd d) n ''diagnostics'' i) ds) (\<lambda>_.
       Inr \<lparr>resultSchema = schema, annotations = as, diagnostics = ds\<rparr>)))))))"

text \<open>\<open>Inr (Inl error)\<close> is the module's own failure report.\<close>

definition parseLogicDecoderEnvelope ::
  "json option \<Rightarrow> jsnum option \<Rightarrow> decoder_error + string + LogicDecoderResult" where
  "parseLogicDecoderEnvelope parsed sampleCount =
     (case json_bool (json_field ''ok'' parsed) of
        None \<Rightarrow> Inl NoOkField
      | Some True \<Rightarrow>
          bindR (validateDecoderResult (json_field ''result'' parsed) sampleCount) (\<lambda>r. Inr (Inr r))
      | Some False \<Rightarrow> bindR (readString (json_field ''error'' parsed) ''error'') (\<lambda>e. Inr (Inl e)))"

text \<open>
  \<open>decodeLogicCapture\<close>: the envelope is checked without and then with the sample count. The
  checked result is what the second check reads, so it is checked again as a value.
\<close>

definition recheck :: "jsnum \<Rightarrow> LogicDecoderResult \<Rightarrow> decoder_error + LogicDecoderResult" where
  "recheck n r =
     bindR (mapR 0 (\<lambda>a i. validateSampleBounds (startSample a) (endSample a) n ''annotations'' i) (annotations r)) (\<lambda>_.
     bindR (mapR 0 (\<lambda>d i. validateSampleBounds (diagStart d) (diagEnd d) n ''diagnostics'' i) (diagnostics r)) (\<lambda>_.
       Inr r))"

definition decodeLogicCapture ::
  "(LogicDecoderRequest \<Rightarrow> json option) \<Rightarrow> LogicDecoderRequest \<Rightarrow> decoder_error + LogicDecoderResult" where
  "decodeLogicCapture decodeLogic request =
     bindR (parseLogicDecoderEnvelope (decodeLogic request) None) (\<lambda>envelope.
       case envelope of
         Inl e \<Rightarrow> Inl (DecoderFailed e)
       | Inr r \<Rightarrow> recheck (packedSampleCount (reqSamples request)) r)"

subsection \<open>Lanes\<close>

record PositionedLogicDecoderAnnotation = LogicDecoderAnnotation +
  lane :: nat
  rowOrder :: nat

text \<open>\<open>perRow\<close>: a \<open>Map\<close> keeps the order in which its keys were added.\<close>

fun add_to_row :: "LogicDecoderAnnotation \<Rightarrow> (string \<times> LogicDecoderAnnotation list) list \<Rightarrow>
    (string \<times> LogicDecoderAnnotation list) list" where
  "add_to_row a [] = [(annRow a, [a])]"
| "add_to_row a ((row, as) # rows) =
     (if row = annRow a then (row, as @ [a]) # rows else (row, as) # add_to_row a rows)"

definition group_rows :: "LogicDecoderAnnotation list \<Rightarrow> (string \<times> LogicDecoderAnnotation list) list" where
  "group_rows as = foldl (\<lambda>rows a. add_to_row a rows) [] as"

definition sort_row :: "LogicDecoderAnnotation list \<Rightarrow> LogicDecoderAnnotation list" where
  "sort_row as = sort_key (\<lambda>a. (startSample a, endSample a)) as"

definition place ::
  "nat list \<times> (LogicDecoderAnnotation \<times> nat) list \<Rightarrow> LogicDecoderAnnotation \<Rightarrow>
    nat list \<times> (LogicDecoderAnnotation \<times> nat) list" where
  "place st a =
     (case st of (laneEnds, placed) \<Rightarrow>
        case find_index (\<lambda>e. e \<le> startSample a) laneEnds of
          None \<Rightarrow> (laneEnds @ [endSample a], placed @ [(a, length laneEnds)])
        | Some laneIndex \<Rightarrow> (laneEnds[laneIndex := endSample a], placed @ [(a, laneIndex)]))"

definition position :: "nat \<Rightarrow> nat \<Rightarrow> LogicDecoderAnnotation \<times> nat \<Rightarrow> PositionedLogicDecoderAnnotation" where
  "position offset order p = LogicDecoderAnnotation.extend (fst p) \<lparr>lane = offset + snd p, rowOrder = order\<rparr>"

definition layout_row ::
  "PositionedLogicDecoderAnnotation list \<times> nat \<times> nat \<Rightarrow> string \<times> LogicDecoderAnnotation list \<Rightarrow>
    PositionedLogicDecoderAnnotation list \<times> nat \<times> nat" where
  "layout_row st row =
     (case st of (positioned, laneOffset, order) \<Rightarrow>
        let (laneEnds, placed) = foldl place ([], []) (sort_row (snd row))
        in (positioned @ map (position laneOffset order) placed, laneOffset + max 1 (length laneEnds), order + 1))"

definition layoutLogicDecoderAnnotations ::
  "LogicDecoderAnnotation list \<Rightarrow> PositionedLogicDecoderAnnotation list \<times> nat" where
  "layoutLogicDecoderAnnotations as =
     (case foldl layout_row ([], 0, 0) (group_rows as) of (positioned, laneCount, _) \<Rightarrow> (positioned, laneCount))"

subsection \<open>One row\<close>

definition covers :: "nat \<Rightarrow> LogicDecoderAnnotation \<Rightarrow> bool" where
  "covers t a \<longleftrightarrow> startSample a \<le> t \<and> t < endSample a"

definition depth_at :: "LogicDecoderAnnotation list \<Rightarrow> nat \<Rightarrow> nat" where
  "depth_at as t = length (filter (covers t) as)"

text \<open>The largest number of annotations that cover one sample.\<close>

definition depth :: "LogicDecoderAnnotation list \<Rightarrow> nat" where
  "depth as = Max (set (0 # map (\<lambda>a. depth_at as (startSample a)) as))"

definition valid_annotation :: "LogicDecoderAnnotation \<Rightarrow> bool" where
  "valid_annotation a \<longleftrightarrow> startSample a < endSample a"

definition before_in_lane :: "LogicDecoderAnnotation \<times> nat \<Rightarrow> LogicDecoderAnnotation \<times> nat \<Rightarrow> bool" where
  "before_in_lane p q \<longleftrightarrow> (snd p = snd q \<longrightarrow> endSample (fst p) \<le> startSample (fst q))"

definition row_inv :: "LogicDecoderAnnotation list \<Rightarrow> nat list \<Rightarrow> (LogicDecoderAnnotation \<times> nat) list \<Rightarrow> bool" where
  "row_inv xs ends placed \<longleftrightarrow> map fst placed = xs \<and> sorted_wrt before_in_lane placed \<and>
     (\<forall>k < length ends. \<exists>a. (a, k) \<in> set placed \<and> endSample a = ends ! k) \<and>
     (\<forall>(a, k) \<in> set placed. k < length ends \<and> endSample a \<le> ends ! k) \<and>
     (ends = [] \<or> (\<exists>a \<in> set xs. length ends \<le> depth_at xs (startSample a)))"

lemma depth_at_snoc: "depth_at (xs @ [a]) t = depth_at xs t + (if covers t a then 1 else 0)"
  by (simp add: depth_at_def)

lemma depth_at_mset: "mset xs = mset ys \<Longrightarrow> depth_at xs t = depth_at ys t"
  unfolding depth_at_def by (metis mset_filter size_mset)

lemma find_index_None: "find_index P xs = None \<longleftrightarrow> (\<forall>x \<in> set xs. \<not> P x)"
  by (induction xs) auto

lemma length_filter_placed: "length (filter (\<lambda>p. covers t (fst p)) placed) = depth_at (map fst placed) t"
  by (simp add: depth_at_def filter_map comp_def)

lemma lanes_le_depth:
  assumes "row_inv xs ends placed" "\<forall>b \<in> set xs. startSample b \<le> t" "\<forall>e \<in> set ends. t < e"
  shows "length ends \<le> depth_at xs t"
proof -
  let ?c = "filter (\<lambda>p. covers t (fst p)) placed"
  have xs: "map fst placed = xs" using assms(1) by (simp add: row_inv_def)
  have "\<exists>a. (a, k) \<in> set ?c" if k: "k < length ends" for k
  proof -
    from assms(1) k obtain a where a: "(a, k) \<in> set placed" "endSample a = ends ! k"
      unfolding row_inv_def by blast
    moreover have "a \<in> set xs" using a(1) unfolding xs [symmetric] by force
    ultimately show ?thesis using assms(2,3) k by (auto simp: covers_def)
  qed
  then have "{..<length ends} \<subseteq> snd ` set ?c" by force
  then have "length ends \<le> card (snd ` set ?c)" using card_mono [of "snd ` set ?c" "{..<length ends}"] by simp
  also have "\<dots> \<le> length ?c" using card_image_le card_length order.trans by (metis List.finite_set)
  finally show ?thesis by (simp add: length_filter_placed xs)
qed

lemma place_inv:
  assumes inv: "row_inv xs ends placed" and later: "\<forall>b \<in> set xs. startSample b \<le> startSample a"
    and valid: "valid_annotation a" and st: "place (ends, placed) a = (ends', placed')"
  shows "row_inv (xs @ [a]) ends' placed'"
proof -
  note i = inv [unfolded row_inv_def]
  show ?thesis
  proof (cases "find_index (\<lambda>e. e \<le> startSample a) ends")
    case None
    then have far: "\<forall>e \<in> set ends. startSample a < e" by (auto simp: find_index_None)
    from None st have new: "ends' = ends @ [endSample a]" "placed' = placed @ [(a, length ends)]"
      by (simp_all add: place_def)
    from lanes_le_depth [OF inv later far] have "length ends' \<le> depth_at (xs @ [a]) (startSample a)"
      using valid by (simp add: new depth_at_snoc covers_def valid_annotation_def)
    moreover have "sorted_wrt before_in_lane placed'"
      using i by (auto simp: new sorted_wrt_append before_in_lane_def)
    moreover have "\<exists>b. (b, k) \<in> set placed' \<and> endSample b = ends' ! k" if "k < length ends'" for k
      using i that by (cases "k = length ends") (auto simp: new nth_append less_Suc_eq)
    moreover have "k < length ends' \<and> endSample b \<le> ends' ! k" if "(b, k) \<in> set placed'" for b k
      using i that by (auto simp: new nth_append)
    ultimately show ?thesis using i unfolding row_inv_def by (auto simp: new)
  next
    case (Some m)
    then have m: "m < length ends" "ends ! m \<le> startSample a" using find_index_Some [OF Some] by auto
    from Some st have new: "ends' = ends[m := endSample a]" "placed' = placed @ [(a, m)]"
      by (simp_all add: place_def)
    have in_m: "endSample b \<le> startSample a" if "(b, m) \<in> set placed" for b
      using i that m(2) by fastforce
    have "sorted_wrt before_in_lane placed'"
      using i in_m by (auto simp: new sorted_wrt_append before_in_lane_def)
    moreover have "\<exists>b. (b, k) \<in> set placed' \<and> endSample b = ends' ! k" if "k < length ends'" for k
      using i that by (cases "k = m") (auto simp: new)
    moreover have "k < length ends' \<and> endSample b \<le> ends' ! k" if "(b, k) \<in> set placed'" for b k
    proof (cases "(b, k) = (a, m)")
      case False
      with that have b: "(b, k) \<in> set placed" by (auto simp: new)
      with i have k: "k < length ends" "endSample b \<le> ends ! k" by auto
      with in_m b valid show ?thesis
        by (cases "k = m") (fastforce simp: new valid_annotation_def)+
    qed (use m in \<open>simp add: new\<close>)
    moreover have "\<exists>b \<in> set (xs @ [a]). length ends' \<le> depth_at (xs @ [a]) (startSample b)"
    proof -
      from i m(1) obtain b where "b \<in> set xs" "length ends \<le> depth_at xs (startSample b)" by auto
      then show ?thesis by (intro bexI [of _ b]) (simp_all add: new depth_at_snoc)
    qed
    ultimately show ?thesis using i unfolding row_inv_def by (auto simp: new)
  qed
qed

lemma place_row:
  assumes "sorted_wrt (\<lambda>a b. startSample a \<le> startSample b) xs" "\<forall>a \<in> set xs. valid_annotation a"
  shows "\<exists>ends placed. foldl place ([], []) xs = (ends, placed) \<and> row_inv xs ends placed"
  using assms
proof (induction xs rule: rev_induct)
  case Nil
  show ?case by (simp add: row_inv_def)
next
  case (snoc a xs)
  then obtain ends placed where IH: "foldl place ([], []) xs = (ends, placed)" "row_inv xs ends placed"
    by (auto simp: sorted_wrt_append)
  obtain ends' placed' where st: "place (ends, placed) a = (ends', placed')" by fastforce
  from place_inv [OF IH(2) _ _ st] snoc.prems have "row_inv (xs @ [a]) ends' placed'"
    by (auto simp: sorted_wrt_append)
  with IH(1) st show ?case by simp
qed

lemma distinct_by: "sorted_wrt (\<lambda>p q. f p \<noteq> f q) xs \<Longrightarrow> distinct (map f xs)"
  by (induction xs) auto

lemma depth_pos: "a \<in> set xs \<Longrightarrow> valid_annotation a \<Longrightarrow> 1 \<le> depth xs"
proof -
  assume a: "a \<in> set xs" "valid_annotation a"
  then have "a \<in> set (filter (covers (startSample a)) xs)" by (simp add: covers_def valid_annotation_def)
  then have "filter (covers (startSample a)) xs \<noteq> []" by (metis empty_iff list.set(1))
  then have "1 \<le> depth_at xs (startSample a)" unfolding depth_at_def by (simp add: Suc_leI)
  also have "\<dots> \<le> depth xs" unfolding depth_def using a(1) by (intro Max_ge) auto
  finally show ?thesis .
qed

lemma depth_le_lanes:
  assumes "row_inv xs ends placed"
  shows "depth_at xs t \<le> length ends"
proof -
  note i = assms [unfolded row_inv_def]
  let ?c = "filter (\<lambda>p. covers t (fst p)) placed"
  have "sorted_wrt (\<lambda>p q. snd p \<noteq> snd q) ?c"
  proof (rule sorted_wrt_mono_rel [OF _ sorted_wrt_filter])
    show "sorted_wrt before_in_lane placed" using i by blast
    show "snd p \<noteq> snd q" if "p \<in> set ?c" "q \<in> set ?c" "before_in_lane p q" for p q
      using that by (auto simp: before_in_lane_def covers_def)
  qed
  then have "distinct (map snd ?c)" by (rule distinct_by)
  moreover have "set (map snd ?c) \<subseteq> {..<length ends}" using i by fastforce
  ultimately have "length ?c \<le> length ends"
    by (metis card_lessThan card_mono distinct_card finite_lessThan length_map)
  then show ?thesis using i by (simp add: length_filter_placed)
qed

lemma row_inv_depth:
  assumes "row_inv xs ends placed"
  shows "length ends = depth xs"
proof -
  have "depth xs \<le> length ends"
    unfolding depth_def using depth_le_lanes [OF assms] by auto
  moreover have "length ends \<le> depth xs"
  proof (cases "ends = []")
    case False
    with assms obtain a where a: "a \<in> set xs" "length ends \<le> depth_at xs (startSample a)"
      unfolding row_inv_def by blast
    then have "depth_at xs (startSample a) \<le> depth xs" unfolding depth_def by (intro Max_ge) auto
    with a show ?thesis by simp
  qed simp
  ultimately show ?thesis by simp
qed

subsection \<open>All rows\<close>

definition rows_ok :: "LogicDecoderAnnotation list \<Rightarrow> (string \<times> LogicDecoderAnnotation list) list \<Rightarrow> bool" where
  "rows_ok as rows \<longleftrightarrow> distinct (map fst rows) \<and> set (map fst rows) = annRow ` set as \<and>
     (\<forall>(r, xs) \<in> set rows. xs = filter (\<lambda>a. annRow a = r) as)"

lemma add_to_row_names:
  "map fst (add_to_row a rows) =
     (if annRow a \<in> fst ` set rows then map fst rows else map fst rows @ [annRow a])"
  by (induction a rows rule: add_to_row.induct) auto

lemma add_to_row_entries:
  "distinct (map fst rows) \<Longrightarrow> (r, xs) \<in> set (add_to_row a rows) \<Longrightarrow>
     (r = annRow a \<and> (\<exists>ys. xs = ys @ [a] \<and> ((r, ys) \<in> set rows \<or> r \<notin> fst ` set rows \<and> ys = []))) \<or>
     (r \<noteq> annRow a \<and> (r, xs) \<in> set rows)"
  by (induction a rows rule: add_to_row.induct) (auto split: if_splits simp: rev_image_eqI)

lemma rows_ok_add:
  assumes "rows_ok as rows"
  shows "rows_ok (as @ [a]) (add_to_row a rows)"
proof -
  note ok = assms [unfolded rows_ok_def]
  have "distinct (map fst (add_to_row a rows))" "set (map fst (add_to_row a rows)) = annRow ` set (as @ [a])"
    using ok unfolding add_to_row_names by auto
  moreover have "xs = filter (\<lambda>b. annRow b = r) (as @ [a])" if "(r, xs) \<in> set (add_to_row a rows)" for r xs
  proof -
    have "filter (\<lambda>b. annRow b = r) as = []" if "r \<notin> fst ` set rows"
      using ok that by (auto simp: filter_empty_conv)
    with add_to_row_entries [OF conjunct1 [OF ok] that] ok show ?thesis by fastforce
  qed
  ultimately show ?thesis by (auto simp: rows_ok_def)
qed

lemma group_rows_ok: "rows_ok as (group_rows as)"
proof (induction as rule: rev_induct)
  case (snoc a as)
  then show ?case by (simp add: group_rows_def rows_ok_add)
qed (simp add: group_rows_def rows_ok_def)

lemma add_to_row_mset: "mset (concat (map snd (add_to_row a rows))) = mset (concat (map snd rows)) + {#a#}"
  by (induction a rows rule: add_to_row.induct) simp_all

lemma group_rows_mset: "mset (concat (map snd (group_rows as))) = mset as"
proof (induction as rule: rev_induct)
  case (snoc a as)
  then show ?case by (simp add: group_rows_def add_to_row_mset del: mset_concat)
qed (simp add: group_rows_def)

definition lane_order :: "PositionedLogicDecoderAnnotation \<Rightarrow> PositionedLogicDecoderAnnotation \<Rightarrow> bool" where
  "lane_order p q \<longleftrightarrow> (lane p = lane q \<longrightarrow> annRow p = annRow q \<and> endSample p \<le> startSample q)"

abbreviation forget_lane :: "PositionedLogicDecoderAnnotation \<Rightarrow> LogicDecoderAnnotation" where
  "forget_lane \<equiv> LogicDecoderAnnotation.truncate"

lemma position_simps [simp]:
  "forget_lane (position off ord p) = fst p" "lane (position off ord p) = off + snd p"
  "annRow (position off ord p) = annRow (fst p)" "startSample (position off ord p) = startSample (fst p)"
  "endSample (position off ord p) = endSample (fst p)"
  by (simp_all add: position_def LogicDecoderAnnotation.defs)

lemma sorted_wrt_map_mono:
  "sorted_wrt R xs \<Longrightarrow> (\<And>x y. x \<in> set xs \<Longrightarrow> y \<in> set xs \<Longrightarrow> R x y \<Longrightarrow> S (f x) (f y)) \<Longrightarrow> sorted_wrt S (map f xs)"
  by (induction xs) auto

lemma layout_one_row:
  assumes "\<forall>a \<in> set xs. annRow a = r \<and> valid_annotation a"
  shows "\<exists>new. layout_row (ps, off, ord) (r, xs) = (ps @ new, off + max 1 (depth xs), ord + 1) \<and>
    mset (map forget_lane new) = mset xs \<and> sorted_wrt lane_order new \<and>
    (\<forall>p \<in> set new. off \<le> lane p \<and> lane p < off + max 1 (depth xs) \<and> annRow p = r)"
proof -
  define ys where "ys = sort_row xs"
  have ys: "mset ys = mset xs" "set ys = set xs" by (simp_all add: ys_def sort_row_def)
  have "sorted_wrt (\<lambda>a b. (startSample a, endSample a) \<le> (startSample b, endSample b)) ys"
    using sorted_sort_key [of "\<lambda>a. (startSample a, endSample a)" xs]
    unfolding ys_def sort_row_def sorted_map .
  then have "sorted_wrt (\<lambda>a b. startSample a \<le> startSample b) ys"
    by (rule sorted_wrt_mono_rel [rotated]) auto
  from place_row [OF this] assms ys(2) obtain ends placed where
    pl: "foldl place ([], []) ys = (ends, placed)" "row_inv ys ends placed" by auto
  note i = pl(2) [unfolded row_inv_def]
  have "depth ys = depth xs"
    by (simp add: depth_def depth_at_mset [OF ys(1)] ys(2))
  with row_inv_depth [OF pl(2)] have len: "length ends = depth xs" by simp
  have in_row: "fst p \<in> set xs" if "p \<in> set placed" for p
  proof -
    have "map fst placed = ys" using i by blast
    then have "fst p \<in> set ys" using that by (metis image_eqI set_map)
    then show ?thesis by (simp add: ys(2))
  qed
  show ?thesis
  proof (intro exI [of _ "map (position off ord) placed"] conjI ballI)
    show "layout_row (ps, off, ord) (r, xs) =
        (ps @ map (position off ord) placed, off + max 1 (depth xs), ord + 1)"
      by (simp add: layout_row_def flip: ys_def) (simp add: pl(1) len)
    show "mset (map forget_lane (map (position off ord) placed)) = mset xs"
      using i ys(1) by (simp add: comp_def)
    show "sorted_wrt lane_order (map (position off ord) placed)"
      by (rule sorted_wrt_map_mono [where R = before_in_lane])
        (use i in_row assms in \<open>auto simp: before_in_lane_def lane_order_def\<close>)
    fix p assume "p \<in> set (map (position off ord) placed)"
    then obtain a k where p: "p = position off ord (a, k)" "(a, k) \<in> set placed" by auto
    with i len in_row [OF p(2)] assms show "off \<le> lane p" "lane p < off + max 1 (depth xs)" "annRow p = r" by auto
  qed
qed

lemma layout_rows:
  assumes "\<forall>(r, xs) \<in> set rows. \<forall>a \<in> set xs. annRow a = r \<and> valid_annotation a" "distinct (map fst rows)"
  shows "\<exists>new. foldl layout_row (ps, off, ord) rows =
      (ps @ new, off + (\<Sum>(r, xs) \<leftarrow> rows. max 1 (depth xs)), ord + length rows) \<and>
    mset (map forget_lane new) = mset (concat (map snd rows)) \<and> sorted_wrt lane_order new \<and>
    (\<forall>p \<in> set new. off \<le> lane p \<and> lane p < off + (\<Sum>(r, xs) \<leftarrow> rows. max 1 (depth xs)))"
  using assms
proof (induction rows arbitrary: ps off ord)
  case Nil
  show ?case by simp
next
  case (Cons row rows)
  obtain r xs where row: "row = (r, xs)" by fastforce
  from layout_one_row [of xs r ps off ord] Cons.prems row obtain new1 where n1:
    "layout_row (ps, off, ord) row = (ps @ new1, off + max 1 (depth xs), ord + 1)"
    "mset (map forget_lane new1) = mset xs" "sorted_wrt lane_order new1"
    "\<forall>p \<in> set new1. off \<le> lane p \<and> lane p < off + max 1 (depth xs)" by auto
  from Cons.IH [of "ps @ new1" "off + max 1 (depth xs)" "ord + 1"] Cons.prems obtain new2 where n2:
    "foldl layout_row (ps @ new1, off + max 1 (depth xs), ord + 1) rows =
      ((ps @ new1) @ new2, off + max 1 (depth xs) + (\<Sum>(r, xs) \<leftarrow> rows. max 1 (depth xs)), ord + 1 + length rows)"
    "mset (map forget_lane new2) = mset (concat (map snd rows))" "sorted_wrt lane_order new2"
    "\<forall>p \<in> set new2. off + max 1 (depth xs) \<le> lane p \<and>
      lane p < off + max 1 (depth xs) + (\<Sum>(r, xs) \<leftarrow> rows. max 1 (depth xs))" by auto
  have "sorted_wrt lane_order (new1 @ new2)"
    using n1(3,4) n2(3,4) by (fastforce simp: sorted_wrt_append lane_order_def)
  with n1 n2 show ?case
    by (intro exI [of _ "new1 @ new2"]) (fastforce simp: row)
qed

text \<open>
  C7: The layout of annotations loses none, never draws two over each other and uses as few lanes
  as possible. Every annotation gets one lane; two annotations in one lane are of the same row and
  the earlier one ends before the later one starts; and the number of lanes is the sum over the
  rows of the largest number of annotations that cover one sample.
\<close>

theorem layout_is_optimal:
  assumes "layoutLogicDecoderAnnotations as = (ps, laneCount)" "list_all valid_annotation as"
  shows "mset (map forget_lane ps) = mset as \<and> sorted_wrt lane_order ps \<and> (\<forall>p \<in> set ps. lane p < laneCount) \<and>
    laneCount = (\<Sum>row \<in> annRow ` set as. depth (filter (\<lambda>a. annRow a = row) as))"
proof -
  note ok = group_rows_ok [of as, unfolded rows_ok_def]
  have rows: "\<forall>(r, xs) \<in> set (group_rows as). \<forall>a \<in> set xs. annRow a = r \<and> valid_annotation a"
    using ok assms(2) by (auto simp: list_all_iff)
  from layout_rows [OF rows, of "[]" 0 0] ok assms(1) have l:
    "mset (map forget_lane ps) = mset (concat (map snd (group_rows as)))" "sorted_wrt lane_order ps"
    "\<forall>p \<in> set ps. lane p < laneCount" "laneCount = (\<Sum>(r, xs) \<leftarrow> group_rows as. max 1 (depth xs))"
    by (auto simp: layoutLogicDecoderAnnotations_def)
  have "(\<Sum>(r, xs) \<leftarrow> group_rows as. max 1 (depth xs)) =
      (\<Sum>r \<leftarrow> map fst (group_rows as). depth (filter (\<lambda>a. annRow a = r) as))"
    unfolding map_map
  proof (rule arg_cong [of _ _ sum_list], rule map_cong [OF refl])
    fix x assume x: "x \<in> set (group_rows as)"
    obtain r xs where rx: "x = (r, xs)" by fastforce
    from x have "r \<in> set (map fst (group_rows as))" unfolding rx by (metis fst_conv image_eqI set_map)
    with ok have name: "r \<in> annRow ` set as" by blast
    from x ok have xs: "xs = filter (\<lambda>a. annRow a = r) as" unfolding rx by blast
    from name xs obtain a where "a \<in> set xs" by auto
    with assms(2) xs(1) have "1 \<le> depth xs" by (intro depth_pos) (auto simp: list_all_iff)
    then show "(case x of (r, xs) \<Rightarrow> max 1 (depth xs)) =
        ((\<lambda>r. depth (filter (\<lambda>a. annRow a = r) as)) \<circ> fst) x" by (simp add: rx xs(1))
  qed
  also have "\<dots> = (\<Sum>row \<in> annRow ` set as. depth (filter (\<lambda>a. annRow a = row) as))"
    using ok by (metis sum.distinct_set_conv_list)
  finally show ?thesis using l group_rows_mset [of as] by simp
qed

subsection \<open>Checked answers\<close>

lemma mapR_results: "mapR i f xs = Inr ys \<Longrightarrow> y \<in> set ys \<Longrightarrow> \<exists>x k. x \<in> set xs \<and> f x k = Inr y"
  by (induction i f xs arbitrary: ys rule: mapR.induct) (fastforce simp: bindR_Inr_iff)+

lemma mapR_passes: "mapR i f xs = Inr ys \<Longrightarrow> x \<in> set xs \<Longrightarrow> \<exists>k y. f x k = Inr y"
  by (induction i f xs arbitrary: ys rule: mapR.induct) (auto simp: bindR_Inr_iff)

lemma validateAnnotation_Inr: "validateAnnotation v i = Inr a \<Longrightarrow> valid_annotation a"
  by (auto simp: validateAnnotation_def Let_def bindR_Inr_iff guardR_Inr_iff valid_annotation_def)

lemma validateDiagnostic_Inr: "validateDiagnostic v i = Inr d \<Longrightarrow> diagStart d < diagEnd d"
  by (auto simp: validateDiagnostic_def Let_def bindR_Inr_iff guardR_Inr_iff split: option.splits)

lemma validateDecoderResult_Inr:
  assumes "validateDecoderResult v n = Inr r"
  shows "(\<forall>a \<in> set (annotations r). valid_annotation a) \<and> (\<forall>d \<in> set (diagnostics r). diagStart d < diagEnd d) \<and>
    resultSchema r = LOGIC_DECODER_RESULT_SCHEMA_VERSION"
proof -
  from assms obtain avs dvs where
    "mapR 0 validateAnnotation avs = Inr (annotations r)" "mapR 0 validateDiagnostic dvs = Inr (diagnostics r)"
    "resultSchema r = LOGIC_DECODER_RESULT_SCHEMA_VERSION"
    by (auto simp: validateDecoderResult_def bindR_Inr_iff guardR_Inr_iff split: option.splits)
  then show ?thesis
    using mapR_results validateAnnotation_Inr validateDiagnostic_Inr by metis
qed

lemma validateSampleBounds_Inr:
  "validateSampleBounds s e n path i = Inr u \<longleftrightarrow> \<not> js_le n (js_int (int s)) \<and> \<not> js_lt n (js_int (int e))"
  by (simp add: validateSampleBounds_def guardR_Inr_iff)

text \<open>
  Whatever the decoder module answers, a result that is handed on is well formed: it has the
  supported schema, and every annotation and diagnostic covers at least one sample and lies within
  the samples of the request. So the layout of a decoded capture is always optimal.
\<close>

lemma decoded_result_is_well_formed:
  assumes "decodeLogicCapture decodeLogic request = Inr r"
  shows "resultSchema r = LOGIC_DECODER_RESULT_SCHEMA_VERSION \<and>
    (\<forall>a \<in> set (annotations r). startSample a < endSample a \<and>
       \<not> js_lt (packedSampleCount (reqSamples request)) (js_int (int (endSample a)))) \<and>
    (\<forall>d \<in> set (diagnostics r). diagStart d < diagEnd d \<and>
       \<not> js_lt (packedSampleCount (reqSamples request)) (js_int (int (diagEnd d)))) \<and>
    list_all valid_annotation (annotations r)"
proof -
  let ?n = "packedSampleCount (reqSamples request)"
  from assms obtain envelope where envelope: "parseLogicDecoderEnvelope (decodeLogic request) None = Inr envelope"
      "(case envelope of Inl e \<Rightarrow> Inl (DecoderFailed e) | Inr r \<Rightarrow> recheck ?n r) = Inr r"
    unfolding decodeLogicCapture_def bindR_Inr_iff by blast
  then obtain r' where r': "envelope = Inr r'" "recheck ?n r' = Inr r" by (cases envelope) auto
  then have "r' = r" by (auto simp: recheck_def bindR_Inr_iff)
  with r' have re: "recheck ?n r = Inr r" and "envelope = Inr r" by simp_all
  with envelope(1) obtain v where v: "validateDecoderResult v None = Inr r"
    unfolding parseLogicDecoderEnvelope_def by (auto simp: bindR_Inr_iff split: option.splits bool.splits)
  from re have "\<not> js_lt ?n (js_int (int (endSample a)))" if "a \<in> set (annotations r)" for a
    using mapR_passes that by (fastforce simp: recheck_def bindR_Inr_iff validateSampleBounds_Inr)
  moreover from re have "\<not> js_lt ?n (js_int (int (diagEnd d)))" if "d \<in> set (diagnostics r)" for d
    using mapR_passes that by (fastforce simp: recheck_def bindR_Inr_iff validateSampleBounds_Inr)
  ultimately show ?thesis
    using validateDecoderResult_Inr [OF v] by (auto simp: valid_annotation_def list_all_iff)
qed

subsection \<open>Reconciled pins\<close>

lemma nextDistinctPin_spec:
  assumes "nextDistinctPin av used pref allow = (r, used')"
  shows "if \<exists>q \<in> set av. q \<notin> used then \<exists>p \<in> set av. r = Some p \<and> p \<notin> used \<and> used' = insert p used
    else r = (if allow then None else nth_opt av 0) \<and> used' = used"
proof (cases "case pref of Some p \<Rightarrow> if p \<in> set av \<and> p \<notin> used then Some p else None | None \<Rightarrow> None")
  case (Some p)
  with assms show ?thesis by (auto simp: nextDistinctPin_def split: option.splits if_splits)
next
  case None
  then show ?thesis
  proof (cases "find (\<lambda>pin. pin \<notin> used) av")
    case (Some q)
    then have "q \<in> set av" "q \<notin> used" by (auto simp: find_Some_iff)
    moreover have "(r, used') = (Some q, insert q used)"
      using assms unfolding nextDistinctPin_def None Some by simp
    ultimately show ?thesis by auto
  next
    case no: None
    then have "\<not> (\<exists>q \<in> set av. q \<notin> used)" by (auto simp: find_None_iff)
    moreover have "(r, used') = ((if allow then None else nth_opt av 0), used)"
      using assms unfolding nextDistinctPin_def None no by simp
    ultimately show ?thesis by auto
  qed
qed

abbreviation chosen :: "(string \<times> jsnum option) list \<Rightarrow> jsnum list" where
  "chosen entries \<equiv> List.map_filter snd entries"

lemma unique_pins_Inr:
  "unique_pins seen entries = Inr () \<longleftrightarrow> distinct (chosen entries) \<and> set (chosen entries) \<inter> fst ` set seen = {}"
  by (induction seen entries rule: unique_pins.induct)
    (auto simp: List.map_filter_simps map_of_eq_None_iff rev_image_eqI split: option.splits dest!: map_of_SomeD)

lemma find_index_eq:
  assumes "p \<in> set pins" "p \<noteq> NaN"
  shows "\<exists>k < length pins. find_index (js_eq p) pins = Some k \<and> pins ! k = p"
proof (cases "find_index (js_eq p) pins")
  case None
  with assms show ?thesis by (auto simp: find_index_None js_eq_def)
next
  case (Some k)
  with find_index_Some [OF Some] show ?thesis by (auto simp: js_eq_def)
qed

lemma map_channels_Inr:
  assumes "set (chosen entries) \<subseteq> set pins" "NaN \<notin> set pins"
  shows "\<exists>ms. map_channels pins entries = Inr ms \<and> map (\<lambda>m. pins ! mapBit m) ms = chosen entries \<and>
    (\<forall>m \<in> set ms. mapBit m < length pins)"
  using assms
proof (induction pins entries rule: map_channels.induct)
  case (3 pins signal pin entries)
  then have "pin \<in> set pins" "pin \<noteq> NaN" by (auto simp: List.map_filter_simps)
  from find_index_eq [OF this] obtain k where "k < length pins" "find_index (js_eq pin) pins = Some k" "pins ! k = pin"
    by blast
  with 3 show ?case by (auto simp: getMappedChannelBit_def List.map_filter_simps)
qed (simp_all add: List.map_filter_simps)

text \<open>What a list of chosen pins yields: channels with different, valid bits.\<close>

lemma channels_of_chosen:
  assumes "set (chosen entries) \<subseteq> set pins" "distinct (chosen entries)" "NaN \<notin> set pins"
  shows "\<exists>ms. validateUniquePins entries = Inr () \<and> map_channels pins entries = Inr ms \<and>
    distinct (map mapBit ms) \<and> (\<forall>m \<in> set ms. mapBit m < length pins)"
proof -
  from map_channels_Inr [OF assms(1,3)] obtain ms where ms: "map_channels pins entries = Inr ms"
    "map (\<lambda>m. pins ! mapBit m) ms = chosen entries" "\<forall>m \<in> set ms. mapBit m < length pins" by blast
  have "distinct (map ((!) pins) (map mapBit ms))" using ms(2) assms(2) by (simp add: comp_def)
  then have "distinct (map mapBit ms)" by (metis distinct_map)
  with ms assms(2) show ?thesis by (simp add: validateUniquePins_def unique_pins_Inr)
qed

lemma another_pin:
  assumes "distinct av" "length used < length av"
  shows "\<exists>q \<in> set av. q \<notin> set used"
proof (rule ccontr)
  assume "\<not> ?thesis"
  then have "card (set av) \<le> card (set used)" by (intro card_mono) auto
  also have "\<dots> \<le> length used" by (rule card_length)
  finally show False using assms by (simp add: distinct_card)
qed

lemma reconciled_pins:
  assumes "distinct pins" "2 \<le> length pins"
  shows "\<exists>rx scl sda sclk mosi miso cs.
    rxPin (uartConfig (reconcileLogicDecoderConfigs configs pins)) = Some rx \<and>
    i2cConfig (reconcileLogicDecoderConfigs configs pins) = \<lparr>sclPin = Some scl, sdaPin = Some sda\<rparr> \<and>
    sclkPin (spiConfig (reconcileLogicDecoderConfigs configs pins)) = Some sclk \<and>
    mosiPin (spiConfig (reconcileLogicDecoderConfigs configs pins)) = Some mosi \<and>
    misoPin (spiConfig (reconcileLogicDecoderConfigs configs pins)) = miso \<and>
    csPin (spiConfig (reconcileLogicDecoderConfigs configs pins)) = cs \<and>
    rx \<in> set pins \<and> scl \<in> set pins \<and> sda \<in> set pins \<and> scl \<noteq> sda \<and>
    (let spi = chosen [(''sclk'', Some sclk), (''mosi'', Some mosi), (''miso'', miso), (''cs'', cs)]
     in distinct spi \<and> set spi \<subseteq> set pins)"
proof -
  have one: "\<exists>q \<in> set pins. q \<notin> {}" and two: "\<exists>q \<in> set pins. q \<notin> {p}" for p
    using another_pin [OF assms(1), of "[]"] another_pin [OF assms(1), of "[p]"] assms(2) by auto
  obtain rx u0 where rx: "nextDistinctPin pins {} (rxPin (uartConfig configs)) False = (rx, u0)" by fastforce
  obtain scl u1 where scl: "nextDistinctPin pins {} (sclPin (i2cConfig configs)) False = (scl, u1)" by fastforce
  obtain sda u2 where sda: "nextDistinctPin pins u1 (sdaPin (i2cConfig configs)) False = (sda, u2)" by fastforce
  obtain sclk v1 where sclk: "nextDistinctPin pins {} (sclkPin (spiConfig configs)) False = (sclk, v1)" by fastforce
  obtain mosi v2 where mosi: "nextDistinctPin pins v1 (mosiPin (spiConfig configs)) True = (mosi, v2)" by fastforce
  obtain miso v3 where miso: "nextDistinctPin pins v2 (misoPin (spiConfig configs)) True = (miso, v3)" by fastforce
  obtain cs v4 where cs: "nextDistinctPin pins v3 (csPin (spiConfig configs)) True = (cs, v4)" by fastforce
  from nextDistinctPin_spec [OF rx] one obtain p0 where p0: "rx = Some p0" "p0 \<in> set pins" by auto
  from nextDistinctPin_spec [OF scl] one obtain p1 where p1: "scl = Some p1" "p1 \<in> set pins" "u1 = {p1}" by auto
  from nextDistinctPin_spec [OF sda] two [of p1] p1(3) obtain p2 where
    p2: "sda = Some p2" "p2 \<in> set pins" "p2 \<noteq> p1" by auto
  from nextDistinctPin_spec [OF sclk] one obtain q1 where q1: "sclk = Some q1" "q1 \<in> set pins" "v1 = {q1}" by auto
  from nextDistinctPin_spec [OF mosi] two [of q1] q1(3) obtain q2 where
    q2: "mosi = Some q2" "q2 \<in> set pins" "q2 \<noteq> q1" "v2 = {q2, q1}" by auto
  from nextDistinctPin_spec [OF miso] have m: "(\<exists>p \<in> set pins. miso = Some p \<and> p \<notin> v2 \<and> v3 = insert p v2) \<or>
      miso = None \<and> v3 = v2" by (auto split: if_splits)
  from nextDistinctPin_spec [OF cs] have c: "(\<exists>p \<in> set pins. cs = Some p \<and> p \<notin> v3) \<or> cs = None"
    by (auto split: if_splits)
  have "distinct (chosen [(''sclk'', Some q1), (''mosi'', Some q2), (''miso'', miso), (''cs'', cs)]) \<and>
      set (chosen [(''sclk'', Some q1), (''mosi'', Some q2), (''miso'', miso), (''cs'', cs)]) \<subseteq> set pins"
    using m c q1(2) q2 by (auto simp: List.map_filter_simps)
  moreover have "reconcileLogicDecoderConfigs configs pins =
    \<lparr>uartConfig = (uartConfig configs)\<lparr>rxPin := rx,
       baud := js_int (roundPositiveInteger (Some (baud (uartConfig configs)))),
       dataBits := js_clamp 5 9 (js_int (roundPositiveInteger (Some (dataBits (uartConfig configs))))),
       stopBits := js_clamp 1 2 (js_int (roundPositiveInteger (Some (stopBits (uartConfig configs)))))\<rparr>,
     i2cConfig = \<lparr>sclPin = scl, sdaPin = sda\<rparr>,
     spiConfig = (spiConfig configs)\<lparr>sclkPin := sclk, mosiPin := mosi, misoPin := miso, csPin := cs,
       spiMode := js_clamp 0 3 (js_trunc (spiMode (spiConfig configs))),
       bitsPerWord := js_clamp 1 16 (js_int (roundPositiveInteger (Some (bitsPerWord (spiConfig configs)))))\<rparr>\<rparr>"
    by (simp add: reconcileLogicDecoderConfigs_def rx scl sda sclk mosi miso cs)
  ultimately show ?thesis using p0 p1 p2 q1 q2 by (simp add: Let_def)
qed

lemma captureBitMask_bound: "unat (w AND captureBitMask n) < 2 ^ min 16 n"
proof -
  have m: "captureBitMask n = mask (min 16 n)"
  proof (cases "n = 0 \<or> n \<ge> 16")
    case True
    have "mask 16 = (0xffff :: u32)" by (simp add: mask_eq_exp_minus_1)
    with True show ?thesis by (auto simp: captureBitMask_def min_def)
  next
    case False
    then show ?thesis by (simp add: captureBitMask_def mask_eq_decr_exp min_def)
  qed
  have "w AND mask (min 16 n) = take_bit (min 16 n) w" by (simp add: take_bit_eq_mask)
  then have "take_bit (min 16 n) (w AND mask (min 16 n)) = w AND mask (min 16 n)" by simp
  from unat_less_of_take_bit [OF this] show ?thesis by (simp add: m)
qed


subsection \<open>Instances\<close>

definition sample_annotation :: "nat \<Rightarrow> nat \<Rightarrow> string \<Rightarrow> LogicDecoderAnnotation" where
  "sample_annotation s e row = \<lparr>startSample = s, endSample = e, annRow = row, annClass = ''c'', shortText = ''s'',
     longText = ''l'', annData = None\<rparr>"

theorem layout_is_optimal_witness:
  "case layoutLogicDecoderAnnotations [sample_annotation 2 6 ''b'', sample_annotation 0 4 ''a'', sample_annotation 0 4 ''b''] of
     (ps, n) \<Rightarrow> n = 3 \<and> sorted_wrt lane_order ps"
proof -
  let ?as = "[sample_annotation 2 6 ''b'', sample_annotation 0 4 ''a'', sample_annotation 0 4 ''b'']"
  obtain ps n where l: "layoutLogicDecoderAnnotations ?as = (ps, n)" by fastforce
  have "snd (layoutLogicDecoderAnnotations ?as) = 3" by code_simp
  then have "n = 3" by (simp add: l)
  moreover have "list_all valid_annotation ?as" by (simp add: valid_annotation_def sample_annotation_def)
  from layout_is_optimal [OF l this] have "sorted_wrt lane_order ps" by blast
  ultimately show ?thesis by (simp add: l)
qed

definition sample_capture_for_decoding :: RatedCapture where
  "sample_capture_for_decoding =
     \<lparr>ratedConfig = \<lparr>capPinCount = Fin 2, capPinBase = Fin 10, capSelectedPins = Some [Fin 10, Fin 12],
        capTriggerPin = None, rateSampleRateHz = Some (Fin 1000000), rateRequestedSampleRateHz = None,
        rateActualSampleRateHz = None, rateSamplePeriodPs = None\<rparr>,
      ratedSampleCount = Fin 1, ratedSamples = [\<lparr>timestampUs = Fin 0, sampleValues = Fin 3\<rparr>]\<rparr>"

definition sample_answer :: json where
  "sample_answer = JObj [(''ok'', JBool True), (''result'', JObj [
     (''schemaVersion'', JStr LOGIC_DECODER_RESULT_SCHEMA_VERSION),
     (''annotations'', JArr [JObj [(''startSample'', JNum (Fin 0)), (''endSample'', JNum (Fin 1)),
        (''row'', JStr ''r''), (''class'', JStr ''c''), (''shortText'', JStr ''s''), (''longText'', JStr ''l'')]]),
     (''diagnostics'', JArr [])])]"

lemma sample_pins: "getLogicDecoderCapturePins (ratedConfig sample_capture_for_decoding) = [Fin 10, Fin 12]"
  by (simp add: getLogicDecoderCapturePins_def sample_capture_for_decoding_def slice_to_def)


lemma decoded_result_is_well_formed_witness:
  "\<exists>request r. decodeLogicCapture (\<lambda>_. Some sample_answer) request = Inr r \<and> annotations r \<noteq> [] \<and>
     list_all valid_annotation (annotations r)"
proof -
  define request where "request = \<lparr>reqSchema = LOGIC_DECODER_REQUEST_SCHEMA_VERSION,
    reqSamples = \<lparr>packedSampleRateHz = 1, packedSamplePeriodPs = 1, packedSampleCount = Fin 1, packedChannels = [],
      packedWords = [3]\<rparr>, reqProtocol = I2cOptions ''scl'' ''sda''\<rparr>"
  have "case decodeLogicCapture (\<lambda>_. Some sample_answer) request of Inr r \<Rightarrow> annotations r \<noteq> [] | Inl _ \<Rightarrow> False"
    unfolding request_def by code_simp
  then obtain r where r: "decodeLogicCapture (\<lambda>_. Some sample_answer) request = Inr r" "annotations r \<noteq> []"
    by (auto split: sum.splits)
  from decoded_result_is_well_formed [OF r(1)] r show ?thesis by blast
qed

end
