(* ===== verification/Sha256.thy ===== *)
theory Sha256
  imports Linkr_Prelude
begin

text \<open>
  The SHA-256 fallback of the firmware update (\<open>web/src/lib/ota.ts\<close>, \<open>sha256Fallback\<close>), as
  the code has it: a padded byte array, an array of 64 words that is reused from block to
  block, sums of numbers that may be negative reduced by \<open>>>> 0\<close>. It is shown equal to a
  specification in the terms of the standard: padding by a bit string, a recursive message
  schedule, rotations and addition modulo \<open>2 ^ 32\<close>.
\<close>

subsection \<open>The code\<close>

definition SHA256_K :: "u32 list" where
  "SHA256_K = concat [
     [0x428a2f98, 0x71374491, 0xb5c0fbcf, 0xe9b5dba5, 0x3956c25b, 0x59f111f1, 0x923f82a4, 0xab1c5ed5],
     [0xd807aa98, 0x12835b01, 0x243185be, 0x550c7dc3, 0x72be5d74, 0x80deb1fe, 0x9bdc06a7, 0xc19bf174],
     [0xe49b69c1, 0xefbe4786, 0x0fc19dc6, 0x240ca1cc, 0x2de92c6f, 0x4a7484aa, 0x5cb0a9dc, 0x76f988da],
     [0x983e5152, 0xa831c66d, 0xb00327c8, 0xbf597fc7, 0xc6e00bf3, 0xd5a79147, 0x06ca6351, 0x14292967],
     [0x27b70a85, 0x2e1b2138, 0x4d2c6dfc, 0x53380d13, 0x650a7354, 0x766a0abb, 0x81c2c92e, 0x92722c85],
     [0xa2bfe8a1, 0xa81a664b, 0xc24b8b70, 0xc76c51a3, 0xd192e819, 0xd6990624, 0xf40e3585, 0x106aa070],
     [0x19a4c116, 0x1e376c08, 0x2748774c, 0x34b0bcb5, 0x391c0cb3, 0x4ed8aa4a, 0x5b9cca4f, 0x682e6ff3],
     [0x748f82ee, 0x78a5636f, 0x84c87814, 0x8cc70208, 0x90befffa, 0xa4506ceb, 0xbef9a3f7, 0xc67178f2]]"

text \<open>
  The result of a JavaScript bit operator is a signed 32 bit number, so it enters a sum as
  \<open>sint\<close>; a word read from a \<open>Uint32Array\<close> enters it as \<open>uint\<close>. The sums have at most five terms
  and are exact. \<open>>>> 0\<close> reduces a sum to a word.
\<close>

definition unsigned :: "int \<Rightarrow> u32" where
  "unsigned s = word_of_int s"

definition rotateRight :: "u32 \<Rightarrow> nat \<Rightarrow> u32" where
  "rotateRight v shift = drop_bit shift v OR push_bit (32 - shift) v"

text \<open>\<open>((bytes.length + 9 + 63) >> 6) << 6\<close>, in signed 32 bit arithmetic.\<close>

definition paddedLength :: "nat \<Rightarrow> int" where
  "paddedLength n = sint (push_bit 6 (signed_drop_bit 6 (word_of_int (int n + 9 + 63) :: u32)))"

text \<open>The byte \<open>(x >>> n) & 0xff\<close> of an integer below \<open>2 ^ 53\<close>.\<close>

definition be_byte :: "nat \<Rightarrow> nat \<Rightarrow> u8" where
  "be_byte x n = ucast (drop_bit n (word_of_nat x :: u32) AND 0xff)"

definition padded_array :: "bytes \<Rightarrow> nat \<Rightarrow> bytes" where
  "padded_array bytes n =
     (let bitLength = length bytes * 8;
          padded = (bytes @ replicate (n - length bytes) 0)[length bytes := 0x80];
          high = bitLength div 2 ^ 32; low = bitLength mod 2 ^ 32
      in padded[n - 8 := be_byte high 24, n - 7 := be_byte high 16, n - 6 := be_byte high 8, n - 5 := be_byte high 0,
           n - 4 := be_byte low 24, n - 3 := be_byte low 16, n - 2 := be_byte low 8, n - 1 := be_byte low 0])"

definition initial_hash :: "u32 list" where
  "initial_hash = [0x6a09e667, 0xbb67ae85, 0x3c6ef372, 0xa54ff53a, 0x510e527f, 0x9b05688c, 0x1f83d9ab, 0x5be0cd19]"

definition load_word :: "bytes \<Rightarrow> nat \<Rightarrow> u32 list \<Rightarrow> nat \<Rightarrow> u32 list" where
  "load_word padded offset words index =
     (let base = offset + index * 4
      in words[index := push_bit 24 (ucast (padded ! base)) OR push_bit 16 (ucast (padded ! (base + 1))) OR
           push_bit 8 (ucast (padded ! (base + 2))) OR ucast (padded ! (base + 3))])"

definition extend_word :: "u32 list \<Rightarrow> nat \<Rightarrow> u32 list" where
  "extend_word words index =
     (let w15 = words ! (index - 15); w2 = words ! (index - 2);
          s0 = rotateRight w15 7 XOR rotateRight w15 18 XOR drop_bit 3 w15;
          s1 = rotateRight w2 17 XOR rotateRight w2 19 XOR drop_bit 10 w2
      in words[index := unsigned (uint (words ! (index - 16)) + sint s0 + uint (words ! (index - 7)) + sint s1)])"

type_synonym registers = "u32 \<times> u32 \<times> u32 \<times> u32 \<times> u32 \<times> u32 \<times> u32 \<times> u32"

definition round_step :: "u32 list \<Rightarrow> registers \<Rightarrow> nat \<Rightarrow> registers" where
  "round_step words r index =
     (case r of (a, b, c, d, e, f, g, h) \<Rightarrow>
        let s1 = rotateRight e 6 XOR rotateRight e 11 XOR rotateRight e 25;
            ch = (e AND f) XOR (NOT e AND g);
            temp1 = unsigned (uint h + sint s1 + sint ch + uint (SHA256_K ! index) + uint (words ! index));
            s0 = rotateRight a 2 XOR rotateRight a 13 XOR rotateRight a 22;
            maj = (a AND b) XOR (a AND c) XOR (b AND c);
            temp2 = unsigned (sint s0 + sint maj)
        in (unsigned (uint temp1 + uint temp2), a, b, c, unsigned (uint d + uint temp1), e, f, g))"

definition registers_of :: "u32 list \<Rightarrow> registers" where
  "registers_of hash = (hash ! 0, hash ! 1, hash ! 2, hash ! 3, hash ! 4, hash ! 5, hash ! 6, hash ! 7)"

definition add_hash :: "u32 list \<Rightarrow> registers \<Rightarrow> u32 list" where
  "add_hash hash r =
     (case r of (a, b, c, d, e, f, g, h) \<Rightarrow>
        map2 (\<lambda>x y. unsigned (uint x + uint y)) hash [a, b, c, d, e, f, g, h])"

text \<open>One turn of the loop over the blocks; \<open>words\<close> is what the last turn left.\<close>

definition block_step :: "bytes \<Rightarrow> u32 list \<times> u32 list \<Rightarrow> nat \<Rightarrow> u32 list \<times> u32 list" where
  "block_step padded st offset =
     (case st of (hash, words) \<Rightarrow>
        let words1 = foldl (load_word padded offset) words [0..<16];
            words2 = foldl extend_word words1 [16..<64]
        in (add_hash hash (foldl (round_step words2) (registers_of hash) [0..<64]), words2))"

definition hex_digit :: "u32 \<Rightarrow> char" where
  "hex_digit d = (if d < 10 then char_of (48 + unat d) else char_of (87 + unat d))"

text \<open>\<open>value.toString(16).padStart(8, "0")\<close>.\<close>

definition hex_word :: "u32 \<Rightarrow> string" where
  "hex_word v = map (\<lambda>i. hex_digit (drop_bit (28 - 4 * i) v AND 15)) [0..<8]"

text \<open>\<open>None\<close> is the \<open>RangeError\<close> of an array too short for the message.\<close>

definition sha256Fallback :: "bytes \<Rightarrow> string option" where
  "sha256Fallback bytes =
     (let n = paddedLength (length bytes)
      in if n < int (length bytes) then None
         else let padded = padded_array bytes (nat n);
                  offsets = map ((*) 64) [0..<(nat n + 63) div 64]
              in Some (concat (map hex_word (fst (foldl (block_step padded) (initial_hash, replicate 64 0) offsets)))))"

subsection \<open>The standard\<close>

text \<open>Padding: a one bit, zeros to 448 modulo 512, and the length in bits as 64 bits.\<close>

definition big_endian_64 :: "nat \<Rightarrow> bytes" where
  "big_endian_64 x = map (\<lambda>i. word_of_nat (x div 256 ^ (7 - i))) [0..<8]"

definition sha_pad :: "bytes \<Rightarrow> bytes" where
  "sha_pad m = m @ [0x80] @ replicate ((119 - length m mod 64) mod 64) 0 @ big_endian_64 (8 * length m)"

definition sigma0 :: "u32 \<Rightarrow> u32" where
  "sigma0 x = word_rotr 7 x XOR word_rotr 18 x XOR drop_bit 3 x"

definition sigma1 :: "u32 \<Rightarrow> u32" where
  "sigma1 x = word_rotr 17 x XOR word_rotr 19 x XOR drop_bit 10 x"

definition Sigma0 :: "u32 \<Rightarrow> u32" where
  "Sigma0 x = word_rotr 2 x XOR word_rotr 13 x XOR word_rotr 22 x"

definition Sigma1 :: "u32 \<Rightarrow> u32" where
  "Sigma1 x = word_rotr 6 x XOR word_rotr 11 x XOR word_rotr 25 x"

definition Ch :: "u32 \<Rightarrow> u32 \<Rightarrow> u32 \<Rightarrow> u32" where
  "Ch x y z = (x AND y) XOR (NOT x AND z)"

definition Maj :: "u32 \<Rightarrow> u32 \<Rightarrow> u32 \<Rightarrow> u32" where
  "Maj x y z = (x AND y) XOR (x AND z) XOR (y AND z)"

text \<open>A block is its 16 words; the schedule of a block.\<close>

definition block_word :: "bytes \<Rightarrow> nat \<Rightarrow> u32" where
  "block_word block t = word_rcat (take 4 (drop (4 * t) block))"

fun schedule :: "bytes \<Rightarrow> nat \<Rightarrow> u32" where
  "schedule block t =
     (if t < 16 then block_word block t
      else sigma1 (schedule block (t - 2)) + schedule block (t - 7) + sigma0 (schedule block (t - 15)) +
        schedule block (t - 16))"

declare schedule.simps [simp del]

definition compress_step :: "bytes \<Rightarrow> registers \<Rightarrow> nat \<Rightarrow> registers" where
  "compress_step block r t =
     (case r of (a, b, c, d, e, f, g, h) \<Rightarrow>
        let T1 = h + Sigma1 e + Ch e f g + SHA256_K ! t + schedule block t;
            T2 = Sigma0 a + Maj a b c
        in (T1 + T2, a, b, c, d + T1, e, f, g))"

definition compress :: "bytes \<Rightarrow> u32 list \<Rightarrow> u32 list" where
  "compress block hash =
     (case foldl (compress_step block) (registers_of hash) [0..<64] of
        (a, b, c, d, e, f, g, h) \<Rightarrow> map2 (+) hash [a, b, c, d, e, f, g, h])"

fun sha_blocks :: "u32 list \<Rightarrow> bytes \<Rightarrow> u32 list" where
  "sha_blocks hash m = (if length m < 64 then hash else sha_blocks (compress (take 64 m) hash) (drop 64 m))"

declare sha_blocks.simps [simp del]

definition sha256 :: "bytes \<Rightarrow> string" where
  "sha256 m = concat (map hex_word (sha_blocks initial_hash (sha_pad m)))"

subsection \<open>Words\<close>

lemma rotateRight_is_rotr:
  assumes "0 < shift" "shift < 32"
  shows "rotateRight v shift = word_rotr shift v"
proof (rule bit_word_eqI)
  fix k :: nat assume k: "k < LENGTH(32)"
  have high: "\<not> bit v (shift + k)" if "32 \<le> shift + k"
    using that bit_imp_le_length [of v "shift + k"] by auto
  show "bit (rotateRight v shift) k = bit (word_rotr shift v) k"
  proof (cases "shift + k < 32")
    case True
    with k assms show ?thesis
      by (auto simp: rotateRight_def bit_simps bit_word_rotr_iff add.commute)
  next
    case False
    with k assms have "(k + shift) mod 32 = k - (32 - shift)" by (simp add: mod_if)
    with False k assms high show ?thesis
      by (auto simp: rotateRight_def bit_simps bit_word_rotr_iff add.commute)
  qed
qed

lemma unsigned_simps:
  "unsigned (a + b) = unsigned a + unsigned b" "unsigned (uint w) = w" "unsigned (sint w) = w"
  by (simp_all add: unsigned_def)

lemma round_step_is_compress_step:
  assumes "words ! t = schedule block t"
  shows "round_step words r t = compress_step block r t"
  by (cases r) (simp add: round_step_def compress_step_def assms unsigned_simps rotateRight_is_rotr
      Sigma0_def Sigma1_def Ch_def Maj_def Let_def add_ac)

subsection \<open>Padding\<close>

lemma be_byte_eq:
  assumes "n \<le> 24"
  shows "be_byte x n = word_of_nat (x div 2 ^ n)"
proof (rule bit_word_eqI)
  fix k :: nat assume "k < LENGTH(8)"
  moreover have "bit (0xff :: u32) k \<longleftrightarrow> k < 8"
  proof -
    have "(0xff :: u32) = mask 8" by (simp add: mask_eq_exp_minus_1)
    then show ?thesis by (simp only: bit_mask_iff possible_bit_word) auto
  qed
  ultimately show "bit (be_byte x n) k = bit (word_of_nat (x div 2 ^ n) :: u8) k"
    using assms
    by (auto simp: be_byte_def bit_simps bit_of_nat_iff add.commute simp flip: drop_bit_eq_div)
qed

lemma paddedLength_eq:
  assumes "n < 2 ^ 31 - 72"
  shows "paddedLength n = int (64 * ((n + 72) div 64))"
proof -
  define v where "v = int n + 9 + 63"
  have v: "0 \<le> v" "v < 2 ^ 31" using assms by (simp_all add: v_def)
  have "sint (signed_drop_bit 6 (word_of_int v :: u32)) = v div 64"
    using v by (simp add: sint_signed_drop_bit_eq sint_word_of_int_small drop_bit_eq_div)
  moreover have "signed_drop_bit 6 (word_of_int v :: u32) = word_of_int (sint (signed_drop_bit 6 (word_of_int v :: u32)))"
    by simp
  ultimately have "signed_drop_bit 6 (word_of_int v :: u32) = word_of_int (v div 64)" by simp
  then have "push_bit 6 (signed_drop_bit 6 (word_of_int v :: u32)) = word_of_int (v div 64 * 64)"
    by (simp add: push_bit_eq_mult)
  moreover have "0 \<le> v div 64 * 64" "v div 64 * 64 < 2 ^ 31" using v by auto
  ultimately have "paddedLength n = v div 64 * 64"
    unfolding paddedLength_def v_def [symmetric] by (metis sint_word_of_int_small)
  also have "\<dots> = int (64 * ((n + 72) div 64))" by (simp add: v_def zdiv_int add.commute)
  finally show ?thesis .
qed

lemma zeros_length: "n + 9 + (119 - n mod 64) mod 64 = 64 * ((n + 72) div 64)" for n :: nat
proof -
  define q r where "q = n div 64" and "r = n mod 64"
  have n: "n = 64 * q + r" and r: "r < 64" by (simp_all add: q_def r_def)
  show ?thesis
  proof (cases "r \<le> 55")
    case True
    then have "(119 - r) mod 64 = 55 - r" by (simp add: mod_if)
    moreover have "(n + 72) div 64 = q + 1" unfolding n using True by (simp add: div_nat_eqI)
    ultimately show ?thesis using True by (simp add: n flip: r_def)
  next
    case False
    then have "(119 - r) mod 64 = 119 - r" by simp
    moreover have "(n + 72) div 64 = q + 2" unfolding n using False r by (simp add: div_nat_eqI)
    ultimately show ?thesis using False r by (simp add: n flip: r_def)
  qed
qed

lemma length_sha_pad: "length (sha_pad m) = 64 * ((length m + 72) div 64)"
  using zeros_length [of "length m"] by (simp add: sha_pad_def big_endian_64_def)

lemma set_8:
  "[x0, x1, x2, x3, x4, x5, x6, x7][0 := a, 1 := b, 2 := c, 3 := d, 4 := e, 5 := f, 6 := g, 7 := h] =
    [a, b, c, d, e, f, g, h]"
  by (simp add: eval_nat_numeral)

lemma padded_array_is_sha_pad:
  assumes n: "n = length m + 9 + z" and z: "z = (119 - length m mod 64) mod 64"
  shows "padded_array m n = sha_pad m"
proof -
  let ?x = "8 * length m"
  have rep: "replicate (n - length m) (0 :: u8) = 0 # replicate z 0 @ [0, 0, 0, 0, 0, 0, 0, 0]"
  proof -
    have "n - length m = Suc (z + 8)" by (simp add: n)
    moreover have "replicate 8 (0 :: u8) = [0, 0, 0, 0, 0, 0, 0, 0]" by (simp add: eval_nat_numeral)
    ultimately show ?thesis by (simp only: replicate_Suc replicate_add)
  qed
  have div: "?x div 2 ^ 32 div 2 ^ k = ?x div 2 ^ (32 + k)" for k
    by (simp add: div_mult2_eq power_add)
  have low: "(word_of_nat (?x mod 2 ^ 32 div 2 ^ k) :: u8) = word_of_nat (?x div 2 ^ k)" if "k \<le> 24" for k
  proof (rule bit_word_eqI)
    fix j :: nat assume "j < LENGTH(8)"
    with that show "bit (word_of_nat (?x mod 2 ^ 32 div 2 ^ k) :: u8) j = bit (word_of_nat (?x div 2 ^ k) :: u8) j"
      unfolding take_bit_eq_mod [symmetric] drop_bit_eq_div [symmetric] by (simp add: bit_simps)
  qed
  have be: "big_endian_64 ?x = [be_byte (?x div 2 ^ 32) 24, be_byte (?x div 2 ^ 32) 16, be_byte (?x div 2 ^ 32) 8,
      be_byte (?x div 2 ^ 32) 0, be_byte (?x mod 2 ^ 32) 24, be_byte (?x mod 2 ^ 32) 16, be_byte (?x mod 2 ^ 32) 8,
      be_byte (?x mod 2 ^ 32) 0]"
  proof -
    have upt: "[0..<8] = [0, 1, 2, 3, 4, 5, 6, 7 :: nat]" by (simp add: upt_rec)
    have le: "16 \<le> (24 :: nat)" "8 \<le> (24 :: nat)" "0 \<le> (24 :: nat)" by simp_all
    have "256 ^ j = (2 :: nat) ^ (8 * j)" for j by (simp add: power_mult)
    with upt have "big_endian_64 ?x = map (\<lambda>i. word_of_nat (?x div 2 ^ (8 * (7 - i)))) [0, 1, 2, 3, 4, 5, 6, 7]"
      by (simp only: big_endian_64_def)
    also have "\<dots> = map (\<lambda>k. word_of_nat (?x div 2 ^ k)) [32 + 24, 32 + 16, 32 + 8, 32 + 0, 24, 16, 8, 0]"
      by (simp del: power_numeral)
    also have "\<dots> = map (\<lambda>k. word_of_nat (?x div 2 ^ 32 div 2 ^ k)) [24, 16, 8, 0] @
        map (\<lambda>k. word_of_nat (?x mod 2 ^ 32 div 2 ^ k)) [24, 16, 8, 0]"
      unfolding list.map append.simps div low [OF order.refl] le [THEN low] by (rule refl)
    finally show ?thesis by (simp only: list.map append.simps be_byte_eq order.refl arith_simps zero_le)
  qed
  define xs where "xs = m @ [0x80] @ replicate z (0 :: u8)"
  have xs: "length xs = length m + 1 + z" by (simp add: xs_def)
  have start: "(m @ 0 # (replicate z 0 @ ys))[length m := 0x80] = xs @ ys" for ys :: bytes
    by (simp add: xs_def)
  have upd: "(xs @ ys)[length xs + i := v] = xs @ ys[i := v]" for ys :: bytes and i v
    by (simp add: list_update_append)
  have i: "n - 8 = length xs + 0" "n - 7 = length xs + 1" "n - 6 = length xs + 2" "n - 5 = length xs + 3"
      "n - 4 = length xs + 4" "n - 3 = length xs + 5" "n - 2 = length xs + 6" "n - 1 = length xs + 7"
    by (simp_all add: n xs)
  have "padded_array m n = xs @ big_endian_64 ?x"
    unfolding padded_array_def Let_def rep append_Cons append.assoc start i upd set_8 be
      mult.commute [of "length m" 8] ..
  then show ?thesis by (simp add: sha_pad_def xs_def z)
qed

subsection \<open>Blocks\<close>

lemma block_word_bytes:
  "word_rcat [a, b, c, d :: u8] = (push_bit 24 (ucast a) OR push_bit 16 (ucast b) OR push_bit 8 (ucast c) OR ucast d :: u32)"
proof -
  have bit: "bit (x :: u8) k \<Longrightarrow> k < 8" for x k using bit_imp_le_length [of x k] by simp
  have "word_rcat [a, b, c, d] = (push_bit 24 (ucast a) + (push_bit 16 (ucast b) + (push_bit 8 (ucast c) + ucast d)) :: u32)"
    by (simp add: word_rcat_def push_bit_eq_mult algebra_simps)
  also have "push_bit 8 (ucast c) + ucast d = (push_bit 8 (ucast c) OR ucast d :: u32)"
    by (rule disjunctive_add_eq_or, rule bit_eqI) (auto simp: bit_simps dest: bit)
  also have "push_bit 16 (ucast b) + (push_bit 8 (ucast c) OR ucast d) =
      (push_bit 16 (ucast b) OR (push_bit 8 (ucast c) OR ucast d) :: u32)"
    by (rule disjunctive_add_eq_or, rule bit_eqI) (auto simp: bit_simps dest: bit)
  also have "push_bit 24 (ucast a) + (push_bit 16 (ucast b) OR (push_bit 8 (ucast c) OR ucast d)) =
      (push_bit 24 (ucast a) OR (push_bit 16 (ucast b) OR (push_bit 8 (ucast c) OR ucast d)) :: u32)"
    by (rule disjunctive_add_eq_or, rule bit_eqI) (auto simp: bit_simps dest: bit)
  finally show ?thesis by (simp add: or.assoc)
qed

lemma take_4:
  assumes "i + 4 \<le> length xs"
  shows "take 4 (drop i xs) = [xs ! i, xs ! (i + 1), xs ! (i + 2), xs ! (i + 3)]"
proof -
  have d: "drop (i + k) xs = xs ! (i + k) # drop (i + Suc k) xs" if "k < 4" for k
    using assms that Cons_nth_drop_Suc [of "i + k" xs] by simp
  show ?thesis using d [of 0] d [of 1] d [of 2] d [of 3] by (simp add: eval_nat_numeral)
qed

lemma load_word_eq:
  assumes "offset + 64 \<le> length padded" "index < 16"
  shows "load_word padded offset words index = words[index := block_word (take 64 (drop offset padded)) index]"
proof -
  let ?i = "offset + index * 4"
  have "take 4 (drop (4 * index) (take 64 (drop offset padded))) = take 4 (drop ?i padded)"
    using assms by (simp add: drop_take min_def mult.commute add.commute)
  also have "\<dots> = [padded ! ?i, padded ! (?i + 1), padded ! (?i + 2), padded ! (?i + 3)]"
    using assms by (intro take_4) simp
  finally show ?thesis by (simp add: load_word_def Let_def block_word_def block_word_bytes)
qed

text \<open>The array holds the schedule up to \<open>n\<close>, whatever it held before.\<close>

definition scheduled :: "bytes \<Rightarrow> nat \<Rightarrow> u32 list \<Rightarrow> bool" where
  "scheduled block n words \<longleftrightarrow> length words = 64 \<and> (\<forall>t < n. words ! t = schedule block t)"

lemma scheduled_update:
  "scheduled block n words \<Longrightarrow> n < 64 \<Longrightarrow> v = schedule block n \<Longrightarrow> scheduled block (Suc n) (words[n := v])"
  by (auto simp: scheduled_def nth_list_update less_Suc_eq)

lemma load_scheduled:
  assumes "offset + 64 \<le> length padded" "length words = 64" "n \<le> 16"
  shows "scheduled (take 64 (drop offset padded)) n (foldl (load_word padded offset) words [0..<n])"
  using assms(3)
proof (induction n)
  case (Suc n)
  then have "block_word (take 64 (drop offset padded)) n = schedule (take 64 (drop offset padded)) n"
    by (subst schedule.simps) simp
  with Suc assms(1) show ?case by (simp add: load_word_eq scheduled_update)
qed (use assms(2) in \<open>simp add: scheduled_def\<close>)

lemma extend_word_scheduled:
  assumes "scheduled block n words" "16 \<le> n" "n < 64"
  shows "scheduled block (Suc n) (extend_word words n)"
proof -
  have w: "words ! (n - k) = schedule block (n - k)" if "0 < k" for k
    using assms that by (simp add: scheduled_def)
  have "unsigned (uint (words ! (n - 16)) +
      sint (rotateRight (words ! (n - 15)) 7 XOR rotateRight (words ! (n - 15)) 18 XOR drop_bit 3 (words ! (n - 15))) +
      uint (words ! (n - 7)) +
      sint (rotateRight (words ! (n - 2)) 17 XOR rotateRight (words ! (n - 2)) 19 XOR drop_bit 10 (words ! (n - 2)))) =
    schedule block n"
    using assms(2) by (subst schedule.simps)
      (simp add: w unsigned_simps rotateRight_is_rotr sigma0_def sigma1_def add_ac)
  then show ?thesis
    unfolding extend_word_def Let_def by (rule scheduled_update [OF assms(1,3)])
qed

lemma extend_scheduled:
  assumes "scheduled block 16 words" "k \<le> 48"
  shows "scheduled block (16 + k) (foldl extend_word words [16..<16 + k])"
  using assms(2)
proof (induction k)
  case (Suc k)
  have "[16..<16 + Suc k] = [16..<16 + k] @ [16 + k]" by (metis add_Suc_right le_add1 upt_Suc_append)
  moreover from Suc have "scheduled block (16 + k) (foldl extend_word words [16..<16 + k])" by simp
  from extend_word_scheduled [OF this] Suc.prems
  have "scheduled block (Suc (16 + k)) (extend_word (foldl extend_word words [16..<16 + k]) (16 + k))" by simp
  ultimately show ?case by (simp del: upt_Suc)
qed (use assms(1) in simp)

lemma foldl_cong_upt:
  "(\<And>s i. i \<in> set xs \<Longrightarrow> f s i = g s i) \<Longrightarrow> foldl f s xs = foldl g s xs"
  by (induction xs arbitrary: s) auto

lemma block_step_is_compress:
  assumes "offset + 64 \<le> length padded" "length words = 64"
  shows "\<exists>words'. block_step padded (hash, words) offset = (compress (take 64 (drop offset padded)) hash, words') \<and>
    length words' = 64"
proof -
  let ?block = "take 64 (drop offset padded)"
  define words2 where "words2 = foldl extend_word (foldl (load_word padded offset) words [0..<16]) [16..<64]"
  have s: "scheduled ?block 64 words2"
    using extend_scheduled [OF load_scheduled [OF assms order.refl], of 48] by (simp add: words2_def)
  have "foldl (round_step words2) r [0..<64] = foldl (compress_step ?block) r [0..<64]" for r
    using s by (intro foldl_cong_upt round_step_is_compress_step) (simp add: scheduled_def)
  moreover have "add_hash hash r = (case r of (a, b, c, d, e, f, g, h) \<Rightarrow> map2 (+) hash [a, b, c, d, e, f, g, h])" for r
    by (simp add: add_hash_def unsigned_simps split: prod.split)
  ultimately have "block_step padded (hash, words) offset = (compress ?block hash, words2)"
    unfolding block_step_def prod.case Let_def words2_def [symmetric] compress_def by simp
  with s show ?thesis unfolding scheduled_def by blast
qed

lemma length_compress: "length hash = 8 \<Longrightarrow> length (compress block hash) = 8"
  by (simp add: compress_def split: prod.split)

lemma blocks_fold:
  assumes "length padded = 64 * k" "j \<le> k" "length words = 64"
  shows "fst (foldl (block_step padded) (hash, words) (map ((*) 64) [j..<k])) = sha_blocks hash (drop (64 * j) padded)"
  using assms(2,3)
proof (induction "k - j" arbitrary: j hash words)
  case 0
  then show ?case using assms(1) by (subst sha_blocks.simps) simp
next
  case (Suc n)
  then have j: "j < k" by simp
  with assms(1) have "64 * j + 64 \<le> length padded" by simp
  from block_step_is_compress [OF this Suc.prems(2), of hash] obtain words' where
    step: "block_step padded (hash, words) (64 * j) = (compress (take 64 (drop (64 * j) padded)) hash, words')"
      "length words' = 64" by blast
  have "[j..<k] = j # [Suc j..<k]" using j by (rule upt_conv_Cons)
  moreover have "fst (foldl (block_step padded) (compress (take 64 (drop (64 * j) padded)) hash, words') (map ((*) 64) [Suc j..<k])) =
      sha_blocks (compress (take 64 (drop (64 * j) padded)) hash) (drop (64 * Suc j) padded)"
    using Suc.hyps(2) j step(2) by (intro Suc.hyps(1)) simp_all
  moreover have "\<not> length (drop (64 * j) padded) < 64" using j assms(1) by simp
  ultimately show ?case
    using step(1) sha_blocks.simps [of hash "drop (64 * j) padded"] by (simp add: drop_drop add.commute)
qed

lemma sha256_fallback:
  assumes "length message < 2 ^ 31 - 72"
  shows "sha256Fallback message = Some (sha256 message)"
proof -
  define k where "k = (length message + 72) div 64"
  have n: "paddedLength (length message) = int (64 * k)"
    using paddedLength_eq [OF assms] by (simp add: k_def)
  have len: "64 * k = length message + 9 + (119 - length message mod 64) mod 64"
    using zeros_length [of "length message"] by (simp add: k_def)
  then have pad: "padded_array message (64 * k) = sha_pad message"
    by (rule padded_array_is_sha_pad) simp
  have "length (sha_pad message) = 64 * k" by (simp add: length_sha_pad k_def)
  from blocks_fold [OF this, of 0 "replicate 64 0" initial_hash]
  have "fst (foldl (block_step (sha_pad message)) (initial_hash, replicate 64 0) (map ((*) 64) [0..<k])) =
      sha_blocks initial_hash (sha_pad message)" by simp
  moreover have "(64 * k + 63) div 64 = k" by simp
  moreover have "\<not> int (64 * k) < int (length message)" using len by linarith
  ultimately show ?thesis
    by (simp add: sha256Fallback_def Let_def n pad sha256_def del: of_nat_mult)
qed

text \<open>
  C8: The fallback used where the browser offers no digest computes SHA-256. For every message
  below two gigabytes the padded array with its patched length bytes, the reused word array and
  the loops over signed and unsigned numbers give the hexadecimal digest of the standard.
\<close>

theorem sha256Fallback_is_sha256:
  assumes "length message < 2 ^ 31 - 72"
  shows "sha256Fallback message = Some (sha256 message)"
  using assms by (rule sha256_fallback)

theorem sha256Fallback_is_sha256_witness:
  "sha256Fallback [0x61, 0x62, 0x63] = Some (sha256 [0x61, 0x62, 0x63])"
  by (rule sha256Fallback_is_sha256) simp

end
