(* ===== verification/Ota.thy ===== *)
theory Ota
  imports Sha256 Json
begin

text \<open>
  Update of the firmware over the air (\<open>web/src/lib/ota.ts\<close>): reading the device's status and
  error documents, the rules that enable the buttons, upload progress, and the upload itself as
  a machine over what the browser's request object reports. The texts of errors the code makes
  up are constructors; \<open>parse\<close> is \<open>JSON.parse\<close> with \<open>None\<close> for a text it rejects.
\<close>

subsection \<open>Status and errors\<close>

datatype OtaState = OtaIdle | OtaUploading | OtaVerified | OtaPendingTest | OtaRebooting | OtaFailed | OtaUnknown

record OtaFirmwareError =
  fwCode :: "string option"
  fwErrno :: "jsnum option"
  fwMessage :: "string option"

record OtaStatus =
  otaState :: OtaState
  otaExpectedSize :: "jsnum option"
  otaWrittenSize :: "jsnum option"
  otaMaxSize :: "jsnum option"
  otaCurrentImageConfirmed :: "bool option"
  otaLastError :: "OtaFirmwareError option"

definition OTA_STATES :: "(string \<times> OtaState) list" where
  "OTA_STATES = [(''idle'', OtaIdle), (''uploading'', OtaUploading), (''verified'', OtaVerified),
     (''pending_test'', OtaPendingTest), (''rebooting'', OtaRebooting), (''failed'', OtaFailed),
     (''unknown'', OtaUnknown)]"

definition normalizeOtaState :: "json option \<Rightarrow> OtaState" where
  "normalizeOtaState v =
     (case json_string v of None \<Rightarrow> OtaUnknown
      | Some s \<Rightarrow> (case map_of OTA_STATES s of Some st \<Rightarrow> st | None \<Rightarrow> OtaUnknown))"

definition toFiniteNumber :: "json option \<Rightarrow> jsnum option" where
  "toFiniteNumber v = (case json_num v of Some x \<Rightarrow> if isFinite x then Some x else None | None \<Rightarrow> None)"

definition toPositiveFiniteNumber :: "json option \<Rightarrow> jsnum option" where
  "toPositiveFiniteNumber v =
     (case toFiniteNumber v of Some x \<Rightarrow> if js_lt (Fin 0) x then Some x else None | None \<Rightarrow> None)"

definition toErrno :: "json option \<Rightarrow> jsnum option" where
  "toErrno v = (case json_num v of Some x \<Rightarrow> if isInteger x then Some x else None | None \<Rightarrow> None)"

text \<open>\<open>if (text)\<close>: an absent or empty text is falsy.\<close>

definition non_empty :: "string option \<Rightarrow> string option" where
  "non_empty s = (case s of Some (c # cs) \<Rightarrow> Some (c # cs) | _ \<Rightarrow> None)"

definition firmware_error :: "json option \<Rightarrow> OtaFirmwareError" where
  "firmware_error v =
     \<lparr>fwCode = non_empty (json_string (json_field ''code'' v)), fwErrno = toErrno (json_field ''errno'' v),
      fwMessage = non_empty (json_string (json_field ''message'' v))\<rparr>"

definition no_error :: OtaFirmwareError where
  "no_error = \<lparr>fwCode = None, fwErrno = None, fwMessage = None\<rparr>"

definition parseLastError :: "json option \<Rightarrow> OtaFirmwareError option" where
  "parseLastError v =
     (case v of
        Some (JStr s) \<Rightarrow> if js_trim s \<noteq> [] then Some (no_error\<lparr>fwMessage := Some s\<rparr>) else None
      | _ \<Rightarrow>
          if \<not> json_record v then None
          else if firmware_error v = no_error then None else Some (firmware_error v))"

definition parseStatusSource :: "json option \<Rightarrow> json option" where
  "parseStatusSource payload =
     (if \<not> json_record payload then None
      else if json_record (json_field ''status'' payload) then json_field ''status'' payload else payload)"

definition normalizeOtaStatus :: "json option \<Rightarrow> OtaStatus" where
  "normalizeOtaStatus payload =
     (let source = parseStatusSource payload
      in \<lparr>otaState = normalizeOtaState (json_field ''state'' source),
          otaExpectedSize = toFiniteNumber (json_field ''expected_size'' source),
          otaWrittenSize = toFiniteNumber (json_field ''written_size'' source),
          otaMaxSize = toPositiveFiniteNumber (json_field ''max_size'' source),
          otaCurrentImageConfirmed = json_bool (json_field ''current_image_confirmed'' source),
          otaLastError = parseLastError (json_field ''last_error'' source)\<rparr>)"

definition extractOtaError :: "json option \<Rightarrow> OtaFirmwareError option" where
  "extractOtaError payload =
     (if \<not> json_record payload then None
      else
        let nested = json_field ''error'' payload; code = json_string (json_field ''code'' payload);
            errno = toErrno (json_field ''errno'' payload)
        in if json_record nested \<and> firmware_error nested \<noteq> no_error then Some (firmware_error nested)
           else case json_string (json_field ''message'' payload) of
             Some m \<Rightarrow> Some \<lparr>fwCode = code, fwErrno = errno, fwMessage = Some m\<rparr>
           | None \<Rightarrow>
               if code \<noteq> None \<or> errno \<noteq> None then Some \<lparr>fwCode = code, fwErrno = errno, fwMessage = None\<rparr> else None)"

text \<open>The parts that \<open>formatOtaFirmwareError\<close> joins, the message after a colon.\<close>

datatype ota_part = PartCode string | PartErrno jsnum | PartMessage string

definition formatOtaFirmwareError :: "OtaFirmwareError option \<Rightarrow> ota_part list" where
  "formatOtaFirmwareError err =
     (case err of None \<Rightarrow> []
      | Some e \<Rightarrow>
          (case non_empty (fwCode e) of Some c \<Rightarrow> [PartCode c] | None \<Rightarrow> []) @
          (case fwErrno e of Some n \<Rightarrow> [PartErrno n] | None \<Rightarrow> []) @
          (case non_empty (fwMessage e) of Some m \<Rightarrow> [PartMessage m] | None \<Rightarrow> []))"

datatype ota_text =
    FirmwareText string
  | FirmwareParts "ota_part list"
  | HttpStatus int string
  | InvalidResponse int string
  | NetworkFailed
  | UploadNetworkFailed
  | UploadAborted

record OtaApiError =
  apiMessage :: ota_text
  apiCode :: "string option"
  apiStatus :: "int option"

definition invalidResponseError :: "int \<Rightarrow> string \<Rightarrow> OtaApiError" where
  "invalidResponseError status statusText =
     \<lparr>apiMessage = InvalidResponse status statusText, apiCode = Some ''invalid_response'', apiStatus = Some status\<rparr>"

definition createOtaApiError :: "int \<Rightarrow> string \<Rightarrow> json option \<Rightarrow> OtaApiError" where
  "createOtaApiError status statusText payload =
     (let extracted = extractOtaError payload
      in \<lparr>apiMessage = (case non_empty (Option.bind extracted fwMessage) of
             Some m \<Rightarrow> FirmwareText m
           | None \<Rightarrow> if formatOtaFirmwareError extracted \<noteq> [] then FirmwareParts (formatOtaFirmwareError extracted)
               else HttpStatus status statusText),
          apiCode = Option.bind extracted fwCode, apiStatus = Some status\<rparr>)"

definition parseJsonText :: "(string \<Rightarrow> json option) \<Rightarrow> string \<Rightarrow> json" where
  "parseJsonText parse s = (if js_trim s = [] then JNull else case parse s of Some v \<Rightarrow> v | None \<Rightarrow> JNull)"

definition parseOtaSuccessResponse ::
  "(string \<Rightarrow> json option) \<Rightarrow> string \<Rightarrow> int \<Rightarrow> string \<Rightarrow> OtaApiError + json" where
  "parseOtaSuccessResponse parse s status statusText =
     (let payload = parseJsonText parse s
      in if json_record (Some payload) then Inr payload else Inl (invalidResponseError status statusText))"

subsection \<open>What the user may do\<close>

definition canUploadOta :: "OtaStatus option \<Rightarrow> bool \<Rightarrow> bool" where
  "canUploadOta status busy =
     (case status of None \<Rightarrow> False
      | Some s \<Rightarrow> \<not> busy \<and> otaState s \<noteq> OtaUploading \<and> otaState s \<noteq> OtaPendingTest \<and>
          otaState s \<noteq> OtaRebooting \<and> otaState s \<noteq> OtaUnknown)"

definition canStartOtaTest :: "OtaStatus option \<Rightarrow> bool \<Rightarrow> bool" where
  "canStartOtaTest status busy = (case status of None \<Rightarrow> False | Some s \<Rightarrow> \<not> busy \<and> otaState s = OtaVerified)"

definition canConfirmOta :: "OtaStatus option \<Rightarrow> bool \<Rightarrow> bool" where
  "canConfirmOta status busy =
     (case status of None \<Rightarrow> False
      | Some s \<Rightarrow> \<not> busy \<and> otaState s = OtaPendingTest \<and> otaCurrentImageConfirmed s = Some False)"

definition isOtaRebooting :: "OtaStatus option \<Rightarrow> bool" where
  "isOtaRebooting status = (case status of None \<Rightarrow> False | Some s \<Rightarrow> otaState s = OtaRebooting)"

subsection \<open>Requests\<close>

text \<open>What \<open>fetch\<close> gives: \<open>None\<close> when it rejects; \<open>response.ok\<close> is a status from 200 to 299.\<close>

record http_response =
  httpStatus :: int
  httpStatusText :: string
  httpText :: string

definition http_ok :: "int \<Rightarrow> bool" where
  "http_ok status \<longleftrightarrow> 200 \<le> status \<and> status < 300"

definition otaRequest :: "(string \<Rightarrow> json option) \<Rightarrow> http_response option \<Rightarrow> OtaApiError + json" where
  "otaRequest parse response =
     (case response of
        None \<Rightarrow> Inl \<lparr>apiMessage = NetworkFailed, apiCode = None, apiStatus = None\<rparr>
      | Some r \<Rightarrow>
          let payload = parseJsonText parse (httpText r)
          in if \<not> http_ok (httpStatus r) \<or> json_get ''ok'' payload = Some (JBool False)
             then Inl (createOtaApiError (httpStatus r) (httpStatusText r) (Some payload))
             else parseOtaSuccessResponse parse (httpText r) (httpStatus r) (httpStatusText r))"

definition getOtaStatus :: "(string \<Rightarrow> json option) \<Rightarrow> http_response option \<Rightarrow> OtaApiError + OtaStatus" where
  "getOtaStatus parse response = bindR (otaRequest parse response) (\<lambda>payload. Inr (normalizeOtaStatus (Some payload)))"

subsection \<open>The upload\<close>

record OtaUploadProgress =
  progLoaded :: int
  progTotal :: int
  progPercent :: int

definition createOtaUploadProgress :: "int \<Rightarrow> int \<Rightarrow> OtaUploadProgress" where
  "createOtaUploadProgress loaded n =
     (let safeTotal = (if n > 0 then n else max loaded 1); safeLoaded = max 0 (min loaded safeTotal)
      in \<lparr>progLoaded = safeLoaded, progTotal = safeTotal,
          progPercent = \<lfloor>of_int safeLoaded / of_int safeTotal * 100 + (1 / 2 :: rat)\<rfloor>\<rparr>)"

definition buildOtaUploadHeaders :: "nat \<Rightarrow> string \<Rightarrow> (string \<times> string) list" where
  "buildOtaUploadHeaders fileSize sha =
     [(''Content-Type'', ''application/octet-stream''), (''X-Linkr-Ota-Size'', string_of_nat fileSize),
      (''X-Linkr-Ota-Sha256'', sha)]"

definition hex_byte :: "u8 \<Rightarrow> string" where
  "hex_byte b = [hex_digit (ucast (drop_bit 4 b)), hex_digit (ucast (b AND 15))]"

text \<open>\<open>digest\<close> is the browser's SHA-256, absent outside secure contexts.\<close>

definition sha256HexFromBytes :: "(bytes \<Rightarrow> bytes) option \<Rightarrow> bytes \<Rightarrow> string option" where
  "sha256HexFromBytes digest bytes =
     (case digest of Some d \<Rightarrow> Some (concat (map hex_byte (d bytes))) | None \<Rightarrow> sha256Fallback bytes)"

datatype xhr_event =
    XhrProgress bool int int
  | XhrError
  | XhrAbort
  | XhrLoad int string string
  | SignalAbort

record upload =
  upHeaders :: "(string \<times> string) list"
  upSent :: bool
  upAborts :: nat
  upListening :: bool
  upProgress :: "OtaUploadProgress list"
  upResult :: "(OtaApiError + OtaStatus) option"

text \<open>The \<open>Promise\<close> body up to its return; \<open>signal\<close> is \<open>Some aborted\<close> when there is one.\<close>

definition start_upload :: "nat \<Rightarrow> string \<Rightarrow> bool option \<Rightarrow> upload" where
  "start_upload fileSize sha signal =
     (let u = \<lparr>upHeaders = buildOtaUploadHeaders fileSize sha, upSent = False, upAborts = 0, upListening = False,
               upProgress = [], upResult = None\<rparr>
      in if signal = Some True then u\<lparr>upAborts := 1\<rparr> else u\<lparr>upListening := (signal \<noteq> None), upSent := True\<rparr>)"

definition settle_upload :: "OtaApiError + OtaStatus \<Rightarrow> upload \<Rightarrow> upload" where
  "settle_upload r u = (if upResult u = None then u\<lparr>upResult := Some r, upListening := False\<rparr> else u)"

definition load_result :: "(string \<Rightarrow> json option) \<Rightarrow> int \<Rightarrow> string \<Rightarrow> string \<Rightarrow> OtaApiError + OtaStatus" where
  "load_result parse status statusText s =
     (if status < 200 \<or> status \<ge> 300
      then Inl (createOtaApiError status statusText (Some (parseJsonText parse s)))
      else bindR (parseOtaSuccessResponse parse s status statusText) (\<lambda>p. Inr (normalizeOtaStatus (Some p))))"

fun upload_event :: "(string \<Rightarrow> json option) \<Rightarrow> nat \<Rightarrow> upload \<Rightarrow> xhr_event \<Rightarrow> upload" where
  "upload_event parse fileSize u (XhrProgress computable loaded n) =
     u\<lparr>upProgress := upProgress u @
        [createOtaUploadProgress loaded (if computable \<and> n > 0 then n else int fileSize)]\<rparr>"
| "upload_event parse fileSize u XhrError =
     settle_upload (Inl \<lparr>apiMessage = UploadNetworkFailed, apiCode = None, apiStatus = None\<rparr>) u"
| "upload_event parse fileSize u XhrAbort =
     settle_upload (Inl \<lparr>apiMessage = UploadAborted, apiCode = Some ''aborted'', apiStatus = None\<rparr>) u"
| "upload_event parse fileSize u (XhrLoad status statusText s) = settle_upload (load_result parse status statusText s) u"
| "upload_event parse fileSize u SignalAbort =
     (if upListening u then u\<lparr>upAborts := upAborts u + 1, upListening := False\<rparr> else u)"

definition uploadOtaImage ::
  "(string \<Rightarrow> json option) \<Rightarrow> nat \<Rightarrow> string \<Rightarrow> bool option \<Rightarrow> xhr_event list \<Rightarrow> upload" where
  "uploadOtaImage parse fileSize sha signal events =
     foldl (upload_event parse fileSize) (start_upload fileSize sha signal) events"

subsection \<open>Properties\<close>

lemma createOtaUploadProgress_range:
  "0 \<le> progLoaded (createOtaUploadProgress loaded n)"
  "progLoaded (createOtaUploadProgress loaded n) \<le> progTotal (createOtaUploadProgress loaded n)"
  "0 < progTotal (createOtaUploadProgress loaded n)"
  "0 \<le> progPercent (createOtaUploadProgress loaded n)"
  "progPercent (createOtaUploadProgress loaded n) \<le> 100"
proof -
  define t where "t = (if n > 0 then n else max loaded 1)"
  define l where "l = max 0 (min loaded t)"
  have t: "0 < t" by (simp add: t_def max_def)
  have l: "0 \<le> l" "l \<le> t" using t by (simp_all add: l_def)
  have p: "createOtaUploadProgress loaded n = \<lparr>progLoaded = l, progTotal = t,
      progPercent = \<lfloor>of_int l / of_int t * 100 + (1 / 2 :: rat)\<rfloor>\<rparr>"
    by (simp add: createOtaUploadProgress_def Let_def l_def t_def)
  have q: "0 \<le> (of_int l / of_int t :: rat)" "(of_int l / of_int t :: rat) \<le> 1"
    using l t by (simp_all add: field_simps)
  then have "\<lfloor>of_int l / of_int t * 100 + (1 / 2 :: rat)\<rfloor> < 101" unfolding floor_less_iff by simp
  moreover have "0 \<le> \<lfloor>of_int l / of_int t * 100 + (1 / 2 :: rat)\<rfloor>" using q by (simp add: zero_le_floor)
  ultimately show
    "0 \<le> progLoaded (createOtaUploadProgress loaded n)"
    "progLoaded (createOtaUploadProgress loaded n) \<le> progTotal (createOtaUploadProgress loaded n)"
    "0 < progTotal (createOtaUploadProgress loaded n)"
    "0 \<le> progPercent (createOtaUploadProgress loaded n)"
    "progPercent (createOtaUploadProgress loaded n) \<le> 100"
    using l t by (simp_all add: p)
qed

text \<open>What an event settles a pending upload to.\<close>

fun settles :: "(string \<Rightarrow> json option) \<Rightarrow> xhr_event \<Rightarrow> (OtaApiError + OtaStatus) option" where
  "settles parse XhrError = Some (Inl \<lparr>apiMessage = UploadNetworkFailed, apiCode = None, apiStatus = None\<rparr>)"
| "settles parse XhrAbort = Some (Inl \<lparr>apiMessage = UploadAborted, apiCode = Some ''aborted'', apiStatus = None\<rparr>)"
| "settles parse (XhrLoad status statusText s) = Some (load_result parse status statusText s)"
| "settles parse _ = None"

lemma upload_event_result:
  "upResult (upload_event parse fileSize u e) = (case upResult u of Some r \<Rightarrow> Some r | None \<Rightarrow> settles parse e)"
  by (cases e) (auto simp: settle_upload_def split: option.split)

lemma upload_events_result:
  "upResult (foldl (upload_event parse fileSize) u es) =
     (case upResult u of Some r \<Rightarrow> Some r
      | None \<Rightarrow> (case List.map_filter (settles parse) es of [] \<Rightarrow> None | r # _ \<Rightarrow> Some r))"
proof (induction es arbitrary: u)
  case (Cons e es)
  show ?case
    unfolding foldl.simps Cons.IH upload_event_result
    by (cases "upResult u"; cases "settles parse e") (simp_all add: List.map_filter_def)
qed (simp add: List.map_filter_def split: option.split)

text \<open>The first settling report, with what came before and after it.\<close>

lemma first_settling_iff:
  "(case List.map_filter f es of [] \<Rightarrow> None | r # _ \<Rightarrow> Some r) = Some r \<longleftrightarrow>
     (\<exists>before e after. es = before @ e # after \<and> List.map_filter f before = [] \<and> f e = Some r)"
proof (induction es)
  case (Cons e es)
  show ?case
  proof (cases "f e")
    case None
    then have "(\<exists>before x after. e # es = before @ x # after \<and> List.map_filter f before = [] \<and> f x = Some r) \<longleftrightarrow>
        (\<exists>before x after. es = before @ x # after \<and> List.map_filter f before = [] \<and> f x = Some r)"
    proof (safe, goal_cases)
      case (1 before x after)
      then show ?case by (cases before) (auto simp: List.map_filter_def)
    next
      case (2 before x after)
      then show ?case by (intro exI [of _ "e # before"]) (auto simp: List.map_filter_def)
    qed
    with None Cons.IH show ?thesis by (simp add: List.map_filter_def)
  next
    case (Some q)
    have "q = r" if "e # es = before @ x # after" "List.map_filter f before = []" "f x = Some r" for before x after
      using that Some by (cases before) (auto simp: List.map_filter_def)
    moreover have "\<exists>before x after. e # es = before @ x # after \<and> List.map_filter f before = [] \<and> f x = Some q"
      using Some by (intro exI [of _ "[]"] exI [of _ e] exI [of _ es]) (simp add: List.map_filter_def)
    ultimately have "(\<exists>before x after. e # es = before @ x # after \<and> List.map_filter f before = [] \<and> f x = Some r) \<longleftrightarrow>
        q = r" by metis
    moreover have "List.map_filter f (e # es) = q # List.map_filter f es" using Some by (simp add: List.map_filter_def)
    ultimately show ?thesis by simp
  qed
qed (simp add: List.map_filter_def)

lemma load_result_Inr:
  "load_result parse status statusText s = Inr st \<longleftrightarrow>
     http_ok status \<and> (\<exists>fs. parseJsonText parse s = JObj fs \<and> st = normalizeOtaStatus (Some (JObj fs)))"
  by (auto simp: load_result_def http_ok_def parseOtaSuccessResponse_def Let_def json_record_iff)

text \<open>
  C35: An upload is settled once, by the first of the request's failure, its abortion and its
  completion; everything reported later is ignored. It succeeds exactly when that first report
  is a completion with a status from 200 to 299 whose text is a JSON object, and its value is
  then that document's status. Until such a report comes nothing settles it, and every progress
  shown lies between 0 and 100 percent.
\<close>

theorem upload_settled_by_first_report:
  "upResult (uploadOtaImage parse fileSize sha signal events) =
     (case List.map_filter (settles parse) events of [] \<Rightarrow> None | r # _ \<Rightarrow> Some r) \<and>
   (upResult (uploadOtaImage parse fileSize sha signal events) = Some (Inr st) \<longleftrightarrow>
     (\<exists>before status statusText text after fs.
        events = before @ XhrLoad status statusText text # after \<and> List.map_filter (settles parse) before = [] \<and>
        http_ok status \<and> parseJsonText parse text = JObj fs \<and> st = normalizeOtaStatus (Some (JObj fs)))) \<and>
   list_all (\<lambda>p. 0 \<le> progPercent p \<and> progPercent p \<le> 100 \<and> progLoaded p \<le> progTotal p)
     (upProgress (uploadOtaImage parse fileSize sha signal events))"
proof (intro conjI)
  have start: "upResult (start_upload fileSize sha signal) = None" "upProgress (start_upload fileSize sha signal) = []"
    by (simp_all add: start_upload_def Let_def)
  show result: "upResult (uploadOtaImage parse fileSize sha signal events) =
      (case List.map_filter (settles parse) events of [] \<Rightarrow> None | r # _ \<Rightarrow> Some r)"
    by (simp add: uploadOtaImage_def upload_events_result start)
  have load: "settles parse e = Some (Inr st) \<longleftrightarrow>
      (\<exists>status statusText text fs. e = XhrLoad status statusText text \<and> http_ok status \<and>
         parseJsonText parse text = JObj fs \<and> st = normalizeOtaStatus (Some (JObj fs)))" for e
    by (cases e) (auto simp: load_result_Inr)
  show "upResult (uploadOtaImage parse fileSize sha signal events) = Some (Inr st) \<longleftrightarrow>
     (\<exists>before status statusText text after fs.
        events = before @ XhrLoad status statusText text # after \<and> List.map_filter (settles parse) before = [] \<and>
        http_ok status \<and> parseJsonText parse text = JObj fs \<and> st = normalizeOtaStatus (Some (JObj fs)))"
    unfolding result first_settling_iff load by blast
  have "list_all (\<lambda>p. 0 \<le> progPercent p \<and> progPercent p \<le> 100 \<and> progLoaded p \<le> progTotal p) (upProgress u) \<Longrightarrow>
      list_all (\<lambda>p. 0 \<le> progPercent p \<and> progPercent p \<le> 100 \<and> progLoaded p \<le> progTotal p)
        (upProgress (foldl (upload_event parse fileSize) u es))" for u es
  proof (induction es arbitrary: u)
    case (Cons e es)
    have "list_all (\<lambda>p. 0 \<le> progPercent p \<and> progPercent p \<le> 100 \<and> progLoaded p \<le> progTotal p)
        (upProgress (upload_event parse fileSize u e))"
      using Cons.prems by (cases e) (simp_all add: settle_upload_def createOtaUploadProgress_range)
    from Cons.IH [OF this] show ?case by simp
  qed simp
  from this [of "start_upload fileSize sha signal" events] show
    "list_all (\<lambda>p. 0 \<le> progPercent p \<and> progPercent p \<le> 100 \<and> progLoaded p \<le> progTotal p)
      (upProgress (uploadOtaImage parse fileSize sha signal events))"
    by (simp add: uploadOtaImage_def start)
qed

subsection \<open>The digest in the headers\<close>

text \<open>The digest of the standard as 32 bytes, which the browser's implementation returns.\<close>

definition sha256_bytes :: "bytes \<Rightarrow> bytes" where
  "sha256_bytes m = concat (map (\<lambda>v. [ucast (drop_bit 24 v), ucast (drop_bit 16 v), ucast (drop_bit 8 v), ucast v])
     (sha_blocks initial_hash (sha_pad m)))"

lemma hex_word_bytes:
  "hex_word v = concat (map hex_byte [ucast (drop_bit 24 v), ucast (drop_bit 16 v), ucast (drop_bit 8 v), ucast v])"
proof -
  have m: "(15 :: 'a::len word) = mask 4" by (simp add: mask_eq_exp_minus_1)
  have nib: "ucast (drop_bit 4 (ucast w :: u8)) = drop_bit 4 w AND 15"
      "ucast ((ucast w :: u8) AND 15) = (w AND 15 :: u32)" for w :: u32
    unfolding m by (rule bit_word_eqI; auto simp: bit_simps)+
  have "[0..<8] = [0, 1, 2, 3, 4, 5, 6, 7 :: nat]" by (simp add: upt_rec)
  then show ?thesis by (simp add: hex_word_def hex_byte_def nib drop_bit_drop_bit)
qed

lemma concat_hex: "concat (map hex_byte (concat (map f xs))) = concat (map (\<lambda>x. concat (map hex_byte (f x))) xs)"
  by (induction xs) simp_all

text \<open>Both ways to the digest give the same text.\<close>

lemma sha256HexFromBytes_agrees:
  assumes "length message < 2 ^ 31 - 72"
  shows "sha256HexFromBytes (Some sha256_bytes) message = sha256HexFromBytes None message"
  using assms
  by (simp add: sha256HexFromBytes_def sha256_fallback sha256_def sha256_bytes_def concat_hex hex_word_bytes [abs_def])

end
