(* ===== verification/Json_Text.thy ===== *)
theory Json_Text
  imports Json
begin

text \<open>
  \<open>JSON.parse\<close> and \<open>JSON.stringify\<close> on values without functions: a lexer of the JSON grammar, a
  parser that reads the tokens one by one with a stack of open arrays and objects, and the
  printer. Strings are Latin-1, so a text with an escape \<open>\u0100\<close> or above is outside the model and
  does not parse here. Numbers are
  exact, not rounded to a double; the digits of one that is not an integer are an argument of the printer (\<open>Number.prototype.toString\<close>). What is printed is parsed back.
\<close>

subsection \<open>Tokens\<close>

datatype json_token =
    OpenObject | CloseObject | OpenArray | CloseArray | Colon | Comma
  | StringToken string
  | NumberToken rat
  | TrueToken | FalseToken | NullToken

definition json_blank :: "char \<Rightarrow> bool" where
  "json_blank c \<longleftrightarrow> code c \<in> {9, 10, 13, 32}"

definition hex_value :: "char \<Rightarrow> nat option" where
  "hex_value c =
     (if is_digit c then Some (code c - 48)
      else if 97 \<le> code c \<and> code c \<le> 102 then Some (code c - 87)
      else if 65 \<le> code c \<and> code c \<le> 70 then Some (code c - 55)
      else None)"

text \<open>The character of \<open>\uabcd\<close>, when it is a Latin-1 character.\<close>

definition unicode_escape :: "char \<Rightarrow> char \<Rightarrow> char \<Rightarrow> char \<Rightarrow> char option" where
  "unicode_escape a b c d =
     (case (hex_value a, hex_value b, hex_value c, hex_value d) of
        (Some 0, Some 0, Some h, Some l) \<Rightarrow> Some (char_of (16 * h + l))
      | _ \<Rightarrow> None)"

definition QUOTE_MARK :: char where "QUOTE_MARK = CHR 0x22"
definition BACK_SLASH :: char where "BACK_SLASH = CHR 0x5C"

definition simple_escape :: "char \<Rightarrow> char option" where
  "simple_escape e = map_of [(QUOTE_MARK, QUOTE_MARK), (BACK_SLASH, BACK_SLASH), (CHR ''/'', CHR ''/''), (CHR ''b'', CHR 0x08),
     (CHR ''f'', CHR 0x0C), (CHR ''n'', CHR 0x0A), (CHR ''r'', CHR 0x0D), (CHR ''t'', CHR 0x09)] e"

definition then_char :: "char option \<Rightarrow> (string \<times> string) option \<Rightarrow> (string \<times> string) option" where
  "then_char c r = (case (c, r) of (Some x, Some (s, rest)) \<Rightarrow> Some (x # s, rest) | _ \<Rightarrow> None)"

text \<open>The rest of a string literal after its opening quote: its value and the text behind it.\<close>

fun lex_string :: "string \<Rightarrow> (string \<times> string) option" where
  "lex_string [] = None"
| "lex_string (c # cs) =
     (if c = QUOTE_MARK then Some ([], cs)
      else if c = BACK_SLASH then
        (case cs of
           [] \<Rightarrow> None
         | e # r \<Rightarrow>
             if e = CHR ''u'' then
               (case r of
                  h1 # h2 # h3 # h4 # r' \<Rightarrow> then_char (unicode_escape h1 h2 h3 h4) (lex_string r')
                | _ \<Rightarrow> None)
             else then_char (simple_escape e) (lex_string r))
      else if code c < 32 then None
      else then_char (Some c) (lex_string cs))"

lemma then_char_Some: "then_char c r = Some (s, rest) \<longleftrightarrow> (\<exists>x t. c = Some x \<and> r = Some (t, rest) \<and> s = x # t)"
  by (auto simp: then_char_def split: option.splits)

lemma lex_string_shorter: "lex_string cs = Some (s, rest) \<Longrightarrow> length rest < length cs"
proof (induction "length cs" arbitrary: cs s rule: less_induct)
  case less
  show ?case
  proof (cases cs)
    case (Cons c r)
    with less.prems have "rest = r \<or> (\<exists>pre r' t. r = pre @ r' \<and> lex_string r' = Some (t, rest))"
      by (auto simp: then_char_Some split: if_splits list.splits
          intro: exI [of _ "[]"] exI [of _ "[_]"] exI [of _ "[_, _, _, _, _]"])
    then show ?thesis
    proof (elim disjE exE conjE)
      fix pre r' t
      assume r: "r = pre @ r'" and lex: "lex_string r' = Some (t, rest)"
      with Cons less.hyps [of r' t] show ?thesis by simp
    qed (simp add: Cons)
  qed (use less.prems in simp)
qed

text \<open>\<open>-?(0|[1-9]\d*)(\.\d+)?([eE][+-]?\d+)?\<close>; the parts that are not there count as nothing.\<close>

definition lex_fraction :: "string \<Rightarrow> rat \<times> string" where
  "lex_fraction cs =
     (case cs of
        c # r \<Rightarrow>
          let ds = takeWhile is_digit r
          in if c = CHR ''.'' \<and> ds \<noteq> [] then (of_nat (digits_value ds) / 10 ^ length ds, dropWhile is_digit r) else (0, cs)
      | [] \<Rightarrow> (0, cs))"

definition lex_exponent :: "string \<Rightarrow> rat \<times> string" where
  "lex_exponent cs =
     (case cs of
        c # r \<Rightarrow>
          let sgn = (case r of s # _ \<Rightarrow> s \<in> {CHR ''+'', CHR ''-''} | [] \<Rightarrow> False);
              digits = (if sgn then drop 1 r else r);
              ds = takeWhile is_digit digits; p = 10 ^ digits_value ds
          in if c \<in> {CHR ''e'', CHR ''E''} \<and> ds \<noteq> []
             then (if sgn \<and> hd r = CHR ''-'' then 1 / p else p, dropWhile is_digit digits) else (1, cs)
      | [] \<Rightarrow> (1, cs))"

definition integer_digits :: "string \<Rightarrow> string" where
  "integer_digits cs = (case cs of [] \<Rightarrow> [] | c # _ \<Rightarrow> if c = CHR ''0'' then [c] else takeWhile is_digit cs)"

definition lex_unsigned :: "string \<Rightarrow> (rat \<times> string) option" where
  "lex_unsigned cs =
     (let ds = integer_digits cs;
          (fraction, cs') = lex_fraction (drop (length ds) cs);
          (factor, rest) = lex_exponent cs'
      in if ds = [] then None else Some ((of_nat (digits_value ds) + fraction) * factor, rest))"

definition lex_number :: "string \<Rightarrow> (rat \<times> string) option" where
  "lex_number cs =
     (case cs of
        c # r \<Rightarrow> if c = CHR ''-'' then map_option (apfst uminus) (lex_unsigned r) else lex_unsigned cs
      | [] \<Rightarrow> None)"

definition has_prefix :: "string \<Rightarrow> string \<Rightarrow> bool" where
  "has_prefix p s \<longleftrightarrow> take (length p) s = p"

text \<open>One token at the start of a text that does not start with a blank.\<close>

definition lex_token :: "string \<Rightarrow> (json_token \<times> string) option" where
  "lex_token cs =
     (case cs of [] \<Rightarrow> None
      | c # r \<Rightarrow>
          (case map_of [(CHR ''{'', OpenObject), (CHR ''}'', CloseObject), (CHR ''['', OpenArray), (CHR '']'', CloseArray),
               (CHR '':'', Colon), (CHR '','', Comma)] c of
             Some t \<Rightarrow> Some (t, r)
           | None \<Rightarrow>
               if c = QUOTE_MARK then map_option (apfst StringToken) (lex_string r)
               else if has_prefix ''true'' cs then Some (TrueToken, drop 4 cs)
               else if has_prefix ''false'' cs then Some (FalseToken, drop 5 cs)
               else if has_prefix ''null'' cs then Some (NullToken, drop 4 cs)
               else map_option (apfst NumberToken) (lex_number cs)))"

lemma lex_fraction_length: "length (snd (lex_fraction cs)) \<le> length cs"
  by (cases cs) (auto simp: lex_fraction_def Let_def intro: le_SucI length_dropWhile_le)

lemma lex_exponent_length: "length (snd (lex_exponent cs)) \<le> length cs"
proof (cases cs)
  case (Cons c r)
  have "length (dropWhile is_digit (drop 1 r)) \<le> length r"
    using length_dropWhile_le [of is_digit "drop 1 r"] by simp
  then show ?thesis
    using length_dropWhile_le [of is_digit r] by (simp add: Cons lex_exponent_def Let_def le_SucI)
qed (simp add: lex_exponent_def)

lemma lex_unsigned_shorter:
  assumes "lex_unsigned cs = Some (x, rest)"
  shows "length rest < length cs"
proof -
  define ds where "ds = integer_digits cs"
  obtain f cs' where f: "lex_fraction (drop (length ds) cs) = (f, cs')" by fastforce
  obtain g r where g: "lex_exponent cs' = (g, r)" by fastforce
  from assms f g have "ds \<noteq> []" "rest = r" by (auto simp: lex_unsigned_def ds_def [symmetric] split: if_splits)
  moreover have "length r \<le> length (drop (length ds) cs)"
    using lex_fraction_length [of "drop (length ds) cs"] lex_exponent_length [of cs'] f g by simp
  moreover have "cs \<noteq> []" using \<open>ds \<noteq> []\<close> by (auto simp: ds_def integer_digits_def)
  ultimately show ?thesis by (cases ds; cases cs) simp_all
qed

lemma lex_number_shorter: "lex_number cs = Some (x, rest) \<Longrightarrow> length rest < length cs"
  by (cases cs) (auto simp: lex_number_def split: if_splits dest: lex_unsigned_shorter)

lemma lex_token_shorter:
  assumes "lex_token cs = Some (t, rest)"
  shows "length rest < length cs"
  using assms
  by (cases cs) (auto simp: lex_token_def split: option.splits if_splits
      dest: lex_string_shorter lex_number_shorter)

function json_lex :: "string \<Rightarrow> json_token list option" where
  "json_lex cs =
     (case dropWhile json_blank cs of
        [] \<Rightarrow> Some []
      | c # r \<Rightarrow> (case lex_token (c # r) of
          None \<Rightarrow> None
        | Some (t, rest) \<Rightarrow> map_option (Cons t) (json_lex rest)))"
  by pat_completeness auto

termination
proof (relation "measure length", goal_cases)
  case (2 cs c r a t rest)
  from lex_token_shorter [of "c # r" t rest] 2 have "length rest < length (dropWhile json_blank cs)" by simp
  with length_dropWhile_le [of json_blank cs] show ?case by simp
qed simp

declare json_lex.simps [simp del]

subsection \<open>The parser\<close>

datatype json_frame =
    ArrayFrame "json list"
  | ObjectFrame "(string \<times> json) list" "string option"

datatype json_mode =
    WantValue | WantValueOrEnd | WantKey | WantKeyOrEnd | WantColon | WantCommaOrEnd | Parsed json

text \<open>
  Properties of an object: one that is there is overwritten in its place; a new one goes to the
  end, but keys that are array indices come first, in numeric order.
\<close>

definition index_key :: "string \<Rightarrow> nat option" where
  "index_key k =
     (if k \<noteq> [] \<and> list_all is_digit k \<and> string_of_nat (digits_value k) = k \<and> digits_value k < 2 ^ 32 - 1
      then Some (digits_value k) else None)"

definition key_before :: "string \<Rightarrow> string \<Rightarrow> bool" where
  "key_before a b = (case (index_key a, index_key b) of
     (Some m, Some n) \<Rightarrow> m < n | (Some _, None) \<Rightarrow> True | _ \<Rightarrow> False)"

definition set_property :: "string \<Rightarrow> json \<Rightarrow> (string \<times> json) list \<Rightarrow> (string \<times> json) list" where
  "set_property k v ps =
     (if k \<in> fst ` set ps then map (\<lambda>(j, w). if j = k then (j, v) else (j, w)) ps
      else takeWhile (\<lambda>(j, _). \<not> key_before k j) ps @ (k, v) # dropWhile (\<lambda>(j, _). \<not> key_before k j) ps)"

text \<open>A value is complete: it goes into the innermost open container.\<close>

definition complete_value :: "json_frame list \<Rightarrow> json \<Rightarrow> json_frame list \<times> json_mode" where
  "complete_value stack v =
     (case stack of
        [] \<Rightarrow> ([], Parsed v)
      | ArrayFrame vs # st \<Rightarrow> (ArrayFrame (vs @ [v]) # st, WantCommaOrEnd)
      | ObjectFrame ps k # st \<Rightarrow>
          (ObjectFrame (set_property (case k of Some x \<Rightarrow> x | None \<Rightarrow> []) v ps) None # st, WantCommaOrEnd))"

definition start_value :: "json_frame list \<Rightarrow> json_token \<Rightarrow> (json_frame list \<times> json_mode) option" where
  "start_value stack t =
     (case t of
        OpenObject \<Rightarrow> Some (ObjectFrame [] None # stack, WantKeyOrEnd)
      | OpenArray \<Rightarrow> Some (ArrayFrame [] # stack, WantValueOrEnd)
      | StringToken s \<Rightarrow> Some (complete_value stack (JStr s))
      | NumberToken x \<Rightarrow> Some (complete_value stack (JNum (Fin x)))
      | TrueToken \<Rightarrow> Some (complete_value stack (JBool True))
      | FalseToken \<Rightarrow> Some (complete_value stack (JBool False))
      | NullToken \<Rightarrow> Some (complete_value stack JNull)
      | _ \<Rightarrow> None)"

definition want_key :: "json_frame list \<Rightarrow> json_token \<Rightarrow> (json_frame list \<times> json_mode) option" where
  "want_key stack t =
     (case (t, stack) of
        (StringToken k, ObjectFrame ps _ # st) \<Rightarrow> Some (ObjectFrame ps (Some k) # st, WantColon)
      | _ \<Rightarrow> None)"

definition close_container :: "json_frame list \<Rightarrow> json_token \<Rightarrow> (json_frame list \<times> json_mode) option" where
  "close_container stack t =
     (case (t, stack) of
        (CloseArray, ArrayFrame vs # st) \<Rightarrow> Some (complete_value st (JArr vs))
      | (CloseObject, ObjectFrame ps _ # st) \<Rightarrow> Some (complete_value st (JObj ps))
      | _ \<Rightarrow> None)"

definition parse_token ::
  "(json_frame list \<times> json_mode) option \<Rightarrow> json_token \<Rightarrow> (json_frame list \<times> json_mode) option" where
  "parse_token state t =
     (case state of None \<Rightarrow> None
      | Some (stack, mode) \<Rightarrow> (case mode of
          WantValue \<Rightarrow> start_value stack t
        | WantValueOrEnd \<Rightarrow> if t = CloseArray then close_container stack t else start_value stack t
        | WantKey \<Rightarrow> want_key stack t
        | WantKeyOrEnd \<Rightarrow> if t = CloseObject then close_container stack t else want_key stack t
        | WantColon \<Rightarrow> if t = Colon then Some (stack, WantValue) else None
        | WantCommaOrEnd \<Rightarrow>
            if t = Comma then
              (case stack of ArrayFrame _ # _ \<Rightarrow> Some (stack, WantValue)
               | ObjectFrame _ _ # _ \<Rightarrow> Some (stack, WantKey) | [] \<Rightarrow> None)
            else close_container stack t
        | Parsed _ \<Rightarrow> None))"

definition json_parse :: "string \<Rightarrow> json option" where
  "json_parse text =
     (case json_lex text of None \<Rightarrow> None
      | Some tokens \<Rightarrow> (case foldl parse_token (Some ([], WantValue)) tokens of
          Some ([], Parsed v) \<Rightarrow> Some v | _ \<Rightarrow> None))"

subsection \<open>The printer\<close>

definition lower_hex :: "nat \<Rightarrow> char" where
  "lower_hex n = char_of (if n < 10 then 48 + n else 87 + n)"

definition escape_char :: "char \<Rightarrow> string" where
  "escape_char c =
     (case map_of [(QUOTE_MARK, QUOTE_MARK), (BACK_SLASH, BACK_SLASH), (CHR 0x08, CHR ''b''), (CHR 0x0C, CHR ''f''),
          (CHR 0x0A, CHR ''n''), (CHR 0x0D, CHR ''r''), (CHR 0x09, CHR ''t'')] c of
        Some e \<Rightarrow> [BACK_SLASH, e]
      | None \<Rightarrow> if code c < 32
          then [BACK_SLASH] @ ''u00'' @ [lower_hex (code c div 16), lower_hex (code c mod 16)] else [c])"

definition string_text :: "string \<Rightarrow> string" where
  "string_text s = QUOTE_MARK # concat (map escape_char s) @ [QUOTE_MARK]"

text \<open>An integer below \<open>10 ^ 21\<close> in magnitude is printed in decimal; a number that is not finite as \<open>null\<close>.\<close>

definition number_text :: "(rat \<Rightarrow> string) \<Rightarrow> jsnum \<Rightarrow> string" where
  "number_text digits_of x =
     (case x of
        Fin r \<Rightarrow> if of_int \<lfloor>r\<rfloor> = r \<and> \<bar>r\<bar> < 10 ^ 21 then string_of_int \<lfloor>r\<rfloor> else digits_of r
      | _ \<Rightarrow> ''null'')"

fun join_with :: "'a list \<Rightarrow> 'a list list \<Rightarrow> 'a list" where
  "join_with sep [] = []"
| "join_with sep [s] = s"
| "join_with sep (s # ss) = s @ sep @ join_with sep ss"

fun json_text :: "(rat \<Rightarrow> string) \<Rightarrow> json \<Rightarrow> string" where
  "json_text digits_of JNull = ''null''"
| "json_text digits_of (JBool b) = (if b then ''true'' else ''false'')"
| "json_text digits_of (JNum x) = number_text digits_of x"
| "json_text digits_of (JStr s) = string_text s"
| "json_text digits_of (JArr vs) = ''['' @ join_with '','' (map (json_text digits_of) vs) @ '']''"
| "json_text digits_of (JObj ps) =
     ''{'' @ join_with '','' (map (\<lambda>(k, v). string_text k @ '':'' @ json_text digits_of v) ps) @ ''}''"


subsection \<open>What is printed is parsed back\<close>

text \<open>Values that are printed exactly: integers, and objects with distinct keys in property order.\<close>

fun json_exact :: "json \<Rightarrow> bool" where
  "json_exact (JNum x) = (case x of Fin r \<Rightarrow> of_int \<lfloor>r\<rfloor> = r \<and> \<bar>r\<bar> < 10 ^ 21 | _ \<Rightarrow> False)"
| "json_exact (JArr vs) = list_all json_exact vs"
| "json_exact (JObj ps) = (distinct (map fst ps) \<and> sorted_wrt (\<lambda>a b. \<not> key_before b a) (map fst ps) \<and>
     list_all (\<lambda>(_, v). json_exact v) ps)"
| "json_exact _ = True"

fun json_tokens :: "json \<Rightarrow> json_token list" where
  "json_tokens JNull = [NullToken]"
| "json_tokens (JBool b) = [if b then TrueToken else FalseToken]"
| "json_tokens (JNum x) = [case x of Fin r \<Rightarrow> NumberToken r | _ \<Rightarrow> NullToken]"
| "json_tokens (JStr s) = [StringToken s]"
| "json_tokens (JArr vs) = OpenArray # join_with [Comma] (map json_tokens vs) @ [CloseArray]"
| "json_tokens (JObj ps) =
     OpenObject # join_with [Comma] (map (\<lambda>(k, v). StringToken k # Colon # json_tokens v) ps) @ [CloseObject]"

lemma hex_value_lower: "n < 16 \<Longrightarrow> hex_value (lower_hex n) = Some n"
  by (simp add: hex_value_def lower_hex_def is_digit_def)

lemma unicode_escape_code:
  "unicode_escape (CHR ''0'') (CHR ''0'') (lower_hex (code c div 16)) (lower_hex (code c mod 16)) = Some c"
proof -
  have "code c < 256" by (simp add: code_def)
  then have "hex_value (lower_hex (code c div 16)) = Some (code c div 16)"
    "hex_value (lower_hex (code c mod 16)) = Some (code c mod 16)" by (simp_all add: hex_value_lower)
  moreover have "hex_value (CHR ''0'') = Some 0" by (simp add: hex_value_def is_digit_def code_def)
  ultimately show ?thesis by (simp add: unicode_escape_def)
qed

lemma mark_neq [simp]: "BACK_SLASH \<noteq> QUOTE_MARK" "QUOTE_MARK \<noteq> BACK_SLASH"
  by (simp_all add: BACK_SLASH_def QUOTE_MARK_def)

lemma lex_escape_char: "lex_string (escape_char c @ r) = then_char (Some c) (lex_string r)"
proof (cases "map_of [(QUOTE_MARK, QUOTE_MARK), (BACK_SLASH, BACK_SLASH), (CHR 0x08, CHR ''b''), (CHR 0x0C, CHR ''f''),
    (CHR 0x0A, CHR ''n''), (CHR 0x0D, CHR ''r''), (CHR 0x09, CHR ''t'')] c")
  case (Some e)
  then have "simple_escape e = Some c \<and> e \<noteq> CHR ''u''"
    by (auto simp: simple_escape_def QUOTE_MARK_def BACK_SLASH_def split: if_splits)
  moreover from Some have "escape_char c = [BACK_SLASH, e]" by (simp add: escape_char_def)
  ultimately show ?thesis by simp
next
  case None
  then have c: "c \<noteq> QUOTE_MARK" "c \<noteq> BACK_SLASH" by (auto split: if_splits)
  show ?thesis
  proof (cases "code c < 32")
    case True
    with None have "escape_char c = BACK_SLASH # ''u00'' @ [lower_hex (code c div 16), lower_hex (code c mod 16)]"
      by (simp add: escape_char_def)
    then show ?thesis by (simp add: unicode_escape_code)
  next
    case False
    with None have "escape_char c = [c]" by (simp add: escape_char_def)
    with c False show ?thesis by simp
  qed
qed

lemma lex_string_text: "lex_string (concat (map escape_char s) @ QUOTE_MARK # r) = Some (s, r)"
  by (induction s) (simp_all add: lex_escape_char then_char_def)

text \<open>A number ends where no digit, point or exponent follows.\<close>

definition number_ends :: "string \<Rightarrow> bool" where
  "number_ends r = (case r of [] \<Rightarrow> True | c # _ \<Rightarrow> \<not> is_digit c \<and> c \<notin> {CHR ''.'', CHR ''e'', CHR ''E''})"

lemma number_ends_parts:
  assumes "number_ends r"
  shows "lex_fraction r = (0, r)" "lex_exponent r = (1, r)" "takeWhile is_digit r = []" "dropWhile is_digit r = r"
  using assms by (cases r; simp add: number_ends_def lex_fraction_def lex_exponent_def Let_def)+

lemma string_of_nat_first:
  "\<exists>d ds. string_of_nat n = d # ds \<and> is_digit d \<and> list_all is_digit ds \<and> (d = CHR ''0'' \<longrightarrow> ds = [])"
proof (induction n rule: string_of_nat.induct)
  case (1 n)
  show ?case
  proof (cases "n < 10")
    case True
    then show ?thesis by (subst string_of_nat.simps) simp
  next
    case False
    with 1 obtain d ds where d: "string_of_nat (n div 10) = d # ds" "is_digit d" "list_all is_digit ds" "d = CHR ''0'' \<longrightarrow> ds = []"
      by blast
    have "d \<noteq> CHR ''0''"
    proof
      assume "d = CHR ''0''"
      with d digits_value_string [of "n div 10"] have "n div 10 = 0" by (simp add: digits_value_def code_def)
      with False show False by simp
    qed
    moreover have "is_digit (char_of (48 + n mod 10))" by simp
    ultimately show ?thesis using False d by (subst string_of_nat.simps) simp
  qed
qed

lemma lex_nat_text:
  assumes "number_ends r"
  shows "lex_unsigned (string_of_nat n @ r) = Some (of_nat n, r)"
proof -
  obtain d ds where d: "string_of_nat n = d # ds" "is_digit d" "list_all is_digit ds" "d = CHR ''0'' \<longrightarrow> ds = []"
    using string_of_nat_first by blast
  have "takeWhile is_digit (string_of_nat n @ r) = string_of_nat n"
    using string_of_nat_digits [of n] number_ends_parts(3) [OF assms]
    by (simp add: takeWhile_append2 list_all_iff)
  then have "integer_digits (string_of_nat n @ r) = string_of_nat n" using d by (auto simp: integer_digits_def)
  then show ?thesis
    using string_of_nat_digits [of n] by (simp add: lex_unsigned_def number_ends_parts [OF assms] digits_value_string Let_def)
qed

lemma lex_int_text:
  assumes "number_ends r"
  shows "lex_number (string_of_int n @ r) = Some (of_int n, r)"
proof (cases "n < 0")
  case True
  with lex_nat_text [OF assms, of "nat (- n)"] show ?thesis by (simp add: string_of_int_def lex_number_def)
next
  case False
  obtain d ds where d: "string_of_nat (nat n) = d # ds" "is_digit d" using string_of_nat_first by blast
  then have "d \<noteq> CHR ''-''" by (auto simp: is_digit_def code_def)
  with False d lex_nat_text [OF assms, of "nat n"] show ?thesis by (simp add: string_of_int_def lex_number_def)
qed


lemma lex_step:
  assumes "\<not> json_blank c" "lex_token (c # cs) = Some (t, rest)"
  shows "json_lex (c # cs) = map_option (Cons t) (json_lex rest)"
  using assms by (subst json_lex.simps) simp

definition punctuation :: "(char \<times> json_token) list" where
  "punctuation = [(CHR ''{'', OpenObject), (CHR ''}'', CloseObject), (CHR ''['', OpenArray), (CHR '']'', CloseArray),
     (CHR '':'', Colon), (CHR '','', Comma)]"

lemma lex_punctuation:
  "json_lex (CHR ''{'' # r) = map_option (Cons OpenObject) (json_lex r)" "json_lex (CHR ''}'' # r) = map_option (Cons CloseObject) (json_lex r)"
  "json_lex (CHR ''['' # r) = map_option (Cons OpenArray) (json_lex r)" "json_lex (CHR '']'' # r) = map_option (Cons CloseArray) (json_lex r)"
  "json_lex (CHR '':'' # r) = map_option (Cons Colon) (json_lex r)" "json_lex (CHR '','' # r) = map_option (Cons Comma) (json_lex r)"
  by (rule lex_step; simp add: json_blank_def code_def lex_token_def)+

lemma lex_string_value: "json_lex (string_text s @ r) = map_option (Cons (StringToken s)) (json_lex r)"
proof -
  have "lex_token (QUOTE_MARK # concat (map escape_char s) @ QUOTE_MARK # r) = Some (StringToken s, r)"
    using lex_string_text [of s r] by (simp add: lex_token_def QUOTE_MARK_def)
  then show ?thesis
    unfolding string_text_def by (simp add: lex_step json_blank_def code_def QUOTE_MARK_def)
qed

lemma lex_words:
  "json_lex (''true'' @ r) = map_option (Cons TrueToken) (json_lex r)" "json_lex (''false'' @ r) = map_option (Cons FalseToken) (json_lex r)"
  "json_lex (''null'' @ r) = map_option (Cons NullToken) (json_lex r)"
  unfolding append_Cons append_Nil
  by (rule lex_step; simp add: json_blank_def code_def lex_token_def has_prefix_def QUOTE_MARK_def)+

lemma lex_number_value:
  assumes "number_ends r"
  shows "json_lex (string_of_int n @ r) = map_option (Cons (NumberToken (of_int n))) (json_lex r)"
proof -
  obtain c cs where c: "string_of_int n = c # cs" "c = CHR ''-'' \<or> is_digit c"
  proof (cases "n < 0")
    case True
    with that show thesis by (simp add: string_of_int_def)
  next
    case False
    with string_of_nat_first [of "nat n"] that show thesis by (auto simp: string_of_int_def)
  qed
  from c(2) have first: "\<not> json_blank c" "c \<noteq> QUOTE_MARK" "c \<noteq> CHR ''t''" "c \<noteq> CHR ''f''" "c \<noteq> CHR ''n''"
    "c \<noteq> CHR ''{''" "c \<noteq> CHR ''}''" "c \<noteq> CHR ''[''" "c \<noteq> CHR '']''" "c \<noteq> CHR '':''" "c \<noteq> CHR '',''"
    by (auto simp: json_blank_def is_digit_def code_def QUOTE_MARK_def)
  with lex_int_text [OF assms, of n] c(1) have "lex_token (c # cs @ r) = Some (NumberToken (of_int n), r)"
    by (simp add: lex_token_def has_prefix_def)
  with lex_step [OF first(1) this] c(1) show ?thesis by simp
qed

lemma lex_joined:
  assumes "\<And>x r. x \<in> set xs \<Longrightarrow> number_ends r \<Longrightarrow> json_lex (text_of x @ r) = map_option ((@) (tokens_of x)) (json_lex r)"
    and "number_ends r"
  shows "json_lex (join_with '','' (map text_of xs) @ r) = map_option ((@) (join_with [Comma] (map tokens_of xs))) (json_lex r)"
  using assms(1)
proof (induction xs rule: induct_list012)
  case 1
  then show ?case by (simp add: option.map_ident id_def [symmetric] option.map_id)
next
  case (2 x)
  with assms(2) show ?case by simp
next
  case (3 x y zs)
  have "number_ends (CHR '','' # join_with '','' (map text_of (y # zs)) @ r)"
    by (simp add: number_ends_def is_digit_def code_def)
  with 3(3) [of x] 3(2) 3(3) show ?case
    by (simp add: lex_punctuation option.map_comp o_def)
qed

lemma lex_json_text:
  "json_exact v \<Longrightarrow> number_ends r \<Longrightarrow> json_lex (json_text digits_of v @ r) = map_option ((@) (json_tokens v)) (json_lex r)"
proof (induction v arbitrary: r)
  case JNull
  then show ?case using lex_words(3) by (simp add: fun_eq_iff [symmetric])
next
  case (JBool b)
  then show ?case using lex_words(1,2) by simp
next
  case (JNum x)
  then obtain q where q: "x = Fin q" "of_int \<lfloor>q\<rfloor> = q" "\<bar>q\<bar> < 10 ^ 21" by (cases x) auto
  with lex_number_value [OF JNum(2), of "\<lfloor>q\<rfloor>"] show ?case by (simp add: number_text_def)
next
  case (JStr s)
  then show ?case using lex_string_value by simp
next
  case (JArr vs)
  have "json_lex (join_with '','' (map (json_text digits_of) vs) @ CHR '']'' # r) =
      map_option ((@) (join_with [Comma] (map json_tokens vs))) (json_lex (CHR '']'' # r))"
  proof (rule lex_joined)
    show "json_lex (json_text digits_of x @ r) = map_option ((@) (json_tokens x)) (json_lex r)" if "x \<in> set vs" "number_ends r" for x r
      using that JArr(1,2) by (simp add: list_all_iff)
  qed (simp add: number_ends_def is_digit_def code_def)
  then show ?case by (simp add: lex_punctuation option.map_comp o_def)
next
  case (JObj ps)
  have "json_lex (join_with '','' (map (\<lambda>(k, v). string_text k @ '':'' @ json_text digits_of v) ps) @ CHR ''}'' # r) =
      map_option ((@) (join_with [Comma] (map (\<lambda>(k, v). StringToken k # Colon # json_tokens v) ps))) (json_lex (CHR ''}'' # r))"
  proof (rule lex_joined)
    fix x r assume x: "x \<in> set ps" "number_ends r"
    obtain k v where kv: "x = (k, v)" by (cases x)
    have "json_exact v" using JObj(2) x(1) by (auto simp: kv list_all_iff)
    with JObj(1) [OF x(1), of v r] x(2) kv
    have "json_lex (json_text digits_of v @ r) = map_option ((@) (json_tokens v)) (json_lex r)" by simp
    then show "json_lex ((case x of (k, v) \<Rightarrow> string_text k @ '':'' @ json_text digits_of v) @ r) =
        map_option ((@) (case x of (k, v) \<Rightarrow> StringToken k # Colon # json_tokens v)) (json_lex r)"
      by (cases "json_lex r") (simp_all add: kv lex_string_value lex_punctuation)
  qed (simp add: number_ends_def is_digit_def code_def)
  then show ?case
    by (cases "json_lex r") (simp_all add: lex_punctuation option.map_comp o_def)
qed

lemma set_property_new:
  assumes "k \<notin> fst ` set ps" "list_all (\<lambda>(j, _). \<not> key_before k j) ps"
  shows "set_property k v ps = ps @ [(k, v)]"
proof -
  have "takeWhile (\<lambda>(j, _). \<not> key_before k j) ps = ps" "dropWhile (\<lambda>(j, _). \<not> key_before k j) ps = []"
    using assms(2) by (auto simp: list_all_iff)
  with assms(1) show ?thesis by (simp add: set_property_def)
qed

text \<open>A value can stand in the first place of an array, or where a value must come.\<close>

abbreviation value_expected :: "json_mode \<Rightarrow> bool" where
  "value_expected m \<equiv> m = WantValue \<or> m = WantValueOrEnd"

definition reads_back :: "json \<Rightarrow> bool" where
  "reads_back v \<longleftrightarrow> (\<forall>st m ts. value_expected m \<longrightarrow>
     foldl parse_token (Some (st, m)) (json_tokens v @ ts) = foldl parse_token (Some (complete_value st v)) ts)"

lemma reads_backD:
  "reads_back v \<Longrightarrow> value_expected m \<Longrightarrow>
     foldl parse_token (Some (st, m)) (json_tokens v @ ts) = foldl parse_token (Some (complete_value st v)) ts"
  unfolding reads_back_def by blast

lemma array_reads_back:
  assumes "list_all reads_back vs" "vs \<noteq> []" "value_expected m"
  shows "foldl parse_token (Some (ArrayFrame acc # st, m)) (join_with [Comma] (map json_tokens vs) @ ts) =
    foldl parse_token (Some (ArrayFrame (acc @ vs) # st, WantCommaOrEnd)) ts"
  using assms
proof (induction vs arbitrary: acc m rule: induct_list012)
  case (2 x)
  then show ?case by (simp add: reads_backD complete_value_def del: foldl_append)
next
  case (3 x y zs)
  have "foldl parse_token (Some (ArrayFrame acc # st, m)) (join_with [Comma] (map json_tokens (x # y # zs)) @ ts) =
      foldl parse_token (Some (ArrayFrame (acc @ [x]) # st, WantValue)) (join_with [Comma] (map json_tokens (y # zs)) @ ts)"
    using 3(3,5) by (simp add: reads_backD complete_value_def parse_token_def [of _ Comma] del: foldl_append)
  with 3(2) [of WantValue "acc @ [x]"] 3(3) show ?case by (simp del: foldl_append)
qed simp

lemma object_reads_back:
  assumes "list_all (\<lambda>(_, v). reads_back v) ps" "ps \<noteq> []" "m = WantKey \<or> m = WantKeyOrEnd"
    and "distinct (map fst (acc @ ps))" "sorted_wrt (\<lambda>a b. \<not> key_before b a) (map fst (acc @ ps))"
  shows "foldl parse_token (Some (ObjectFrame acc k0 # st, m))
      (join_with [Comma] (map (\<lambda>(k, v). StringToken k # Colon # json_tokens v) ps) @ ts) =
    foldl parse_token (Some (ObjectFrame (acc @ ps) None # st, WantCommaOrEnd)) ts"
  using assms
proof (induction ps arbitrary: acc m k0)
  case (Cons p ps)
  obtain k v where p: "p = (k, v)" by (cases p)
  have new: "set_property k v acc = acc @ [(k, v)]"
    using Cons.prems(4,5) by (intro set_property_new) (auto simp: p sorted_wrt_append list_all_iff)
  have key: "parse_token (Some (ObjectFrame acc k0 # st, m)) (StringToken k) = Some (ObjectFrame acc (Some k) # st, WantColon)"
    using Cons.prems(3) by (auto simp: parse_token_def want_key_def)
  have one: "foldl parse_token (Some (ObjectFrame acc k0 # st, m)) (StringToken k # Colon # json_tokens v @ ts') =
      foldl parse_token (Some (ObjectFrame (acc @ [p]) None # st, WantCommaOrEnd)) ts'" for ts'
    using Cons.prems(1) by (simp add: p key parse_token_def [of _ Colon] reads_backD complete_value_def new del: foldl_append)
  show ?case
  proof (cases ps)
    case Nil
    with one [of ts] show ?thesis by (simp add: p del: foldl_append)
  next
    case (Cons q qs)
    have "foldl parse_token (Some (ObjectFrame acc k0 # st, m))
        (join_with [Comma] (map (\<lambda>(k, v). StringToken k # Colon # json_tokens v) (p # ps)) @ ts) =
      foldl parse_token (Some (ObjectFrame (acc @ [p]) None # st, WantKey))
        (join_with [Comma] (map (\<lambda>(k, v). StringToken k # Colon # json_tokens v) ps) @ ts)"
      using one by (simp add: Cons p parse_token_def [of _ Comma] del: foldl_append)
    with Cons.IH [of WantKey "acc @ [p]" None] Cons.prems Cons show ?thesis by (simp del: foldl_append)
  qed
qed simp

lemma exact_reads_back: "json_exact v \<Longrightarrow> reads_back v"
proof (induction v)
  case (JNum x)
  then show ?case
    by (cases x) (auto simp: reads_back_def parse_token_def [of _ "NumberToken _"] start_value_def)
next
  case (JArr vs)
  then have vs: "list_all reads_back vs" by (simp add: list_all_iff)
  have "foldl parse_token (Some (st, m)) (json_tokens (JArr vs) @ ts) =
      foldl parse_token (Some (complete_value st (JArr vs))) ts" if "value_expected m" for st m ts
    using that array_reads_back [OF vs, of WantValueOrEnd "[]" st]
    by (cases "vs = []") (auto simp: parse_token_def [of _ OpenArray] parse_token_def [of _ CloseArray] start_value_def
        close_container_def simp del: foldl_append)
  then show ?case unfolding reads_back_def by blast
next
  case (JObj ps)
  then have ps: "list_all (\<lambda>(_, v). reads_back v) ps" by (fastforce simp: list_all_iff)
  have "foldl parse_token (Some (st, m)) (json_tokens (JObj ps) @ ts) =
      foldl parse_token (Some (complete_value st (JObj ps))) ts" if "value_expected m" for st m ts
    using that object_reads_back [OF ps, of WantKeyOrEnd "[]" None st] JObj(2)
    by (cases "ps = []") (auto simp: parse_token_def [of _ OpenObject] parse_token_def [of _ CloseObject] start_value_def
        close_container_def simp del: foldl_append)
  then show ?case unfolding reads_back_def by blast
qed (auto simp: reads_back_def parse_token_def [of _ NullToken] parse_token_def [of _ TrueToken]
    parse_token_def [of _ FalseToken] parse_token_def [of _ "StringToken _"] start_value_def)

lemma json_lex_Nil [simp]: "json_lex [] = Some []"
  by (subst json_lex.simps) simp

theorem json_parse_text:
  assumes "json_exact v"
  shows "json_parse (json_text digits_of v) = Some v"
proof -
  have "json_lex (json_text digits_of v) = Some (json_tokens v)"
    using lex_json_text [OF assms, of "[]" digits_of] by (simp add: number_ends_def)
  with reads_backD [OF exact_reads_back [OF assms], of WantValue "[]" "[]"] show ?thesis
    by (simp add: json_parse_def complete_value_def)
qed

end
