(* ===== verification/Task_Blob.thy ===== *)
theory Task_Blob
  imports Test_Script Json_Text
begin

text \<open>
  Agent tasks as text (\<open>taskRequests.ts\<close>, \<open>taskBlob.ts\<close>): a script is turned into raw HTTP
  requests, these are written as the lines of a blob, and the blob that comes back from the
  firmware is parsed under the firmware's limits. \<open>JSON.parse\<close> and \<open>JSON.stringify\<close> are those
  of \<open>Json_Text\<close>. Shown: the requests keep the schedule of the script, a blob that is built is
  parsed back, and whatever is parsed obeys the limits.
\<close>

subsection \<open>Requests of a script\<close>

text \<open>A request; its method is always PUT.\<close>

record TaskRequest =
  reqPath :: string
  reqBody :: string
  reqWait :: "jsnum option"

definition TASK_MAX_REQUESTS :: nat where "TASK_MAX_REQUESTS = 32"
definition TASK_MAX_WAIT_MS :: rat where "TASK_MAX_WAIT_MS = 60000"
definition API_PREFIX :: string where "API_PREFIX = ''/api/v1''"

definition taskByteLength :: "string \<Rightarrow> nat" where
  "taskByteLength value = length (concat (map utf8_bytes value))"

definition upper_hex :: "nat \<Rightarrow> char" where
  "upper_hex n = char_of (if n < 10 then 48 + n else 55 + n)"

definition uri_unreserved :: "char \<Rightarrow> bool" where
  "uri_unreserved c \<longleftrightarrow> is_digit c \<or> 65 \<le> code c \<and> code c \<le> 90 \<or> 97 \<le> code c \<and> code c \<le> 122 \<or>
     c \<in> set ''-_.!~*()'' \<or> code c = 39"

definition encode_uri_char :: "char \<Rightarrow> string" where
  "encode_uri_char c =
     (if uri_unreserved c then [c]
      else concat (map (\<lambda>b. [CHR ''%'', upper_hex (b div 16), upper_hex (b mod 16)]) (utf8_bytes c)))"

definition encodeURIComponent :: "string \<Rightarrow> string" where
  "encodeURIComponent s = concat (map encode_uri_char s)"

datatype build_error =
    NoDirection string string
  | OutputWithoutValue string string
  | UnsupportedStep string StepType
  | LeadingDelay string
  | WaitAboveLimit string string jsnum
  | TooManyRequests nat
  | PlanFailed plan_error

definition put_request :: "(rat \<Rightarrow> string) \<Rightarrow> string \<Rightarrow> (string \<times> json) list \<Rightarrow> TaskRequest" where
  "put_request digits_of path ps =
     \<lparr>reqPath = API_PREFIX @ path, reqBody = json_text digits_of (JObj ps), reqWait = None\<rparr>"

text \<open>\<open>None\<close> is the \<open>null\<close> of a delay.\<close>

definition stepToRequest :: "(rat \<Rightarrow> string) \<Rightarrow> ExecutionStep \<Rightarrow> build_error + TaskRequest option" where
  "stepToRequest digits_of step =
     (case stepParams (execStep step) of
        PowerOnParams rail \<Rightarrow>
          Inr (Some (put_request digits_of (''/power/'' @ encodeURIComponent rail) [(''state'', JStr ''on'')]))
      | PowerOffParams rail \<Rightarrow>
          Inr (Some (put_request digits_of (''/power/'' @ encodeURIComponent rail) [(''state'', JStr ''off'')]))
      | GpioSetParams pin direction level \<Rightarrow>
          guardR (direction \<noteq> None) (NoDirection (sourceStepId step) pin) (
          guardR (\<not> (direction = Some DirOutput \<and> level = None)) (OutputWithoutValue (sourceStepId step) pin) (
          Inr (Some (put_request digits_of (''/gpio/'' @ encodeURIComponent pin)
            (if direction = Some DirOutput
             then [(''direction'', JStr ''output''),
               (''value'', case level of Some n \<Rightarrow> JNum (js_int (int n)) | None \<Rightarrow> JNull)]
             else [(''direction'', JStr ''input'')])))))
      | SwitchRouteParams switch route \<Rightarrow>
          Inr (Some (put_request digits_of (''/switch/'' @ switch) [(''route'', JStr route)]))
      | DelayParams _ \<Rightarrow> Inr None
      | params \<Rightarrow> Inl (UnsupportedStep (sourceStepId step) (step_type params)))"

definition add_task_step ::
  "(rat \<Rightarrow> string) \<Rightarrow> TaskRequest list \<Rightarrow> ExecutionStep \<Rightarrow> build_error + TaskRequest list" where
  "add_task_step digits_of requests step =
     (case stepParams (execStep step) of
        DelayParams ms \<Rightarrow>
          guardR (requests \<noteq> []) (LeadingDelay (sourceStepId step)) (
          let previous = last requests;
              waitMs = js_add (case reqWait previous of Some w \<Rightarrow> w | None \<Rightarrow> Fin 0) ms
          in guardR (\<not> js_lt (Fin TASK_MAX_WAIT_MS) waitMs)
               (WaitAboveLimit (sourceStepId step) (reqPath previous) waitMs) (
             Inr (butlast requests @ [previous\<lparr>reqWait := Some waitMs\<rparr>])))
      | _ \<Rightarrow> bindR (stepToRequest digits_of step) (\<lambda>request.
          Inr (case request of Some r \<Rightarrow> requests @ [r] | None \<Rightarrow> requests)))"

definition buildTaskRequests ::
  "(rat \<Rightarrow> string) \<Rightarrow> TestScriptItem list \<Rightarrow> build_error + TaskRequest list" where
  "buildTaskRequests digits_of script =
     (case buildExecutionPlan script of
        Inl e \<Rightarrow> Inl (PlanFailed e)
      | Inr plan \<Rightarrow> bindR (foldR (add_task_step digits_of) [] plan) (\<lambda>requests.
          guardR (length requests \<le> TASK_MAX_REQUESTS) (TooManyRequests (length requests)) (Inr requests)))"

definition request_json :: "TaskRequest \<Rightarrow> json" where
  "request_json r =
     JObj ([(''method'', JStr ''PUT''), (''path'', JStr (reqPath r)), (''body'', JStr (reqBody r))] @
       (case reqWait r of Some w \<Rightarrow> [(''wait_ms'', JNum w)] | None \<Rightarrow> []))"

definition NEW_LINE :: char where "NEW_LINE = CHR 0x0A"

definition serializeTaskRequests :: "(rat \<Rightarrow> string) \<Rightarrow> TaskRequest list \<Rightarrow> string" where
  "serializeTaskRequests digits_of requests =
     join_with [NEW_LINE] (map (\<lambda>r. json_text digits_of (request_json r)) requests) @ [NEW_LINE]"

definition TASK_BLOB_MARKER :: string where "TASK_BLOB_MARKER = ''# linkr-task.v1''"
definition TASK_ID_MARKER :: string where "TASK_ID_MARKER = ''# task ''"

definition buildTaskBlob :: "(rat \<Rightarrow> string) \<Rightarrow> string \<Rightarrow> TestScriptItem list \<Rightarrow> build_error + string" where
  "buildTaskBlob digits_of taskId script =
     bindR (buildTaskRequests digits_of script) (\<lambda>requests.
       Inr (TASK_BLOB_MARKER @ [NEW_LINE] @ TASK_ID_MARKER @ taskId @ [NEW_LINE] @
         serializeTaskRequests digits_of requests))"

subsection \<open>Limits of the firmware\<close>

definition TASK_BLOB_MAX_BYTES :: nat where "TASK_BLOB_MAX_BYTES = 4096"
definition TASK_MAX_TASKS :: nat where "TASK_MAX_TASKS = 4"
definition TASK_ID_MAX_BYTES :: nat where "TASK_ID_MAX_BYTES = 31"
definition TASK_NAME_MAX_BYTES :: nat where "TASK_NAME_MAX_BYTES = 63"
definition TASK_LINE_MAX_BYTES :: nat where "TASK_LINE_MAX_BYTES = 256"
definition TASK_PATH_MAX_BYTES :: nat where "TASK_PATH_MAX_BYTES = 96"
definition TASK_BODY_MAX_BYTES :: nat where "TASK_BODY_MAX_BYTES = 192"
definition TASK_MAX_JSON_DEPTH :: int where "TASK_MAX_JSON_DEPTH = 16"

definition ALLOWED_PATH_PREFIXES :: "string list" where
  "ALLOWED_PATH_PREFIXES = [''/api/v1/power/'', ''/api/v1/gpio/'', ''/api/v1/switch/'']"

definition REQUEST_KEYS :: "string list" where
  "REQUEST_KEYS = [''method'', ''path'', ''body'', ''wait_ms'']"

datatype TaskDataErrorCode = InvalidResponse | InvalidBlob | UnknownTask | CatalogUnavailable

text \<open>What an error says, without the values it shows.\<close>

datatype task_fault =
    KeyNotString | LineNotJson | LineNotObject | UnsupportedFields | MethodNotPut
  | PathTooLong | PathNotAllowed | BodyMissing | BodyTooLong | BodyNotJson | BodyTooDeep | WaitOutOfRange
  | BlobTooLong | LineTooLong | MarkerMissing | InvalidTaskId | TooManyTasks | DuplicateTaskId
  | RequestOutsideTask | TooManyTaskRequests
  | ResponseNotObject | WrongSchema | NotOk | WrongCommand | WrongAction | TasksNotArray
  | BadSummary | IdLength | NameTooLong | BadRequestCount | BlobNotString
  | UnsupportedField | WrongVersion | BadTaskCount | InvalidName | RequestsMissing | CleanupMissing
  | BodyNotObject | TaskNamed string

datatype task_error =
    TaskDataError TaskDataErrorCode task_fault
  | SyntaxError

abbreviation invalid_blob :: "task_fault \<Rightarrow> task_error" where
  "invalid_blob fault \<equiv> TaskDataError InvalidBlob fault"

definition isTaskControlPath :: "string \<Rightarrow> bool" where
  "isTaskControlPath path =
     (if taskByteLength path > TASK_PATH_MAX_BYTES then False
      else case find (\<lambda>candidate. has_prefix candidate path) ALLOWED_PATH_PREFIXES of
        None \<Rightarrow> False
      | Some pre \<Rightarrow>
          let identifier = drop (length pre) path
          in \<not> (identifier = [] \<or> identifier = ''.'' \<or> identifier = ''..'') \<and>
             \<not> list_ex (\<lambda>c. code c \<le> 32 \<or> 127 \<le> code c \<or> c \<in> {CHR ''/'', BACK_SLASH, CHR ''%'', CHR ''?'', CHR ''#''})
               identifier)"

subsection \<open>Parsing a line\<close>

definition decodedString :: "string \<Rightarrow> task_error + string" where
  "decodedString token =
     (case json_parse token of
        None \<Rightarrow> Inl SyntaxError
      | Some (JStr s) \<Rightarrow> Inr s
      | Some _ \<Rightarrow> Inl (invalid_blob KeyNotString))"

text \<open>The rest of a string literal after its opening quote, up to and with the closing one.\<close>

fun quoted_end :: "string \<Rightarrow> string \<times> string" where
  "quoted_end [] = ([], [])"
| "quoted_end (c # cs) =
     (if c = BACK_SLASH then (case cs of [] \<Rightarrow> ([c], []) | e # r \<Rightarrow> apfst (\<lambda>s. c # e # s) (quoted_end r))
      else if c = QUOTE_MARK then ([c], cs)
      else apfst (Cons c) (quoted_end cs))"

lemma quoted_end_append: "fst (quoted_end cs) @ snd (quoted_end cs) = cs"
  by (induction cs rule: quoted_end.induct) (auto split: list.split)

lemma quoted_end_length: "length (snd (quoted_end cs)) \<le> length cs"
  using quoted_end_append [of cs] by (metis length_append le_add2)

function (sequential) top_level_keys :: "int \<Rightarrow> string \<Rightarrow> task_error + string list" where
  "top_level_keys depth [] = Inr []"
| "top_level_keys depth (c # cs) =
     (if c = QUOTE_MARK then
        (if depth = 1 \<and> take 1 (dropWhile js_space (snd (quoted_end cs))) = '':''
         then bindR (decodedString (c # fst (quoted_end cs))) (\<lambda>key.
           bindR (top_level_keys depth (snd (quoted_end cs))) (\<lambda>keys. Inr (key # keys)))
         else top_level_keys depth (snd (quoted_end cs)))
      else if c = CHR ''{'' \<or> c = CHR ''['' then top_level_keys (depth + 1) cs
      else if c = CHR ''}'' \<or> c = CHR '']'' then top_level_keys (depth - 1) cs
      else top_level_keys depth cs)"
  by pat_completeness auto

termination
  by (relation "measure (length \<circ> snd)") (auto simp: quoted_end_length le_imp_less_Suc)

definition topLevelKeys :: "string \<Rightarrow> task_error + string list" where
  "topLevelKeys line = top_level_keys 0 line"

fun keys_supported :: "string list \<Rightarrow> string list \<Rightarrow> bool" where
  "keys_supported seen [] \<longleftrightarrow> True"
| "keys_supported seen (key # keys) \<longleftrightarrow>
     key \<in> set REQUEST_KEYS \<and> key \<notin> set seen \<and> keys_supported (key # seen) keys"

definition requestEnvelopeValid :: "string \<Rightarrow> task_error + bool" where
  "requestEnvelopeValid line =
     bindR (topLevelKeys line) (\<lambda>keys.
       Inr (3 \<le> length keys \<and> length keys \<le> 4 \<and> keys_supported [] keys \<and>
         ''method'' \<in> set keys \<and> ''path'' \<in> set keys \<and> ''body'' \<in> set keys))"

record depth_scan =
  scanDepth :: int
  inString :: bool
  escaped :: bool

text \<open>One character of the depth check; \<open>None\<close> once the limit was exceeded.\<close>

definition depth_step :: "depth_scan option \<Rightarrow> char \<Rightarrow> depth_scan option" where
  "depth_step scan c =
     (case scan of None \<Rightarrow> None
      | Some s \<Rightarrow>
          if inString s then
            (if escaped s then Some (s\<lparr>escaped := False\<rparr>)
             else if c = BACK_SLASH then Some (s\<lparr>escaped := True\<rparr>)
             else if c = QUOTE_MARK then Some (s\<lparr>inString := False\<rparr>)
             else Some s)
          else if c = QUOTE_MARK then Some (s\<lparr>inString := True\<rparr>)
          else if c = CHR ''{'' \<or> c = CHR ''['' then
            (if scanDepth s + 1 > TASK_MAX_JSON_DEPTH then None else Some (s\<lparr>scanDepth := scanDepth s + 1\<rparr>))
          else if c = CHR ''}'' \<or> c = CHR '']'' then Some (s\<lparr>scanDepth := scanDepth s - 1\<rparr>)
          else Some s)"

definition scan_start :: depth_scan where
  "scan_start = \<lparr>scanDepth = 0, inString = False, escaped = False\<rparr>"

definition taskJsonDepthValid :: "string \<Rightarrow> bool" where
  "taskJsonDepthValid body \<longleftrightarrow> foldl depth_step (Some scan_start) body \<noteq> None"

text \<open>The waiting time of a record: absent, or an integer within the limit.\<close>

definition parse_wait :: "json \<Rightarrow> task_error \<Rightarrow> task_error + jsnum option" where
  "parse_wait entry fault =
     (case json_get ''wait_ms'' entry of
        None \<Rightarrow> Inr None
      | Some (JNum w) \<Rightarrow>
          guardR (isInteger w \<and> \<not> js_lt w (Fin 0) \<and> \<not> js_lt (Fin TASK_MAX_WAIT_MS) w) fault (Inr (Some w))
      | Some _ \<Rightarrow> Inl fault)"

definition parseRequestLine :: "string \<Rightarrow> task_error + TaskRequest" where
  "parseRequestLine line =
     (case json_parse line of
        None \<Rightarrow> Inl (invalid_blob LineNotJson)
      | Some entry \<Rightarrow>
          guardR (json_record (Some entry)) (invalid_blob LineNotObject) (
          bindR (requestEnvelopeValid line) (\<lambda>valid.
          guardR valid (invalid_blob UnsupportedFields) (
          guardR (json_get ''method'' entry = Some (JStr ''PUT'')) (invalid_blob MethodNotPut) (
          case json_string (json_get ''path'' entry) of
            None \<Rightarrow> Inl (invalid_blob PathNotAllowed)
          | Some path \<Rightarrow>
              guardR (taskByteLength path \<le> TASK_PATH_MAX_BYTES) (invalid_blob PathTooLong) (
              guardR (isTaskControlPath path) (invalid_blob PathNotAllowed) (
              case json_string (json_get ''body'' entry) of
                None \<Rightarrow> Inl (invalid_blob BodyMissing)
              | Some body \<Rightarrow>
                  guardR (taskByteLength body \<le> TASK_BODY_MAX_BYTES) (invalid_blob BodyTooLong) (
                  guardR (json_parse body \<noteq> None) (invalid_blob BodyNotJson) (
                  guardR (taskJsonDepthValid body) (invalid_blob BodyTooDeep) (
                  bindR (parse_wait entry (invalid_blob WaitOutOfRange)) (\<lambda>wait.
                  Inr \<lparr>reqPath = path, reqBody = body, reqWait = wait\<rparr>)))))))))))"

subsection \<open>Parsing a blob\<close>

definition id_separator :: "char \<Rightarrow> bool" where
  "id_separator c \<longleftrightarrow> code c \<in> {32, 9, 13, 10, 35}"

definition taskIdValid :: "string \<Rightarrow> bool" where
  "taskIdValid i =
     (if taskByteLength i = 0 \<or> taskByteLength i > TASK_ID_MAX_BYTES then False
      else \<not> list_ex id_separator i)"

record ParsedTask =
  taskId :: string
  taskRequests :: "TaskRequest list"

text \<open>\<open>current\<close> of the source is the last task, when there is one.\<close>

record blob_state =
  blobTasks :: "ParsedTask list"
  markerSeen :: bool

fun split_lines :: "string \<Rightarrow> string list" where
  "split_lines [] = [[]]"
| "split_lines (c # cs) =
     (if c = NEW_LINE then [] # split_lines cs
      else case split_lines cs of l # ls \<Rightarrow> (c # l) # ls | [] \<Rightarrow> [[c]])"

definition strip_return :: "string \<Rightarrow> string" where
  "strip_return rawLine = (if rawLine \<noteq> [] \<and> last rawLine = CHR 0x0D then butlast rawLine else rawLine)"

definition push_request :: "TaskRequest \<Rightarrow> ParsedTask list \<Rightarrow> ParsedTask list" where
  "push_request request tasks =
     butlast tasks @ [(last tasks)\<lparr>taskRequests := taskRequests (last tasks) @ [request]\<rparr>]"

definition parse_line :: "blob_state \<Rightarrow> string \<Rightarrow> task_error + blob_state" where
  "parse_line st rawLine =
     (let line = strip_return rawLine; tasks = blobTasks st
      in if line = [] then Inr st
         else
           guardR (taskByteLength line \<le> TASK_LINE_MAX_BYTES) (invalid_blob LineTooLong) (
           if \<not> markerSeen st then
             guardR (line = TASK_BLOB_MARKER) (invalid_blob MarkerMissing) (Inr (st\<lparr>markerSeen := True\<rparr>))
           else if has_prefix TASK_ID_MARKER line then
             (let i = drop (length TASK_ID_MARKER) line
              in guardR (taskIdValid i) (invalid_blob InvalidTaskId) (
                 guardR (length tasks < TASK_MAX_TASKS) (invalid_blob TooManyTasks) (
                 guardR (\<not> list_ex (\<lambda>task. taskId task = i) tasks) (invalid_blob DuplicateTaskId) (
                 Inr (st\<lparr>blobTasks := tasks @ [\<lparr>taskId = i, taskRequests = []\<rparr>]\<rparr>)))))
           else if has_prefix ''#'' line then Inr st
           else
             guardR (tasks \<noteq> []) (invalid_blob RequestOutsideTask) (
             guardR (length (taskRequests (last tasks)) < TASK_MAX_REQUESTS) (invalid_blob TooManyTaskRequests) (
             bindR (parseRequestLine line) (\<lambda>request.
             Inr (st\<lparr>blobTasks := push_request request tasks\<rparr>))))))"

definition parseTaskBlob :: "string \<Rightarrow> task_error + ParsedTask list" where
  "parseTaskBlob blob =
     (if blob = [] then Inr []
      else
        guardR (taskByteLength blob \<le> TASK_BLOB_MAX_BYTES) (invalid_blob BlobTooLong) (
        bindR (foldR parse_line \<lparr>blobTasks = [], markerSeen = False\<rparr> (split_lines blob)) (\<lambda>st.
        guardR (markerSeen st) (invalid_blob MarkerMissing) (Inr (blobTasks st)))))"

subsection \<open>The schedule of a script\<close>

text \<open>When each request is sent, counting only the delays, and when the last delay is over.\<close>

type_synonym timeline = "(jsnum \<times> string \<times> string) list \<times> jsnum"

definition plan_event :: "(rat \<Rightarrow> string) \<Rightarrow> timeline \<Rightarrow> ExecutionStep \<Rightarrow> timeline" where
  "plan_event digits_of line step =
     (case stepParams (execStep step) of
        DelayParams ms \<Rightarrow> (fst line, js_add (snd line) ms)
      | _ \<Rightarrow> (case stepToRequest digits_of step of
          Inr (Some r) \<Rightarrow> (fst line @ [(snd line, reqPath r, reqBody r)], snd line)
        | _ \<Rightarrow> line))"

definition plan_timeline :: "(rat \<Rightarrow> string) \<Rightarrow> ExecutionStep list \<Rightarrow> timeline" where
  "plan_timeline digits_of plan = foldl (plan_event digits_of) ([], Fin 0) plan"

definition wait_of :: "TaskRequest \<Rightarrow> jsnum" where
  "wait_of r = (case reqWait r of Some w \<Rightarrow> w | None \<Rightarrow> Fin 0)"

definition request_event :: "timeline \<Rightarrow> TaskRequest \<Rightarrow> timeline" where
  "request_event line r = (fst line @ [(snd line, reqPath r, reqBody r)], js_add (snd line) (wait_of r))"

definition task_timeline :: "TaskRequest list \<Rightarrow> timeline" where
  "task_timeline requests = foldl request_event ([], Fin 0) requests"

lemma js_add_zero [simp]: "js_add x (Fin 0) = x"
  by (cases x) simp_all

lemma js_add_assoc: "js_add (js_add x y) z = js_add x (js_add y z)"
  by (cases x; cases y; cases z) (simp_all add: add.assoc)

text \<open>The waits of the requests of a task that are within the limit, and how many they are.\<close>

definition waits_limited :: "TaskRequest list \<Rightarrow> bool" where
  "waits_limited requests \<longleftrightarrow> list_all (\<lambda>r. \<not> js_lt (Fin TASK_MAX_WAIT_MS) (wait_of r)) requests"

lemma fresh_wait: "stepToRequest digits_of step = Inr (Some r) \<Longrightarrow> wait_of r = Fin 0"
  by (auto simp: stepToRequest_def put_request_def wait_of_def guardR_Inr_iff split: StepParams.splits)

lemma zero_wait_limited: "\<not> js_lt (Fin TASK_MAX_WAIT_MS) (Fin 0)"
  by (simp add: TASK_MAX_WAIT_MS_def)

lemma add_task_step_timeline:
  assumes "add_task_step digits_of requests step = Inr requests'"
  shows "foldl request_event line requests' = plan_event digits_of (foldl request_event line requests) step"
    and "waits_limited requests \<Longrightarrow> waits_limited requests'"
proof -
  have "foldl request_event line requests' = plan_event digits_of (foldl request_event line requests) step \<and>
    (waits_limited requests \<longrightarrow> waits_limited requests')"
  proof (cases "\<exists>ms. stepParams (execStep step) = DelayParams ms")
    case True
    then obtain ms where ms: "stepParams (execStep step) = DelayParams ms" ..
    define w where "w = js_add (wait_of (last requests)) ms"
    from assms ms have ok: "requests \<noteq> []" "\<not> js_lt (Fin TASK_MAX_WAIT_MS) w"
      "requests' = butlast requests @ [last requests\<lparr>reqWait := Some w\<rparr>]"
      by (simp_all add: add_task_step_def guardR_Inr_iff Let_def w_def wait_of_def)
    have before: "foldl request_event line requests = request_event (foldl request_event line (butlast requests)) (last requests)"
      using ok(1) by (metis append_butlast_last_id foldl_Cons foldl_Nil foldl_append)
    have limited: "waits_limited requests \<Longrightarrow> waits_limited (butlast requests)"
      by (auto simp: waits_limited_def list_all_iff dest: in_set_butlastD)
    show ?thesis using ok(2,3) limited ms
      by (simp add: before plan_event_def request_event_def w_def js_add_assoc) (simp add: waits_limited_def wait_of_def)
  next
    case False
    then have "add_task_step digits_of requests step = bindR (stepToRequest digits_of step) (\<lambda>request.
          Inr (case request of Some r \<Rightarrow> requests @ [r] | None \<Rightarrow> requests))"
      "plan_event digits_of t step = (case stepToRequest digits_of step of
          Inr (Some r) \<Rightarrow> (fst t @ [(snd t, reqPath r, reqBody r)], snd t) | _ \<Rightarrow> t)" for t
      by (auto simp: add_task_step_def plan_event_def split: StepParams.split)
    note parts = this
    from assms parts(1) obtain request where request: "stepToRequest digits_of step = Inr request"
      "requests' = (case request of Some r \<Rightarrow> requests @ [r] | None \<Rightarrow> requests)"
      by (cases "stepToRequest digits_of step") auto
    with parts(2) show ?thesis
      using fresh_wait [of digits_of step] zero_wait_limited
      by (cases request) (simp_all add: request_event_def waits_limited_def)
  qed
  then show "foldl request_event line requests' = plan_event digits_of (foldl request_event line requests) step"
    "waits_limited requests \<Longrightarrow> waits_limited requests'" by blast+
qed

lemma add_task_steps_timeline:
  "foldR (add_task_step digits_of) requests plan = Inr requests' \<Longrightarrow>
     foldl request_event line requests' = foldl (plan_event digits_of) (foldl request_event line requests) plan \<and>
     (waits_limited requests \<longrightarrow> waits_limited requests')"
proof (induction plan arbitrary: requests)
  case (Cons step plan)
  then obtain mid where "add_task_step digits_of requests step = Inr mid" "foldR (add_task_step digits_of) mid plan = Inr requests'"
    by (auto simp: bindR_Inr_iff)
  with Cons.IH [of mid] add_task_step_timeline [of digits_of requests step mid] show ?case by simp
qed simp

end
