(* ===== verification/Task_Limits.thy ===== *)
theory Task_Limits
  imports Task_Blob
begin

text \<open>
  What the parser of task blobs guarantees: the character scan for nesting bounds the nesting of
  the parsed body, whatever is parsed obeys the limits of the firmware, and a blob that is built
  from a script reads back as the script's requests.
\<close>

subsection \<open>The scan for nesting\<close>

text \<open>How deep arrays and objects are nested in a value.\<close>

fun json_depth :: "json \<Rightarrow> nat" where
  "json_depth (JArr vs) = Suc (foldr max (map json_depth vs) 0)"
| "json_depth (JObj ps) = Suc (foldr max (map (\<lambda>(_, v). json_depth v) ps) 0)"
| "json_depth _ = 0"

text \<open>The scan on tokens.\<close>

definition depth_token :: "int option \<Rightarrow> json_token \<Rightarrow> int option" where
  "depth_token d t =
     (case d of None \<Rightarrow> None
      | Some n \<Rightarrow>
          if t = OpenObject \<or> t = OpenArray then (if n + 1 > TASK_MAX_JSON_DEPTH then None else Some (n + 1))
          else if t = CloseObject \<or> t = CloseArray then Some (n - 1)
          else Some n)"

definition outside :: "int option \<Rightarrow> depth_scan option" where
  "outside d = map_option (\<lambda>n. \<lparr>scanDepth = n, inString = False, escaped = False\<rparr>) d"

definition inside :: "int \<Rightarrow> depth_scan option" where
  "inside n = Some \<lparr>scanDepth = n, inString = True, escaped = False\<rparr>"

lemma outside_None [simp]: "outside None = None"
  by (simp add: outside_def)

lemma scan_None [simp]: "foldl depth_step None cs = None"
  by (induction cs) (simp_all add: depth_step_def)

lemma depth_tokens_None [simp]: "foldl depth_token None ts = None"
  by (induction ts) (simp_all add: depth_token_def)

definition neutral_char :: "char \<Rightarrow> bool" where
  "neutral_char c \<longleftrightarrow> c \<noteq> QUOTE_MARK \<and> c \<notin> {CHR ''{'', CHR ''['', CHR ''}'', CHR '']''}"

lemma depth_step_neutral: "neutral_char c \<Longrightarrow> depth_step (outside d) c = outside d"
  by (cases d) (auto simp: depth_step_def outside_def neutral_char_def)

lemma scan_neutral: "list_all neutral_char cs \<Longrightarrow> foldl depth_step (outside d) cs = outside d"
  by (induction cs) (simp_all add: depth_step_neutral)

lemma inside_step:
  "c \<noteq> QUOTE_MARK \<Longrightarrow> c \<noteq> BACK_SLASH \<Longrightarrow> depth_step (inside n) c = inside n"
  "depth_step (inside n) QUOTE_MARK = outside (Some n)"
  "depth_step (depth_step (inside n) BACK_SLASH) e = inside n"
  by (simp_all add: depth_step_def inside_def outside_def)

text \<open>A hexadecimal digit is no quote and no backslash.\<close>

lemma hex_value_plain: "hex_value c \<noteq> None \<Longrightarrow> c \<noteq> QUOTE_MARK \<and> c \<noteq> BACK_SLASH"
  by (auto simp: hex_value_def is_digit_def code_def QUOTE_MARK_def BACK_SLASH_def)

lemma unicode_escape_plain:
  assumes "unicode_escape a b c d = Some x"
  shows "depth_step (depth_step (depth_step (depth_step (inside n) a) b) c) d = inside n"
proof -
  from assms have "hex_value a \<noteq> None \<and> hex_value b \<noteq> None \<and> hex_value c \<noteq> None \<and> hex_value d \<noteq> None"
    by (auto simp: unicode_escape_def split: option.splits nat.splits)
  then show ?thesis by (simp add: hex_value_plain inside_step)
qed

lemma scan_string: "lex_string cs = Some (s, rest) \<Longrightarrow> foldl depth_step (inside n) cs = foldl depth_step (outside (Some n)) rest"
proof (induction "length cs" arbitrary: cs s rule: less_induct)
  case less
  then obtain c r where cs: "cs = c # r" by (cases cs) auto
  note step = less.prems [unfolded cs lex_string.simps]
  show ?case
  proof (cases "c = BACK_SLASH")
    case True
    with step obtain e r' where r: "r = e # r'" by (cases r) simp_all
    show ?thesis
    proof (cases "e = CHR ''u''")
      case u: True
      with True r step obtain h1 h2 h3 h4 r2 where "r' = h1 # h2 # h3 # h4 # r2"
        by (simp split: list.split_asm)
      moreover from this True r u step obtain t x where
        "unicode_escape h1 h2 h3 h4 = Some x" "lex_string r2 = Some (t, rest)"
        by (auto simp: then_char_Some)
      ultimately show ?thesis
        using less.hyps [of r2 t] by (simp add: cs True r u inside_step unicode_escape_plain)
    next
      case False
      with True r step obtain t where "lex_string r' = Some (t, rest)" by (auto simp: then_char_Some)
      with less.hyps [of r' t] show ?thesis by (simp add: cs True r inside_step)
    qed
  next
    case False
    show ?thesis
    proof (cases "c = QUOTE_MARK")
      case True
      with step show ?thesis by (simp add: cs inside_step)
    next
      case plain: False
      with False step obtain t where "lex_string r = Some (t, rest)" by (auto simp: then_char_Some split: if_splits)
      with less.hyps [of r t] plain False show ?thesis by (simp add: cs inside_step)
    qed
  qed
qed

text \<open>What a number consumes has no brackets and no quotes.\<close>

lemma digits_neutral: "list_all neutral_char (takeWhile is_digit cs)"
proof -
  have "is_digit c \<Longrightarrow> neutral_char c" for c
    by (auto simp: neutral_char_def is_digit_def code_def QUOTE_MARK_def)
  then show ?thesis by (auto simp: list_all_iff dest: set_takeWhileD)
qed

definition skips :: "string \<Rightarrow> string \<Rightarrow> bool" where
  "skips cs rest \<longleftrightarrow> (\<exists>pre. cs = pre @ rest \<and> list_all neutral_char pre)"

lemma skips_refl [simp]: "skips cs cs"
  by (simp add: skips_def)

lemma skips_trans: "skips a b \<Longrightarrow> skips b c \<Longrightarrow> skips a c"
proof -
  assume "skips a b" "skips b c"
  then obtain p q where "a = p @ b" "b = q @ c" "list_all neutral_char p" "list_all neutral_char q"
    by (auto simp: skips_def)
  then show "skips a c" unfolding skips_def by (intro exI [of _ "p @ q"]) simp
qed

lemma skips_Cons: "neutral_char c \<Longrightarrow> skips r rest \<Longrightarrow> skips (c # r) rest"
  unfolding skips_def by (elim exE conjE) (rule_tac x = "c # pre" in exI, simp)

lemma skips_scan: "skips cs rest \<Longrightarrow> foldl depth_step (outside d) cs = foldl depth_step (outside d) rest"
  by (auto simp: skips_def scan_neutral)

lemma skips_digits: "skips cs (dropWhile is_digit cs)"
  unfolding skips_def using digits_neutral [of cs] by (intro exI [of _ "takeWhile is_digit cs"]) simp

lemma skips_fraction: "skips cs (snd (lex_fraction cs))"
  by (cases cs) (auto simp: lex_fraction_def Let_def neutral_char_def QUOTE_MARK_def intro!: skips_Cons skips_digits)

lemma skips_exponent: "skips cs (snd (lex_exponent cs))"
proof (cases cs)
  case (Cons c r)
  have sign: "skips r (dropWhile is_digit (drop 1 r))" if "case r of s # _ \<Rightarrow> s \<in> {CHR ''+'', CHR ''-''} | [] \<Rightarrow> False"
    using that by (cases r) (auto simp: neutral_char_def QUOTE_MARK_def intro!: skips_Cons skips_digits)
  have e: "c \<in> {CHR ''e'', CHR ''E''} \<Longrightarrow> neutral_char c" by (auto simp: neutral_char_def QUOTE_MARK_def)
  show ?thesis
    using sign skips_digits [of r] e by (auto simp: Cons lex_exponent_def Let_def intro!: skips_Cons)
qed (simp add: lex_exponent_def)

lemma skips_unsigned: "lex_unsigned cs = Some (x, rest) \<Longrightarrow> skips cs rest"
proof -
  assume lex: "lex_unsigned cs = Some (x, rest)"
  define ds where "ds = integer_digits cs"
  obtain f cs' where f: "lex_fraction (drop (length ds) cs) = (f, cs')" by fastforce
  obtain g r where g: "lex_exponent cs' = (g, r)" by fastforce
  from lex f g have "rest = r" by (auto simp: lex_unsigned_def ds_def [symmetric] split: if_splits)
  moreover have "skips cs (drop (length ds) cs)"
  proof (cases cs)
    case (Cons c cr)
    have "takeWhile is_digit cs @ drop (length (takeWhile is_digit cs)) cs = cs"
      by (metis append_eq_conv_conj takeWhile_dropWhile_id)
    then have "skips cs (drop (length (takeWhile is_digit cs)) cs)"
      using digits_neutral [of cs] unfolding skips_def by metis
    moreover have "skips cs (drop 1 cs)" if "c = CHR ''0''"
      using that by (auto simp: Cons neutral_char_def QUOTE_MARK_def intro: skips_Cons)
    ultimately show ?thesis by (simp add: Cons ds_def integer_digits_def)
  qed (simp add: ds_def)
  moreover have "skips (drop (length ds) cs) cs'" using skips_fraction [of "drop (length ds) cs"] f by simp
  moreover have "skips cs' r" using skips_exponent [of cs'] g by simp
  ultimately show ?thesis by (meson skips_trans)
qed

lemma skips_number: "lex_number cs = Some (x, rest) \<Longrightarrow> skips cs rest"
proof (cases cs)
  case (Cons c r)
  assume lex: "lex_number cs = Some (x, rest)"
  have minus: "neutral_char (CHR ''-'')" by (simp add: neutral_char_def QUOTE_MARK_def)
  show ?thesis
  proof (cases "c = CHR ''-''")
    case True
    with lex Cons obtain y where "lex_unsigned r = Some (y, rest)" by (auto simp: lex_number_def)
    with skips_unsigned skips_Cons [OF minus] show ?thesis by (simp add: Cons True)
  next
    case False
    with lex Cons have "lex_unsigned cs = Some (x, rest)" by (simp add: lex_number_def)
    then show ?thesis by (rule skips_unsigned)
  qed
qed (simp add: lex_number_def)

text \<open>The scan of a text is the scan of its tokens.\<close>

lemma has_prefixD: "has_prefix p s \<Longrightarrow> s = p @ drop (length p) s"
  by (metis has_prefix_def append_take_drop_id)

lemma depth_punctuation:
  "depth_step (outside d) (CHR ''{'') = outside (depth_token d OpenObject)"
  "depth_step (outside d) (CHR ''['') = outside (depth_token d OpenArray)"
  "depth_step (outside d) (CHR ''}'') = outside (depth_token d CloseObject)"
  "depth_step (outside d) (CHR '']'') = outside (depth_token d CloseArray)"
  by (cases d; simp add: depth_step_def outside_def depth_token_def QUOTE_MARK_def)+

lemma depth_token_other:
  "t \<notin> {OpenObject, OpenArray, CloseObject, CloseArray} \<Longrightarrow> depth_token d t = d"
  by (auto simp: depth_token_def split: option.split)

lemma scan_token:
  assumes "lex_token cs = Some (t, rest)"
  shows "foldl depth_step (outside d) cs = foldl depth_step (outside (depth_token d t)) rest"
proof -
  obtain c r where cs: "cs = c # r" using assms by (cases cs) (auto simp: lex_token_def)
  let ?marks = "[(CHR ''{'', OpenObject), (CHR ''}'', CloseObject), (CHR ''['', OpenArray), (CHR '']'', CloseArray),
               (CHR '':'', Colon), (CHR '','', Comma)]"
  show ?thesis
  proof (cases "map_of ?marks c")
    case (Some x)
    with assms cs have "rest = r" "t = x" by (simp_all add: lex_token_def)
    moreover from Some have "depth_step (outside d) c = outside (depth_token d x)"
      by (auto simp: depth_punctuation depth_token_other depth_step_neutral neutral_char_def QUOTE_MARK_def split: if_splits)
    ultimately show ?thesis by (simp add: cs)
  next
    case None
    have a_word: ?thesis if "has_prefix w cs" "rest = drop (length w) cs" "list_all neutral_char w"
      "t \<notin> {OpenObject, OpenArray, CloseObject, CloseArray}" for w
      by (subst has_prefixD [OF that(1)]) (simp add: that(2) scan_neutral [OF that(3)] depth_token_other [OF that(4)])
    have words: "list_all neutral_char ''true''" "list_all neutral_char ''false''" "list_all neutral_char ''null''"
      by (simp_all add: neutral_char_def QUOTE_MARK_def)
    note chosen = assms [unfolded cs lex_token_def list.case None option.case]
    show ?thesis
    proof (cases "c = QUOTE_MARK")
      case True
      with chosen obtain x where x: "lex_string r = Some (x, rest)" "t = StringToken x" by auto
      have "depth_step (outside d) QUOTE_MARK = (case d of None \<Rightarrow> None | Some n \<Rightarrow> inside n)"
        by (cases d) (simp_all add: outside_def inside_def depth_step_def)
      then show ?thesis
        using scan_string [OF x(1)] by (cases d) (simp_all add: cs True x(2) depth_token_other)
    next
      case False
      note later = chosen [unfolded if_not_P [OF False]]
      consider (true) "has_prefix ''true'' (c # r)" | (false) "\<not> has_prefix ''true'' (c # r)" "has_prefix ''false'' (c # r)"
        | (null) "\<not> has_prefix ''true'' (c # r)" "\<not> has_prefix ''false'' (c # r)" "has_prefix ''null'' (c # r)"
        | (number) "\<not> has_prefix ''true'' (c # r)" "\<not> has_prefix ''false'' (c # r)" "\<not> has_prefix ''null'' (c # r)"
        by blast
      then show ?thesis
      proof cases
        case true
        note at = later [unfolded if_P [OF true(1)] option.inject prod.inject]
        show ?thesis by (rule a_word [of "''true''"]) (use at true words cs in \<open>simp_all add: eval_nat_numeral\<close>)
      next
        case false
        note at = later [unfolded if_not_P [OF false(1)] if_P [OF false(2)] option.inject prod.inject]
        show ?thesis by (rule a_word [of "''false''"]) (use at false words cs in \<open>simp_all add: eval_nat_numeral\<close>)
      next
        case null
        note at = later [unfolded if_not_P [OF null(1)] if_not_P [OF null(2)] if_P [OF null(3)] option.inject prod.inject]
        show ?thesis by (rule a_word [of "''null''"]) (use at null words cs in \<open>simp_all add: eval_nat_numeral\<close>)
      next
        case number
        with later obtain x where "lex_number cs = Some (x, rest)" "t = NumberToken x" by (auto simp: cs)
        then show ?thesis using skips_scan [OF skips_number] by (simp add: depth_token_other)
      qed
    qed
  qed
qed

lemma blank_neutral: "json_blank c \<Longrightarrow> neutral_char c"
  by (auto simp: json_blank_def neutral_char_def code_def QUOTE_MARK_def)

lemma scan_text: "json_lex cs = Some ts \<Longrightarrow> foldl depth_step (outside d) cs = outside (foldl depth_token d ts)"
proof (induction cs arbitrary: ts d rule: json_lex.induct)
  case (1 cs)
  have blanks: "list_all neutral_char (takeWhile json_blank cs)"
    by (auto simp: list_all_iff blank_neutral dest: set_takeWhileD)
  have skip: "foldl depth_step (outside d) cs = foldl depth_step (outside d) (dropWhile json_blank cs)"
    by (metis blanks foldl_append scan_neutral takeWhile_dropWhile_id)
  show ?case
  proof (cases "dropWhile json_blank cs")
    case Nil
    with "1.prems" have "ts = []" by (simp add: json_lex.simps [of cs])
    with Nil show ?thesis by (subst skip) (simp only: foldl_Nil)
  next
    case (Cons c r)
    with "1.prems" obtain t rest ts' where t: "lex_token (c # r) = Some (t, rest)" "json_lex rest = Some ts'" "ts = t # ts'"
      by (subst (asm) json_lex.simps) (auto split: option.splits)
    with "1.IH" [OF Cons t(1) refl t(2)] scan_token [OF t(1), of d] show ?thesis
      by (subst skip) (simp add: Cons)
  qed
qed

text \<open>
  The parser's stack is as high as the scan's depth, and the values that are complete in its
  frames are shallow enough for their place.
\<close>

fun frame_values :: "json_frame \<Rightarrow> json list" where
  "frame_values (ArrayFrame vs) = vs"
| "frame_values (ObjectFrame ps _) = map snd ps"

fun shallow :: "json_frame list \<Rightarrow> bool" where
  "shallow [] \<longleftrightarrow> True"
| "shallow (f # fs) \<longleftrightarrow> list_all (\<lambda>v. json_depth v + length fs < 16) (frame_values f) \<and> shallow fs"

definition depth_inv :: "json_frame list \<times> json_mode \<Rightarrow> int \<Rightarrow> bool" where
  "depth_inv state d \<longleftrightarrow>
     d = int (length (fst state)) \<and> length (fst state) \<le> 16 \<and> shallow (fst state) \<and>
     (case snd state of Parsed v \<Rightarrow> json_depth v \<le> 16 | _ \<Rightarrow> True)"

lemma depth_invI:
  "length st \<le> 16 \<Longrightarrow> shallow st \<Longrightarrow> (\<And>v. m = Parsed v \<Longrightarrow> json_depth v \<le> 16) \<Longrightarrow> d = int (length st) \<Longrightarrow>
     depth_inv (st, m) d"
  by (simp add: depth_inv_def split: json_mode.split)

lemma foldr_max_le: "foldr max xs 0 \<le> (n::nat) \<longleftrightarrow> list_all (\<lambda>x. x \<le> n) xs"
  by (induction xs) auto

lemma set_property_values: "set (map snd (set_property k v ps)) \<subseteq> insert v (set (map snd ps))"
  by (auto simp: set_property_def dest: set_takeWhileD set_dropWhileD split: if_splits)

lemma complete_value_inv:
  assumes "json_depth v + length st \<le> 16" "shallow st"
  shows "depth_inv (complete_value st v) (int (length st))"
proof (cases st)
  case Nil
  with assms show ?thesis by (simp add: complete_value_def depth_inv_def)
next
  case (Cons f fs)
  show ?thesis
  proof (cases f)
    case (ArrayFrame vs)
    with assms Cons show ?thesis by (auto simp: complete_value_def intro!: depth_invI)
  next
    case (ObjectFrame ps k)
    let ?ps = "set_property (case k of Some x \<Rightarrow> x | None \<Rightarrow> []) v ps"
    have "json_depth w + length fs < 16" if "w \<in> set (map snd ?ps)" for w
    proof -
      from that set_property_values have "w \<in> insert v (set (map snd ps))" by (rule set_mp [rotated])
      with assms show ?thesis by (auto simp: Cons ObjectFrame list_all_iff)
    qed
    then have "list_all (\<lambda>w. json_depth w + length fs < 16) (map snd ?ps)" unfolding list_all_iff by blast
    with assms Cons ObjectFrame show ?thesis by (simp add: complete_value_def depth_inv_def)
  qed
qed

lemma start_value_inv:
  assumes "start_value st t = Some state" "depth_token (Some (int (length st))) t = Some d" "length st \<le> 16" "shallow st"
  shows "depth_inv state d"
proof (cases "t = OpenObject \<or> t = OpenArray")
  case True
  with assms show ?thesis
    by (auto simp: start_value_def depth_token_def TASK_MAX_JSON_DEPTH_def intro!: depth_invI split: if_splits)
next
  case False
  with assms obtain v where v: "state = complete_value st v" "json_depth v = 0" "t \<noteq> CloseObject" "t \<noteq> CloseArray"
    by (auto simp: start_value_def split: json_token.splits)
  with False assms(2) have "d = int (length st)" by (simp add: depth_token_def)
  with v assms complete_value_inv [of v st] show ?thesis by simp
qed

lemma close_container_inv:
  assumes "close_container st t = Some state" "depth_token (Some (int (length st))) t = Some d" "length st \<le> 16" "shallow st"
  shows "depth_inv state d"
proof -
  from assms(1) obtain f fs v where st: "st = f # fs" "state = complete_value fs v" "t = CloseArray \<or> t = CloseObject"
    "json_depth v = Suc (foldr max (map json_depth (frame_values f)) 0)"
    by (auto simp: close_container_def comp_def case_prod_unfold split: json_token.splits list.splits json_frame.splits)
  have "foldr max (map json_depth (frame_values f)) 0 \<le> 15 - length fs"
    using assms(3,4) by (simp add: st(1) foldr_max_le list_all_iff) (auto simp: less_diff_conv2 Suc_le_eq intro: add_le_imp_le_diff)
  with st(4) assms(3) have "json_depth v + length fs \<le> 16" by (simp add: st(1))
  moreover from assms(2) st have "d = int (length fs)" by (auto simp: depth_token_def)
  ultimately show ?thesis using assms(4) complete_value_inv [of v fs] by (simp add: st)
qed

lemma want_key_inv:
  assumes "want_key st t = Some state" "depth_token (Some (int (length st))) t = Some d" "length st \<le> 16" "shallow st"
  shows "depth_inv state d"
  using assms
  by (auto simp: want_key_def depth_token_other intro!: depth_invI split: json_token.splits list.splits json_frame.splits)

lemma parse_token_inv:
  assumes "parse_token (Some state) t = Some state'" "depth_token (Some d) t = Some d'" "depth_inv state d"
  shows "depth_inv state' d'"
proof -
  obtain st m where state: "state = (st, m)" by (cases state)
  from assms(3) have inv: "d = int (length st)" "length st \<le> 16" "shallow st" by (simp_all add: state depth_inv_def)
  note step = assms(1,2) [unfolded state inv(1)]
  have colon: "depth_inv (st, WantValue) d'" if "t = Colon"
    using that step(2) inv by (simp add: depth_token_other depth_inv_def)
  have comma: "depth_inv (st, m) d'" if "t = Comma" "m = WantValue \<or> m = WantKey" for m
    using that step(2) inv by (auto simp: depth_token_other depth_inv_def)
  show ?thesis
    using step(1) start_value_inv [OF _ step(2) inv(2,3)] close_container_inv [OF _ step(2) inv(2,3)]
      want_key_inv [OF _ step(2) inv(2,3)] colon comma
    by (auto simp: parse_token_def split: json_mode.splits if_splits list.splits json_frame.splits)
qed

lemma parse_tokens_inv:
  "foldl parse_token (Some state) ts = Some state' \<Longrightarrow> foldl depth_token (Some d) ts = Some d' \<Longrightarrow> depth_inv state d \<Longrightarrow>
     depth_inv state' d'"
proof (induction ts arbitrary: state d)
  case (Cons t ts)
  obtain mid where mid: "parse_token (Some state) t = Some mid"
  proof (cases "parse_token (Some state) t")
    case None
    have "foldl parse_token None ts = None" for ts by (induction ts) (simp_all add: parse_token_def)
    with None Cons.prems(1) show thesis by simp
  qed
  obtain e where e: "depth_token (Some d) t = Some e" using Cons.prems(2) by (cases "depth_token (Some d) t") simp_all
  from Cons.IH [of mid e] parse_token_inv [OF mid e Cons.prems(3)] Cons.prems(1,2) mid e show ?case by simp
qed simp

lemma scan_start_outside: "Some scan_start = outside (Some 0)"
  by (simp add: scan_start_def outside_def)

lemma depth_check_bounds_nesting:
  assumes "taskJsonDepthValid body" "json_parse body = Some v"
  shows "json_depth v \<le> 16"
proof -
  from assms(2) obtain ts where ts: "json_lex body = Some ts" "foldl parse_token (Some ([], WantValue)) ts = Some ([], Parsed v)"
    by (auto simp: json_parse_def split: option.splits list.splits json_mode.splits)
  from assms(1) obtain d where "foldl depth_token (Some 0) ts = Some d"
    using scan_text [OF ts(1), of "Some 0"]
    by (auto simp: taskJsonDepthValid_def scan_start_outside outside_def)
  from parse_tokens_inv [OF ts(2) this] show ?thesis by (simp add: depth_inv_def)
qed

end
