(* ===== verification/Task_Roundtrip.thy ===== *)
theory Task_Roundtrip
  imports Task_Limits
begin

text \<open>
  Whatever the parser of task blobs returns obeys the limits of the firmware, and a blob that is
  built from a script reads back as the script's requests exactly when the script is within
  these limits.
\<close>

subsection \<open>Limits of what is parsed\<close>

text \<open>Characters that may stand in the name of a rail, a pin or a switch.\<close>

definition identifier_char :: "char \<Rightarrow> bool" where
  "identifier_char c \<longleftrightarrow> 32 < code c \<and> code c < 127 \<and>
     c \<notin> {CHR ''/'', BACK_SLASH, CHR ''%'', CHR ''?'', CHR ''#''}"

definition control_path :: "string \<Rightarrow> bool" where
  "control_path path \<longleftrightarrow> taskByteLength path \<le> 96 \<and>
     (\<exists>kind \<in> {''power'', ''gpio'', ''switch''}. \<exists>name.
        path = ''/api/v1/'' @ kind @ ''/'' @ name \<and> name \<notin> {[], ''.'', ''..''} \<and> list_all identifier_char name)"

lemma has_prefix_append [simp]: "has_prefix p (p @ s)"
  by (simp add: has_prefix_def)

lemma prefix_found:
  assumes "pre \<in> set ALLOWED_PATH_PREFIXES"
  shows "find (\<lambda>candidate. has_prefix candidate (pre @ name)) ALLOWED_PATH_PREFIXES = Some pre"
  using assms unfolding ALLOWED_PATH_PREFIXES_def list.set insert_iff empty_iff
  by (elim disjE) (simp_all add: has_prefix_def)

lemma control_path_iff: "isTaskControlPath path \<longleftrightarrow> control_path path"
proof -
  have name: "(\<not> list_ex (\<lambda>c. code c \<le> 32 \<or> 127 \<le> code c \<or> c \<in> {CHR ''/'', BACK_SLASH, CHR ''%'', CHR ''?'', CHR ''#''}) n)
      \<longleftrightarrow> list_all identifier_char n" for n
    by (auto simp: list_ex_iff list_all_iff identifier_char_def not_le)
  have "isTaskControlPath path \<longleftrightarrow> taskByteLength path \<le> 96 \<and>
     (\<exists>pre \<in> set ALLOWED_PATH_PREFIXES. \<exists>n. path = pre @ n \<and> n \<notin> {[], ''.'', ''..''} \<and> list_all identifier_char n)"
    (is "_ \<longleftrightarrow> _ \<and> ?found")
  proof (cases "find (\<lambda>candidate. has_prefix candidate path) ALLOWED_PATH_PREFIXES")
    case None
    then have "\<not> ?found" by (auto simp: find_None_iff)
    with None show ?thesis by (simp add: isTaskControlPath_def)
  next
    case (Some pre)
    then have pre: "pre \<in> set ALLOWED_PATH_PREFIXES" "has_prefix pre path" by (auto simp: find_Some_iff)
    define n where "n = drop (length pre) path"
    have path: "path = pre @ n" using has_prefixD [OF pre(2)] by (simp add: n_def)
    have "pre' = pre" if "pre' \<in> set ALLOWED_PATH_PREFIXES" "path = pre' @ m" for pre' m
      using prefix_found [OF that(1), of m] Some by (simp add: that(2) [symmetric])
    then have "?found \<longleftrightarrow> n \<notin> {[], ''.'', ''..''} \<and> list_all identifier_char n"
      using pre(1) path by (metis same_append_eq)
    moreover have "isTaskControlPath path \<longleftrightarrow> taskByteLength path \<le> 96 \<and> n \<notin> {[], ''.'', ''..''} \<and> list_all identifier_char n"
      unfolding isTaskControlPath_def Some option.case Let_def n_def [symmetric] name
      by (simp add: TASK_PATH_MAX_BYTES_def not_less)
    ultimately show ?thesis by simp
  qed
  moreover have "?found \<longleftrightarrow> (\<exists>kind \<in> {''power'', ''gpio'', ''switch''}. \<exists>n.
        path = ''/api/v1/'' @ kind @ ''/'' @ n \<and> n \<notin> {[], ''.'', ''..''} \<and> list_all identifier_char n)"
    by (simp add: ALLOWED_PATH_PREFIXES_def)
  ultimately show ?thesis unfolding control_path_def by blast
qed

definition wait_allowed :: "jsnum option \<Rightarrow> bool" where
  "wait_allowed wait \<longleftrightarrow> (case wait of None \<Rightarrow> True | Some w \<Rightarrow> \<exists>n \<le> 60000. w = Fin (of_nat n))"

definition firmware_request :: "TaskRequest \<Rightarrow> bool" where
  "firmware_request r \<longleftrightarrow> control_path (reqPath r) \<and> taskByteLength (reqBody r) \<le> 192 \<and>
     (\<exists>v. json_parse (reqBody r) = Some v \<and> json_depth v \<le> 16) \<and> wait_allowed (reqWait r)"

definition firmware_id :: "string \<Rightarrow> bool" where
  "firmware_id i \<longleftrightarrow> i \<noteq> [] \<and> taskByteLength i \<le> 31 \<and> set i \<inter> {CHR '' '', CHR 0x09, CHR 0x0D, CHR 0x0A, CHR ''#''} = {}"

definition firmware_task :: "ParsedTask \<Rightarrow> bool" where
  "firmware_task t \<longleftrightarrow> firmware_id (taskId t) \<and> length (taskRequests t) \<le> 32 \<and> list_all firmware_request (taskRequests t)"

lemma integer_wait: "(isInteger w \<and> \<not> js_lt w (Fin 0) \<and> \<not> js_lt (Fin TASK_MAX_WAIT_MS) w) \<longleftrightarrow> wait_allowed (Some w)"
proof (cases w)
  case (Fin q)
  have "(of_int \<lfloor>q\<rfloor> = q \<and> 0 \<le> q \<and> q \<le> 60000) \<longleftrightarrow> (\<exists>n \<le> 60000. q = of_nat n)"
  proof
    assume q: "of_int \<lfloor>q\<rfloor> = q \<and> 0 \<le> q \<and> q \<le> 60000"
    define k where "k = \<lfloor>q\<rfloor>"
    have k: "q = of_int k" unfolding k_def using q by (rule sym [OF conjunct1])
    with q have "(of_int 0 :: rat) \<le> of_int k" "of_int k \<le> (of_int 60000 :: rat)" by simp_all
    then have "0 \<le> k" "k \<le> 60000" by (simp_all only: of_int_le_iff)
    with k have "nat k \<le> 60000" "q = of_nat (nat k)" by simp_all
    then show "\<exists>n \<le> 60000. q = of_nat n" by blast
  next
    assume "\<exists>n \<le> 60000. q = of_nat n"
    then obtain n :: nat where "n \<le> 60000" "q = of_nat n" by blast
    moreover from this have "(of_nat n :: rat) \<le> of_nat 60000" by (simp only: of_nat_le_iff)
    ultimately show "of_int \<lfloor>q\<rfloor> = q \<and> 0 \<le> q \<and> q \<le> 60000" by simp
  qed
  then show ?thesis by (auto simp: Fin wait_allowed_def TASK_MAX_WAIT_MS_def not_less Ints_def)
qed (auto simp: wait_allowed_def)

lemma parse_wait_iff: "parse_wait entry fault = Inr w \<longleftrightarrow>
    (case json_get ''wait_ms'' entry of None \<Rightarrow> w = None | Some (JNum x) \<Rightarrow> w = Some x \<and> wait_allowed w | Some _ \<Rightarrow> False)"
  by (auto simp: parse_wait_def guardR_Inr_iff integer_wait split: option.split json.split)

lemma parse_wait_allowed: "parse_wait entry fault = Inr w \<Longrightarrow> wait_allowed w"
  by (auto simp: parse_wait_iff wait_allowed_def split: option.splits json.splits)

lemma parsed_line_obeys:
  assumes "parseRequestLine line = Inr r"
  shows "firmware_request r"
proof -
  from assms obtain entry path body wait v where e: "isTaskControlPath path" "taskByteLength body \<le> 192"
    "json_parse body = Some v" "taskJsonDepthValid body" "parse_wait entry (invalid_blob WaitOutOfRange) = Inr wait"
    "r = \<lparr>reqPath = path, reqBody = body, reqWait = wait\<rparr>"
    by (auto simp: parseRequestLine_def guardR_Inr_iff bindR_Inr_iff TASK_BODY_MAX_BYTES_def split: option.splits)
  with depth_check_bounds_nesting [OF e(4,3)] parse_wait_allowed [OF e(5)] show ?thesis
    by (auto simp: firmware_request_def control_path_iff)
qed

lemma taskIdValid_iff: "taskIdValid i \<longleftrightarrow> firmware_id i"
proof -
  have "taskByteLength i = 0 \<longleftrightarrow> i = []" by (cases i) (auto simp: taskByteLength_def utf8_bytes_def)
  moreover define S where "S = {CHR '' '', CHR 0x09, CHR 0x0D, CHR 0x0A, CHR ''#''}"
  have "id_separator c \<longleftrightarrow> c \<in> S" for c
  proof -
    have literals: "code (CHR '' '') = 32" "code (CHR 0x09) = 9" "code (CHR 0x0D) = 13" "code (CHR 0x0A) = 10" "code (CHR ''#'') = 35"
      by (simp_all add: code_def)
    have "code c = n \<longleftrightarrow> c = d" if "code d = n" for d n using that by (metis char_of_code)
    note same = literals [THEN this]
    show ?thesis unfolding S_def id_separator_def insert_iff same empty_iff by blast
  qed
  then have "list_ex id_separator i \<longleftrightarrow> set i \<inter> S \<noteq> {}" by (auto simp: list_ex_iff)
  ultimately show ?thesis
    unfolding taskIdValid_def firmware_id_def S_def [symmetric] TASK_ID_MAX_BYTES_def by (simp add: not_less)
qed

definition tasks_obey :: "ParsedTask list \<Rightarrow> bool" where
  "tasks_obey tasks \<longleftrightarrow> length tasks \<le> 4 \<and> distinct (map taskId tasks) \<and> list_all firmware_task tasks"

lemma push_request_obeys:
  assumes "tasks_obey tasks" "tasks \<noteq> []" "length (taskRequests (last tasks)) < 32" "firmware_request r"
  shows "tasks_obey (push_request r tasks)"
proof -
  obtain ts t where tasks: "tasks = ts @ [t]" using assms(2) by (metis rev_exhaust)
  with assms show ?thesis by (simp add: tasks_obey_def push_request_def firmware_task_def)
qed

lemma parse_line_obeys:
  assumes "parse_line st l = Inr st'" "tasks_obey (blobTasks st)"
  shows "tasks_obey (blobTasks st')"
  using assms push_request_obeys [OF assms(2)]
  by (auto simp: parse_line_def Let_def guardR_Inr_iff bindR_Inr_iff TASK_MAX_TASKS_def TASK_MAX_REQUESTS_def
      taskIdValid_iff tasks_obey_def firmware_task_def list_ex_iff dest: parsed_line_obeys split: if_splits) blast

lemma parse_lines_obey: "foldR parse_line st ls = Inr st' \<Longrightarrow> tasks_obey (blobTasks st) \<Longrightarrow> tasks_obey (blobTasks st')"
  by (induction ls arbitrary: st) (auto simp: bindR_Inr_iff dest: parse_line_obeys)

text \<open>
  C29: Whatever text the parser accepts, the tasks it returns are within the limits of the
  firmware: at most four tasks with distinct ids of one to 31 bytes without blanks and \<open>#\<close>, each
  with at most 32 requests, each to the path of a rail, a pin or a switch (one name behind the
  prefix, without separators or escapes), with a JSON body of at most 192 bytes whose value is
  nested at most 16 deep, and with a wait that is a whole number of at most 60000 ms.
\<close>

theorem parsed_tasks_obey_firmware:
  assumes "parseTaskBlob blob = Inr tasks"
  shows "length tasks \<le> 4 \<and> distinct (map taskId tasks) \<and> list_all firmware_task tasks"
  using assms parse_lines_obey [of "\<lparr>blobTasks = [], markerSeen = False\<rparr>" "split_lines blob"]
  by (auto simp: parseTaskBlob_def guardR_Inr_iff bindR_Inr_iff tasks_obey_def split: if_splits)

subsection \<open>A blob that is built is read back\<close>

lemma split_lines_line: "NEW_LINE \<notin> set l \<Longrightarrow> split_lines (l @ NEW_LINE # rest) = l # split_lines rest"
  by (induction l) auto

lemma split_lines_joined:
  "list_all (\<lambda>l. NEW_LINE \<notin> set l) ls \<Longrightarrow>
     split_lines (join_with [NEW_LINE] ls @ [NEW_LINE]) = (if ls = [] then [[]] else ls) @ [[]]"
  by (induction ls rule: induct_list012) (simp_all add: split_lines_line)

lemma digits_no_new_line: "NEW_LINE \<notin> set (string_of_int n)"
proof -
  have "\<not> is_digit NEW_LINE" by (simp add: NEW_LINE_def is_digit_def code_def)
  moreover have "list_all is_digit (string_of_nat m)" for m using string_of_nat_digits [of m] by (simp add: list_all_iff)
  ultimately have "NEW_LINE \<notin> set (string_of_nat m)" for m by (auto simp: list_all_iff)
  then show ?thesis by (simp add: string_of_int_def NEW_LINE_def)
qed

lemma escape_no_new_line: "NEW_LINE \<notin> set (escape_char c)"
proof -
  have hex: "lower_hex n \<noteq> NEW_LINE" if "n < 16" for n
  proof
    assume "lower_hex n = NEW_LINE"
    then have "code (lower_hex n) = code NEW_LINE" by simp
    with that show False by (simp add: lower_hex_def NEW_LINE_def code_def split: if_splits)
  qed
  have "code c < 256" by (simp add: code_def)
  then have "code c div 16 < 16" by simp
  from hex [OF this] hex [of "code c mod 16"]
  have "lower_hex (code c div 16) \<noteq> CHR 0x0A" "lower_hex (code c mod 16) \<noteq> CHR 0x0A" by (simp_all add: NEW_LINE_def)
  then show ?thesis
    by (auto simp: escape_char_def NEW_LINE_def QUOTE_MARK_def BACK_SLASH_def split: option.splits if_splits)
qed

lemma join_with_set: "set (join_with sep ss) \<subseteq> set sep \<union> (\<Union>s \<in> set ss. set s)"
  by (induction ss rule: induct_list012) auto

lemma string_text_no_new_line: "NEW_LINE \<notin> set (string_text s)"
proof -
  have "NEW_LINE \<noteq> QUOTE_MARK" by (simp add: NEW_LINE_def QUOTE_MARK_def)
  then show ?thesis by (simp add: string_text_def escape_no_new_line)
qed

text \<open>The text of a request: strings and one integer.\<close>

definition simple_value :: "json \<Rightarrow> bool" where
  "simple_value v \<longleftrightarrow> (case v of JStr _ \<Rightarrow> True | JNum (Fin q) \<Rightarrow> of_int \<lfloor>q\<rfloor> = q \<and> \<bar>q\<bar> < 10 ^ 21 | _ \<Rightarrow> False)"

lemma simple_text:
  assumes "simple_value v"
  obtains s where "v = JStr s" "json_text d v = string_text s"
    | n where "v = JNum (Fin (of_int n))" "json_text d v = string_of_int n"
proof (cases v)
  case (JNum x)
  with assms obtain q where q: "x = Fin q" "of_int \<lfloor>q\<rfloor> = q" "\<bar>q\<bar> < 10 ^ 21"
    by (cases x) (auto simp: simple_value_def)
  then have "json_text d v = string_of_int \<lfloor>q\<rfloor>" by (simp add: JNum number_text_def)
  moreover have "v = JNum (Fin (of_int \<lfloor>q\<rfloor>))" using q by (simp only: JNum)
  ultimately show thesis by (rule that(2) [rotated])
next
  case (JStr s)
  with that(1) [of s] show thesis by simp
qed (use assms in \<open>simp_all add: simple_value_def\<close>)

lemma simple_exact: "simple_value v \<Longrightarrow> json_exact v"
  by (auto simp: simple_value_def split: json.splits jsnum.splits)

lemma simple_no_new_line: "simple_value v \<Longrightarrow> NEW_LINE \<notin> set (json_text d v)"
  by (erule simple_text [of _ d]) (simp_all add: string_text_no_new_line digits_no_new_line)

definition member_text :: "(rat \<Rightarrow> string) \<Rightarrow> string \<times> json \<Rightarrow> string" where
  "member_text d p = string_text (fst p) @ '':'' @ json_text d (snd p)"

lemma object_text: "json_text d (JObj ps) = ''{'' @ join_with '','' (map (member_text d) ps) @ ''}''"
  by (simp add: member_text_def case_prod_unfold cong: map_cong)

lemma object_no_new_line:
  assumes "list_all (\<lambda>(_, v). simple_value v) ps"
  shows "NEW_LINE \<notin> set (json_text d (JObj ps))"
proof -
  have "NEW_LINE \<notin> set (member_text d p)" if "p \<in> set ps" for p
    using assms that simple_no_new_line [of "snd p" d]
    by (auto simp: member_text_def list_all_iff string_text_no_new_line) (simp_all add: NEW_LINE_def)
  then have "NEW_LINE \<notin> set (join_with '','' (map (member_text d) ps))"
    using join_with_set [of "'',''" "map (member_text d) ps"] by (auto simp: NEW_LINE_def)
  then show ?thesis unfolding object_text by (simp add: NEW_LINE_def)
qed

text \<open>The keys of an object of such values.\<close>

lemma quoted_end_text: "quoted_end (concat (map escape_char s) @ QUOTE_MARK # r) = (concat (map escape_char s) @ [QUOTE_MARK], r)"
proof (induction s)
  case (Cons c s)
  have "quoted_end (escape_char c @ x) = apfst ((@) (escape_char c)) (quoted_end x)" for x
  proof (cases "map_of [(QUOTE_MARK, QUOTE_MARK), (BACK_SLASH, BACK_SLASH), (CHR 0x08, CHR ''b''), (CHR 0x0C, CHR ''f''),
      (CHR 0x0A, CHR ''n''), (CHR 0x0D, CHR ''r''), (CHR 0x09, CHR ''t'')] c")
    case (Some e)
    then have "escape_char c = [BACK_SLASH, e]" by (simp add: escape_char_def)
    then show ?thesis by (cases "quoted_end x") simp
  next
    case None
    then have c: "c \<noteq> QUOTE_MARK" "c \<noteq> BACK_SLASH" by (auto split: if_splits)
    show ?thesis
    proof (cases "code c < 32")
      case True
      have hex: "lower_hex n \<noteq> QUOTE_MARK" "lower_hex n \<noteq> BACK_SLASH" if "n < 16" for n
        using hex_value_plain [of "lower_hex n"] hex_value_lower [OF that] by simp_all
      have bounds: "code c div 16 < 16" "code c mod 16 < 16" using True by simp_all
      have "escape_char c = BACK_SLASH # ''u00'' @ [lower_hex (code c div 16), lower_hex (code c mod 16)]"
        using None True by (simp add: escape_char_def)
      with hex [OF bounds(1)] hex [OF bounds(2)] show ?thesis
        by (cases "quoted_end x") (simp add: QUOTE_MARK_def BACK_SLASH_def)
    next
      case False
      with None have "escape_char c = [c]" by (simp add: escape_char_def)
      with c show ?thesis by (cases "quoted_end x") simp
    qed
  qed
  with Cons show ?case by simp
qed simp

lemma decode_key: "decodedString (string_text k) = Inr k"
  using json_parse_text [of "JStr k" "\<lambda>_. []"] by (simp add: decodedString_def)

lemma keys_after_key:
  "top_level_keys 1 (string_text k @ '':'' @ r) = bindR (top_level_keys 1 ('':'' @ r)) (\<lambda>keys. Inr (k # keys))"
proof -
  have "\<not> js_space (CHR '':'')" by (simp add: js_space_def)
  with decode_key [of k] show ?thesis
    by (simp add: string_text_def quoted_end_text)
qed

lemma keys_after_string:
  "c = CHR '','' \<or> c = CHR ''}'' \<Longrightarrow> top_level_keys 1 (string_text s @ c # r) = top_level_keys 1 (c # r)"
  by (auto simp: string_text_def quoted_end_text js_space_def simp del: top_level_keys.simps(2)
      simp: top_level_keys.simps(2) [of 1 QUOTE_MARK])

lemma keys_skip: "neutral_char c \<Longrightarrow> top_level_keys d (c # r) = top_level_keys d r"
  by (simp add: neutral_char_def)

lemma keys_after_number: "top_level_keys d (string_of_int n @ r) = top_level_keys d r"
proof -
  have "is_digit c \<Longrightarrow> neutral_char c" for c
    by (auto simp: neutral_char_def is_digit_def code_def QUOTE_MARK_def)
  then have "list_all neutral_char (string_of_nat m)" for m
    using string_of_nat_digits [of m] by (simp add: list_all_iff)
  then have "list_all neutral_char (string_of_int n)"
    by (simp add: string_of_int_def) (simp add: neutral_char_def QUOTE_MARK_def)
  moreover have "list_all neutral_char cs \<Longrightarrow> top_level_keys d (cs @ r) = top_level_keys d r" for cs
    by (induction cs) (simp_all add: keys_skip del: top_level_keys.simps)
  ultimately show ?thesis by blast
qed

lemma keys_after_value:
  "simple_value v \<Longrightarrow> c = CHR '','' \<or> c = CHR ''}'' \<Longrightarrow>
     top_level_keys 1 (json_text d v @ c # r) = top_level_keys 1 (c # r)"
  by (erule simple_text [of _ d]) (simp_all add: keys_after_string keys_after_number del: top_level_keys.simps)

lemma keys_after_member:
  assumes "simple_value (snd p)" "c = CHR '','' \<or> c = CHR ''}''"
  shows "top_level_keys 1 (member_text d p @ c # r) = bindR (top_level_keys 1 (c # r)) (\<lambda>keys. Inr (fst p # keys))"
proof -
  have "neutral_char (CHR '':'')" by (simp add: neutral_char_def QUOTE_MARK_def)
  then show ?thesis
    using keys_after_key [of "fst p" "json_text d (snd p) @ c # r"] keys_after_value [OF assms]
    by (simp add: member_text_def keys_skip del: top_level_keys.simps)
qed

lemma keys_of_members:
  assumes "list_all (\<lambda>(_, v). simple_value v) ps"
  shows "top_level_keys 1 (join_with '','' (map (member_text d) ps) @ ''}'') = Inr (map fst ps)"
  using assms
proof (induction ps rule: induct_list012)
  case 1
  show ?case by (simp add: QUOTE_MARK_def)
next
  case (2 p)
  have "top_level_keys 1 ''}'' = Inr []" by (simp add: QUOTE_MARK_def)
  with 2 keys_after_member [of p "CHR ''}''" d "[]"] show ?case
    by (auto simp: case_prod_unfold simp del: top_level_keys.simps)
next
  case (3 p q ps)
  have "neutral_char (CHR '','')" by (simp add: neutral_char_def QUOTE_MARK_def)
  with 3(2-) keys_after_member [of p "CHR '',''" d "join_with '','' (map (member_text d) (q # ps)) @ ''}''"]
  show ?case by (simp add: case_prod_unfold keys_skip del: top_level_keys.simps)
qed

lemma keys_of_object:
  assumes "list_all (\<lambda>(_, v). simple_value v) ps"
  shows "topLevelKeys (json_text d (JObj ps)) = Inr (map fst ps)"
  unfolding topLevelKeys_def object_text using keys_of_members [OF assms, of d]
  by (simp add: QUOTE_MARK_def)

text \<open>A printed object of such values passes the depth check.\<close>

definition member_tokens :: "string \<times> json \<Rightarrow> json_token list" where
  "member_tokens p = StringToken (fst p) # Colon # json_tokens (snd p)"

lemma object_tokens: "json_tokens (JObj ps) = OpenObject # join_with [Comma] (map member_tokens ps) @ [CloseObject]"
  by (simp add: member_tokens_def case_prod_unfold cong: map_cong)

lemma simple_object_depth:
  assumes "list_all (\<lambda>(_, v). simple_value v) ps"
  shows "foldl depth_token (Some 0) (json_tokens (JObj ps)) = Some 0"
proof -
  have "foldl depth_token d (member_tokens p) = d" if "simple_value (snd p)" for d p
    by (rule simple_text [OF that, of undefined]) (simp_all add: member_tokens_def depth_token_other)
  then have "foldl depth_token d (join_with [Comma] (map member_tokens ps)) = d" for d
    using assms by (induction ps rule: induct_list012) (simp_all add: case_prod_unfold depth_token_other)
  then show ?thesis unfolding object_tokens by (simp add: depth_token_def TASK_MAX_JSON_DEPTH_def)
qed

lemma printed_depth_valid:
  assumes "json_exact (JObj ps)" "list_all (\<lambda>(_, v). simple_value v) ps"
  shows "taskJsonDepthValid (json_text d (JObj ps))"
proof -
  have "json_lex (json_text d (JObj ps) @ []) = map_option ((@) (json_tokens (JObj ps))) (json_lex [])"
    by (rule lex_json_text [OF assms(1)]) (simp add: number_ends_def)
  then have "json_lex (json_text d (JObj ps)) = Some (json_tokens (JObj ps))" by simp
  from scan_text [OF this, of "Some 0"]
  show ?thesis unfolding taskJsonDepthValid_def scan_start_outside simple_object_depth [OF assms(2)]
    by (simp add: outside_def)
qed

lemma word_key: "k \<noteq> [] \<Longrightarrow> \<not> is_digit (hd k) \<Longrightarrow> index_key k = None"
  by (cases k) (auto simp: index_key_def)

lemma letters: "\<not> is_digit (CHR ''m'')" "\<not> is_digit (CHR ''p'')" "\<not> is_digit (CHR ''b'')" "\<not> is_digit (CHR ''w'')"
  "\<not> is_digit (CHR ''s'')" "\<not> is_digit (CHR ''d'')" "\<not> is_digit (CHR ''v'')" "\<not> is_digit (CHR ''r'')"
  by (simp_all add: is_digit_def code_def)

lemma words_exact:
  assumes "distinct (map fst ps)" "list_all (\<lambda>(k, v). index_key k = None \<and> simple_value v) ps"
  shows "json_exact (JObj ps)" "list_all (\<lambda>(_, v). simple_value v) ps"
proof -
  have "sorted_wrt (\<lambda>a b. \<not> key_before b a) (map fst ps)"
    using assms(2) by (induction ps) (auto simp: key_before_def list_all_iff)
  then show "json_exact (JObj ps)" using assms by (auto simp: list_all_iff simple_exact)
  show "list_all (\<lambda>(_, v). simple_value v) ps" using assms(2) by (auto simp: list_all_iff)
qed

text \<open>The levels of a pin are 0 and 1.\<close>

definition binary_level :: "ExecutionStep \<Rightarrow> bool" where
  "binary_level step \<longleftrightarrow> (case stepParams (execStep step) of GpioSetParams _ _ (Some n) \<Rightarrow> n \<le> 1 | _ \<Rightarrow> True)"

definition plain_body :: "(rat \<Rightarrow> string) \<Rightarrow> string \<Rightarrow> bool" where
  "plain_body d body \<longleftrightarrow> (\<exists>v. json_parse body = Some v) \<and> taskJsonDepthValid body"

lemma plain_object: "distinct (map fst ps) \<Longrightarrow> list_all (\<lambda>(k, v). index_key k = None \<and> simple_value v) ps \<Longrightarrow>
    plain_body d (json_text d (JObj ps))"
  unfolding plain_body_def using json_parse_text printed_depth_valid words_exact by blast

lemma built_body_plain:
  assumes "stepToRequest d step = Inr (Some r)" "binary_level step"
  shows "plain_body d (reqBody r)"
proof -
  have level: "simple_value (JNum (js_int (int n)))" if "n \<le> 1" for n
    using that by (auto simp: simple_value_def le_Suc_eq)
  from assms obtain path ps where "r = put_request d path ps" "distinct (map fst ps)"
    "list_all (\<lambda>(k, v). index_key k = None \<and> simple_value v) ps"
    by (auto simp: stepToRequest_def guardR_Inr_iff binary_level_def word_key letters level simple_value_def
        split: StepParams.splits option.splits if_splits PinDirection.splits)
  then show ?thesis using plain_object by (simp add: put_request_def)
qed

lemma add_task_step_plain:
  assumes "add_task_step d requests step = Inr requests'" "binary_level step" "list_all (plain_body d \<circ> reqBody) requests"
  shows "list_all (plain_body d \<circ> reqBody) requests'"
proof (cases "\<exists>ms. stepParams (execStep step) = DelayParams ms")
  case True
  then obtain ms where "stepParams (execStep step) = DelayParams ms" ..
  with assms(1) obtain w where "requests' = butlast requests @ [last requests\<lparr>reqWait := Some w\<rparr>]" "requests \<noteq> []"
    by (auto simp: add_task_step_def guardR_Inr_iff Let_def)
  with assms(3) show ?thesis by (auto simp: list_all_iff dest: in_set_butlastD)
next
  case False
  then have "add_task_step d requests step = bindR (stepToRequest d step) (\<lambda>request.
        Inr (case request of Some r \<Rightarrow> requests @ [r] | None \<Rightarrow> requests))"
    by (auto simp: add_task_step_def split: StepParams.split)
  with assms built_body_plain show ?thesis by (fastforce simp: bindR_Inr_iff split: option.splits)
qed

lemma add_task_steps_plain:
  "foldR (add_task_step d) requests plan = Inr requests' \<Longrightarrow> list_all binary_level plan \<Longrightarrow>
     list_all (plain_body d \<circ> reqBody) requests \<Longrightarrow> list_all (plain_body d \<circ> reqBody) requests'"
  by (induction plan arbitrary: requests) (auto simp: bindR_Inr_iff dest: add_task_step_plain)

text \<open>A request within the limits, with the length of its line.\<close>

definition storable :: "(rat \<Rightarrow> string) \<Rightarrow> TaskRequest \<Rightarrow> bool" where
  "storable d r \<longleftrightarrow> control_path (reqPath r) \<and> taskByteLength (reqBody r) \<le> 192 \<and> wait_allowed (reqWait r) \<and>
     taskByteLength (json_text d (request_json r)) \<le> 256"

definition request_members :: "TaskRequest \<Rightarrow> (string \<times> json) list" where
  "request_members r = [(''method'', JStr ''PUT''), (''path'', JStr (reqPath r)), (''body'', JStr (reqBody r))] @
       (case reqWait r of Some w \<Rightarrow> [(''wait_ms'', JNum w)] | None \<Rightarrow> [])"

lemma request_json_members: "request_json r = JObj (request_members r)"
  by (simp add: request_json_def request_members_def)

lemma wait_simple: "wait_allowed (Some w) \<Longrightarrow> simple_value (JNum w)"
  by (auto simp: wait_allowed_def simple_value_def)

lemma members_words:
  assumes "wait_allowed (reqWait r)"
  shows "distinct (map fst (request_members r))" "list_all (\<lambda>(k, v). index_key k = None \<and> simple_value v) (request_members r)"
  using assms wait_simple
  by (cases "reqWait r"; simp add: request_members_def word_key letters simple_value_def)+

lemma request_envelope:
  assumes "wait_allowed (reqWait r)"
  shows "requestEnvelopeValid (json_text d (request_json r)) = Inr True"
  unfolding request_json_members requestEnvelopeValid_def keys_of_object [OF words_exact(2) [OF members_words [OF assms]]]
  by (cases "reqWait r") (simp_all add: request_members_def REQUEST_KEYS_def)

lemma printed_request_parses:
  assumes "storable d r" "plain_body d (reqBody r)"
  shows "parseRequestLine (json_text d (request_json r)) = Inr r"
proof -
  have wait: "wait_allowed (reqWait r)" using assms(1) by (simp add: storable_def)
  have parse: "json_parse (json_text d (request_json r)) = Some (request_json r)"
    unfolding request_json_members by (rule json_parse_text [OF words_exact(1) [OF members_words [OF wait]]])
  have parts: "json_record (Some (request_json r))" "json_get ''method'' (request_json r) = Some (JStr ''PUT'')"
    "json_get ''path'' (request_json r) = Some (JStr (reqPath r))" "json_get ''body'' (request_json r) = Some (JStr (reqBody r))"
    "json_get ''wait_ms'' (request_json r) = map_option JNum (reqWait r)"
    by (cases "reqWait r"; simp add: request_json_def)+
  have "parse_wait (request_json r) fault = Inr (reqWait r)" for fault
    unfolding parse_wait_iff parts using wait by (cases "reqWait r") simp_all
  moreover have "taskByteLength (reqPath r) \<le> TASK_PATH_MAX_BYTES" "isTaskControlPath (reqPath r)"
    "taskByteLength (reqBody r) \<le> TASK_BODY_MAX_BYTES"
    using assms(1) by (simp_all add: storable_def control_path_iff control_path_def TASK_PATH_MAX_BYTES_def TASK_BODY_MAX_BYTES_def)
  moreover have "json_parse (reqBody r) \<noteq> None" "taskJsonDepthValid (reqBody r)"
    using assms(2) by (auto simp: plain_body_def)
  ultimately show ?thesis
    unfolding parseRequestLine_def parse option.case parts request_envelope [OF wait] bindR_simps guardR_simps json_string.simps
    by (simp add: parts(1))
qed

text \<open>A request's line is a line of its own, with nothing for the parser to strip.\<close>

abbreviation request_line :: "(rat \<Rightarrow> string) \<Rightarrow> TaskRequest \<Rightarrow> string" where
  "request_line d r \<equiv> json_text d (request_json r)"

lemma request_line_ends: "strip_return (request_line d r) = request_line d r" "request_line d r \<noteq> []" "hd (request_line d r) = CHR ''{''"
  unfolding request_json_members object_text by (simp_all add: strip_return_def)

lemma request_line_no_marker: "\<not> has_prefix (CHR ''#'' # p) (request_line d r)"
  using request_line_ends(2,3) [of d r] by (cases "request_line d r") (auto simp: has_prefix_def)

lemma parse_request_line:
  assumes "markerSeen st" "blobTasks st = [\<lparr>taskId = i, taskRequests = rs\<rparr>]" "length rs < 32"
    and "storable d r" "plain_body d (reqBody r)"
  shows "parse_line st (request_line d r) = Inr (st\<lparr>blobTasks := [\<lparr>taskId = i, taskRequests = rs @ [r]\<rparr>]\<rparr>)"
proof -
  have "taskByteLength (request_line d r) \<le> TASK_LINE_MAX_BYTES"
    using assms(4) by (simp add: storable_def TASK_LINE_MAX_BYTES_def)
  moreover have "\<not> has_prefix TASK_ID_MARKER (request_line d r)" "\<not> has_prefix ''#'' (request_line d r)"
    by (simp_all add: TASK_ID_MARKER_def request_line_no_marker)
  ultimately show ?thesis
    using assms(1-3) printed_request_parses [OF assms(4,5)]
    unfolding parse_line_def Let_def request_line_ends(1)
    by (simp add: request_line_ends(2) TASK_MAX_REQUESTS_def push_request_def)
qed

lemma parse_request_lines:
  assumes "markerSeen st" "blobTasks st = [\<lparr>taskId = i, taskRequests = acc\<rparr>]" "length acc + length rs \<le> 32"
    and "list_all (storable d) rs" "list_all (plain_body d \<circ> reqBody) rs"
  shows "foldR parse_line st (map (request_line d) rs) = Inr (st\<lparr>blobTasks := [\<lparr>taskId = i, taskRequests = acc @ rs\<rparr>]\<rparr>)"
  using assms
proof (induction rs arbitrary: st acc)
  case (Cons r rs)
  then have "parse_line st (request_line d r) = Inr (st\<lparr>blobTasks := [\<lparr>taskId = i, taskRequests = acc @ [r]\<rparr>]\<rparr>)"
    by (intro parse_request_line) simp_all
  with Cons.IH [of "st\<lparr>blobTasks := [\<lparr>taskId = i, taskRequests = acc @ [r]\<rparr>]\<rparr>" "acc @ [r]"] Cons.prems show ?case by simp
qed simp

lemma parse_empty_line: "parse_line st [] = Inr st"
  by (simp add: parse_line_def strip_return_def)

text \<open>The lines before the requests.\<close>

definition task_header :: "string \<Rightarrow> string list" where
  "task_header i = [TASK_BLOB_MARKER, TASK_ID_MARKER @ i]"

lemma byte_length_append: "taskByteLength (a @ b) = taskByteLength a + taskByteLength b"
  by (simp add: taskByteLength_def)

lemma ascii_length: "list_all (\<lambda>c. code c < 128) s \<Longrightarrow> taskByteLength s = length s"
  by (induction s) (simp_all add: taskByteLength_def utf8_bytes_def)

lemma marker_lengths: "taskByteLength TASK_BLOB_MARKER = 15" "taskByteLength TASK_ID_MARKER = 7"
  by (subst ascii_length; simp add: TASK_BLOB_MARKER_def TASK_ID_MARKER_def code_def)+

lemma parse_header:
  assumes "firmware_id i"
  shows "foldR parse_line \<lparr>blobTasks = [], markerSeen = False\<rparr> (task_header i) =
    Inr \<lparr>blobTasks = [\<lparr>taskId = i, taskRequests = []\<rparr>], markerSeen = True\<rparr>"
proof -
  have "last i \<noteq> CHR 0x0D"
  proof
    assume "last i = CHR 0x0D"
    moreover have "i \<noteq> []" using assms by (simp add: firmware_id_def)
    ultimately have "CHR 0x0D \<in> set i" by (metis last_in_set)
    with assms show False by (simp add: firmware_id_def)
  qed
  moreover have "i \<noteq> []" "taskByteLength i \<le> 31" using assms by (simp_all add: firmware_id_def)
  ultimately have "strip_return (TASK_ID_MARKER @ i) = TASK_ID_MARKER @ i" "taskByteLength (TASK_ID_MARKER @ i) \<le> TASK_LINE_MAX_BYTES"
    by (simp_all add: strip_return_def byte_length_append marker_lengths TASK_LINE_MAX_BYTES_def)
  moreover have "strip_return TASK_BLOB_MARKER = TASK_BLOB_MARKER" "TASK_BLOB_MARKER \<noteq> []" "TASK_ID_MARKER @ i \<noteq> []"
    by (simp_all add: strip_return_def TASK_BLOB_MARKER_def TASK_ID_MARKER_def)
  moreover have "taskIdValid i" using assms by (simp add: taskIdValid_iff)
  ultimately show ?thesis
    by (simp add: task_header_def parse_line_def Let_def marker_lengths TASK_LINE_MAX_BYTES_def TASK_MAX_TASKS_def)
qed

lemma blob_lines:
  assumes "firmware_id i" "list_all (\<lambda>r. wait_allowed (reqWait r)) rs"
  shows "split_lines (TASK_BLOB_MARKER @ [NEW_LINE] @ TASK_ID_MARKER @ i @ [NEW_LINE] @ serializeTaskRequests d rs) =
    task_header i @ (if rs = [] then [[]] else map (request_line d) rs) @ [[]]"
proof -
  have "NEW_LINE \<notin> set i" using assms(1) by (auto simp: firmware_id_def NEW_LINE_def)
  then have markers: "NEW_LINE \<notin> set TASK_BLOB_MARKER" "NEW_LINE \<notin> set (TASK_ID_MARKER @ i)"
    by (simp_all add: NEW_LINE_def TASK_BLOB_MARKER_def TASK_ID_MARKER_def)
  have "NEW_LINE \<notin> set (request_line d r)" if "r \<in> set rs" for r
    using assms(2) that unfolding request_json_members
    by (intro object_no_new_line words_exact(2) members_words) (auto simp: list_all_iff)
  then have "split_lines (serializeTaskRequests d rs) = (if rs = [] then [[]] else map (request_line d) rs) @ [[]]"
    unfolding serializeTaskRequests_def by (subst split_lines_joined) (auto simp: list_all_iff)
  with split_lines_line [OF markers(1)] split_lines_line [OF markers(2)] show ?thesis
    by (simp add: task_header_def)
qed

lemma built_requests_parse:
  assumes "firmware_id i" "length rs \<le> 32" "list_all (storable d) rs" "list_all (plain_body d \<circ> reqBody) rs"
    and "taskByteLength blob \<le> 4096"
    and "blob = TASK_BLOB_MARKER @ [NEW_LINE] @ TASK_ID_MARKER @ i @ [NEW_LINE] @ serializeTaskRequests d rs"
  shows "parseTaskBlob blob = Inr [\<lparr>taskId = i, taskRequests = rs\<rparr>]"
proof -
  have waits: "list_all (\<lambda>r. wait_allowed (reqWait r)) rs" using assms(3) by (simp add: list_all_iff storable_def)
  let ?st = "\<lparr>blobTasks = [\<lparr>taskId = i, taskRequests = []\<rparr>], markerSeen = True\<rparr>"
  have "foldR parse_line ?st (map (request_line d) rs) = Inr (?st\<lparr>blobTasks := [\<lparr>taskId = i, taskRequests = rs\<rparr>]\<rparr>)"
    using parse_request_lines [of ?st i "[]" rs d] assms(2-4) by simp
  then have "foldR parse_line \<lparr>blobTasks = [], markerSeen = False\<rparr> (split_lines blob) =
      Inr \<lparr>blobTasks = [\<lparr>taskId = i, taskRequests = rs\<rparr>], markerSeen = True\<rparr>"
    unfolding assms(6) blob_lines [OF assms(1) waits] foldR_append parse_header [OF assms(1)] bindR_simps
    by (cases "rs = []") (simp_all add: foldR_append parse_empty_line)
  moreover have "blob \<noteq> []" by (simp add: assms(6) TASK_BLOB_MARKER_def)
  ultimately show ?thesis using assms(5) by (simp add: parseTaskBlob_def TASK_BLOB_MAX_BYTES_def)
qed

lemma parsed_lines_short:
  "foldR parse_line st ls = Inr st' \<Longrightarrow> l \<in> set ls \<Longrightarrow> taskByteLength (strip_return l) \<le> 256"
proof (induction ls arbitrary: st)
  case (Cons k ls)
  then obtain mid where mid: "parse_line st k = Inr mid" "foldR parse_line mid ls = Inr st'" by (auto simp: bindR_Inr_iff)
  have "taskByteLength (strip_return k) \<le> 256"
    using mid(1) by (auto simp: parse_line_def Let_def guardR_Inr_iff TASK_LINE_MAX_BYTES_def taskByteLength_def split: if_splits)
  with Cons mid(2) show ?case by auto
qed simp

lemma parsed_requests_storable:
  assumes "parseTaskBlob blob = Inr [\<lparr>taskId = i, taskRequests = rs\<rparr>]"
    and "blob = TASK_BLOB_MARKER @ [NEW_LINE] @ TASK_ID_MARKER @ i @ [NEW_LINE] @ serializeTaskRequests d rs"
  shows "firmware_id i \<and> list_all (storable d) rs \<and> taskByteLength blob \<le> 4096"
proof -
  obtain st where st: "foldR parse_line \<lparr>blobTasks = [], markerSeen = False\<rparr> (split_lines blob) = Inr st"
    "taskByteLength blob \<le> 4096" "blobTasks st = [\<lparr>taskId = i, taskRequests = rs\<rparr>]"
    using assms(1) by (auto simp: parseTaskBlob_def guardR_Inr_iff bindR_Inr_iff TASK_BLOB_MAX_BYTES_def split: if_splits)
  have obey: "tasks_obey (blobTasks st)" using parse_lines_obey [OF st(1)] by (simp add: tasks_obey_def)
  then have i: "firmware_id i" and rs: "list_all firmware_request rs"
    by (simp_all add: st(3) tasks_obey_def firmware_task_def)
  have waits: "list_all (\<lambda>r. wait_allowed (reqWait r)) rs" using rs by (simp add: list_all_iff firmware_request_def)
  have "taskByteLength (request_line d r) \<le> 256" if "r \<in> set rs" for r
  proof -
    have "request_line d r \<in> set (split_lines blob)"
      using that unfolding assms(2) blob_lines [OF i waits] by auto
    from parsed_lines_short [OF st(1) this] show ?thesis by (simp add: request_line_ends)
  qed
  then have "list_all (storable d) rs"
    using rs by (simp add: list_all_iff storable_def firmware_request_def)
  with i st(2) show ?thesis by blast
qed

text \<open>
  C21: A task blob built from a script is parsed back into exactly the requests of the script, if
  and only if the task's id, every request and the whole blob are within the limits of the
  firmware. The levels the script sets on pins are 0 or 1.
\<close>

theorem built_blob_reads_back:
  assumes "buildTaskRequests digits_of script = Inr requests"
    and "buildExecutionPlan script = Inr plan" "list_all binary_level plan"
  shows "\<exists>blob. buildTaskBlob digits_of i script = Inr blob \<and>
    (parseTaskBlob blob = Inr [\<lparr>taskId = i, taskRequests = requests\<rparr>] \<longleftrightarrow>
       firmware_id i \<and> list_all (storable digits_of) requests \<and> taskByteLength blob \<le> 4096)"
proof -
  have steps: "foldR (add_task_step digits_of) [] plan = Inr requests" "length requests \<le> 32"
    using assms(1,2) by (auto simp: buildTaskRequests_def bindR_Inr_iff guardR_Inr_iff TASK_MAX_REQUESTS_def)
  have plain: "list_all (plain_body digits_of \<circ> reqBody) requests"
    using add_task_steps_plain [OF steps(1) assms(3)] by simp
  define blob where
    "blob = TASK_BLOB_MARKER @ [NEW_LINE] @ TASK_ID_MARKER @ i @ [NEW_LINE] @ serializeTaskRequests digits_of requests"
  have "buildTaskBlob digits_of i script = Inr blob" using assms(1) by (simp add: buildTaskBlob_def blob_def)
  then show ?thesis
    using built_requests_parse [OF _ steps(2) _ plain _ blob_def] parsed_requests_storable [OF _ blob_def] by blast
qed

definition blob_step :: "string \<Rightarrow> StepParams \<Rightarrow> TestScriptItem" where
  "blob_step i params =
     Item (Step \<lparr>stepId = i, stepParams = params, stepAssert = None, stepContinueOnError = False\<rparr>)"

definition sample_task :: "TestScriptItem list" where
  "sample_task =
     [blob_step ''a'' (PowerOnParams ''5v''), blob_step ''b'' (DelayParams (Fin 500)),
      blob_step ''c'' (GpioSetParams ''GP13'' (Some DirOutput) (Some 1)), blob_step ''d'' (SwitchRouteParams ''usb'' ''sbc'')]"

definition no_digits :: "rat \<Rightarrow> string" where
  "no_digits _ = []"

definition sample_requests :: "TaskRequest list" where
  "sample_requests =
     [\<lparr>reqPath = ''/api/v1/power/5v'', reqBody = json_text no_digits (JObj [(''state'', JStr ''on'')]), reqWait = Some (Fin 500)\<rparr>,
      \<lparr>reqPath = ''/api/v1/gpio/GP13'',
       reqBody = json_text no_digits (JObj [(''direction'', JStr ''output''), (''value'', JNum (Fin 1))]), reqWait = None\<rparr>,
      \<lparr>reqPath = ''/api/v1/switch/usb'', reqBody = json_text no_digits (JObj [(''route'', JStr ''sbc'')]), reqWait = None\<rparr>]"

lemma sample_task_builds: "buildTaskRequests no_digits sample_task = Inr sample_requests"
  by code_simp

lemma sample_task_plan: "\<exists>plan. buildExecutionPlan sample_task = Inr plan \<and> list_all binary_level plan"
proof -
  have "case buildExecutionPlan sample_task of Inl _ \<Rightarrow> False | Inr plan \<Rightarrow> list_all binary_level plan" by code_simp
  then show ?thesis by (auto split: sum.splits)
qed

lemma sample_storable: "list_all (storable no_digits) sample_requests" "firmware_id ''boot''"
proof -
  have "list_all (\<lambda>r. isTaskControlPath (reqPath r) \<and> taskByteLength (reqBody r) \<le> 192 \<and>
     taskByteLength (json_text no_digits (request_json r)) \<le> 256) sample_requests" by code_simp
  moreover have "list_all (\<lambda>r. wait_allowed (reqWait r)) sample_requests"
    by (auto simp: sample_requests_def wait_allowed_def intro: exI [of _ 500])
  ultimately show "list_all (storable no_digits) sample_requests"
    by (simp add: list_all_iff storable_def control_path_iff)
  have "taskIdValid ''boot''" by code_simp
  then show "firmware_id ''boot''" by (simp only: taskIdValid_iff)
qed

lemma sample_blob_short:
  "taskByteLength (TASK_BLOB_MARKER @ [NEW_LINE] @ TASK_ID_MARKER @ ''boot'' @ [NEW_LINE] @ serializeTaskRequests no_digits sample_requests) \<le> 4096"
  by code_simp

theorem built_blob_reads_back_witness:
  "\<exists>blob. buildTaskBlob no_digits ''boot'' sample_task = Inr blob \<and>
     parseTaskBlob blob = Inr [\<lparr>taskId = ''boot'', taskRequests = sample_requests\<rparr>]"
proof -
  obtain plan where plan: "buildExecutionPlan sample_task = Inr plan" "list_all binary_level plan"
    using sample_task_plan by blast
  from built_blob_reads_back [OF sample_task_builds plan, of "''boot''"]
  obtain blob where blob: "buildTaskBlob no_digits ''boot'' sample_task = Inr blob"
    "parseTaskBlob blob = Inr [\<lparr>taskId = ''boot'', taskRequests = sample_requests\<rparr>] \<longleftrightarrow>
       firmware_id ''boot'' \<and> list_all (storable no_digits) sample_requests \<and> taskByteLength blob \<le> 4096"
    by blast
  from blob(1) sample_blob_short have "taskByteLength blob \<le> 4096"
    by (simp add: buildTaskBlob_def sample_task_builds)
  with blob sample_storable show ?thesis by blast
qed

theorem parsed_tasks_obey_firmware_witness:
  "list_all firmware_task [\<lparr>taskId = ''boot'', taskRequests = sample_requests\<rparr>]"
proof -
  have "list_all (plain_body no_digits \<circ> reqBody) sample_requests"
    using sample_task_plan sample_task_builds add_task_steps_plain [of no_digits "[]" _ sample_requests]
    by (auto simp: buildTaskRequests_def bindR_Inr_iff guardR_Inr_iff)
  moreover have "length sample_requests \<le> 32" by (simp add: sample_requests_def)
  ultimately have "parseTaskBlob (TASK_BLOB_MARKER @ [NEW_LINE] @ TASK_ID_MARKER @ ''boot'' @ [NEW_LINE] @
      serializeTaskRequests no_digits sample_requests) = Inr [\<lparr>taskId = ''boot'', taskRequests = sample_requests\<rparr>]"
    using sample_storable sample_blob_short by (intro built_requests_parse) simp_all
  from parsed_tasks_obey_firmware [OF this] show ?thesis by blast
qed

text \<open>
  The requests of a task keep the schedule of the script: what is sent, in which order, and how
  much waiting comes before each request and at the end are those of the execution plan.
\<close>

lemma task_schedule:
  assumes "buildTaskRequests digits_of script = Inr requests" "buildExecutionPlan script = Inr plan"
  shows "task_timeline requests = plan_timeline digits_of plan" "length requests \<le> 32" "waits_limited requests"
  using assms add_task_steps_timeline [of digits_of "[]" plan requests "([], Fin 0)"]
  by (auto simp: buildTaskRequests_def bindR_Inr_iff guardR_Inr_iff TASK_MAX_REQUESTS_def task_timeline_def plan_timeline_def
      waits_limited_def)

end
