(* ===== verification/Task_Run.thy ===== *)
theory Task_Run
  imports Task_Roundtrip
begin

text \<open>
  Running agent tasks (\<open>taskRunner.ts\<close>, \<open>taskExecution.ts\<close>, \<open>builtinTasks.ts\<close>): the responses that
  list stored and built-in tasks, the choice of the task to run, and the run with its cleanup. The
  board's answers and the abort button are functions of the number of actions before them
  (\<open>task_world\<close>); the actions are collected in a trace. Shown: what a run sends, when it cleans
  up, and that the built-in names cannot be taken by a stored task.
\<close>

subsection \<open>The list of stored tasks\<close>

definition FROZEN_SCHEMA :: string where "FROZEN_SCHEMA = ''radxa-linkr-debugger.v1''"

record TaskSummary =
  summaryId :: string
  summaryName :: string
  requestCount :: jsnum

record TaskListData =
  listTasks :: "TaskSummary list"
  listBlob :: string

abbreviation invalid_response :: "task_fault \<Rightarrow> task_error" where
  "invalid_response fault \<equiv> TaskDataError InvalidResponse fault"

text \<open>\<open>map\<close> with a function that may throw.\<close>

fun parse_each :: "('x \<Rightarrow> 'e + 'y) \<Rightarrow> 'x list \<Rightarrow> 'e + 'y list" where
  "parse_each f [] = Inr []"
| "parse_each f (x # xs) = bindR (f x) (\<lambda>y. bindR (parse_each f xs) (\<lambda>ys. Inr (y # ys)))"

definition count_allowed :: "jsnum \<Rightarrow> bool" where
  "count_allowed n \<longleftrightarrow> isInteger n \<and> \<not> js_lt n (Fin 0) \<and> \<not> js_lt (Fin (of_nat TASK_MAX_REQUESTS)) n"

definition parse_summary :: "json \<Rightarrow> task_error + TaskSummary" where
  "parse_summary entry =
     (case (json_string (json_get ''id'' entry), json_string (json_get ''name'' entry), json_num (json_get ''request_count'' entry)) of
        (Some i, Some name, Some n) \<Rightarrow>
          guardR (taskByteLength i \<noteq> 0 \<and> taskByteLength i \<le> TASK_ID_MAX_BYTES) (invalid_response IdLength) (
          guardR (taskByteLength name \<le> TASK_NAME_MAX_BYTES) (invalid_response NameTooLong) (
          guardR (count_allowed n) (invalid_response BadRequestCount) (
          Inr \<lparr>summaryId = i, summaryName = name, requestCount = n\<rparr>)))
      | _ \<Rightarrow> Inl (invalid_response BadSummary))"

definition parseTaskListResponse :: "json \<Rightarrow> task_error + TaskListData" where
  "parseTaskListResponse data =
     guardR (json_record (Some data)) (invalid_response ResponseNotObject) (
     guardR (json_get ''schema'' data = Some (JStr FROZEN_SCHEMA)) (invalid_response WrongSchema) (
     guardR (json_get ''ok'' data = Some (JBool True)) (invalid_response NotOk) (
     guardR (json_get ''command'' data = Some (JStr ''task'')) (invalid_response WrongCommand) (
     guardR (json_get ''action'' data = Some (JStr ''list'')) (invalid_response WrongAction) (
     case json_get ''tasks'' data of
       Some (JArr entries) \<Rightarrow>
         guardR (length entries \<le> TASK_MAX_TASKS) (invalid_response TooManyTasks) (
         bindR (parse_each parse_summary entries) (\<lambda>tasks.
         guardR (distinct (map summaryId tasks)) (invalid_response DuplicateTaskId) (
         case json_string (json_get ''blob'' data) of
           None \<Rightarrow> Inl (invalid_response BlobNotString)
         | Some blob \<Rightarrow>
             guardR (taskByteLength blob \<le> TASK_BLOB_MAX_BYTES) (invalid_response BlobTooLong) (
             Inr \<lparr>listTasks = tasks, listBlob = blob\<rparr>))))
     | _ \<Rightarrow> Inl (invalid_response TasksNotArray))))))"

definition selectTaskRequests :: "ParsedTask list \<Rightarrow> string \<Rightarrow> task_error + TaskRequest list" where
  "selectTaskRequests tasks i =
     (case find (\<lambda>candidate. taskId candidate = i) tasks of
        None \<Rightarrow> Inl (TaskDataError UnknownTask (TaskNamed i))
      | Some task \<Rightarrow> Inr (taskRequests task))"

subsection \<open>The catalog of built-in tasks\<close>

record BuiltInTask =
  builtinId :: string
  builtinName :: string
  builtinRequests :: "TaskRequest list"
  builtinCleanup :: TaskRequest

definition TASK_CATALOG_VERSION :: int where "TASK_CATALOG_VERSION = 1"
definition TASK_CATALOG_MAX_TASKS :: nat where "TASK_CATALOG_MAX_TASKS = 6"
definition BUILTIN_TASK_ID_PREFIX :: string where "BUILTIN_TASK_ID_PREFIX = ''builtin/''"

definition CATALOG_ENVELOPE_KEYS :: "string list" where
  "CATALOG_ENVELOPE_KEYS = [''schema'', ''ok'', ''command'', ''action'', ''version'', ''tasks'']"
definition CATALOG_REQUEST_KEYS :: "string list" where
  "CATALOG_REQUEST_KEYS = [''method'', ''path'', ''body'', ''wait_ms'']"
definition CATALOG_TASK_KEYS :: "string list" where
  "CATALOG_TASK_KEYS = [''id'', ''name'', ''requests'', ''cleanup'']"

fun json_keys :: "json \<Rightarrow> string list" where
  "json_keys (JObj ps) = map fst ps"
| "json_keys _ = []"

definition rejectUnknownKeys :: "json \<Rightarrow> string list \<Rightarrow> task_error + unit" where
  "rejectUnknownKeys entry allowed =
     guardR (list_all (\<lambda>key. key \<in> set allowed) (json_keys entry)) (invalid_response UnsupportedField) (Inr ())"

definition parseCatalogRequest :: "(rat \<Rightarrow> string) \<Rightarrow> json \<Rightarrow> task_error + TaskRequest" where
  "parseCatalogRequest digits_of entry =
     guardR (json_record (Some entry)) (invalid_response LineNotObject) (
     bindR (rejectUnknownKeys entry CATALOG_REQUEST_KEYS) (\<lambda>_.
     guardR (json_get ''method'' entry = Some (JStr ''PUT'')) (invalid_response MethodNotPut) (
     case json_string (json_get ''path'' entry) of
       None \<Rightarrow> Inl (invalid_response PathNotAllowed)
     | Some path \<Rightarrow>
         guardR (isTaskControlPath path) (invalid_response PathNotAllowed) (
         case json_get ''body'' entry of
           Some (JObj ps) \<Rightarrow>
             (let canonicalBody = json_text digits_of (JObj ps)
              in guardR (taskByteLength canonicalBody \<le> TASK_BODY_MAX_BYTES) (invalid_response BodyTooLong) (
                 guardR (taskJsonDepthValid canonicalBody) (invalid_response BodyTooDeep) (
                 bindR (parse_wait entry (invalid_response WaitOutOfRange)) (\<lambda>wait.
                 Inr \<lparr>reqPath = path, reqBody = canonicalBody, reqWait = wait\<rparr>))))
         | _ \<Rightarrow> Inl (invalid_response BodyNotObject)))))"

definition parse_catalog_task ::
  "(rat \<Rightarrow> string) \<Rightarrow> BuiltInTask list \<Rightarrow> json \<Rightarrow> task_error + BuiltInTask list" where
  "parse_catalog_task digits_of seen entry =
     guardR (json_record (Some entry)) (invalid_response ResponseNotObject) (
     bindR (rejectUnknownKeys entry CATALOG_TASK_KEYS) (\<lambda>_.
     case json_string (json_get ''id'' entry) of
       None \<Rightarrow> Inl (invalid_response InvalidTaskId)
     | Some i \<Rightarrow>
         guardR (taskIdValid i) (invalid_response InvalidTaskId) (
         guardR (\<not> list_ex (\<lambda>task. builtinId task = i) seen) (invalid_response DuplicateTaskId) (
         case json_string (json_get ''name'' entry) of
           None \<Rightarrow> Inl (invalid_response InvalidName)
         | Some name \<Rightarrow>
             guardR (name \<noteq> [] \<and> taskByteLength name \<le> TASK_NAME_MAX_BYTES) (invalid_response InvalidName) (
             case json_get ''requests'' entry of
               Some (JArr entries) \<Rightarrow>
                 guardR (entries \<noteq> []) (invalid_response RequestsMissing) (
                 guardR (length entries \<le> TASK_MAX_REQUESTS) (invalid_response TooManyTaskRequests) (
                 bindR (parse_each (parseCatalogRequest digits_of) entries) (\<lambda>requests.
                 case json_get ''cleanup'' entry of
                   None \<Rightarrow> Inl (invalid_response CleanupMissing)
                 | Some c \<Rightarrow> bindR (parseCatalogRequest digits_of c) (\<lambda>cleanup.
                     Inr (seen @ [\<lparr>builtinId = i, builtinName = name, builtinRequests = requests, builtinCleanup = cleanup\<rparr>])))))
             | _ \<Rightarrow> Inl (invalid_response RequestsMissing))))))"

definition parseTaskCatalogResponse :: "(rat \<Rightarrow> string) \<Rightarrow> json \<Rightarrow> task_error + BuiltInTask list" where
  "parseTaskCatalogResponse digits_of data =
     guardR (json_record (Some data)) (invalid_response ResponseNotObject) (
     bindR (rejectUnknownKeys data CATALOG_ENVELOPE_KEYS) (\<lambda>_.
     guardR (json_get ''schema'' data = Some (JStr FROZEN_SCHEMA)) (invalid_response WrongSchema) (
     guardR (json_get ''ok'' data = Some (JBool True)) (invalid_response NotOk) (
     guardR (json_get ''command'' data = Some (JStr ''task'')) (invalid_response WrongCommand) (
     guardR (json_get ''action'' data = Some (JStr ''catalog'')) (invalid_response WrongAction) (
     guardR (json_get ''version'' data = Some (JNum (js_int TASK_CATALOG_VERSION))) (invalid_response WrongVersion) (
     case json_get ''tasks'' data of
       Some (JArr entries) \<Rightarrow>
         guardR (entries \<noteq> [] \<and> length entries \<le> TASK_CATALOG_MAX_TASKS) (invalid_response BadTaskCount) (
         foldR (parse_catalog_task digits_of) [] entries)
     | _ \<Rightarrow> Inl (invalid_response TasksNotArray))))))))"

definition findBuiltInTask :: "BuiltInTask list \<Rightarrow> string \<Rightarrow> BuiltInTask option" where
  "findBuiltInTask catalog i = find (\<lambda>task. builtinId task = i) catalog"

datatype TaskCatalogEntry =
    BuiltInEntry (entryId: string) string nat bool
  | StoredEntry (entryId: string) string jsnum

definition mergeTaskCatalog :: "BuiltInTask list option \<Rightarrow> TaskSummary list \<Rightarrow> TaskCatalogEntry list" where
  "mergeTaskCatalog builtIns stored =
     (let catalog = (case builtIns of Some c \<Rightarrow> c | None \<Rightarrow> []);
          storedIds = map summaryId stored;
          builtInIds = map builtinId catalog
      in map (\<lambda>task. BuiltInEntry (builtinId task) (builtinName task) (length (builtinRequests task))
            (builtinId task \<in> set storedIds)) catalog @
         map (\<lambda>task. StoredEntry (summaryId task) (summaryName task) (requestCount task))
           (filter (\<lambda>task. summaryId task \<notin> set builtInIds \<and> \<not> has_prefix BUILTIN_TASK_ID_PREFIX (summaryId task)) stored))"

subsection \<open>The choice of what to run\<close>

datatype task_source = Builtin | Stored

record TaskRunSnapshot =
  snapId :: string
  snapName :: string
  snapSource :: task_source
  snapRequests :: "TaskRequest list"
  snapCleanup :: "TaskRequest option"

record ResolvedTaskRun =
  snapshot :: TaskRunSnapshot
  storedTasks :: "TaskSummary list option"

text \<open>The first component tells whether the stored tasks were fetched.\<close>

definition resolveTaskRunSnapshot ::
  "string \<Rightarrow> BuiltInTask list option \<Rightarrow> (task_error + TaskListData) \<Rightarrow> bool \<times> (task_error + ResolvedTaskRun)" where
  "resolveTaskRunSnapshot i catalog fetchTasks =
     (case (case catalog of Some c \<Rightarrow> findBuiltInTask c i | None \<Rightarrow> None) of
        Some builtIn \<Rightarrow>
          (False, Inr \<lparr>snapshot = \<lparr>snapId = builtinId builtIn, snapName = builtinName builtIn, snapSource = Builtin,
             snapRequests = builtinRequests builtIn, snapCleanup = Some (builtinCleanup builtIn)\<rparr>, storedTasks = None\<rparr>)
      | None \<Rightarrow>
          if has_prefix BUILTIN_TASK_ID_PREFIX i then (False, Inl (TaskDataError CatalogUnavailable (TaskNamed i)))
          else (True, bindR fetchTasks (\<lambda>data.
            bindR (parseTaskBlob (listBlob data)) (\<lambda>tasks.
            bindR (selectTaskRequests tasks i) (\<lambda>requests.
            Inr \<lparr>snapshot = \<lparr>snapId = i,
                snapName = (case find (\<lambda>task. summaryId task = i) (listTasks data) of Some t \<Rightarrow> summaryName t | None \<Rightarrow> i),
                snapSource = Stored, snapRequests = requests, snapCleanup = None\<rparr>,
              storedTasks = Some (listTasks data)\<rparr>)))))"

subsection \<open>The run\<close>

datatype task_action =
    Progress nat nat string
  | Dispatch TaskRequest
  | Sleep jsnum
  | DispatchCleanup TaskRequest

text \<open>
  The answer to a request and whether the run was aborted, after so many actions. An answer is
  \<open>None\<close> when the request is accepted and the message of the error otherwise.
\<close>

record task_world =
  answer :: "nat \<Rightarrow> string option"
  aborted :: "nat \<Rightarrow> bool"

datatype TaskRunResult =
    RunOk nat
  | RunFailed nat nat string string
  | RunCancelled nat nat

definition waitInterruptibly :: "task_world \<Rightarrow> jsnum \<Rightarrow> task_action list \<Rightarrow> bool \<times> task_action list" where
  "waitInterruptibly w ms trace =
     (if aborted w (length trace) then (True, trace)
      else (aborted w (length (trace @ [Sleep ms])), trace @ [Sleep ms]))"

text \<open>\<open>index\<close> requests are done; as many were attempted.\<close>

fun run_requests ::
  "task_world \<Rightarrow> nat \<Rightarrow> nat \<Rightarrow> TaskRequest list \<Rightarrow> task_action list \<Rightarrow> TaskRunResult \<times> task_action list" where
  "run_requests w overall index [] trace = (RunOk overall, trace)"
| "run_requests w overall index (request # requests) trace =
     (if aborted w (length trace) then (RunCancelled index index, trace)
      else
        let sent = trace @ [Progress (index + 1) overall (reqPath request), Dispatch request]
        in case answer w (length sent) of
             Some message \<Rightarrow>
               (if aborted w (length sent) then (RunCancelled index (index + 1), sent)
                else (RunFailed index (index + 1) (reqPath request) message, sent))
           | None \<Rightarrow>
               (case reqWait request of
                  None \<Rightarrow> run_requests w overall (index + 1) requests sent
                | Some ms \<Rightarrow>
                    if js_lt (Fin 0) ms then
                      (case waitInterruptibly w ms sent of (interrupted, waited) \<Rightarrow>
                         if interrupted then (RunCancelled (index + 1) (index + 1), waited)
                         else run_requests w overall (index + 1) requests waited)
                    else run_requests w overall (index + 1) requests sent))"

definition runTaskRequests :: "task_world \<Rightarrow> TaskRequest list \<Rightarrow> TaskRunResult \<times> task_action list" where
  "runTaskRequests w requests = run_requests w (length requests) 0 requests []"

datatype CleanupOutcome = CleanupOk | CleanupFailed string

datatype TaskExecutionOutcome =
    TaskSuccess nat
  | TaskFailed nat nat string string "CleanupOutcome option"
  | TaskCancelled nat "CleanupOutcome option"

text \<open>The cleanup has a signal of its own, so the abort of the run does not stop it.\<close>

definition attemptCleanup :: "task_world \<Rightarrow> TaskRequest \<Rightarrow> task_action list \<Rightarrow> CleanupOutcome \<times> task_action list" where
  "attemptCleanup w cleanup trace =
     (let sent = trace @ [DispatchCleanup cleanup]
      in (case answer w (length sent) of None \<Rightarrow> CleanupOk | Some message \<Rightarrow> CleanupFailed message, sent))"

definition clean_up ::
  "task_world \<Rightarrow> TaskRequest option \<Rightarrow> nat \<Rightarrow> task_action list \<Rightarrow> CleanupOutcome option \<times> task_action list" where
  "clean_up w cleanup attempted trace =
     (case cleanup of
        Some request \<Rightarrow> if attempted > 0 then apfst Some (attemptCleanup w request trace) else (None, trace)
      | None \<Rightarrow> (None, trace))"

definition executeTaskRun :: "task_world \<Rightarrow> TaskRunSnapshot \<Rightarrow> TaskExecutionOutcome \<times> task_action list" where
  "executeTaskRun w snap =
     (case runTaskRequests w (snapRequests snap) of
        (RunOk completed, trace) \<Rightarrow> (TaskSuccess completed, trace)
      | (RunFailed completed failedIndex failedPath message, trace) \<Rightarrow>
          (case clean_up w (snapCleanup snap) failedIndex trace of (cleanup, trace') \<Rightarrow>
             (TaskFailed completed failedIndex failedPath message cleanup, trace'))
      | (RunCancelled completed attempted, trace) \<Rightarrow>
          (case clean_up w (snapCleanup snap) attempted trace of (cleanup, trace') \<Rightarrow>
             (TaskCancelled completed cleanup, trace')))"

subsection \<open>What a run sends\<close>

definition dispatched :: "task_action list \<Rightarrow> TaskRequest list" where
  "dispatched trace = concat (map (\<lambda>a. case a of Dispatch r \<Rightarrow> [r] | _ \<Rightarrow> []) trace)"

definition cleanups :: "task_action list \<Rightarrow> TaskRequest list" where
  "cleanups trace = concat (map (\<lambda>a. case a of DispatchCleanup r \<Rightarrow> [r] | _ \<Rightarrow> []) trace)"

lemma dispatched_simps [simp]:
  "dispatched [] = []" "dispatched (a @ b) = dispatched a @ dispatched b"
  "dispatched (Progress n m p # t) = dispatched t" "dispatched (Dispatch r # t) = r # dispatched t"
  "dispatched (Sleep ms # t) = dispatched t" "dispatched (DispatchCleanup r # t) = dispatched t"
  by (simp_all add: dispatched_def)

lemma cleanups_simps [simp]:
  "cleanups [] = []" "cleanups (a @ b) = cleanups a @ cleanups b"
  "cleanups (Progress n m p # t) = cleanups t" "cleanups (Dispatch r # t) = cleanups t"
  "cleanups (Sleep ms # t) = cleanups t" "cleanups (DispatchCleanup r # t) = r # cleanups t"
  by (simp_all add: cleanups_def)

text \<open>How a result accounts for the requests sent: \<open>k\<close> of \<open>requests\<close> behind the first \<open>index\<close>.\<close>

fun accounts_for :: "nat \<Rightarrow> TaskRequest list \<Rightarrow> nat \<Rightarrow> TaskRunResult \<Rightarrow> bool" where
  "accounts_for index requests k (RunOk completed) \<longleftrightarrow> k = length requests \<and> completed = index + k"
| "accounts_for index requests k (RunFailed completed failedIndex failedPath message) \<longleftrightarrow>
     0 < k \<and> failedIndex = index + k \<and> completed + 1 = failedIndex \<and> failedPath = reqPath (requests ! (k - 1))"
| "accounts_for index requests k (RunCancelled completed attempted) \<longleftrightarrow>
     attempted = index + k \<and> (completed = attempted \<or> 0 < k \<and> completed + 1 = attempted)"

lemma accounts_for_later:
  "accounts_for (index + 1) requests k result \<Longrightarrow> accounts_for index (request # requests) (k + 1) result"
  by (cases result) auto

lemma run_requests_accounts:
  assumes "run_requests w overall index requests trace = (result, trace')" "overall = index + length requests"
  shows "\<exists>k sent. k \<le> length requests \<and> trace' = trace @ sent \<and> dispatched sent = take k requests \<and> cleanups sent = [] \<and>
    accounts_for index requests k result"
  using assms
proof (induction requests arbitrary: index trace)
  case Nil
  then show ?case by auto
next
  case (Cons request requests)
  let ?sent = "[Progress (index + 1) overall (reqPath request), Dispatch request]"
  have stop: ?case if "trace' = trace @ sent" "dispatched sent = take k (request # requests)" "cleanups sent = []"
    "k \<le> 1" "accounts_for index (request # requests) k result" for k sent
    using that by (intro exI conjI) auto
  have later: ?case if "run_requests w overall (index + 1) requests (trace @ ?sent @ slept) = (result, trace')"
    "dispatched slept = []" "cleanups slept = []" for slept
  proof -
    from Cons.IH [OF that(1)] Cons.prems(2) obtain k sent where k: "k \<le> length requests" "trace' = (trace @ ?sent @ slept) @ sent"
      "dispatched sent = take k requests" "cleanups sent = []" "accounts_for (index + 1) requests k result" by auto
    show ?thesis
      by (rule exI [of _ "k + 1"], rule exI [of _ "?sent @ slept @ sent"])
        (use k that(2,3) accounts_for_later [OF k(5)] in simp)
  qed
  show ?case
  proof (cases "aborted w (length trace)")
    case True
    with Cons.prems(1) show ?thesis by (intro stop [of "[]" 0]) auto
  next
    case False
    note step = Cons.prems(1) [unfolded run_requests.simps if_not_P [OF False] Let_def]
    show ?thesis
    proof (cases "answer w (length (trace @ ?sent))")
      case (Some message)
      with step show ?thesis by (intro stop [of ?sent 1]) (auto split: if_splits)
    next
      case None
      show ?thesis
      proof (cases "\<exists>ms. reqWait request = Some ms \<and> js_lt (Fin 0) ms")
        case True
        then obtain ms where ms: "reqWait request = Some ms" "js_lt (Fin 0) ms" by blast
        obtain interrupted waited where wait: "waitInterruptibly w ms (trace @ ?sent) = (interrupted, waited)" by fastforce
        then have waited: "waited = trace @ ?sent \<or> waited = trace @ ?sent @ [Sleep ms]"
          by (auto simp: waitInterruptibly_def split: if_splits)
        show ?thesis
        proof (cases interrupted)
          case True
          with step None ms wait have "result = RunCancelled (index + 1) (index + 1)" "trace' = waited" by simp_all
          with waited show ?thesis by (elim disjE) (rule stop [of ?sent 1] stop [of "?sent @ [Sleep ms]" 1]; simp)+
        next
          case False
          with step None ms wait have "run_requests w overall (index + 1) requests waited = (result, trace')" by simp
          with waited later [of "[]"] later [of "[Sleep ms]"] show ?thesis by auto
        qed
      next
        case False
        with step None have "run_requests w overall (index + 1) requests (trace @ ?sent) = (result, trace')"
          by (auto split: option.splits if_splits)
        with later [of "[]"] show ?thesis by simp
      qed
    qed
  qed
qed

definition run_succeeded :: "TaskExecutionOutcome \<Rightarrow> bool" where
  "run_succeeded outcome \<longleftrightarrow> (case outcome of TaskSuccess _ \<Rightarrow> True | _ \<Rightarrow> False)"

text \<open>How the outcome of a run accounts for the first \<open>k\<close> requests and the cleanup.\<close>

fun outcome_accounts :: "TaskRequest list \<Rightarrow> nat \<Rightarrow> bool \<Rightarrow> TaskExecutionOutcome \<Rightarrow> bool" where
  "outcome_accounts requests k cleaned (TaskSuccess completed) \<longleftrightarrow> k = length requests \<and> completed = k \<and> \<not> cleaned"
| "outcome_accounts requests k cleaned (TaskFailed completed failedIndex failedPath message cleanup) \<longleftrightarrow>
     0 < k \<and> failedIndex = k \<and> completed + 1 = k \<and> failedPath = reqPath (requests ! completed) \<and> (cleanup \<noteq> None \<longleftrightarrow> cleaned)"
| "outcome_accounts requests k cleaned (TaskCancelled completed cleanup) \<longleftrightarrow>
     (completed = k \<or> completed + 1 = k) \<and> (cleanup \<noteq> None \<longleftrightarrow> cleaned)"

lemma run_accounts:
  assumes "executeTaskRun w snap = (outcome, trace)"
  shows "\<exists>k sent. k \<le> length (snapRequests snap) \<and>
    dispatched sent = take k (snapRequests snap) \<and> cleanups sent = [] \<and>
    (let clean = (if k > 0 \<and> \<not> run_succeeded outcome then (case snapCleanup snap of Some c \<Rightarrow> [DispatchCleanup c] | None \<Rightarrow> []) else [])
     in trace = sent @ clean \<and> outcome_accounts (snapRequests snap) k (clean \<noteq> []) outcome)"
proof -
  obtain result sent0 where run: "runTaskRequests w (snapRequests snap) = (result, sent0)" by fastforce
  from run_requests_accounts [of w "length (snapRequests snap)" 0 "snapRequests snap" "[]" result sent0] run
  obtain k where k: "k \<le> length (snapRequests snap)" "dispatched sent0 = take k (snapRequests snap)" "cleanups sent0 = []"
    "accounts_for 0 (snapRequests snap) k result" by (auto simp: runTaskRequests_def)
  have clean: "clean_up w (snapCleanup snap) k sent0 = (case snapCleanup snap of
      Some c \<Rightarrow> if k > 0 then (Some (fst (attemptCleanup w c sent0)), sent0 @ [DispatchCleanup c]) else (None, sent0)
    | None \<Rightarrow> (None, sent0))"
    by (simp add: clean_up_def attemptCleanup_def split: option.split)
  show ?thesis
  proof (intro exI [of _ k] exI [of _ sent0] conjI k(1-3))
    show "let clean = (if k > 0 \<and> \<not> run_succeeded outcome then (case snapCleanup snap of Some c \<Rightarrow> [DispatchCleanup c] | None \<Rightarrow> []) else [])
     in trace = sent0 @ clean \<and> outcome_accounts (snapRequests snap) k (clean \<noteq> []) outcome"
    proof (cases result)
      case (RunOk completed)
      with assms run k(4) show ?thesis by (auto simp: executeTaskRun_def run_succeeded_def)
    next
      case (RunFailed completed failedIndex failedPath message)
      with k(4) have "failedIndex = k" "0 < k" "completed = k - 1" "failedPath = reqPath (snapRequests snap ! (k - 1))" by auto
      with assms run clean RunFailed show ?thesis
        by (auto simp: executeTaskRun_def run_succeeded_def split: option.splits)
    next
      case (RunCancelled completed attempted)
      with k(4) have "attempted = k" "completed = k \<or> 0 < k \<and> completed + 1 = k" by auto
      with assms run clean RunCancelled show ?thesis
        by (auto simp: executeTaskRun_def run_succeeded_def split: option.splits if_splits)
    qed
  qed
qed

lemma run_cleanup_parts:
  assumes "executeTaskRun w snap = (outcome, trace)"
  shows "\<exists>k sent clean. dispatched sent = take k (snapRequests snap) \<and> cleanups sent = [] \<and> trace = sent @ clean \<and>
    (clean = [] \<or> (\<exists>c. snapCleanup snap = Some c \<and> clean = [DispatchCleanup c]))"
  using run_accounts [OF assms] by (fastforce simp: Let_def split: option.splits if_splits)


subsection \<open>An undisturbed run\<close>

text \<open>The schedule of a trace: when each request is sent, counting only the sleeps.\<close>

definition action_event :: "timeline \<Rightarrow> task_action \<Rightarrow> timeline" where
  "action_event line a =
     (case a of
        Dispatch r \<Rightarrow> (fst line @ [(snd line, reqPath r, reqBody r)], snd line)
      | Sleep ms \<Rightarrow> (fst line, js_add (snd line) ms)
      | _ \<Rightarrow> line)"

definition trace_timeline :: "task_action list \<Rightarrow> timeline" where
  "trace_timeline trace = foldl action_event ([], Fin 0) trace"

lemma action_event_simps [simp]:
  "action_event line (Progress n m p) = line" "action_event line (DispatchCleanup r) = line"
  "action_event line (Dispatch r) = (fst line @ [(snd line, reqPath r, reqBody r)], snd line)"
  "action_event line (Sleep ms) = (fst line, js_add (snd line) ms)"
  by (simp_all add: action_event_def)

definition undisturbed :: "task_world \<Rightarrow> bool" where
  "undisturbed w \<longleftrightarrow> (\<forall>n. answer w n = None \<and> \<not> aborted w n)"

lemma short_wait:
  assumes "wait_allowed (reqWait r)" "\<not> (\<exists>ms. reqWait r = Some ms \<and> js_lt (Fin 0) ms)"
  shows "wait_of r = Fin 0"
proof (cases "reqWait r")
  case (Some ms)
  with assms(1) obtain n :: nat where "ms = Fin (of_nat n)" by (auto simp: wait_allowed_def)
  with assms(2) Some show ?thesis by (simp add: wait_of_def)
qed (simp add: wait_of_def)

lemma undisturbed_requests:
  assumes "undisturbed w" "list_all (\<lambda>r. wait_allowed (reqWait r)) requests"
  shows "\<exists>sent. run_requests w overall index requests trace = (RunOk overall, trace @ sent) \<and>
    (\<forall>line. foldl action_event line sent = foldl request_event line requests)"
  using assms(2)
proof (induction requests arbitrary: index trace)
  case (Cons request requests)
  let ?sent = "[Progress (index + 1) overall (reqPath request), Dispatch request]"
  define slept where "slept = (if \<exists>ms. reqWait request = Some ms \<and> js_lt (Fin 0) ms then [Sleep (the (reqWait request))] else [])"
  have "run_requests w overall index (request # requests) trace = run_requests w overall (index + 1) requests (trace @ ?sent @ slept)"
    using assms(1) by (auto simp: slept_def undisturbed_def waitInterruptibly_def Let_def split: option.split)
  moreover have "foldl action_event line (?sent @ slept) = request_event line request" for line
    using short_wait [of request] Cons.prems by (auto simp: slept_def request_event_def wait_of_def)
  moreover obtain sent where "run_requests w overall (index + 1) requests (trace @ ?sent @ slept) = (RunOk overall, (trace @ ?sent @ slept) @ sent)"
    "\<forall>line. foldl action_event line sent = foldl request_event line requests"
    using Cons.IH [of "index + 1" "trace @ ?sent @ slept"] Cons.prems by auto
  ultimately show ?case by (intro exI [of _ "(?sent @ slept) @ sent"]) (simp del: split_paired_All run_requests.simps)
qed simp


definition quiet_world :: task_world where
  "quiet_world = \<lparr>answer = (\<lambda>_. None), aborted = (\<lambda>_. False)\<rparr>"

definition sample_snapshot :: TaskRunSnapshot where
  "sample_snapshot = \<lparr>snapId = ''boot'', snapName = ''Boot'', snapSource = Stored, snapRequests = sample_requests, snapCleanup = None\<rparr>"


definition refusing_world :: task_world where
  "refusing_world = \<lparr>answer = (\<lambda>n. if n = 5 then Some ''HTTP 500'' else None), aborted = (\<lambda>_. False)\<rparr>"


subsection \<open>What a run may touch\<close>

definition contained :: "TaskRequest \<Rightarrow> bool" where
  "contained r \<longleftrightarrow> control_path (reqPath r) \<and> taskByteLength (reqBody r) \<le> 192 \<and> wait_allowed (reqWait r)"

lemma firmware_contained: "firmware_request r \<Longrightarrow> contained r"
  by (simp add: firmware_request_def contained_def)

lemma catalog_request_contained: "parseCatalogRequest d entry = Inr r \<Longrightarrow> contained r"
  by (auto simp: parseCatalogRequest_def guardR_Inr_iff bindR_Inr_iff Let_def contained_def control_path_iff TASK_BODY_MAX_BYTES_def
      dest: parse_wait_allowed split: option.splits json.splits)

lemma parse_each_all:
  "parse_each f xs = Inr ys \<Longrightarrow> (\<And>x y. f x = Inr y \<Longrightarrow> P y) \<Longrightarrow> list_all P ys \<and> length ys = length xs"
  by (induction xs arbitrary: ys) (auto simp: bindR_Inr_iff)

definition contained_task :: "BuiltInTask \<Rightarrow> bool" where
  "contained_task t \<longleftrightarrow> builtinRequests t \<noteq> [] \<and> length (builtinRequests t) \<le> 32 \<and> list_all contained (builtinRequests t) \<and>
     contained (builtinCleanup t)"

definition catalog_ok :: "BuiltInTask list \<Rightarrow> bool" where
  "catalog_ok catalog \<longleftrightarrow> distinct (map builtinId catalog) \<and> list_all contained_task catalog"

lemma catalog_task_ok:
  assumes "parse_catalog_task d seen entry = Inr seen'" "catalog_ok seen"
  shows "catalog_ok seen'"
proof -
  from assms(1) obtain i name entries requests c cleanup where t:
    "\<not> list_ex (\<lambda>task. builtinId task = i) seen" "entries \<noteq> []" "length entries \<le> TASK_MAX_REQUESTS"
    "parse_each (parseCatalogRequest d) entries = Inr requests" "parseCatalogRequest d c = Inr cleanup"
    "seen' = seen @ [\<lparr>builtinId = i, builtinName = name, builtinRequests = requests, builtinCleanup = cleanup\<rparr>]"
    by (auto simp: parse_catalog_task_def guardR_Inr_iff bindR_Inr_iff split: option.splits json.splits)
  from parse_each_all [OF t(4), of contained] catalog_request_contained
  have "list_all contained requests" "length requests = length entries" by blast+
  then have "contained_task \<lparr>builtinId = i, builtinName = name, builtinRequests = requests, builtinCleanup = cleanup\<rparr>"
    using t(2,3) catalog_request_contained [OF t(5)] by (auto simp: contained_task_def TASK_MAX_REQUESTS_def)
  with assms(2) t(1) show ?thesis by (auto simp: t(6) catalog_ok_def list_ex_iff)
qed

lemma catalog_tasks_ok: "foldR (parse_catalog_task d) seen entries = Inr catalog \<Longrightarrow> catalog_ok seen \<Longrightarrow> catalog_ok catalog"
  by (induction entries arbitrary: seen) (auto simp: bindR_Inr_iff dest: catalog_task_ok)

lemma parsed_catalog_ok: "parseTaskCatalogResponse d data = Inr catalog \<Longrightarrow> catalog_ok catalog"
  using catalog_tasks_ok [of d "[]"]
  by (auto simp: parseTaskCatalogResponse_def guardR_Inr_iff bindR_Inr_iff catalog_ok_def split: option.splits json.splits)

lemma find_SomeD: "find P xs = Some x \<Longrightarrow> x \<in> set xs \<and> P x"
  by (auto simp: find_Some_iff)

lemma resolved_contained:
  assumes "resolveTaskRunSnapshot i catalog fetchTasks = (fetched, Inr resolved)"
    and "\<And>c. catalog = Some c \<Longrightarrow> catalog_ok c"
  shows "length (snapRequests (snapshot resolved)) \<le> 32 \<and> list_all contained (snapRequests (snapshot resolved)) \<and>
    (\<forall>c. snapCleanup (snapshot resolved) = Some c \<longrightarrow> contained c)"
proof (cases "case catalog of Some c \<Rightarrow> findBuiltInTask c i | None \<Rightarrow> None")
  case (Some t)
  then obtain c where c: "catalog = Some c" "find (\<lambda>task. builtinId task = i) c = Some t"
    by (auto simp: findBuiltInTask_def split: option.splits)
  then have "t \<in> set c" by (auto simp: find_Some_iff)
  with assms(2) [OF c(1)] have "contained_task t" by (simp add: catalog_ok_def list_all_iff)
  with assms(1) Some show ?thesis by (auto simp: resolveTaskRunSnapshot_def contained_task_def)
next
  case None
  with assms(1) obtain data :: TaskListData and tasks requests where t: "parseTaskBlob (listBlob data) = Inr tasks"
    "selectTaskRequests tasks i = Inr requests" "snapRequests (snapshot resolved) = requests" "snapCleanup (snapshot resolved) = None"
    by (auto simp: resolveTaskRunSnapshot_def bindR_Inr_iff split: if_splits)
  from t(2) obtain task where task: "task \<in> set tasks" "requests = taskRequests task"
    using find_SomeD [of _ tasks] by (auto simp: selectTaskRequests_def split: option.splits)
  from parse_lines_obey [of "\<lparr>blobTasks = [], markerSeen = False\<rparr>" "split_lines (listBlob data)"] t(1)
  have "list_all firmware_task tasks"
    by (auto simp: parseTaskBlob_def guardR_Inr_iff bindR_Inr_iff tasks_obey_def split: if_splits)
  with task have "firmware_task task" by (simp add: list_all_iff)
  with t task(2) show ?thesis by (auto simp: firmware_task_def list_all_iff firmware_contained)
qed


definition sample_list :: TaskListData where
  "sample_list = \<lparr>listTasks = [\<lparr>summaryId = ''boot'', summaryName = ''Boot'', requestCount = Fin 1\<rparr>],
     listBlob = ''# linkr-task.v1'' @ [NEW_LINE] @ ''# task boot'' @ [NEW_LINE] @
       json_text no_digits (request_json \<lparr>reqPath = ''/api/v1/power/5v'', reqBody = ''{}'', reqWait = None\<rparr>)\<rparr>"


subsection \<open>What is listed is what runs\<close>

lemma find_unique:
  assumes "distinct (map key xs)" "x \<in> set xs"
  shows "find (\<lambda>y. key y = key x) xs = Some x"
  using assms by (induction xs) (auto simp: rev_image_eqI)

lemma summaries_distinct: "parseTaskListResponse data = Inr listing \<Longrightarrow> distinct (map summaryId (listTasks listing))"
  by (auto simp: parseTaskListResponse_def guardR_Inr_iff bindR_Inr_iff split: option.splits json.splits)

lemma stored_requests:
  fixes tasks :: "ParsedTask list"
  shows "case selectTaskRequests tasks i of
     Inr requests \<Rightarrow> \<lparr>taskId = i, taskRequests = requests\<rparr> \<in> set tasks
   | Inl _ \<Rightarrow> i \<notin> set (map taskId tasks)"
proof (cases "find (\<lambda>candidate. taskId candidate = i) tasks")
  case None
  moreover from this have "i \<notin> set (map taskId tasks)" by (auto simp: find_None_iff)
  ultimately show ?thesis by (simp add: selectTaskRequests_def)
next
  case (Some t)
  from find_SomeD [OF Some] have t: "t \<in> set tasks" "taskId t = i" by blast+
  have "\<lparr>taskId = i, taskRequests = taskRequests t\<rparr> = t" using t(2) by (intro ParsedTask.equality) simp_all
  with t(1) have "\<lparr>taskId = i, taskRequests = taskRequests t\<rparr> \<in> set tasks" by metis
  with Some show ?thesis by (simp add: selectTaskRequests_def)
qed

text \<open>What running an entry of the list means.\<close>

definition runs_as_listed ::
  "TaskCatalogEntry \<Rightarrow> (task_error + ParsedTask list) \<Rightarrow> bool \<times> (task_error + ResolvedTaskRun) \<Rightarrow> bool" where
  "runs_as_listed entry parsed result =
     (case entry of
        BuiltInEntry i name n shadowed \<Rightarrow>
          (case result of
             (fetched, Inr r) \<Rightarrow> \<not> fetched \<and> snapSource (snapshot r) = Builtin \<and> snapId (snapshot r) = i \<and>
               snapName (snapshot r) = name \<and> length (snapRequests (snapshot r)) = n \<and> snapCleanup (snapshot r) \<noteq> None
           | _ \<Rightarrow> False)
      | StoredEntry i name n \<Rightarrow>
          (case result of
             (fetched, Inr r) \<Rightarrow> fetched \<and> snapSource (snapshot r) = Stored \<and> snapId (snapshot r) = i \<and>
               snapName (snapshot r) = name \<and> snapCleanup (snapshot r) = None \<and>
               (case parsed of Inr tasks \<Rightarrow> \<lparr>taskId = i, taskRequests = snapRequests (snapshot r)\<rparr> \<in> set tasks | Inl _ \<Rightarrow> False)
           | (fetched, Inl e) \<Rightarrow> fetched \<and>
               (case parsed of Inr tasks \<Rightarrow> i \<notin> set (map taskId tasks) | Inl e' \<Rightarrow> e = e')))"

text \<open>
  The merged list shows every id once, and an entry runs as it is shown: a built-in with its
  own name, requests and cleanup and without asking for the stored tasks; a stored one with its
  listed name, the requests the blob holds under its id and no cleanup, or it is refused because
  the blob is invalid or does not hold it. A stored task is never shown under a name that starts
  with \<open>builtin/\<close>.
\<close>

lemma listed_tasks_run_as_listed:
  assumes "parseTaskListResponse data = Inr listing"
    and "\<And>c. catalog = Some c \<Longrightarrow> \<exists>answer. parseTaskCatalogResponse digits_of answer = Inr c"
  shows "distinct (map entryId (mergeTaskCatalog catalog (listTasks listing))) \<and>
    list_all (\<lambda>entry. runs_as_listed entry (parseTaskBlob (listBlob listing))
        (resolveTaskRunSnapshot (entryId entry) catalog (Inr listing)) \<and>
      (case entry of StoredEntry i _ _ \<Rightarrow> \<not> has_prefix ''builtin/'' i | _ \<Rightarrow> True))
      (mergeTaskCatalog catalog (listTasks listing))"
proof -
  define cs where "cs = (case catalog of Some c \<Rightarrow> c | None \<Rightarrow> [])"
  define stored where "stored = listTasks listing"
  have distinct: "distinct (map builtinId cs)" "distinct (map summaryId stored)"
    using assms(2) parsed_catalog_ok summaries_distinct [OF assms(1)]
    by (auto simp: cs_def stored_def catalog_ok_def split: option.split)
  have lookup: "(case catalog of Some c \<Rightarrow> findBuiltInTask c i | None \<Rightarrow> None) = find (\<lambda>task. builtinId task = i) cs" for i
    by (simp add: cs_def findBuiltInTask_def split: option.split)
  define kept where "kept = filter (\<lambda>task. summaryId task \<notin> set (map builtinId cs) \<and> \<not> has_prefix BUILTIN_TASK_ID_PREFIX (summaryId task)) stored"
  have merged: "mergeTaskCatalog catalog stored =
      map (\<lambda>t. BuiltInEntry (builtinId t) (builtinName t) (length (builtinRequests t)) (builtinId t \<in> set (map summaryId stored))) cs @
      map (\<lambda>t. StoredEntry (summaryId t) (summaryName t) (requestCount t)) kept"
    by (simp add: mergeTaskCatalog_def Let_def cs_def kept_def)
  have "distinct (map summaryId kept)" unfolding kept_def using distinct(2) by (rule distinct_map_filter)
  then have "distinct (map entryId (mergeTaskCatalog catalog stored))"
    using distinct(1) unfolding merged by (auto simp: comp_def kept_def) (metis imageI)
  moreover have "runs_as_listed (BuiltInEntry (builtinId t) (builtinName t) (length (builtinRequests t)) b) parsed
      (resolveTaskRunSnapshot (builtinId t) catalog (Inr listing))" if "t \<in> set cs" for t b parsed
    unfolding resolveTaskRunSnapshot_def lookup find_unique [OF distinct(1) that] by (simp add: runs_as_listed_def)
  moreover have "runs_as_listed (StoredEntry (summaryId t) (summaryName t) n) (parseTaskBlob (listBlob listing))
      (resolveTaskRunSnapshot (summaryId t) catalog (Inr listing)) \<and> \<not> has_prefix ''builtin/'' (summaryId t)"
    if "t \<in> set kept" for t n
  proof -
    have t: "t \<in> set stored" "find (\<lambda>task. builtinId task = summaryId t) cs = None" "\<not> has_prefix BUILTIN_TASK_ID_PREFIX (summaryId t)"
      using that by (auto simp: kept_def find_None_iff rev_image_eqI)
    have name: "find (\<lambda>task. summaryId task = summaryId t) (listTasks listing) = Some t"
      using find_unique [OF distinct(2) t(1)] by (simp add: stored_def)
    show ?thesis
      unfolding resolveTaskRunSnapshot_def lookup t(2) option.case if_not_P [OF t(3)] name bindR_simps
      using t(3)
    proof (cases "parseTaskBlob (listBlob listing)")
      case (Inr tasks)
      with t(3) stored_requests [of "summaryId t" tasks] show "runs_as_listed (StoredEntry (summaryId t) (summaryName t) n)
          (parseTaskBlob (listBlob listing)) (True, bindR (parseTaskBlob (listBlob listing)) (\<lambda>tasks.
            bindR (selectTaskRequests tasks (summaryId t)) (\<lambda>requests.
            Inr \<lparr>snapshot = \<lparr>snapId = summaryId t, snapName = summaryName t, snapSource = Stored,
                snapRequests = requests, snapCleanup = None\<rparr>, storedTasks = Some (listTasks listing)\<rparr>))) \<and>
          \<not> has_prefix ''builtin/'' (summaryId t)"
        by (cases "selectTaskRequests tasks (summaryId t)") (simp_all add: runs_as_listed_def BUILTIN_TASK_ID_PREFIX_def)
    qed (simp add: runs_as_listed_def BUILTIN_TASK_ID_PREFIX_def)
  qed
  ultimately show ?thesis unfolding stored_def [symmetric] merged by (auto simp: list_all_iff)
qed

definition sample_response :: json where
  "sample_response = JObj [(''schema'', JStr FROZEN_SCHEMA), (''ok'', JBool True), (''command'', JStr ''task''),
     (''action'', JStr ''list''),
     (''tasks'', JArr [JObj [(''id'', JStr ''boot''), (''name'', JStr ''Boot''), (''request_count'', JNum (Fin 1))]]),
     (''blob'', JStr (listBlob sample_list))]"

lemma listed_tasks_run_as_listed_witness:
  "mergeTaskCatalog None (listTasks sample_list) = [StoredEntry ''boot'' ''Boot'' (Fin 1)] \<and>
   runs_as_listed (StoredEntry ''boot'' ''Boot'' (Fin 1)) (parseTaskBlob (listBlob sample_list))
     (resolveTaskRunSnapshot ''boot'' None (Inr sample_list))"
proof -
  have response: "parseTaskListResponse sample_response = Inr sample_list" by code_simp
  have merged: "mergeTaskCatalog None (listTasks sample_list) = [StoredEntry ''boot'' ''Boot'' (Fin 1)]" by code_simp
  from listed_tasks_run_as_listed [OF response, of None] show ?thesis by (simp add: merged)
qed

end
