(* ===== verification/Serial_Log.thy ===== *)
theory Serial_Log
  imports Test_Script
begin

text \<open>
  The cache of serial output (\<open>serialLogCache.ts\<close>): per channel a bounded log of text chunks in
  the browser's database, its size kept in a second store. A database transaction is one step.
  Shown: the recorded sizes are exact and bounded, what is kept is the newest part of what was
  appended, and reading a tail gives the longest end of the kept text that fits.
\<close>

subsection \<open>Texts and bytes\<close>

definition SERIAL_LOG_MAX_BYTES :: int where "SERIAL_LOG_MAX_BYTES = 16 * 1024 * 1024"

definition utf8_encode :: "string \<Rightarrow> nat list" where
  "utf8_encode text = concat (map utf8_bytes text)"

definition utf8ByteLength :: "string \<Rightarrow> int" where
  "utf8ByteLength text = int (length (utf8_encode text))"

text \<open>A strict decoder, for the characters of the model; \<open>None\<close> where \<open>TextDecoder\<close> throws.\<close>

fun utf8_decode :: "nat list \<Rightarrow> string option" where
  "utf8_decode [] = Some []"
| "utf8_decode (b # bs) =
     (if b < 128 then map_option (Cons (char_of b)) (utf8_decode bs)
      else if b = 194 \<or> b = 195 then
        (case bs of
           c # r \<Rightarrow> if 128 \<le> c \<and> c < 192 then map_option (Cons (char_of (64 * (b - 192) + (c - 128)))) (utf8_decode r) else None
         | [] \<Rightarrow> None)
      else None)"

text \<open>The loop that moves the start until the bytes decode.\<close>

fun decode_from :: "nat list \<Rightarrow> string" where
  "decode_from [] = []"
| "decode_from (b # bs) = (case utf8_decode (b # bs) of Some text \<Rightarrow> text | None \<Rightarrow> decode_from bs)"

definition tailTextByUtf8Bytes :: "string \<Rightarrow> int \<Rightarrow> string" where
  "tailTextByUtf8Bytes text maxBytes =
     (if maxBytes \<le> 0 \<or> text = [] then []
      else
        let encoded = utf8_encode text
        in if int (length encoded) \<le> maxBytes then text
           else decode_from (drop (length encoded - nat maxBytes) encoded))"

subsection \<open>The database\<close>

record SerialLogChunk =
  logChannel :: SerialChannel
  logCreatedAt :: int
  logText :: string
  logBytes :: int

text \<open>The chunks in the order of their ids, and the total that is recorded for a channel.\<close>

record log_db =
  logChunks :: "SerialLogChunk list"
  logMeta :: "SerialChannel \<Rightarrow> int option"

definition getSerialLogSize :: "SerialChannel \<Rightarrow> log_db \<Rightarrow> int" where
  "getSerialLogSize channel db = (case logMeta db channel of Some t \<Rightarrow> t | None \<Rightarrow> 0)"

text \<open>The cursor over a channel's chunks, oldest first, that deletes until the total fits.\<close>

fun evict :: "SerialChannel \<Rightarrow> int \<Rightarrow> SerialLogChunk list \<Rightarrow> SerialLogChunk list \<times> int" where
  "evict channel totalBytes [] = ([], totalBytes)"
| "evict channel totalBytes (chunk # chunks) =
     (if logChannel chunk \<noteq> channel then apfst (Cons chunk) (evict channel totalBytes chunks)
      else if totalBytes \<le> SERIAL_LOG_MAX_BYTES then (chunk # chunks, totalBytes)
      else evict channel (max 0 (totalBytes - logBytes chunk)) chunks)"

definition appendSerialLogChunk :: "int \<Rightarrow> SerialChannel \<Rightarrow> string \<Rightarrow> log_db \<Rightarrow> int \<times> log_db" where
  "appendSerialLogChunk now channel text db =
     (if text = [] then (getSerialLogSize channel db, db)
      else
        let retainedText = tailTextByUtf8Bytes text SERIAL_LOG_MAX_BYTES;
            byteLength = utf8ByteLength retainedText;
            totalBytes = getSerialLogSize channel db + byteLength;
            added = logChunks db @ [\<lparr>logChannel = channel, logCreatedAt = now, logText = retainedText, logBytes = byteLength\<rparr>];
            (chunks, kept) = (if totalBytes \<le> SERIAL_LOG_MAX_BYTES then (added, totalBytes) else evict channel totalBytes added)
        in (kept, \<lparr>logChunks = chunks, logMeta = (logMeta db)(channel \<mapsto> kept)\<rparr>))"

definition clearSerialLog :: "SerialChannel \<Rightarrow> log_db \<Rightarrow> log_db" where
  "clearSerialLog channel db =
     \<lparr>logChunks = filter (\<lambda>chunk. logChannel chunk \<noteq> channel) (logChunks db), logMeta = (logMeta db)(channel \<mapsto> 0)\<rparr>"

text \<open>The cursor from the newest chunk back, until \<open>tailBytes\<close> are collected.\<close>

fun collect_tail :: "int \<Rightarrow> int \<Rightarrow> SerialLogChunk list \<Rightarrow> SerialLogChunk list \<Rightarrow> SerialLogChunk list" where
  "collect_tail tailBytes collectedBytes newestChunks [] = rev newestChunks"
| "collect_tail tailBytes collectedBytes newestChunks (chunk # chunks) =
     (let remainingBytes = tailBytes - collectedBytes
      in if logBytes chunk > remainingBytes then
           (let text = tailTextByUtf8Bytes (logText chunk) remainingBytes
            in rev (if text \<noteq> [] then newestChunks @ [chunk\<lparr>logText := text, logBytes := utf8ByteLength text\<rparr>] else newestChunks))
         else if collectedBytes + logBytes chunk \<ge> tailBytes then rev (newestChunks @ [chunk])
         else collect_tail tailBytes (collectedBytes + logBytes chunk) (newestChunks @ [chunk]) chunks)"

definition channel_chunks :: "SerialChannel \<Rightarrow> log_db \<Rightarrow> SerialLogChunk list" where
  "channel_chunks channel db = filter (\<lambda>chunk. logChannel chunk = channel) (logChunks db)"

text \<open>The text and the total.\<close>

definition readSerialLog :: "SerialChannel \<Rightarrow> int option \<Rightarrow> log_db \<Rightarrow> string \<times> int" where
  "readSerialLog channel tailBytes db =
     (let chunks = (case tailBytes of
            None \<Rightarrow> channel_chunks channel db
          | Some n \<Rightarrow> if n \<le> 0 then [] else collect_tail n 0 [] (rev (channel_chunks channel db)))
      in (concat (map logText chunks),
          case logMeta db channel of Some t \<Rightarrow> t | None \<Rightarrow> foldl (\<lambda>total chunk. total + logBytes chunk) 0 chunks))"

subsection \<open>The longest end that fits\<close>

fun fitting_end :: "int \<Rightarrow> string \<Rightarrow> string" where
  "fitting_end n [] = []"
| "fitting_end n (c # cs) = (if utf8ByteLength (c # cs) \<le> n then c # cs else fitting_end n cs)"

lemma utf8_encode_simps [simp]: "utf8_encode [] = []" "utf8_encode (c # cs) = utf8_bytes c @ utf8_encode cs"
  "utf8_encode (a @ b) = utf8_encode a @ utf8_encode b"
  by (simp_all add: utf8_encode_def)

lemma utf8ByteLength_simps [simp]: "utf8ByteLength [] = 0" "utf8ByteLength (a @ b) = utf8ByteLength a + utf8ByteLength b"
  by (simp_all add: utf8ByteLength_def)

lemma utf8ByteLength_nonneg [simp]: "0 \<le> utf8ByteLength s"
  by (simp add: utf8ByteLength_def)

lemma utf8ByteLength_pos: "utf8ByteLength s = 0 \<longleftrightarrow> s = []"
  by (cases s) (auto simp: utf8ByteLength_def utf8_bytes_def)

lemma code_less: "code c < 256"
  by (simp add: code_def)

lemma utf8_lead: "code c \<ge> 128 \<Longrightarrow> 192 + code c div 64 = 194 \<or> 192 + code c div 64 = 195"
  using code_less [of c] by linarith

lemma utf8_decode_encode: "utf8_decode (utf8_encode s) = Some s"
proof (induction s)
  case (Cons c s)
  show ?case
  proof (cases "code c < 128")
    case False
    then have "\<not> 192 + code c div 64 < 128" "192 + code c div 64 = 194 \<or> 192 + code c div 64 = 195" "code c mod 64 < 64"
      using utf8_lead [of c] by auto
    moreover have "64 * (code c div 64) + code c mod 64 = code c" by simp
    ultimately show ?thesis using False Cons by (simp add: utf8_bytes_def)
  qed (simp add: utf8_bytes_def Cons)
qed simp

lemma decode_from_encode: "decode_from (utf8_encode s) = s"
proof (cases "utf8_encode s")
  case Nil
  then show ?thesis by (cases s) (auto simp: utf8_bytes_def split: if_splits)
next
  case (Cons b bs)
  with utf8_decode_encode [of s] show ?thesis by simp
qed

lemma decode_from_drop: "n \<le> length (utf8_encode s) \<Longrightarrow> decode_from (drop (length (utf8_encode s) - n) (utf8_encode s)) = fitting_end (int n) s"
proof (induction s)
  case (Cons c s)
  show ?case
  proof (cases "length (utf8_encode (c # s)) \<le> n")
    case True
    then show ?thesis using decode_from_encode [of "c # s"] by (simp add: utf8ByteLength_def)
  next
    case False
    then have end_of: "fitting_end (int n) (c # s) = fitting_end (int n) s" by (simp add: utf8ByteLength_def)
    show ?thesis
    proof (cases "n \<le> length (utf8_encode s)")
      case True
      with Cons.IH end_of show ?thesis by (simp del: fitting_end.simps)
    next
      case inner: False
      with False have n: "length (utf8_bytes c) = 2" "n = Suc (length (utf8_encode s))"
        by (auto simp: utf8_bytes_def split: if_splits)
      then have "drop (length (utf8_encode (c # s)) - n) (utf8_encode (c # s)) = (128 + code c mod 64) # utf8_encode s"
        by (auto simp: utf8_bytes_def split: if_splits)
      moreover have "utf8_decode ((128 + code c mod 64) # utf8_encode s) = None"
      proof -
        have "code c mod 64 < 64" by simp
        then have "128 + code c mod 64 \<noteq> 194" "128 + code c mod 64 \<noteq> 195" by linarith+
        then show ?thesis by simp
      qed
      moreover have "fitting_end (int n) s = s" using inner by (cases s) (simp_all add: utf8ByteLength_def)
      ultimately show ?thesis by (simp add: end_of decode_from_encode del: fitting_end.simps utf8_encode_simps)
    qed
  qed
qed simp

lemma fitting_end_all: "utf8ByteLength s \<le> n \<Longrightarrow> fitting_end n s = s"
  by (cases s) simp_all

lemma fitting_end_none: "n \<le> 0 \<Longrightarrow> fitting_end n s = []"
proof (induction s)
  case (Cons c s)
  have "utf8ByteLength (c # s) \<noteq> 0" by (simp add: utf8ByteLength_pos)
  with utf8ByteLength_nonneg [of "c # s"] have "0 < utf8ByteLength (c # s)" by linarith
  with Cons show ?case by simp
qed simp

lemma tail_is_fitting_end: "tailTextByUtf8Bytes text n = fitting_end n text"
proof (cases "n \<le> 0 \<or> text = []")
  case True
  then show ?thesis by (auto simp: tailTextByUtf8Bytes_def fitting_end_none)
next
  case False
  then show ?thesis
    using decode_from_drop [of "nat n" "text"] fitting_end_all [of "text" n]
    by (auto simp: tailTextByUtf8Bytes_def Let_def utf8ByteLength_def)
qed

lemma fitting_end_suffix: "\<exists>pre. s = pre @ fitting_end n s"
proof (induction s)
  case (Cons c s)
  then obtain pre where "s = pre @ fitting_end n s" by blast
  then have "c # s = (c # pre) @ fitting_end n s" by simp
  then have "\<exists>pre'. c # s = pre' @ fitting_end n s" by (rule exI)
  then show ?case by simp
qed simp

lemma fitting_end_fits: "0 \<le> n \<Longrightarrow> utf8ByteLength (fitting_end n s) \<le> n"
  by (induction s) auto

lemma fitting_end_append:
  "fitting_end n (a @ b) = (if utf8ByteLength b < n then fitting_end (n - utf8ByteLength b) a @ b else fitting_end n b)"
proof (induction a)
  case Nil
  then show ?case by (simp add: fitting_end_all)
next
  case (Cons c a)
  have "utf8ByteLength (c # a) \<noteq> 0" by (simp add: utf8ByteLength_pos)
  with utf8ByteLength_nonneg [of "c # a"] have pos: "0 < utf8ByteLength (c # a)" by linarith
  have sum: "utf8ByteLength (c # a @ b) = utf8ByteLength (c # a) + utf8ByteLength b"
    using utf8ByteLength_simps(2) [of "c # a" b] by simp
  show ?case
  proof (cases "utf8ByteLength (c # a @ b) \<le> n")
    case True
    with sum pos show ?thesis by simp
  next
    case False
    with sum have "\<not> utf8ByteLength (c # a) \<le> n - utf8ByteLength b" by simp
    with False Cons show ?thesis by simp
  qed
qed

subsection \<open>What is kept\<close>

definition chunk_ok :: "SerialLogChunk \<Rightarrow> bool" where
  "chunk_ok c \<longleftrightarrow> logText c \<noteq> [] \<and> logBytes c = utf8ByteLength (logText c)"

abbreviation of_channel :: "SerialChannel \<Rightarrow> SerialLogChunk list \<Rightarrow> SerialLogChunk list" where
  "of_channel ch \<equiv> filter (\<lambda>c. logChannel c = ch)"

definition texts :: "SerialLogChunk list \<Rightarrow> string" where
  "texts cs = concat (map logText cs)"

lemma texts_simps [simp]: "texts [] = []" "texts (c # cs) = logText c @ texts cs" "texts (a @ b) = texts a @ texts b"
  by (simp_all add: texts_def)

lemma sum_bytes: "list_all chunk_ok cs \<Longrightarrow> foldl (\<lambda>total c. total + logBytes c) n cs = n + utf8ByteLength (texts cs)"
  by (induction cs arbitrary: n) (simp_all add: chunk_ok_def)

text \<open>The cursor drops a channel's oldest chunks, as few as bring the total under the limit.\<close>

definition evicted :: "SerialChannel \<Rightarrow> SerialLogChunk list \<Rightarrow> SerialLogChunk list \<Rightarrow> bool" where
  "evicted ch cs cs' \<longleftrightarrow> (\<exists>dropped. of_channel ch cs = dropped @ of_channel ch cs' \<and>
     (dropped \<noteq> [] \<longrightarrow> SERIAL_LOG_MAX_BYTES < utf8ByteLength (texts (last dropped # of_channel ch cs'))))"

lemma evicted_first:
  assumes "evicted ch cs cs'" "logChannel c = ch" "SERIAL_LOG_MAX_BYTES < utf8ByteLength (texts (of_channel ch (c # cs)))"
  shows "evicted ch (c # cs) cs'"
proof -
  from assms(1) obtain dropped where d: "of_channel ch cs = dropped @ of_channel ch cs'"
    "dropped \<noteq> [] \<longrightarrow> SERIAL_LOG_MAX_BYTES < utf8ByteLength (texts (last dropped # of_channel ch cs'))"
    unfolding evicted_def by blast
  show ?thesis unfolding evicted_def
    by (rule exI [of _ "c # dropped"]) (use assms(2,3) d in auto)
qed

lemma evict_spec:
  assumes "list_all chunk_ok cs" "evict ch (utf8ByteLength (texts (of_channel ch cs))) cs = (cs', kept)"
  shows "evicted ch cs cs' \<and> (\<forall>other. other \<noteq> ch \<longrightarrow> of_channel other cs' = of_channel other cs) \<and> list_all chunk_ok cs' \<and>
      kept = utf8ByteLength (texts (of_channel ch cs')) \<and> kept \<le> SERIAL_LOG_MAX_BYTES"
  using assms
proof (induction cs arbitrary: cs')
  case Nil
  then show ?case by (simp add: evicted_def SERIAL_LOG_MAX_BYTES_def)
next
  case (Cons c cs)
  show ?case
  proof (cases "logChannel c = ch")
    case False
    with Cons.prems obtain cs1 where cs1: "evict ch (utf8ByteLength (texts (of_channel ch cs))) cs = (cs1, kept)" "cs' = c # cs1"
      by (cases "evict ch (utf8ByteLength (texts (of_channel ch cs))) cs") auto
    with Cons.IH [OF _ cs1(1)] Cons.prems(1) False show ?thesis by (auto simp: evicted_def)
  next
    case True
    show ?thesis
    proof (cases "utf8ByteLength (texts (of_channel ch (c # cs))) \<le> SERIAL_LOG_MAX_BYTES")
      case fits: True
      with Cons.prems True show ?thesis by (auto simp: evicted_def)
    next
      case over: False
      have "utf8ByteLength (texts (of_channel ch (c # cs))) - logBytes c = utf8ByteLength (texts (of_channel ch cs))"
        using Cons.prems(1) True by (simp add: chunk_ok_def)
      then have "max 0 (utf8ByteLength (texts (of_channel ch (c # cs))) - logBytes c) = utf8ByteLength (texts (of_channel ch cs))"
        by (simp only: utf8ByteLength_nonneg max_absorb2)
      with Cons.prems True over have "evict ch (utf8ByteLength (texts (of_channel ch cs))) cs = (cs', kept)" by simp
      with Cons.IH Cons.prems(1) have rest: "evicted ch cs cs' \<and> (\<forall>other. other \<noteq> ch \<longrightarrow> of_channel other cs' = of_channel other cs) \<and> list_all chunk_ok cs' \<and>
        kept = utf8ByteLength (texts (of_channel ch cs')) \<and> kept \<le> SERIAL_LOG_MAX_BYTES" by simp
      with evicted_first [of ch cs cs' c] True over show ?thesis by auto
    qed
  qed
qed

text \<open>
  The database against the text that was appended to a channel since it was last cleared: the
  total is that of the kept chunks, within the limit; the kept chunks are the end of that text, all of it
  when it fits, and never nothing when something was appended.
\<close>

definition kept_text :: "SerialChannel \<Rightarrow> log_db \<Rightarrow> string" where
  "kept_text ch db = texts (channel_chunks ch db)"

definition channel_ok :: "log_db \<Rightarrow> string \<Rightarrow> SerialChannel \<Rightarrow> bool" where
  "channel_ok db appended ch \<longleftrightarrow>
     utf8ByteLength (kept_text ch db) \<le> SERIAL_LOG_MAX_BYTES \<and>
     getSerialLogSize ch db = utf8ByteLength (kept_text ch db) \<and>
     (\<exists>lost. appended = lost @ kept_text ch db) \<and>
     (utf8ByteLength appended \<le> SERIAL_LOG_MAX_BYTES \<longrightarrow> kept_text ch db = appended) \<and>
     (appended \<noteq> [] \<longrightarrow> kept_text ch db \<noteq> [])"

definition log_ok :: "log_db \<Rightarrow> (SerialChannel \<Rightarrow> string) \<Rightarrow> bool" where
  "log_ok db appended \<longleftrightarrow> list_all chunk_ok (logChunks db) \<and> (\<forall>ch. channel_ok db (appended ch) ch)"

lemma log_ok_channel: "log_ok db h \<Longrightarrow> channel_ok db (h ch) ch"
  by (simp add: log_ok_def)

text \<open>Of a text longer than the whole cache only the end counts as appended.\<close>

datatype log_operation = LogAppend int SerialChannel string | LogClear SerialChannel

fun log_step :: "log_operation \<Rightarrow> log_db \<Rightarrow> log_db" where
  "log_step (LogAppend now ch new) db = snd (appendSerialLogChunk now ch new db)"
| "log_step (LogClear ch) db = clearSerialLog ch db"

fun log_history :: "log_operation \<Rightarrow> (SerialChannel \<Rightarrow> string) \<Rightarrow> SerialChannel \<Rightarrow> string" where
  "log_history (LogAppend now ch new) h = h(ch := h ch @ fitting_end SERIAL_LOG_MAX_BYTES new)"
| "log_history (LogClear ch) h = h(ch := [])"

lemma log_okD:
  assumes "log_ok db h"
  shows "list_all chunk_ok (logChunks db)" "utf8ByteLength (kept_text ch db) \<le> SERIAL_LOG_MAX_BYTES"
    "getSerialLogSize ch db = utf8ByteLength (kept_text ch db)" "\<exists>lost. h ch = lost @ kept_text ch db"
    "utf8ByteLength (h ch) \<le> SERIAL_LOG_MAX_BYTES \<Longrightarrow> kept_text ch db = h ch" "h ch \<noteq> [] \<Longrightarrow> kept_text ch db \<noteq> []"
  using assms unfolding log_ok_def channel_ok_def by blast+

lemma clear_ok: "log_ok db h \<Longrightarrow> log_ok (clearSerialLog ch db) (h(ch := []))"
proof -
  assume ok: "log_ok db h"
  have "kept_text ch (clearSerialLog ch db) = []"
    by (simp add: kept_text_def channel_chunks_def clearSerialLog_def filter_filter)
  moreover have "kept_text other (clearSerialLog ch db) = kept_text other db" if "other \<noteq> ch" for other
    using that by (auto simp: kept_text_def channel_chunks_def clearSerialLog_def filter_filter intro!: arg_cong [of _ _ texts] filter_cong)
  moreover have "list_all chunk_ok (logChunks (clearSerialLog ch db))"
    using log_okD(1) [OF ok] by (simp add: clearSerialLog_def list_all_iff)
  moreover have "getSerialLogSize c (clearSerialLog ch db) = (if c = ch then 0 else getSerialLogSize c db)" for c
    by (simp add: getSerialLogSize_def clearSerialLog_def)
  ultimately show ?thesis using log_okD [OF ok] unfolding log_ok_def channel_ok_def by (simp add: SERIAL_LOG_MAX_BYTES_def)
qed

lemma fitting_end_nonempty: "s \<noteq> [] \<Longrightarrow> 2 \<le> n \<Longrightarrow> fitting_end n s \<noteq> []"
proof (induction s)
  case (Cons c s)
  have "utf8ByteLength [c] \<le> 2" by (simp add: utf8ByteLength_def utf8_bytes_def)
  with Cons show ?case by (cases s) auto
qed simp

text \<open>What one append leaves of the text before and the new text.\<close>

lemma append_ok:
  assumes "log_ok db h"
  shows "log_ok (snd (appendSerialLogChunk now ch new db)) (h(ch := h ch @ fitting_end SERIAL_LOG_MAX_BYTES new))"
proof (cases "new = []")
  case True
  with assms show ?thesis by (simp add: appendSerialLogChunk_def)
next
  case False
  define retained where "retained = fitting_end SERIAL_LOG_MAX_BYTES new"
  define c where "c = \<lparr>logChannel = ch, logCreatedAt = now, logText = retained, logBytes = utf8ByteLength retained\<rparr>"
  define all where "all = logChunks db @ [c]"
  have retained: "retained \<noteq> []" "utf8ByteLength retained \<le> SERIAL_LOG_MAX_BYTES"
    using False fitting_end_nonempty fitting_end_fits by (simp_all add: retained_def SERIAL_LOG_MAX_BYTES_def)
  have chunks: "list_all chunk_ok all" using log_okD(1) [OF assms] retained(1) by (simp add: all_def c_def chunk_ok_def)
  have old: "texts (of_channel ch (logChunks db)) = kept_text ch db" by (simp add: kept_text_def channel_chunks_def)
  have sum: "utf8ByteLength (texts (of_channel ch all)) = getSerialLogSize ch db + utf8ByteLength retained"
    using log_okD(3) [OF assms, of ch] by (simp add: all_def c_def old)
  obtain cs kept where cs: "(if getSerialLogSize ch db + utf8ByteLength retained \<le> SERIAL_LOG_MAX_BYTES
      then (all, getSerialLogSize ch db + utf8ByteLength retained)
      else evict ch (getSerialLogSize ch db + utf8ByteLength retained) all) = (cs, kept)" by fastforce
  have new_db: "snd (appendSerialLogChunk now ch new db) = \<lparr>logChunks = cs, logMeta = (logMeta db)(ch \<mapsto> kept)\<rparr>"
    unfolding appendSerialLogChunk_def if_not_P [OF False] Let_def tail_is_fitting_end retained_def [symmetric] c_def [symmetric]
      all_def [symmetric] cs by simp
  have "evicted ch all cs \<and> (\<forall>other. other \<noteq> ch \<longrightarrow> of_channel other cs = of_channel other all) \<and> list_all chunk_ok cs \<and>
      kept = utf8ByteLength (texts (of_channel ch cs)) \<and> kept \<le> SERIAL_LOG_MAX_BYTES"
  proof (cases "getSerialLogSize ch db + utf8ByteLength retained \<le> SERIAL_LOG_MAX_BYTES")
    case True
    with cs chunks sum show ?thesis by (auto simp: evicted_def)
  next
    case over: False
    with cs have "evict ch (utf8ByteLength (texts (of_channel ch all))) all = (cs, kept)" by (simp add: sum)
    with evict_spec [OF chunks] show ?thesis by blast
  qed
  then obtain dropped where ev: "of_channel ch all = dropped @ of_channel ch cs"
      "dropped \<noteq> [] \<longrightarrow> SERIAL_LOG_MAX_BYTES < utf8ByteLength (texts (last dropped # of_channel ch cs))"
    and others: "\<And>other. other \<noteq> ch \<Longrightarrow> of_channel other cs = of_channel other all"
    and rest: "list_all chunk_ok cs" "kept = utf8ByteLength (texts (of_channel ch cs))" "kept \<le> SERIAL_LOG_MAX_BYTES"
    unfolding evicted_def by blast
  let ?db = "snd (appendSerialLogChunk now ch new db)" and ?h = "h(ch := h ch @ retained)"
  have kept_new: "kept_text ch ?db = texts (of_channel ch cs)" "getSerialLogSize ch ?db = kept"
    by (simp_all add: new_db kept_text_def channel_chunks_def getSerialLogSize_def)
  have same: "kept_text other ?db = kept_text other db" "getSerialLogSize other ?db = getSerialLogSize other db" if "other \<noteq> ch" for other
    using that others by (simp_all add: new_db kept_text_def channel_chunks_def getSerialLogSize_def all_def c_def)
  have all_texts: "kept_text ch db @ retained = texts dropped @ texts (of_channel ch cs)"
    using arg_cong [OF ev(1), of texts] by (simp add: all_def c_def old)
  have "\<exists>lost. h ch @ retained = lost @ texts (of_channel ch cs)"
    using log_okD(4) [OF assms, of ch] all_texts by (metis append.assoc)
  moreover have "texts (of_channel ch cs) = h ch @ retained" if "utf8ByteLength (h ch @ retained) \<le> SERIAL_LOG_MAX_BYTES"
  proof -
    have "utf8ByteLength (h ch) \<le> SERIAL_LOG_MAX_BYTES" using that utf8ByteLength_nonneg [of retained] by (simp del: utf8ByteLength_nonneg)
    then have h: "h ch = kept_text ch db" using log_okD(5) [OF assms] by simp
    have "dropped = []"
    proof (rule ccontr)
      assume "dropped \<noteq> []"
      then have "texts dropped = texts (butlast dropped) @ logText (last dropped)"
        by (metis append_butlast_last_id append_Nil2 texts_simps)
      moreover have "utf8ByteLength (texts dropped @ texts (of_channel ch cs)) \<le> SERIAL_LOG_MAX_BYTES"
        using that by (simp only: h all_texts)
      ultimately show False using ev(2) \<open>dropped \<noteq> []\<close> utf8ByteLength_nonneg [of "texts (butlast dropped)"]
        by (simp del: utf8ByteLength_nonneg)
    qed
    then show ?thesis using all_texts h by simp
  qed
  moreover have "texts (of_channel ch cs) \<noteq> []"
  proof
    assume empty: "texts (of_channel ch cs) = []"
    then have "of_channel ch cs = []" using rest(1) by (cases "of_channel ch cs") (auto simp: chunk_ok_def list_all_iff filter_eq_Cons_iff)
    with ev retained(2) show False by (auto simp: all_def c_def)
  qed
  ultimately have here: "channel_ok ?db (?h ch) ch" using rest by (simp add: channel_ok_def kept_new)
  have "channel_ok ?db (?h other) other" for other
  proof (cases "other = ch")
    case True
    with here show ?thesis by simp
  next
    case False
    then show ?thesis using log_ok_channel [OF assms, of other] by (simp add: channel_ok_def same)
  qed
  moreover have "list_all chunk_ok (logChunks ?db)" using rest(1) by (simp add: new_db)
  ultimately show ?thesis unfolding log_ok_def retained_def by blast
qed

definition empty_log :: log_db where
  "empty_log = \<lparr>logChunks = [], logMeta = (\<lambda>_. None)\<rparr>"

lemma empty_log_ok: "log_ok empty_log (\<lambda>_. [])"
  by (simp add: log_ok_def channel_ok_def empty_log_def kept_text_def channel_chunks_def getSerialLogSize_def SERIAL_LOG_MAX_BYTES_def)

lemma log_step_ok: "log_ok db h \<Longrightarrow> log_ok (log_step operation db) (log_history operation h)"
  by (cases operation) (simp_all add: append_ok clear_ok)

lemma log_steps_ok: "log_ok db h \<Longrightarrow> log_ok (foldl (\<lambda>d x. log_step x d) db xs) (foldl (\<lambda>h x. log_history x h) h xs)"
  by (induction xs arbitrary: db h) (simp_all add: log_step_ok)

definition after_log :: "log_operation list \<Rightarrow> log_db" where
  "after_log xs = foldl (\<lambda>d x. log_step x d) empty_log xs"

definition appended_to :: "log_operation list \<Rightarrow> SerialChannel \<Rightarrow> string" where
  "appended_to xs = foldl (\<lambda>h x. log_history x h) (\<lambda>_. []) xs"

lemma after_log_ok: "log_ok (after_log xs) (appended_to xs)"
  unfolding after_log_def appended_to_def by (rule log_steps_ok [OF empty_log_ok])

subsection \<open>Reading\<close>

lemma fst_readSerialLog_all [simp]: "fst (readSerialLog ch None db) = kept_text ch db"
  by (simp add: readSerialLog_def kept_text_def texts_def Let_def)

lemma collect_tail_texts:
  "list_all chunk_ok chunks \<Longrightarrow> k < n \<Longrightarrow>
   texts (collect_tail n k newest chunks) = fitting_end (n - k) (texts (rev chunks)) @ texts (rev newest)"
proof (induction chunks arbitrary: k newest)
  case (Cons c chunks)
  from Cons.prems have b: "logBytes c = utf8ByteLength (logText c)" by (simp add: chunk_ok_def)
  consider "n - k < logBytes c" | "logBytes c = n - k" | "logBytes c < n - k" by linarith
  then show ?case
  proof cases
    case 1
    then show ?thesis by (simp add: b tail_is_fitting_end fitting_end_append Let_def)
  next
    case 2
    then show ?thesis by (simp add: b fitting_end_append fitting_end_all)
  next
    case 3
    then show ?thesis using Cons by (simp add: b fitting_end_append diff_diff_eq)
  qed
qed simp

lemma no_total_no_chunks:
  assumes "log_ok db h" "logMeta db ch = None"
  shows "channel_chunks ch db = []"
proof (rule ccontr)
  assume "channel_chunks ch db \<noteq> []"
  then obtain c cs where cs: "channel_chunks ch db = c # cs" by (cases "channel_chunks ch db") simp_all
  then have "c \<in> set (logChunks db)" unfolding channel_chunks_def by (auto simp: filter_eq_Cons_iff)
  with log_okD(1) [OF assms(1)] have "logText c \<noteq> []" by (simp add: list_all_iff chunk_ok_def)
  have "utf8ByteLength (kept_text ch db) = 0"
    using log_okD(3) [OF assms(1), of ch] assms(2) by (simp add: getSerialLogSize_def)
  then have "kept_text ch db = []" by (simp only: utf8ByteLength_pos)
  with \<open>logText c \<noteq> []\<close> show False by (simp add: kept_text_def cs)
qed

lemma read_tail:
  assumes "log_ok db h"
  shows "readSerialLog ch (Some n) db = (fitting_end n (kept_text ch db), getSerialLogSize ch db)"
proof (cases "logMeta db ch")
  case None
  with no_total_no_chunks [OF assms] show ?thesis
    by (simp add: readSerialLog_def getSerialLogSize_def kept_text_def)
next
  case (Some t)
  have "list_all chunk_ok (rev (channel_chunks ch db))"
    using log_okD(1) [OF assms] by (simp add: channel_chunks_def list_all_iff)
  from collect_tail_texts [OF this, of 0 n "[]"] Some show ?thesis
    by (simp add: readSerialLog_def getSerialLogSize_def kept_text_def texts_def fitting_end_none Let_def)
qed


text \<open>Two appends, of which one to the other channel, and a clear of that channel.\<close>

definition log_example :: "log_operation list" where
  "log_example = [LogAppend 1 Uart0 ''boot'', LogAppend 2 Uart1 ''x'', LogAppend 3 Uart0 '' ok'', LogClear Uart1]"

lemma log_example_appended: "appended_to log_example Uart0 = ''boot ok''" "appended_to log_example Uart1 = []"
  by (simp_all add: appended_to_def log_example_def utf8ByteLength_def utf8_bytes_def code_def SERIAL_LOG_MAX_BYTES_def)



end
