(* ===== verification/Board_Telemetry.thy ===== *)
theory Board_Telemetry
  imports Power_Capture Json_Text
begin

text \<open>
  Current and voltage readings of the board (\<open>adc.ts\<close>), the live messages that carry them
  (\<open>boardTelemetry.ts\<close>) and the scheduler that shows at most one state per frame
  (\<open>telemetryFrameScheduler.ts\<close>). Shown: what a message shows live and what it adds to a recording
  are the same readings, the power flags of a batch are the bits of its mask, and the scheduler
  shows the newest value once per frame.
\<close>

subsection \<open>\<open>Number(value)\<close>\<close>

definition decimal_exponent :: "string \<Rightarrow> rat option" where
  "decimal_exponent s =
     (case s of [] \<Rightarrow> Some 1
      | e # r \<Rightarrow>
          let sgn = (case r of c # _ \<Rightarrow> c \<in> {CHR ''+'', CHR ''-''} | [] \<Rightarrow> False);
              ds = (if sgn then drop 1 r else r);
              power = (10 :: rat) ^ digits_value ds
          in if e \<in> {CHR ''e'', CHR ''E''} \<and> ds \<noteq> [] \<and> list_all is_digit ds
             then Some (if take 1 r = ''-'' then 1 / power else power) else None)"

definition decimal_value :: "string \<Rightarrow> rat option" where
  "decimal_value s =
     (let whole = takeWhile is_digit s;
          rest = dropWhile is_digit s;
          (part, rest') = (if take 1 rest = ''.'' then (takeWhile is_digit (drop 1 rest), dropWhile is_digit (drop 1 rest)) else ([], rest))
      in if whole = [] \<and> part = [] then None
         else map_option (\<lambda>factor. (of_nat (digits_value whole) + of_nat (digits_value part) / 10 ^ length part) * factor)
           (decimal_exponent rest'))"

definition radix_digit :: "nat \<Rightarrow> char \<Rightarrow> nat option" where
  "radix_digit radix c = (case hex_value c of Some v \<Rightarrow> if v < radix then Some v else None | None \<Rightarrow> None)"

definition radix_value :: "nat \<Rightarrow> string \<Rightarrow> jsnum" where
  "radix_value radix ds =
     (if ds = [] \<or> list_ex (\<lambda>c. radix_digit radix c = None) ds then NaN
      else Fin (of_nat (foldl (\<lambda>n c. n * radix + the (radix_digit radix c)) 0 ds)))"

definition string_number :: "string \<Rightarrow> jsnum" where
  "string_number text =
     (let s = js_trim text; prefix = take 2 s;
          negative = take 1 s = ''-'';
          body = (if negative \<or> take 1 s = ''+'' then drop 1 s else s)
      in if s = [] then Fin 0
         else if prefix = ''0x'' \<or> prefix = ''0X'' then radix_value 16 (drop 2 s)
         else if prefix = ''0o'' \<or> prefix = ''0O'' then radix_value 8 (drop 2 s)
         else if prefix = ''0b'' \<or> prefix = ''0B'' then radix_value 2 (drop 2 s)
         else if body = ''Infinity'' then (if negative then NegInf else PosInf)
         else case decimal_value body of Some r \<Rightarrow> Fin (if negative then - r else r) | None \<Rightarrow> NaN)"

text \<open>Of an array, the text of its items joined by commas is read; an object reads as not a number.\<close>

fun array_number :: "json list \<Rightarrow> jsnum" where
  "array_number [] = Fin 0"
| "array_number [JNull] = Fin 0"
| "array_number [JNum x] = x"
| "array_number [JStr s] = string_number s"
| "array_number [JArr vs] = array_number vs"
| "array_number _ = NaN"

fun js_number :: "json \<Rightarrow> jsnum" where
  "js_number JNull = Fin 0"
| "js_number (JBool b) = Fin (if b then 1 else 0)"
| "js_number (JNum x) = x"
| "js_number (JStr s) = string_number s"
| "js_number (JArr vs) = array_number vs"
| "js_number (JObj _) = NaN"

text \<open>\<open>a ?? b\<close>.\<close>

definition nullish :: "json option \<Rightarrow> json option \<Rightarrow> json option" where
  "nullish a b = (case a of None \<Rightarrow> b | Some JNull \<Rightarrow> b | Some v \<Rightarrow> Some v)"

definition number_or_0 :: "json option \<Rightarrow> jsnum" where
  "number_or_0 v = (case nullish v (Some (JNum (Fin 0))) of Some x \<Rightarrow> js_number x | None \<Rightarrow> NaN)"

subsection \<open>Readings\<close>

datatype adc_kind = CurrentKind | VoltageKind

text \<open>
  A reading; the unit follows from the kind, \<open>power_enabled\<close> belongs to current readings, and the
  last four fields are there when the firmware's HTTP answer had them.
\<close>

record AdcReading =
  adcKind :: adc_kind
  adcName :: string
  adcSignal :: string
  adcValue :: int
  adcPowerEnabled :: "bool option"
  adcSensorChannel :: "adc_kind option"
  adcRaw :: "int option option"
  adcMv :: "int option"
  adcSensorValue :: "(int \<times> int) option"

definition MEASUREMENT_HISTORY_LIMIT :: nat where "MEASUREMENT_HISTORY_LIMIT = 90"

text \<open>\<open>isSafeInteger\<close>, with the integer.\<close>

definition isSafeInteger :: "json option \<Rightarrow> int option" where
  "isSafeInteger v =
     (case v of
        Some (JNum (Fin x)) \<Rightarrow> if of_int \<lfloor>x\<rfloor> = x \<and> \<bar>x\<bar> < 2 ^ 53 then Some \<lfloor>x\<rfloor> else None
      | _ \<Rightarrow> None)"

definition parseSensorValue :: "json option \<Rightarrow> (int \<times> int) option" where
  "parseSensorValue v =
     (case (isSafeInteger (json_field ''val1'' v), isSafeInteger (json_field ''val2'' v)) of
        (Some a, Some b) \<Rightarrow> Some (a, b)
      | _ \<Rightarrow> None)"

definition httpDiagnostics :: "json \<Rightarrow> adc_kind \<Rightarrow> AdcReading \<Rightarrow> AdcReading" where
  "httpDiagnostics v channel r = r\<lparr>adcSensorChannel := Some channel,
     adcRaw := (if json_get ''raw'' v = Some JNull then Some None else map_option Some (isSafeInteger (json_get ''raw'' v))),
     adcMv := isSafeInteger (json_get ''mv'' v),
     adcSensorValue := parseSensorValue (json_get ''sensor_value'' v)\<rparr>"

definition plain_reading :: "adc_kind \<Rightarrow> string \<Rightarrow> string \<Rightarrow> int \<Rightarrow> bool option \<Rightarrow> AdcReading" where
  "plain_reading kind name signal v enabled =
     \<lparr>adcKind = kind, adcName = name, adcSignal = signal, adcValue = v, adcPowerEnabled = enabled,
      adcSensorChannel = None, adcRaw = None, adcMv = None, adcSensorValue = None\<rparr>"

definition parseHttpReading :: "json \<Rightarrow> AdcReading option" where
  "parseHttpReading v =
     (case (json_string (json_get ''name'' v), json_string (json_get ''signal'' v)) of
        (Some name, Some signal) \<Rightarrow>
          (case (if json_get ''sensor_channel'' v = Some (JStr ''current'') \<and> json_get ''unit'' v = Some (JStr ''A'')
                 then (json_bool (json_get ''power_enabled'' v), isSafeInteger (json_get ''current_ua'' v)) else (None, None)) of
             (Some enabled, Some current) \<Rightarrow>
               Some (httpDiagnostics v CurrentKind (plain_reading CurrentKind name signal current (Some enabled)))
           | _ \<Rightarrow>
               (case parseSensorValue (json_get ''sensor_value'' v) of
                  Some (val1, val2) \<Rightarrow>
                    if json_get ''sensor_channel'' v = Some (JStr ''voltage'') \<and> json_get ''unit'' v = Some (JStr ''V'') \<and>
                       \<bar>val1 * 1000000 + val2\<bar> < 2 ^ 53
                    then Some (httpDiagnostics v VoltageKind (plain_reading VoltageKind name signal (val1 * 1000000 + val2) None))
                    else None
                | None \<Rightarrow> None))
      | _ \<Rightarrow> None)"

definition parseCompactReading :: "json \<Rightarrow> AdcReading option" where
  "parseCompactReading v =
     (case (json_string (json_get ''name'' v), json_string (json_get ''signal'' v), isSafeInteger (json_get ''value'' v)) of
        (Some name, Some signal, Some reading) \<Rightarrow>
          if json_get ''kind'' v = Some (JStr ''current'') \<and> json_get ''unit'' v = Some (JStr ''uA'') \<and>
             json_bool (json_get ''power_enabled'' v) \<noteq> None
          then Some (plain_reading CurrentKind name signal reading (json_bool (json_get ''power_enabled'' v)))
          else if json_get ''kind'' v = Some (JStr ''voltage'') \<and> json_get ''unit'' v = Some (JStr ''uV'')
          then Some (plain_reading VoltageKind name signal reading None)
          else None
      | _ \<Rightarrow> None)"

definition parseCaptureCurrentReading :: "json \<Rightarrow> CaptureReading option" where
  "parseCaptureCurrentReading v =
     (case (json_string (json_get ''name'' v), json_bool (json_get ''power_enabled'' v), isSafeInteger (json_get ''current_ua'' v)) of
        (Some name, Some enabled, Some current) \<Rightarrow>
          Some \<lparr>rdName = name,
            rdSignal = (case json_string (json_get ''signal'' v) of Some s \<Rightarrow> s | None \<Rightarrow> []),
            rdSensorChannel = Some ''current'', rdUnit = ''uA'', rdEnabled = enabled, rdRaw = None, rdMv = Some 0,
            rdCurrentUa = current\<rparr>
      | _ \<Rightarrow> None)"

definition parseArray :: "json option \<Rightarrow> (json \<Rightarrow> 'r option) \<Rightarrow> 'r list" where
  "parseArray v parseItem = (case v of Some (JArr items) \<Rightarrow> List.map_filter parseItem items | _ \<Rightarrow> [])"

definition parseHttpAdcReadings :: "json option \<Rightarrow> AdcReading list" where
  "parseHttpAdcReadings v = parseArray (json_field ''readings'' v) parseHttpReading"

definition parseCompactAdcReadings :: "json option \<Rightarrow> AdcReading list" where
  "parseCompactAdcReadings v = parseArray v parseCompactReading"

definition parseCaptureCurrentReadings :: "json option \<Rightarrow> CaptureReading list" where
  "parseCaptureCurrentReadings v = parseArray v parseCaptureCurrentReading"

definition appendMeasurementHistory :: "'a list \<Rightarrow> 'a \<Rightarrow> 'a list" where
  "appendMeasurementHistory previous sample =
     drop (length (previous @ [sample]) - MEASUREMENT_HISTORY_LIMIT) (previous @ [sample])"

definition isCurrentAdcReading :: "AdcReading \<Rightarrow> bool" where
  "isCurrentAdcReading reading \<longleftrightarrow> adcKind reading = CurrentKind"

subsection \<open>Live messages\<close>

text \<open>The properties of a reading as an object, with \<open>current_ua\<close> set to its value.\<close>

definition with_current :: "AdcReading \<Rightarrow> json" where
  "with_current r = JObj ([(''kind'', JStr (if adcKind r = CurrentKind then ''current'' else ''voltage'')),
     (''unit'', JStr (if adcKind r = CurrentKind then ''uA'' else ''uV'')),
     (''name'', JStr (adcName r)), (''signal'', JStr (adcSignal r)), (''value'', JNum (js_int (adcValue r)))] @
     (case adcPowerEnabled r of Some b \<Rightarrow> [(''power_enabled'', JBool b)] | None \<Rightarrow> []) @
     [(''current_ua'', JNum (js_int (adcValue r)))])"

text \<open>
  \<open>{...object, name: value}\<close>; \<open>None\<close> sets \<open>undefined\<close>. The order of properties is not observed, and the
  numbered properties of an array are not asked for.
\<close>

fun with_property :: "string \<Rightarrow> json option \<Rightarrow> json \<Rightarrow> json" where
  "with_property name v (JObj props) =
     JObj (case v of Some x \<Rightarrow> AList.update name x props | None \<Rightarrow> AList.delete name props)"
| "with_property name v other = JObj (case v of Some x \<Rightarrow> [(name, x)] | None \<Rightarrow> [])"

definition js_records :: "json list \<Rightarrow> json list" where
  "js_records vs = filter (\<lambda>v. json_object (Some v)) vs"

definition batch_channel :: "json list \<Rightarrow> jsnum \<Rightarrow> json \<Rightarrow> nat \<Rightarrow> json" where
  "batch_channel values powerEnabledMask channel index =
     (let c = with_property ''value'' (nth_opt values index) channel
      in if json_get ''kind'' channel = Some (JStr ''current'')
         then with_property ''power_enabled'' (Some (JBool (bit (toInt32 powerEnabledMask) (index mod 32)))) c
         else c)"

definition compactBatchReadings :: "json list \<Rightarrow> json \<Rightarrow> AdcReading list" where
  "compactBatchReadings channels sample =
     (let values = (case json_get ''values'' sample of Some (JArr vs) \<Rightarrow> vs | _ \<Rightarrow> []);
          powerEnabledMask = number_or_0 (json_get ''power_enabled_mask'' sample)
      in parseCompactAdcReadings (Some (JArr (map2 (batch_channel values powerEnabledMask) channels [0..<length channels]))))"

definition message_records :: "string \<Rightarrow> json \<Rightarrow> json list" where
  "message_records name message = (case json_get name message of Some (JArr vs) \<Rightarrow> js_records vs | _ \<Rightarrow> [])"

definition decodeTelemetryReadings :: "json \<Rightarrow> AdcReading list" where
  "decodeTelemetryReadings message =
     (if json_get ''type'' message = Some (JStr ''telemetry'') then parseCompactAdcReadings (json_get ''readings'' message)
      else if json_get ''type'' message \<noteq> Some (JStr ''telemetry-batch'') then []
      else let samples = message_records ''samples'' message
           in if samples = [] then [] else compactBatchReadings (message_records ''channels'' message) (last samples))"

record TelemetrySample =
  tsSequence :: jsnum
  tsTimeUs :: jsnum
  tsReadings :: "CaptureReading list"

definition telemetry_sample :: "json \<Rightarrow> AdcReading list \<Rightarrow> TelemetrySample" where
  "telemetry_sample v readings =
     \<lparr>tsSequence = number_or_0 (nullish (json_get ''sample_sequence'' v) (json_get ''sequence'' v)),
      tsTimeUs = number_or_0 (nullish (json_get ''device_t_mono_us'' v) (json_get ''uptime_us'' v)),
      tsReadings = parseCaptureCurrentReadings (Some (JArr (map with_current (filter isCurrentAdcReading readings))))\<rparr>"

text \<open>The offset of every sample is 0 and none is triggered.\<close>

definition decodeTelemetrySamples :: "json \<Rightarrow> TelemetrySample list" where
  "decodeTelemetrySamples message =
     (case (json_get ''type'' message = Some (JStr ''telemetry''), json_get ''readings'' message) of
        (True, Some (JArr rs)) \<Rightarrow> [telemetry_sample message (parseCompactAdcReadings (Some (JArr rs)))]
      | _ \<Rightarrow>
          if json_get ''type'' message \<noteq> Some (JStr ''telemetry-batch'') then []
          else map (\<lambda>sample. telemetry_sample sample (compactBatchReadings (message_records ''channels'' message) sample))
            (message_records ''samples'' message))"

subsection \<open>Showing and recording\<close>

definition reading_ok :: "AdcReading \<Rightarrow> bool" where
  "reading_ok r \<longleftrightarrow> \<bar>adcValue r\<bar> < 2 ^ 53 \<and> (adcKind r = CurrentKind \<longleftrightarrow> adcPowerEnabled r \<noteq> None)"

lemma safe_bound: "\<bar>of_int i :: rat\<bar> < 2 ^ 53 \<longleftrightarrow> \<bar>i\<bar> < 2 ^ 53"
  by (simp flip: of_int_abs)

lemma isSafeInteger_int: "isSafeInteger (Some (JNum (js_int i))) = (if \<bar>i\<bar> < 2 ^ 53 then Some i else None)"
  using safe_bound [of i] unfolding isSafeInteger_def by simp

lemma isSafeInteger_Some: "isSafeInteger v = Some n \<longleftrightarrow> v = Some (JNum (js_int n)) \<and> \<bar>n\<bar> < 2 ^ 53"
proof
  assume safe: "isSafeInteger v = Some n"
  then obtain x where v: "v = Some (JNum (Fin x))" "of_int \<lfloor>x\<rfloor> = x"
    unfolding isSafeInteger_def by (cases v; cases "the v"; cases "case the v of JNum x \<Rightarrow> x | _ \<Rightarrow> NaN") (simp_all split: if_splits)
  then obtain i where i: "x = of_int i" by metis
  show "v = Some (JNum (js_int n)) \<and> \<bar>n\<bar> < 2 ^ 53"
    using safe isSafeInteger_int [of i] unfolding v(1) i by (simp split: if_splits)
next
  assume "v = Some (JNum (js_int n)) \<and> \<bar>n\<bar> < 2 ^ 53"
  then show "isSafeInteger v = Some n" using isSafeInteger_int [of n] by simp
qed

lemma compact_reading_ok: "parseCompactReading v = Some r \<Longrightarrow> reading_ok r"
  by (auto simp: parseCompactReading_def reading_ok_def plain_reading_def isSafeInteger_Some split: option.splits if_splits)

lemma compact_readings_ok: "r \<in> set (parseCompactAdcReadings v) \<Longrightarrow> reading_ok r"
  by (auto simp: parseCompactAdcReadings_def parseArray_def List.map_filter_def
      split: option.splits json.splits intro: compact_reading_ok)

text \<open>The entry a current reading makes in a recording.\<close>

definition capture_reading :: "AdcReading \<Rightarrow> CaptureReading" where
  "capture_reading r = \<lparr>rdName = adcName r, rdSignal = adcSignal r, rdSensorChannel = Some ''current'', rdUnit = ''uA'',
     rdEnabled = (adcPowerEnabled r = Some True), rdRaw = None, rdMv = Some 0, rdCurrentUa = adcValue r\<rparr>"

lemma parse_with_current:
  assumes "reading_ok r" "isCurrentAdcReading r"
  shows "parseCaptureCurrentReading (with_current r) = Some (capture_reading r)"
proof -
  from assms obtain b where b: "adcPowerEnabled r = Some b" "\<bar>adcValue r\<bar> < 2 ^ 53"
    by (auto simp: reading_ok_def isCurrentAdcReading_def)
  then have "isSafeInteger (Some (JNum (js_int (adcValue r)))) = Some (adcValue r)" by (simp add: isSafeInteger_Some)
  with b show ?thesis by (simp add: parseCaptureCurrentReading_def with_current_def capture_reading_def)
qed

lemma recorded_readings:
  assumes "\<forall>r \<in> set rs. reading_ok r"
  shows "parseCaptureCurrentReadings (Some (JArr (map with_current (filter isCurrentAdcReading rs)))) =
    map capture_reading (filter isCurrentAdcReading rs)"
  using assms by (induction rs) (auto simp: parseCaptureCurrentReadings_def parseArray_def parse_with_current List.map_filter_simps)

lemma batch_readings_ok: "\<forall>r \<in> set (compactBatchReadings channels sample). reading_ok r"
  by (auto simp: compactBatchReadings_def Let_def intro: compact_readings_ok)

lemma sample_readings:
  assumes "\<forall>r \<in> set rs. reading_ok r"
  shows "tsReadings (telemetry_sample v rs) = map capture_reading (filter isCurrentAdcReading rs)"
  using recorded_readings [OF assms] by (simp add: telemetry_sample_def)

text \<open>
  C31: Whatever message arrives, the newest sample it adds to a recording has exactly the current
  readings the page shows for it, in the same order and with the same values and power flags; when
  it adds none, the page shows no current from it. Every shown reading is a safe integer, and has
  a power flag exactly when it is a current.
\<close>

theorem shown_is_recorded:
  "list_all reading_ok (decodeTelemetryReadings message) \<and>
   (let samples = decodeTelemetrySamples message; current = filter isCurrentAdcReading (decodeTelemetryReadings message) in
     if samples = [] then current = [] else tsReadings (last samples) = map capture_reading current)"
proof -
  define channels where "channels = message_records ''channels'' message"
  define samples where "samples = message_records ''samples'' message"
  consider (one) rs where "json_get ''type'' message = Some (JStr ''telemetry'')" "json_get ''readings'' message = Some (JArr rs)"
    | (no_array) "json_get ''type'' message = Some (JStr ''telemetry'')" "\<nexists>rs. json_get ''readings'' message = Some (JArr rs)"
    | (batch) "json_get ''type'' message = Some (JStr ''telemetry-batch'')"
    | (other) "json_get ''type'' message \<noteq> Some (JStr ''telemetry'')" "json_get ''type'' message \<noteq> Some (JStr ''telemetry-batch'')"
    by blast
  then show ?thesis
  proof cases
    case one
    have "\<forall>r \<in> set (parseCompactAdcReadings (Some (JArr rs))). reading_ok r" by (blast intro: compact_readings_ok)
    with one show ?thesis by (simp add: decodeTelemetryReadings_def decodeTelemetrySamples_def sample_readings list_all_iff)
  next
    case no_array
    then have "parseCompactAdcReadings (json_get ''readings'' message) = []"
      by (auto simp: parseCompactAdcReadings_def parseArray_def split: option.splits json.splits)
    with no_array show ?thesis
      by (auto simp: decodeTelemetryReadings_def decodeTelemetrySamples_def split: option.splits json.splits)
  next
    case batch
    then have "decodeTelemetryReadings message = (if samples = [] then [] else compactBatchReadings channels (last samples))"
        "decodeTelemetrySamples message = map (\<lambda>sample. telemetry_sample sample (compactBatchReadings channels sample)) samples"
      by (simp_all add: decodeTelemetryReadings_def decodeTelemetrySamples_def samples_def channels_def)
    then show ?thesis using batch_readings_ok by (simp add: last_map sample_readings list_all_iff)
  next
    case other
    then show ?thesis by (simp add: decodeTelemetryReadings_def decodeTelemetrySamples_def)
  qed
qed

text \<open>
  In a batch, the power flag of the current reading in channel \<open>i\<close> is bit \<open>i\<close> of the mask (below 32
  channels), and its value is the sample's \<open>i\<close>-th.
\<close>

lemma batch_flag_is_mask_bit:
  assumes "json_get ''kind'' channel = Some (JStr ''current'')" "json_get ''unit'' channel = Some (JStr ''uA'')"
    "json_get ''name'' channel = Some (JStr name)" "json_get ''signal'' channel = Some (JStr signal)"
    "nth_opt values i = Some (JNum (js_int n))" "\<bar>n\<bar> < 2 ^ 53" "i < 32"
  shows "parseCompactReading (batch_channel values flags channel i) =
    Some (plain_reading CurrentKind name signal n (Some (bit (toInt32 flags) i)))"
proof -
  from assms obtain props where props: "channel = JObj props" by (cases channel) auto
  have "isSafeInteger (Some (JNum (js_int n))) = Some n" using assms(6) by (simp add: isSafeInteger_Some)
  with assms props show ?thesis
    by (simp add: parseCompactReading_def batch_channel_def Let_def update_conv')
qed

subsection \<open>The newest value per frame\<close>

text \<open>
  The scheduler's variables, the callbacks the browser still has to run, the next handle it will
  give out and what was published so far.
\<close>

record 'a frame_scheduler =
  frameHandle :: "nat option"
  latestValue :: "'a option"
  frameCallbacks :: "nat list"
  nextHandle :: nat
  published :: "'a list"

definition new_scheduler :: "'a frame_scheduler" where
  "new_scheduler = \<lparr>frameHandle = None, latestValue = None, frameCallbacks = [], nextHandle = 1, published = []\<rparr>"

definition schedule_frame :: "'a \<Rightarrow> 'a frame_scheduler \<Rightarrow> 'a frame_scheduler" where
  "schedule_frame v s =
     (let s1 = s\<lparr>latestValue := Some v\<rparr>
      in if frameHandle s1 \<noteq> None then s1
         else s1\<lparr>frameHandle := Some (nextHandle s1), frameCallbacks := frameCallbacks s1 @ [nextHandle s1],
                 nextHandle := nextHandle s1 + 1\<rparr>)"

definition cancel_frame :: "'a frame_scheduler \<Rightarrow> 'a frame_scheduler" where
  "cancel_frame s =
     (let s1 = s\<lparr>latestValue := None\<rparr>
      in case frameHandle s1 of None \<Rightarrow> s1
         | Some h \<Rightarrow> s1\<lparr>frameCallbacks := filter (\<lambda>x. x \<noteq> h) (frameCallbacks s1), frameHandle := None\<rparr>)"

definition flush_frame :: "'a frame_scheduler \<Rightarrow> 'a frame_scheduler" where
  "flush_frame s = s\<lparr>frameHandle := None, latestValue := None,
     published := published s @ (case latestValue s of Some v \<Rightarrow> [v] | None \<Rightarrow> [])\<rparr>"

datatype 'a frame_event = Schedule 'a | CancelFrames | NextFrame

text \<open>At the next frame the browser runs every callback it holds.\<close>

fun frame_step :: "'a frame_scheduler \<Rightarrow> 'a frame_event \<Rightarrow> 'a frame_scheduler" where
  "frame_step s (Schedule v) = schedule_frame v s"
| "frame_step s CancelFrames = cancel_frame s"
| "frame_step s NextFrame = foldl (\<lambda>s _. flush_frame s) (s\<lparr>frameCallbacks := []\<rparr>) (frameCallbacks s)"

text \<open>What should be shown: at each frame the value scheduled last, unless it was shown or cancelled.\<close>

fun shown_values :: "'a option \<Rightarrow> 'a frame_event list \<Rightarrow> 'a list" where
  "shown_values waiting [] = []"
| "shown_values waiting (Schedule v # es) = shown_values (Some v) es"
| "shown_values waiting (CancelFrames # es) = shown_values None es"
| "shown_values waiting (NextFrame # es) = (case waiting of Some v \<Rightarrow> [v] | None \<Rightarrow> []) @ shown_values None es"

definition scheduler_ok :: "'a frame_scheduler \<Rightarrow> bool" where
  "scheduler_ok s \<longleftrightarrow> frameCallbacks s = (case frameHandle s of Some h \<Rightarrow> [h] | None \<Rightarrow> []) \<and>
     (frameHandle s = None \<longleftrightarrow> latestValue s = None)"

lemma frame_step_ok: "scheduler_ok s \<Longrightarrow> scheduler_ok (frame_step s e)"
  by (cases e) (auto simp: scheduler_ok_def schedule_frame_def cancel_frame_def flush_frame_def Let_def split: option.splits)

lemma published_shown:
  "scheduler_ok s \<Longrightarrow> published (foldl frame_step s es) = published s @ shown_values (latestValue s) es"
proof (induction es arbitrary: s)
  case (Cons e es)
  have "published (frame_step s e) @ shown_values (latestValue (frame_step s e)) es = published s @ shown_values (latestValue s) (e # es)"
    using Cons.prems by (cases e)
      (auto simp: scheduler_ok_def schedule_frame_def cancel_frame_def flush_frame_def Let_def split: option.splits)
  with Cons.IH [OF frame_step_ok [OF Cons.prems], of e] show ?case by simp
qed simp

text \<open>
  Whatever is scheduled and cancelled between the frames, each frame publishes the newest value
  scheduled since the last one, and never more than one callback is waiting in the browser.
\<close>

lemma newest_value_per_frame:
  "published (foldl frame_step new_scheduler es) = shown_values None es \<and>
   length (frameCallbacks (foldl frame_step (new_scheduler :: 'a frame_scheduler) es)) \<le> 1"
proof -
  have "scheduler_ok (new_scheduler :: 'a frame_scheduler)" by (simp add: scheduler_ok_def new_scheduler_def)
  moreover have "scheduler_ok s \<Longrightarrow> scheduler_ok (foldl frame_step s es)" for s :: "'a frame_scheduler"
    by (induction es arbitrary: s) (simp_all add: frame_step_ok)
  ultimately show ?thesis using published_shown [of new_scheduler es]
    by (auto simp: scheduler_ok_def new_scheduler_def split: option.splits)
qed

end
