(* ===== verification/Gpio_Layout.thy ===== *)
theory Gpio_Layout
  imports Linkr_Prelude "HOL-Library.AList"
begin

text \<open>
  The pinout drawn for the board (\<open>gpioLayout.ts\<close>): each GPIO that names a group and a valid
  position gets the cell there, the first come where two name the same one; all others are
  listed in a fallback group. Shown: which GPIO every cell holds and which are left over, so that
  each GPIO is drawn exactly once.
\<close>

record BoardGpio =
  gpioName :: string
  gpioPin :: jsnum
  gpioNote :: string
  gpioValue :: jsnum
  gpioDirection :: string
  gpioLayoutGroup :: "string option"
  gpioLayoutLabel :: "string option"
  gpioLayoutRow :: "jsnum option"
  gpioLayoutColumn :: "jsnum option"

record GpioLayoutCell =
  cellPin :: jsnum
  cellName :: string
  cellNote :: string
  cellValue :: jsnum
  cellDirection :: string
  cellGroup :: string
  cellLabel :: string
  cellRow :: nat
  cellColumn :: nat

text \<open>The rows of a group are numbered from 0, so a list stands for the \<open>Map\<close> of its rows.\<close>

record GpioLayoutGroup =
  groupName :: string
  groupLabel :: string
  groupRows :: "GpioLayoutCell option list list"
  rowCount :: nat
  columnCount :: nat
  generic :: bool

definition GPIO_LAYOUT_MAX_EXTENT :: nat where "GPIO_LAYOUT_MAX_EXTENT = 64"
definition GPIO_FALLBACK_GROUP_ID :: string where "GPIO_FALLBACK_GROUP_ID = ''__gpio_fallback__''"

text \<open>
  \<open>toUpperCase\<close> within Latin-1; the two letters whose capital lies outside are left as they are.
\<close>

definition upper_char :: "char \<Rightarrow> string" where
  "upper_char c =
     (let n = of_char c :: nat
      in if 97 \<le> n \<and> n \<le> 122 \<or> 224 \<le> n \<and> n \<le> 254 \<and> n \<noteq> 247 then [char_of (n - 32)]
         else if n = 223 then ''SS'' else [c])"

definition js_upper :: "string \<Rightarrow> string" where
  "js_upper s = concat (map upper_char s)"

definition toLayoutCell :: "BoardGpio \<Rightarrow> string \<Rightarrow> nat \<Rightarrow> nat \<Rightarrow> GpioLayoutCell" where
  "toLayoutCell gpio layoutGroup layoutRow layoutColumn =
     \<lparr>cellPin = gpioPin gpio, cellName = gpioName gpio, cellNote = gpioNote gpio, cellValue = gpioValue gpio,
      cellDirection = gpioDirection gpio, cellGroup = layoutGroup,
      cellLabel = (case gpioLayoutLabel gpio of Some l \<Rightarrow> l | None \<Rightarrow> gpioName gpio),
      cellRow = layoutRow, cellColumn = layoutColumn\<rparr>"

definition toFallbackCell :: "BoardGpio \<Rightarrow> GpioLayoutCell" where
  "toFallbackCell gpio =
     \<lparr>cellPin = gpioPin gpio, cellName = gpioName gpio, cellNote = gpioNote gpio, cellValue = gpioValue gpio,
      cellDirection = gpioDirection gpio,
      cellGroup = js_upper (case gpioLayoutGroup gpio of Some g \<Rightarrow> g | None \<Rightarrow> []),
      cellLabel = (case gpioLayoutLabel gpio of Some l \<Rightarrow> l | None \<Rightarrow> gpioName gpio),
      cellRow = 0, cellColumn = 0\<rparr>"

text \<open>The coordinate when it is valid.\<close>

fun isValidCoordinate :: "jsnum option \<Rightarrow> nat option" where
  "isValidCoordinate (Some (Fin x)) =
     (if of_int \<lfloor>x\<rfloor> = x \<and> 0 \<le> x \<and> x < of_nat GPIO_LAYOUT_MAX_EXTENT then Some (nat \<lfloor>x\<rfloor>) else None)"
| "isValidCoordinate _ = None"

definition emptyRow :: "nat \<Rightarrow> GpioLayoutCell option list" where
  "emptyRow columns = replicate columns None"

text \<open>The three collections of the loop; a \<open>cellKey\<close> is the pair of coordinates it is made of.\<close>

record layout_state =
  cellsByGroup :: "(string \<times> GpioLayoutCell list) list"
  occupied :: "(string \<times> (nat \<times> nat) list) list"
  fallbackCells :: "GpioLayoutCell list"

definition layout_step :: "layout_state \<Rightarrow> BoardGpio \<Rightarrow> layout_state" where
  "layout_step st raw =
     (let layoutGroup = js_upper (js_trim (case gpioLayoutGroup raw of Some g \<Rightarrow> g | None \<Rightarrow> []));
          left = st\<lparr>fallbackCells := fallbackCells st @ [toFallbackCell raw]\<rparr>
      in if layoutGroup = [] then left
         else case (isValidCoordinate (gpioLayoutRow raw), isValidCoordinate (gpioLayoutColumn raw)) of
           (Some row, Some column) \<Rightarrow>
             (let occupiedCells = (case map_of (occupied st) layoutGroup of Some ks \<Rightarrow> ks | None \<Rightarrow> []);
                  cells = (case map_of (cellsByGroup st) layoutGroup of Some cs \<Rightarrow> cs | None \<Rightarrow> [])
              in if (row, column) \<in> set occupiedCells then left
                 else st\<lparr>occupied := AList.update layoutGroup ((row, column) # occupiedCells) (occupied st),
                   cellsByGroup := AList.update layoutGroup (cells @ [toLayoutCell raw layoutGroup row column]) (cellsByGroup st)\<rparr>)
         | _ \<Rightarrow> left)"

definition put_cell :: "GpioLayoutCell option list list \<Rightarrow> GpioLayoutCell \<Rightarrow> GpioLayoutCell option list list" where
  "put_cell rows cell = rows[cellRow cell := (rows ! cellRow cell)[cellColumn cell := Some cell]]"

definition layout_group :: "string \<times> GpioLayoutCell list \<Rightarrow> GpioLayoutGroup" where
  "layout_group entry =
     (let (group, cells) = entry;
          rows = foldl (\<lambda>n cell. max n (cellRow cell + 1)) 0 cells;
          columns = foldl (\<lambda>n cell. max n (cellColumn cell + 1)) 0 cells
      in \<lparr>groupName = group, groupLabel = group, groupRows = foldl put_cell (replicate rows (emptyRow columns)) cells,
          rowCount = rows, columnCount = columns, generic = False\<rparr>)"

definition fallback_group :: "GpioLayoutCell list \<Rightarrow> GpioLayoutGroup option" where
  "fallback_group cells =
     (if cells = [] then None
      else Some \<lparr>groupName = GPIO_FALLBACK_GROUP_ID, groupLabel = GPIO_FALLBACK_GROUP_ID,
        groupRows = map (\<lambda>cell. [Some cell]) cells, rowCount = length cells, columnCount = 1, generic = True\<rparr>)"

definition empty_layout :: layout_state where
  "empty_layout = \<lparr>cellsByGroup = [], occupied = [], fallbackCells = []\<rparr>"

definition groupGpioLayout :: "BoardGpio list \<Rightarrow> GpioLayoutGroup list \<times> GpioLayoutGroup option" where
  "groupGpioLayout gpios =
     (let st = foldl layout_step empty_layout gpios
      in (map layout_group (cellsByGroup st), fallback_group (fallbackCells st)))"

subsection \<open>What is drawn where\<close>

text \<open>The position a GPIO asks for, when it names a group and valid coordinates.\<close>

definition asked_position :: "BoardGpio \<Rightarrow> (string \<times> nat \<times> nat) option" where
  "asked_position gpio =
     (let g = js_upper (js_trim (case gpioLayoutGroup gpio of Some g \<Rightarrow> g | None \<Rightarrow> []))
      in case (isValidCoordinate (gpioLayoutRow gpio), isValidCoordinate (gpioLayoutColumn gpio)) of
           (Some r, Some c) \<Rightarrow> if g = [] then None else Some (g, r, c)
         | _ \<Rightarrow> None)"

text \<open>The GPIOs without a position, or with one an earlier GPIO asked for.\<close>

fun left_over :: "BoardGpio list \<Rightarrow> BoardGpio list \<Rightarrow> BoardGpio list" where
  "left_over before [] = []"
| "left_over before (x # xs) =
     (if asked_position x = None \<or> asked_position x \<in> asked_position ` set before then [x] else []) @ left_over (before @ [x]) xs"

definition cells_of :: "layout_state \<Rightarrow> string \<Rightarrow> GpioLayoutCell list" where
  "cells_of st g = (case map_of (cellsByGroup st) g of Some cs \<Rightarrow> cs | None \<Rightarrow> [])"

definition keys_of :: "layout_state \<Rightarrow> string \<Rightarrow> (nat \<times> nat) list" where
  "keys_of st g = (case map_of (occupied st) g of Some ks \<Rightarrow> ks | None \<Rightarrow> [])"

definition cell_key :: "GpioLayoutCell \<Rightarrow> nat \<times> nat" where
  "cell_key cell = (cellRow cell, cellColumn cell)"

definition at_position :: "nat \<Rightarrow> nat \<Rightarrow> GpioLayoutCell \<Rightarrow> bool" where
  "at_position r c cell \<longleftrightarrow> cellRow cell = r \<and> cellColumn cell = c"

lemma layout_step_left:
  "asked_position x = None \<Longrightarrow> layout_step st x = st\<lparr>fallbackCells := fallbackCells st @ [toFallbackCell x]\<rparr>"
  by (auto simp: asked_position_def layout_step_def Let_def split: option.splits if_splits)

lemma layout_step_asked:
  assumes "asked_position x = Some (g, r, c)"
  shows "layout_step st x =
    (if (r, c) \<in> set (keys_of st g) then st\<lparr>fallbackCells := fallbackCells st @ [toFallbackCell x]\<rparr>
     else st\<lparr>occupied := AList.update g ((r, c) # keys_of st g) (occupied st),
            cellsByGroup := AList.update g (cells_of st g @ [toLayoutCell x g r c]) (cellsByGroup st)\<rparr>)"
proof -
  from assms have "isValidCoordinate (gpioLayoutRow x) = Some r" "isValidCoordinate (gpioLayoutColumn x) = Some c" "g \<noteq> []"
      "js_upper (js_trim (case gpioLayoutGroup x of Some g \<Rightarrow> g | None \<Rightarrow> [])) = g"
    by (simp_all add: asked_position_def Let_def split: option.splits if_splits)
  then show ?thesis unfolding layout_step_def keys_of_def cells_of_def by (simp add: Let_def)
qed

lemma left_over_append: "left_over before (xs @ ys) = left_over before xs @ left_over (before @ xs) ys"
  by (induction xs arbitrary: before) simp_all

lemma find_append: "find P (xs @ ys) = (case find P xs of Some x \<Rightarrow> Some x | None \<Rightarrow> find P ys)"
  by (induction xs) auto

lemma find_None: "find P xs = None \<longleftrightarrow> (\<forall>x \<in> set xs. \<not> P x)" "None = find P xs \<longleftrightarrow> (\<forall>x \<in> set xs. \<not> P x)"
  by (induction xs) auto

lemma update_subset: "p \<in> set (AList.update k v al) \<Longrightarrow> p = (k, v) \<or> p \<in> set al"
  by (induction al) (auto split: if_splits)

text \<open>The collections after the GPIOs \<open>xs\<close>.\<close>

definition group_inv :: "BoardGpio list \<Rightarrow> layout_state \<Rightarrow> string \<Rightarrow> bool" where
  "group_inv xs st g \<longleftrightarrow>
     (\<forall>r c. (r, c) \<in> set (keys_of st g) \<longleftrightarrow> (\<exists>x \<in> set xs. asked_position x = Some (g, r, c))) \<and>
     set (keys_of st g) = cell_key ` set (cells_of st g) \<and>
     distinct (map cell_key (cells_of st g)) \<and>
     (\<forall>r c. find (at_position r c) (cells_of st g) =
        map_option (\<lambda>x. toLayoutCell x g r c) (find (\<lambda>x. asked_position x = Some (g, r, c)) xs))"

definition layout_inv :: "BoardGpio list \<Rightarrow> layout_state \<Rightarrow> bool" where
  "layout_inv xs st \<longleftrightarrow>
     distinct (map fst (cellsByGroup st)) \<and> (\<forall>g cs. (g, cs) \<in> set (cellsByGroup st) \<longrightarrow> cs \<noteq> []) \<and>
     (\<forall>g. group_inv xs st g) \<and>
     fallbackCells st = map toFallbackCell (left_over [] xs)"

lemma group_invD:
  assumes "group_inv xs st g"
  shows "(r, c) \<in> set (keys_of st g) \<longleftrightarrow> (\<exists>x \<in> set xs. asked_position x = Some (g, r, c))"
    "set (keys_of st g) = cell_key ` set (cells_of st g)" "distinct (map cell_key (cells_of st g))"
    "find (at_position r c) (cells_of st g) =
      map_option (\<lambda>x. toLayoutCell x g r c) (find (\<lambda>x. asked_position x = Some (g, r, c)) xs)"
  using assms unfolding group_inv_def by blast+

lemma group_inv_skip:
  assumes inv: "group_inv xs st g" and asked: "\<And>r c. asked_position x = Some (g, r, c) \<Longrightarrow> (r, c) \<in> set (keys_of st g)"
    and same: "keys_of st' g = keys_of st g" "cells_of st' g = cells_of st g"
  shows "group_inv (xs @ [x]) st' g"
proof -
  have eq1: "find (\<lambda>x. asked_position x = Some (g, r, c)) (xs @ [x]) = find (\<lambda>x. asked_position x = Some (g, r, c)) xs" for r c
    using asked [of r c] group_invD(1) [OF inv, of r c] by (auto simp: find_append find_None split: option.splits)
  have eq2: "(\<exists>y \<in> set (xs @ [x]). asked_position y = Some (g, r, c)) \<longleftrightarrow> (\<exists>y \<in> set xs. asked_position y = Some (g, r, c))" for r c
    using asked [of r c] group_invD(1) [OF inv, of r c] by auto
  from inv show ?thesis unfolding group_inv_def same eq1 eq2 .
qed

lemma group_inv_place:
  assumes inv: "group_inv xs st g" and asked: "asked_position x = Some (g, r, c)" and free: "(r, c) \<notin> set (keys_of st g)"
    and st': "keys_of st' g = (r, c) # keys_of st g" "cells_of st' g = cells_of st g @ [toLayoutCell x g r c]"
  shows "group_inv (xs @ [x]) st' g"
proof -
  have key: "cell_key (toLayoutCell x g r c) = (r, c)" "at_position r' c' (toLayoutCell x g r c) \<longleftrightarrow> r' = r \<and> c' = c" for r' c'
    by (auto simp: toLayoutCell_def cell_key_def at_position_def)
  have "find (at_position r' c') (cells_of st' g) =
      map_option (\<lambda>x. toLayoutCell x g r' c') (find (\<lambda>x. asked_position x = Some (g, r', c')) (xs @ [x]))" for r' c'
    using group_invD(4) [OF inv, of r' c'] asked by (auto simp: st' find_append key split: option.splits)
  moreover have "(r', c') \<in> set (keys_of st' g) \<longleftrightarrow> (\<exists>y \<in> set (xs @ [x]). asked_position y = Some (g, r', c'))" for r' c'
    using group_invD(1) [OF inv, of r' c'] asked by (auto simp: st')
  moreover have "set (keys_of st' g) = cell_key ` set (cells_of st' g)"
    using group_invD(2) [OF inv] by (simp add: st' key)
  moreover have "distinct (map cell_key (cells_of st' g))"
    using group_invD(2,3) [OF inv] free by (simp add: st' key)
  ultimately show ?thesis unfolding group_inv_def by blast
qed

lemma layout_inv_skip:
  assumes inv: "layout_inv xs st" and asked: "\<And>g r c. asked_position x = Some (g, r, c) \<Longrightarrow> (r, c) \<in> set (keys_of st g)"
  shows "layout_inv (xs @ [x]) (st\<lparr>fallbackCells := fallbackCells st @ [toFallbackCell x]\<rparr>)"
proof -
  have "group_inv (xs @ [x]) (st\<lparr>fallbackCells := fallbackCells st @ [toFallbackCell x]\<rparr>) g" for g
    by (rule group_inv_skip [of xs st]) (use inv asked in \<open>simp_all add: layout_inv_def keys_of_def cells_of_def\<close>)
  moreover have "asked_position x = None \<or> asked_position x \<in> asked_position ` set xs"
  proof (cases "asked_position x")
    case (Some pos)
    then obtain g r c where pos: "asked_position x = Some (g, r, c)" by (cases pos) auto
    then obtain y where "y \<in> set xs" "asked_position y = Some (g, r, c)"
      using asked inv group_invD(1) unfolding layout_inv_def by blast
    with pos show ?thesis by (metis imageI)
  qed simp
  ultimately show ?thesis using inv by (auto simp: layout_inv_def left_over_append)
qed

lemma layout_inv_step:
  assumes inv: "layout_inv xs st"
  shows "layout_inv (xs @ [x]) (layout_step st x)"
proof (cases "asked_position x")
  case None
  with layout_inv_skip [OF inv, of x] show ?thesis by (simp add: layout_step_left)
next
  case (Some pos)
  then obtain g r c where pos: "asked_position x = Some (g, r, c)" by (cases pos) auto
  have groups: "group_inv xs st h" for h using inv by (simp add: layout_inv_def)
  show ?thesis
  proof (cases "(r, c) \<in> set (keys_of st g)")
    case True
    with layout_inv_skip [OF inv, of x] pos show ?thesis by (simp add: layout_step_asked)
  next
    case False
    let ?st = "layout_step st x"
    from False pos have st: "?st = st\<lparr>occupied := AList.update g ((r, c) # keys_of st g) (occupied st),
            cellsByGroup := AList.update g (cells_of st g @ [toLayoutCell x g r c]) (cellsByGroup st)\<rparr>"
      by (simp add: layout_step_asked)
    have here: "keys_of ?st g = (r, c) # keys_of st g" "cells_of ?st g = cells_of st g @ [toLayoutCell x g r c]"
      by (simp_all add: st keys_of_def cells_of_def update_conv')
    have other: "keys_of ?st h = keys_of st h" "cells_of ?st h = cells_of st h" if "h \<noteq> g" for h
      using that by (simp_all add: st keys_of_def cells_of_def update_conv')
    have "group_inv (xs @ [x]) ?st h" for h
    proof (cases "h = g")
      case True
      with group_inv_place [OF groups pos False here] show ?thesis by simp
    next
      case other_group: False
      show ?thesis
        by (rule group_inv_skip [OF groups]) (use other_group pos in \<open>simp_all add: other\<close>)
    qed
    moreover have "Some (g, r, c) \<notin> asked_position ` set xs"
      using False group_invD(1) [OF groups, of r c g] by (metis imageE)
    moreover have "distinct (map fst (cellsByGroup ?st))" "fallbackCells ?st = fallbackCells st"
      using inv by (simp_all add: st layout_inv_def distinct_update)
    moreover have "\<forall>h cs. (h, cs) \<in> set (cellsByGroup ?st) \<longrightarrow> cs \<noteq> []"
      using inv by (auto simp: st layout_inv_def dest!: update_subset)
    ultimately show ?thesis using inv pos by (auto simp: layout_inv_def left_over_append)
  qed
qed

lemma layout_inv_all: "layout_inv xs (foldl layout_step empty_layout xs)"
proof (induction xs rule: rev_induct)
  case Nil
  show ?case by (simp add: layout_inv_def group_inv_def empty_layout_def keys_of_def cells_of_def)
next
  case (snoc x xs)
  then show ?case by (simp add: layout_inv_step)
qed

subsection \<open>The rows of a group\<close>

lemma foldl_max_bounds:
  "n \<le> foldl (\<lambda>n cell. max n (f cell + 1)) n cells" "cell \<in> set cells \<Longrightarrow> f cell < foldl (\<lambda>n cell. max n (f cell + 1)) n cells"
  for f :: "'c \<Rightarrow> nat"
proof (induction cells arbitrary: n)
  case (Cons a cells)
  {
    case 1
    show ?case using Cons.IH(1) [of "max n (f a + 1)"] by simp
  next
    case 2
    show ?case
    proof (cases "cell = a")
      case True
      then show ?thesis using Cons.IH(1) [of "max n (f a + 1)"] by simp
    next
      case False
      with 2 Cons.IH(2) show ?thesis by simp
    qed
  }
qed simp_all

definition matrix :: "nat \<Rightarrow> nat \<Rightarrow> 'c list list \<Rightarrow> bool" where
  "matrix rows columns m \<longleftrightarrow> length m = rows \<and> (\<forall>r < rows. length (m ! r) = columns)"

lemma filled_rows:
  assumes "distinct (map cell_key cells)" "\<forall>cell \<in> set cells. cellRow cell < rows \<and> cellColumn cell < columns"
  shows "matrix rows columns (foldl put_cell (replicate rows (emptyRow columns)) cells) \<and>
    (\<forall>r < rows. \<forall>c < columns. foldl put_cell (replicate rows (emptyRow columns)) cells ! r ! c = find (at_position r c) cells)"
  using assms
proof (induction cells rule: rev_induct)
  case Nil
  then show ?case by (simp add: matrix_def emptyRow_def)
next
  case (snoc cell cells)
  define m where "m = foldl put_cell (replicate rows (emptyRow columns)) cells"
  from snoc have m: "length m = rows" "\<And>r. r < rows \<Longrightarrow> length (m ! r) = columns"
    "\<And>r c. r < rows \<Longrightarrow> c < columns \<Longrightarrow> m ! r ! c = find (at_position r c) cells"
    by (simp_all add: m_def matrix_def)
  have inside: "cellRow cell < rows" "cellColumn cell < columns" using snoc.prems by simp_all
  have free: "find (at_position (cellRow cell) (cellColumn cell)) cells = None"
    using snoc.prems(1) by (auto simp: find_None at_position_def cell_key_def rev_image_eqI)
  have "put_cell m cell ! r ! c = find (at_position r c) (cells @ [cell])" if "r < rows" "c < columns" for r c
    using that inside m free by (cases "at_position r c cell")
      (auto simp: put_cell_def find_append at_position_def nth_list_update split: option.splits)
  moreover have "matrix rows columns (put_cell m cell)"
    using m inside by (auto simp: matrix_def put_cell_def nth_list_update)
  ultimately show ?case by (simp add: m_def)
qed

definition cell_at :: "GpioLayoutGroup list \<Rightarrow> string \<Rightarrow> nat \<Rightarrow> nat \<Rightarrow> GpioLayoutCell option" where
  "cell_at groups g r c =
     (case find (\<lambda>G. groupName G = g) groups of
        None \<Rightarrow> None
      | Some G \<Rightarrow> if r < length (groupRows G) \<and> c < length (groupRows G ! r) then groupRows G ! r ! c else None)"

lemma find_layout_group:
  "find (\<lambda>G. groupName G = g) (map layout_group entries) = map_option (\<lambda>cs. layout_group (g, cs)) (map_of entries g)"
  by (induction entries) (auto simp: layout_group_def Let_def)

lemma cell_at_cells:
  assumes "distinct (map cell_key cells)"
  shows "(let G = layout_group (g, cells)
    in if r < length (groupRows G) \<and> c < length (groupRows G ! r) then groupRows G ! r ! c else None) = find (at_position r c) cells"
proof -
  define rows where "rows = foldl (\<lambda>n cell. max n (cellRow cell + 1)) 0 cells"
  define columns where "columns = foldl (\<lambda>n cell. max n (cellColumn cell + 1)) 0 cells"
  have inside: "\<forall>cell \<in> set cells. cellRow cell < rows \<and> cellColumn cell < columns"
    by (auto simp: rows_def columns_def intro!: foldl_max_bounds(2) simp del: Suc_eq_plus1_left add_Suc_right One_nat_def)
  have G: "groupRows (layout_group (g, cells)) = foldl put_cell (replicate rows (emptyRow columns)) cells"
    by (simp add: layout_group_def Let_def rows_def columns_def)
  show ?thesis
  proof (cases "r < rows \<and> c < columns")
    case True
    with filled_rows [OF assms inside] show ?thesis by (simp add: G matrix_def Let_def)
  next
    case False
    with inside have "find (at_position r c) cells = None" by (auto simp: find_None at_position_def)
    with False filled_rows [OF assms inside] show ?thesis by (auto simp: G matrix_def Let_def)
  qed
qed

text \<open>
  C25: What the pinout shows. The cell of a group at a row and column holds the first GPIO that asks for
  that group and position, and is empty when none does; the fallback group lists, in order, the
  GPIOs that ask for no valid position or for one that an earlier GPIO has. So every GPIO is drawn
  exactly once. No group is drawn twice.
\<close>

theorem every_gpio_drawn_once:
  "let (groups, fallback) = groupGpioLayout gpios in
     cell_at groups g r c = map_option (\<lambda>x. toLayoutCell x g r c) (find (\<lambda>x. asked_position x = Some (g, r, c)) gpios) \<and>
     (case fallback of Some G \<Rightarrow> concat (groupRows G) | None \<Rightarrow> []) = map (\<lambda>x. Some (toFallbackCell x)) (left_over [] gpios) \<and>
     distinct (map groupName groups)"
proof -
  define st where "st = foldl layout_step empty_layout gpios"
  have inv: "layout_inv gpios st" unfolding st_def by (rule layout_inv_all)
  then have inv_g: "group_inv gpios st g" by (simp add: layout_inv_def)
  have "cell_at (map layout_group (cellsByGroup st)) g r c = find (at_position r c) (cells_of st g)"
  proof (cases "map_of (cellsByGroup st) g")
    case None
    then show ?thesis by (simp add: cell_at_def find_layout_group cells_of_def)
  next
    case (Some cs)
    then have cs: "cells_of st g = cs" by (simp add: cells_of_def)
    have "distinct (map cell_key cs)" using group_invD(3) [OF inv_g] by (simp add: cs)
    from cell_at_cells [OF this, of g r c] Some show ?thesis by (simp add: cell_at_def find_layout_group cs Let_def)
  qed
  moreover have "groupName \<circ> layout_group = fst"
    by (auto simp: layout_group_def Let_def)
  moreover have "(case fallback_group cells of Some G \<Rightarrow> concat (groupRows G) | None \<Rightarrow> []) = map Some cells" for cells
    by (simp add: fallback_group_def)
  ultimately show ?thesis using inv group_invD(4) [OF inv_g, of r c]
    by (simp add: groupGpioLayout_def st_def [symmetric] Let_def layout_inv_def)
qed

end
