(* ===== verification/Board_Snapshot.thy ===== *)
theory Board_Snapshot
  imports Board_Telemetry Gpio_Layout
begin

text \<open>
  The state of the board as the page keeps it (\<open>boardSnapshot.ts\<close>, \<open>parseSwitches\<close> of
  \<open>switches.ts\<close>, the summary of \<open>persistentConfig.ts\<close>): built from the HTTP status and merged with
  every message of the live socket. An object whose properties are only passed on is a map from
  names to values. Shown: merging is idempotent, keeps what a message does not mention and the
  descriptions only the HTTP status has, and a live message with the same content as the status
  changes nothing.
\<close>

type_synonym props = "string \<rightharpoonup> json"

subsection \<open>Data\<close>

record PowerOutput =
  outName :: string
  outSignal :: "string option"
  outGp :: "jsnum option"
  outControllable :: bool
  outState :: string
  outValue :: "jsnum option"

record SwitchInfo =
  swRoute :: string
  swRoutes :: "string list option"
  swRequiresConfirm :: "bool option"

record WatchdogStatus =
  wdSupported :: bool
  wdAutomatic :: bool
  wdHealthy :: bool
  wdArmed :: bool
  wdTimeoutMs :: jsnum
  wdBootloaderOnTimeout :: bool
  wdFailingService :: string

record MonitoringMemory =
  memProps :: props
  memPhysical :: "props option"
  memStacks :: "props option"
  memCurrentPressure :: "props option"
  memPeakPressure :: "props option"

record BoardMonitoring =
  monTemperature :: props
  monHeap :: props
  monMemory :: "MonitoringMemory option"
  monRuntime :: props
  monCpu :: props

record PersistentConfigSummary =
  pcsAvailable :: bool
  pcsReason :: string
  pcsSavedCount :: nat
  pcsPendingCount :: nat

record BoardSnapshot =
  bsMcu :: "string option"
  bsUsb :: "string option"
  bsPowerCaptureProtocol :: "string option"
  bsPowerOutputs :: "PowerOutput list"
  bsSwitches :: "string \<rightharpoonup> SwitchInfo"
  bsGpios :: "BoardGpio list"
  bsWatchdog :: WatchdogStatus
  bsMonitoring :: BoardMonitoring
  bsAdc :: "AdcReading list"
  bsConfig :: "PersistentConfigSummary option"

definition unavailable :: props where
  "unavailable = [''available'' \<mapsto> JBool False]"

definition EMPTY_WATCHDOG :: WatchdogStatus where
  "EMPTY_WATCHDOG = \<lparr>wdSupported = False, wdAutomatic = False, wdHealthy = False, wdArmed = False, wdTimeoutMs = Fin 0,
     wdBootloaderOnTimeout = False, wdFailingService = []\<rparr>"

definition EMPTY_MONITORING :: BoardMonitoring where
  "EMPTY_MONITORING = \<lparr>monTemperature = unavailable, monHeap = unavailable, monMemory = None,
     monRuntime = unavailable, monCpu = unavailable\<rparr>"

definition EMPTY_BOARD_SNAPSHOT :: BoardSnapshot where
  "EMPTY_BOARD_SNAPSHOT = \<lparr>bsMcu = None, bsUsb = None, bsPowerCaptureProtocol = None, bsPowerOutputs = [],
     bsSwitches = Map.empty, bsGpios = [], bsWatchdog = EMPTY_WATCHDOG, bsMonitoring = EMPTY_MONITORING, bsAdc = [], bsConfig = None\<rparr>"

text \<open>The own properties of a value that passes \<open>isRecord\<close>; those of an array are its positions.\<close>

definition own_entries :: "json option \<Rightarrow> (string \<times> json) list option" where
  "own_entries raw =
     (case raw of
        Some (JObj es) \<Rightarrow> Some es
      | Some (JArr vs) \<Rightarrow> Some (zip (map string_of_nat [0..<length vs]) vs)
      | _ \<Rightarrow> None)"

text \<open>A later entry of an object literal or \<open>Object.assign\<close> wins.\<close>

definition entry_map :: "(string \<times> 'v) list \<Rightarrow> string \<rightharpoonup> 'v" where
  "entry_map es = map_of (rev es)"

subsection \<open>Parts\<close>

definition typed_or :: "'a \<Rightarrow> 'a option \<Rightarrow> 'a" where
  "typed_or d v = (case v of Some x \<Rightarrow> x | None \<Rightarrow> d)"

definition switch_info :: "SwitchInfo option \<Rightarrow> json \<Rightarrow> SwitchInfo" where
  "switch_info prior v =
     \<lparr>swRoute = typed_or (typed_or [] (map_option swRoute prior)) (json_string (json_get ''route'' v)),
      swRoutes = (case json_get ''routes'' v of
          Some (JArr rs) \<Rightarrow> Some (List.map_filter (\<lambda>r. json_string (Some r)) rs)
        | _ \<Rightarrow> Option.bind prior swRoutes),
      swRequiresConfirm = (case json_bool (json_get ''requires_confirm'' v) of
          Some b \<Rightarrow> Some b | None \<Rightarrow> Option.bind prior swRequiresConfirm)\<rparr>"

definition parseSwitches :: "json option \<Rightarrow> (string \<rightharpoonup> SwitchInfo) \<Rightarrow> string \<rightharpoonup> SwitchInfo" where
  "parseSwitches raw prev =
     (case own_entries raw of
        None \<Rightarrow> prev
      | Some es \<Rightarrow> foldl (\<lambda>next (name, v). if json_object (Some v) then next(name \<mapsto> switch_info (prev name) v) else next) prev es)"

definition mergeAvailability :: "props \<Rightarrow> json option \<Rightarrow> props \<Rightarrow> props" where
  "mergeAvailability prev raw defaults =
     (case own_entries raw of None \<Rightarrow> prev | Some es \<Rightarrow> defaults ++ prev ++ entry_map es)"

definition parseMemoryPressure :: "json option \<Rightarrow> props option \<Rightarrow> props option" where
  "parseMemoryPressure raw prev =
     (case own_entries raw of None \<Rightarrow> prev
      | Some _ \<Rightarrow> Some (mergeAvailability (typed_or unavailable prev) raw Map.empty))"

text \<open>\<open>{...prev?.part, ...raw.part}\<close> when the part is there.\<close>

definition merge_part :: "props option \<Rightarrow> json option \<Rightarrow> props option" where
  "merge_part prev raw =
     (case own_entries raw of None \<Rightarrow> prev | Some es \<Rightarrow> Some (typed_or Map.empty prev ++ entry_map es))"

text \<open>The four parts replace what the plain merge gave for their names.\<close>

definition parseMonitoringMemory :: "json option \<Rightarrow> MonitoringMemory option \<Rightarrow> MonitoringMemory option" where
  "parseMonitoringMemory raw prev =
     (case own_entries raw of None \<Rightarrow> prev
      | Some _ \<Rightarrow>
          let next = mergeAvailability (typed_or unavailable (map_option memProps prev)) raw Map.empty
          in Some \<lparr>memProps = next |` (- {''physical'', ''stacks'', ''current_pressure'', ''peak_pressure''}),
               memPhysical = merge_part (Option.bind prev memPhysical) (json_field ''physical'' raw),
               memStacks = merge_part (Option.bind prev memStacks) (json_field ''stacks'' raw),
               memCurrentPressure = parseMemoryPressure (json_field ''current_pressure'' raw) (Option.bind prev memCurrentPressure),
               memPeakPressure = parseMemoryPressure (json_field ''peak_pressure'' raw) (Option.bind prev memPeakPressure)\<rparr>)"

definition parseMonitoring :: "json option \<Rightarrow> BoardMonitoring \<Rightarrow> BoardMonitoring" where
  "parseMonitoring raw prev =
     (if \<not> json_object raw then prev
      else \<lparr>monTemperature = mergeAvailability (monTemperature prev) (json_field ''temperature'' raw) unavailable,
            monHeap = mergeAvailability (monHeap prev) (json_field ''heap'' raw) unavailable,
            monMemory = parseMonitoringMemory (json_field ''memory'' raw) (monMemory prev),
            monRuntime = mergeAvailability (monRuntime prev) (json_field ''runtime'' raw) unavailable,
            monCpu = mergeAvailability (monCpu prev) (json_field ''cpu'' raw) unavailable\<rparr>)"

definition parseWatchdog :: "json option \<Rightarrow> WatchdogStatus \<Rightarrow> WatchdogStatus" where
  "parseWatchdog raw prev =
     (if \<not> json_object raw then prev
      else \<lparr>wdSupported = typed_or (wdSupported prev) (json_bool (json_field ''supported'' raw)),
            wdAutomatic = typed_or (wdAutomatic prev) (json_bool (json_field ''automatic'' raw)),
            wdHealthy = typed_or (wdHealthy prev) (json_bool (json_field ''healthy'' raw)),
            wdArmed = typed_or (wdArmed prev) (json_bool (json_field ''armed'' raw)),
            wdTimeoutMs = typed_or (wdTimeoutMs prev) (json_num (json_field ''timeout_ms'' raw)),
            wdBootloaderOnTimeout = typed_or (wdBootloaderOnTimeout prev) (json_bool (json_field ''bootloader_on_timeout'' raw)),
            wdFailingService = typed_or (wdFailingService prev) (json_string (json_field ''failing_service'' raw))\<rparr>)"

definition config_count :: "json option \<Rightarrow> nat option" where
  "config_count v =
     (case json_num v of
        Some (Fin x) \<Rightarrow> if of_int \<lfloor>x\<rfloor> = x \<and> 0 \<le> x then Some (nat \<lfloor>x\<rfloor>) else None
      | _ \<Rightarrow> None)"

definition parsePersistentConfigSummary :: "json option \<Rightarrow> PersistentConfigSummary option" where
  "parsePersistentConfigSummary v =
     (case (json_bool (json_field ''available'' v), json_string (json_field ''reason'' v),
            config_count (json_field ''saved_count'' v), config_count (json_field ''pending_count'' v)) of
        (Some available, Some reason, Some saved, Some pending) \<Rightarrow>
          if saved < pending then None
          else Some \<lparr>pcsAvailable = available, pcsReason = reason, pcsSavedCount = saved, pcsPendingCount = pending\<rparr>
      | _ \<Rightarrow> None)"

definition mergePersistentConfigSummary ::
  "PersistentConfigSummary option \<Rightarrow> json option \<Rightarrow> PersistentConfigSummary option" where
  "mergePersistentConfigSummary previous v =
     (case parsePersistentConfigSummary v of Some s \<Rightarrow> Some s | None \<Rightarrow> previous)"

subsection \<open>Snapshots\<close>

text \<open>The entries of an array that are objects.\<close>

definition record_list :: "json option \<Rightarrow> json list option" where
  "record_list v = (case v of Some (JArr vs) \<Rightarrow> Some (js_records vs) | _ \<Rightarrow> None)"

definition status_output :: "json \<Rightarrow> PowerOutput" where
  "status_output out = \<lparr>outName = typed_or [] (json_string (json_get ''name'' out)),
     outSignal = json_string (json_get ''signal'' out), outGp = json_num (json_get ''gp'' out),
     outControllable = typed_or False (json_bool (json_get ''controllable'' out)),
     outState = typed_or [] (json_string (json_get ''state'' out)), outValue = json_num (json_get ''value'' out)\<rparr>"

definition parse_gpio :: "json \<Rightarrow> BoardGpio" where
  "parse_gpio g = \<lparr>gpioName = typed_or [] (json_string (json_get ''name'' g)),
     gpioPin = typed_or (Fin 0) (json_num (json_get ''pin'' g)), gpioNote = typed_or [] (json_string (json_get ''note'' g)),
     gpioValue = typed_or (Fin 0) (json_num (json_get ''value'' g)),
     gpioDirection = typed_or ''input'' (json_string (json_get ''direction'' g)),
     gpioLayoutGroup = json_string (json_get ''layoutGroup'' g), gpioLayoutLabel = json_string (json_get ''layoutLabel'' g),
     gpioLayoutRow = json_num (json_get ''layoutRow'' g), gpioLayoutColumn = json_num (json_get ''layoutColumn'' g)\<rparr>"

definition mapBoardStatus :: "json option \<Rightarrow> AdcReading list \<Rightarrow> BoardSnapshot" where
  "mapBoardStatus status adc =
     \<lparr>bsMcu = json_string (json_field ''mcu'' status), bsUsb = json_string (json_field ''usb'' status),
      bsPowerCaptureProtocol = json_string (json_field ''power_capture_protocol'' status),
      bsPowerOutputs = map status_output (typed_or [] (record_list (json_field ''power_outputs'' status))),
      bsSwitches = parseSwitches (json_field ''switches'' status) Map.empty,
      bsGpios = map parse_gpio (typed_or [] (record_list (json_field ''gpios'' status))),
      bsWatchdog = parseWatchdog (json_field ''watchdog'' status) EMPTY_WATCHDOG,
      bsMonitoring = parseMonitoring (json_field ''board_monitoring'' status) EMPTY_MONITORING,
      bsAdc = adc,
      bsConfig = mergePersistentConfigSummary None (json_field ''config'' status)\<rparr>"

definition output_meta :: "PowerOutput list \<Rightarrow> string \<rightharpoonup> PowerOutput" where
  "output_meta outputs = entry_map (map (\<lambda>out. (outName out, out)) outputs)"

definition live_output :: "(string \<rightharpoonup> PowerOutput) \<Rightarrow> json \<Rightarrow> PowerOutput" where
  "live_output meta out =
     (let name = typed_or [] (json_string (json_get ''name'' out))
      in \<lparr>outName = name, outSignal = Option.bind (meta name) outSignal, outGp = Option.bind (meta name) outGp,
          outControllable = typed_or True (map_option outControllable (meta name)),
          outState = typed_or [] (json_string (json_get ''state'' out)), outValue = json_num (json_get ''value'' out)\<rparr>)"

definition mergeBoardWsSnapshot :: "BoardSnapshot \<Rightarrow> json option \<Rightarrow> BoardSnapshot" where
  "mergeBoardWsSnapshot prev msg =
     prev\<lparr>bsPowerCaptureProtocol := (case json_string (json_field ''power_capture_protocol'' msg) of
              Some p \<Rightarrow> Some p | None \<Rightarrow> bsPowerCaptureProtocol prev),
          bsPowerOutputs := (case record_list (json_field ''power_outputs'' msg) of
              Some outs \<Rightarrow> map (live_output (output_meta (bsPowerOutputs prev))) outs | None \<Rightarrow> bsPowerOutputs prev),
          bsSwitches := parseSwitches (json_field ''switches'' msg) (bsSwitches prev),
          bsGpios := (case record_list (json_field ''gpios'' msg) of Some gs \<Rightarrow> map parse_gpio gs | None \<Rightarrow> bsGpios prev),
          bsWatchdog := parseWatchdog (json_field ''watchdog'' msg) (bsWatchdog prev),
          bsMonitoring := parseMonitoring (json_field ''board_monitoring'' msg) (bsMonitoring prev),
          bsConfig := mergePersistentConfigSummary (bsConfig prev) (json_field ''config'' msg)\<rparr>"

subsection \<open>Merging\<close>

lemma entry_map_snoc [simp]: "entry_map [] = Map.empty" "entry_map (es @ [(k, v)]) = (entry_map es)(k \<mapsto> v)"
  by (simp_all add: entry_map_def)

lemma entry_map_mem: "entry_map es k = Some v \<Longrightarrow> (k, v) \<in> set es"
  by (auto simp: entry_map_def dest: map_of_SomeD)

lemma entry_map_None: "entry_map es k = None \<longleftrightarrow> k \<notin> fst ` set es"
  by (simp add: entry_map_def map_of_eq_None_iff)

lemma parseSwitches_at:
  "parseSwitches raw prev k =
     (case own_entries raw of None \<Rightarrow> prev k
      | Some es \<Rightarrow> (case entry_map (filter (\<lambda>(_, v). json_object (Some v)) es) k of
          Some v \<Rightarrow> Some (switch_info (prev k) v) | None \<Rightarrow> prev k))"
proof (cases "own_entries raw")
  case (Some es)
  have "foldl (\<lambda>next (name, v). if json_object (Some v) then next(name \<mapsto> switch_info (prev name) v) else next) prev es k =
     (case entry_map (filter (\<lambda>(_, v). json_object (Some v)) es) k of Some v \<Rightarrow> Some (switch_info (prev k) v) | None \<Rightarrow> prev k)"
    by (induction es rule: rev_induct) auto
  with Some show ?thesis by (simp add: parseSwitches_def)
qed (simp add: parseSwitches_def)

lemma switch_info_twice: "switch_info (Some (switch_info prior v)) v = switch_info prior v"
  by (auto simp: switch_info_def typed_or_def split: option.splits json.splits)

lemma parseSwitches_twice: "parseSwitches raw (parseSwitches raw prev) = parseSwitches raw prev"
  by (rule ext) (auto simp: parseSwitches_at switch_info_twice split: option.splits)

lemma map_add_twice: "d ++ (d ++ p ++ r) ++ r = d ++ p ++ (r :: 'a \<rightharpoonup> 'b)" "(p ++ r) ++ r = p ++ r"
  by (rule ext, auto simp: map_add_def split: option.splits)+

lemma mergeAvailability_twice: "mergeAvailability (mergeAvailability prev raw d) raw d = mergeAvailability prev raw d"
  using map_add_twice by (auto simp: mergeAvailability_def split: option.splits)

lemma merge_part_twice: "merge_part (merge_part prev raw) raw = merge_part prev raw"
  by (auto simp: merge_part_def typed_or_def map_add_twice split: option.splits)

lemma parseMemoryPressure_twice: "parseMemoryPressure raw (parseMemoryPressure raw prev) = parseMemoryPressure raw prev"
  by (auto simp: parseMemoryPressure_def typed_or_def mergeAvailability_twice split: option.splits)

lemma restricted_twice: "((p ++ r) |` A ++ r) |` A = (p ++ r) |` (A :: 'a set)"
  by (rule ext) (auto simp: map_add_def restrict_map_def split: option.splits)

lemma parseMonitoringMemory_twice: "parseMonitoringMemory raw (parseMonitoringMemory raw prev) = parseMonitoringMemory raw prev"
proof (cases "own_entries raw")
  case (Some es)
  then show ?thesis
    by (simp add: parseMonitoringMemory_def Let_def merge_part_twice parseMemoryPressure_twice mergeAvailability_def typed_or_def
        restricted_twice)
qed (simp add: parseMonitoringMemory_def)

lemma parseMonitoring_twice: "parseMonitoring raw (parseMonitoring raw prev) = parseMonitoring raw prev"
  by (simp add: parseMonitoring_def mergeAvailability_twice parseMonitoringMemory_twice)

lemma typed_or_simps [simp]: "typed_or d (Some x) = x" "typed_or d None = d"
  by (simp_all add: typed_or_def)

lemma typed_or_twice [simp]: "typed_or (typed_or d v) v = typed_or d v"
  by (simp add: typed_or_def split: option.split)

lemma parseWatchdog_twice: "parseWatchdog raw (parseWatchdog raw prev) = parseWatchdog raw prev"
  by (simp add: parseWatchdog_def)

lemma mergeSummary_twice:
  "mergePersistentConfigSummary (mergePersistentConfigSummary prev v) v = mergePersistentConfigSummary prev v"
  by (simp add: mergePersistentConfigSummary_def split: option.split)

text \<open>Every output that is named in a live message has the description its name had before.\<close>

lemma live_meta:
  assumes "output_meta (map (live_output meta) os) name = Some out"
  shows "outSignal out = Option.bind (meta name) outSignal" "outGp out = Option.bind (meta name) outGp"
    "outControllable out = typed_or True (map_option outControllable (meta name))"
  using entry_map_mem [OF assms [unfolded output_meta_def]] by (auto simp: live_output_def Let_def)

lemma live_output_twice:
  assumes "out \<in> set os"
  shows "live_output (output_meta (map (live_output meta) os)) out = live_output meta out"
proof -
  define name where "name = typed_or [] (json_string (json_get ''name'' out))"
  have "name \<in> fst ` set (map (\<lambda>o'. (outName o', o')) (map (live_output meta) os))"
    using assms by (force simp: name_def live_output_def Let_def)
  then obtain o' where o': "output_meta (map (live_output meta) os) name = Some o'"
    unfolding output_meta_def by (metis entry_map_None not_Some_eq)
  define known where "known = output_meta (map (live_output meta) os)"
  have "known name = Some o'" using o' by (simp add: known_def)
  then have "live_output known out = live_output meta out"
    unfolding live_output_def Let_def name_def [symmetric] using live_meta [OF o'] by simp
  then show ?thesis by (simp add: known_def)
qed

text \<open>
  C32: Merging a live message into the snapshot a second time changes nothing, whatever the message
  is. The outputs it lists keep the signal, the pin and the permission to be switched, which only
  the HTTP status tells, under the name they had before; an output that was not known can be
  switched. What the message does not mention (readings, controller, USB, and the outputs or pins
  when it lists none) stays.
\<close>

theorem snapshot_merge_idempotent:
  "let next = mergeBoardWsSnapshot prev msg; known = output_meta (bsPowerOutputs prev) in
     mergeBoardWsSnapshot next msg = next \<and>
     bsAdc next = bsAdc prev \<and> bsMcu next = bsMcu prev \<and> bsUsb next = bsUsb prev \<and>
     (case record_list (json_field ''gpios'' msg) of None \<Rightarrow> bsGpios next = bsGpios prev | Some gs \<Rightarrow> bsGpios next = map parse_gpio gs) \<and>
     (case record_list (json_field ''power_outputs'' msg) of
        None \<Rightarrow> bsPowerOutputs next = bsPowerOutputs prev
      | Some _ \<Rightarrow> list_all (\<lambda>out. case known (outName out) of
          Some before \<Rightarrow> outSignal out = outSignal before \<and> outGp out = outGp before \<and> outControllable out = outControllable before
        | None \<Rightarrow> outSignal out = None \<and> outGp out = None \<and> outControllable out) (bsPowerOutputs next))"
proof -
  define next_outputs where "next_outputs = (case record_list (json_field ''power_outputs'' msg) of
      Some outs \<Rightarrow> map (live_output (output_meta (bsPowerOutputs prev))) outs | None \<Rightarrow> bsPowerOutputs prev)"
  have "(case record_list (json_field ''power_outputs'' msg) of
      Some outs \<Rightarrow> map (live_output (output_meta next_outputs)) outs | None \<Rightarrow> next_outputs) = next_outputs"
    by (auto simp: next_outputs_def live_output_twice split: option.split)
  then have "mergeBoardWsSnapshot (mergeBoardWsSnapshot prev msg) msg = mergeBoardWsSnapshot prev msg"
    by (simp add: mergeBoardWsSnapshot_def next_outputs_def [symmetric] parseSwitches_twice parseWatchdog_twice
        parseMonitoring_twice mergeSummary_twice split: option.splits)
  then show ?thesis
    by (auto simp: mergeBoardWsSnapshot_def live_output_def Let_def list_all_iff typed_or_def split: option.split)
qed

text \<open>A live message with the content of the HTTP status leaves the snapshot of that status as it is.\<close>

lemma meta_of_distinct:
  assumes "distinct (map outName outs)" "out \<in> set outs"
  shows "output_meta outs (outName out) = Some out"
proof -
  have "distinct (map fst (rev (map (\<lambda>out. (outName out, out)) outs)))"
    using assms(1) by (simp add: rev_map [symmetric] comp_def)
  moreover have "(outName out, out) \<in> set (rev (map (\<lambda>out. (outName out, out)) outs))" using assms(2) by simp
  ultimately show ?thesis unfolding output_meta_def entry_map_def by (rule map_of_is_SomeI)
qed

lemma live_status_agrees:
  assumes "distinct (map outName (bsPowerOutputs (mapBoardStatus status adc)))"
  shows "mergeBoardWsSnapshot (mapBoardStatus status adc) status = mapBoardStatus status adc"
proof -
  define outs where "outs = typed_or [] (record_list (json_field ''power_outputs'' status))"
  have "live_output (output_meta (map status_output outs)) out = status_output out" if "out \<in> set outs" for out
  proof -
    have "output_meta (map status_output outs) (outName (status_output out)) = Some (status_output out)"
      by (rule meta_of_distinct) (use assms(1) that in \<open>simp_all add: mapBoardStatus_def outs_def\<close>)
    then show ?thesis by (simp add: live_output_def Let_def status_output_def)
  qed
  then have "(case record_list (json_field ''power_outputs'' status) of
      Some os \<Rightarrow> map (live_output (output_meta (map status_output outs))) os | None \<Rightarrow> map status_output outs) = map status_output outs"
    by (auto simp: outs_def split: option.split)
  then show ?thesis
    unfolding mergeBoardWsSnapshot_def mapBoardStatus_def outs_def [symmetric]
    by (auto simp: parseSwitches_twice parseWatchdog_twice parseMonitoring_twice mergeSummary_twice split: option.splits)
qed

end
