(* ===== verification/Persistent_Config.thy ===== *)
theory Persistent_Config
  imports Board_Snapshot "HOL-Library.Multiset" "HOL-Library.List_Lexorder" "HOL-Library.Char_ord"
begin

text \<open>
  The configuration kept in the board: the answers of the firmware (\<open>persistentConfig.ts\<close>) and the
  key that tells when the state they refer to has changed (\<open>persistentConfigCurrentStateKey.ts\<close>).
  Shown: two states have the same key exactly when they agree, whatever their order.
\<close>

subsection \<open>Items\<close>

datatype ConfigValue = PowerValue bool | SwitchValue string | GpioValue bool bool

datatype ConfigRisk = RiskSafe | RiskConfirmation | RiskUnknown

datatype ConfigApplyState = NotSaved | Applied | Pending | Failed | ApplyUnknown

text \<open>What is set now and what is saved: on or off, a route, or (output, high).\<close>

datatype ConfigItemKind =
    PowerItem "bool option" "bool option"
  | SwitchItem "string option" "string option"
  | GpioItem "(bool \<times> bool) option" "(bool \<times> bool) option"
  | UnknownItem string

record PersistentConfigItem =
  itemId :: string
  itemSelected :: bool
  itemRisk :: ConfigRisk
  itemApplyState :: ConfigApplyState
  itemKind :: ConfigItemKind

record PersistentConfig =
  pcBackendAvailable :: bool
  pcBackendReason :: string
  pcSnapshotPresent :: bool
  pcSnapshotVersion :: "nat option"
  pcPending :: nat
  pcItems :: "PersistentConfigItem list"

datatype ConfigActivity = ActivityCapture | ActivityOta

datatype PersistentConfigErrorDetail =
    ConfirmationRequired "string list"
  | BusyWith ConfigActivity
  | ApplyFailed "string list" string "string list"
  | OtherError "string option"

datatype PersistentConfigApiError = ConfigApiError (errorDetail: PersistentConfigErrorDetail) (errorMessage: string)

abbreviation invalid_response :: "string \<Rightarrow> PersistentConfigApiError" where
  "invalid_response message \<equiv> ConfigApiError (OtherError (Some ''invalid_response'')) message"

text \<open>\<open>strings\<close>: the entries of an array that are texts.\<close>

definition config_strings :: "json option \<Rightarrow> string list" where
  "config_strings v = (case v of Some (JArr vs) \<Rightarrow> List.map_filter (\<lambda>x. json_string (Some x)) vs | _ \<Rightarrow> [])"

text \<open>An array that holds texts only.\<close>

definition all_strings :: "json option \<Rightarrow> bool" where
  "all_strings v = (case v of Some (JArr vs) \<Rightarrow> length (config_strings v) = length vs | _ \<Rightarrow> False)"

definition config_state :: "json option \<Rightarrow> bool option" where
  "config_state v = (if v = Some (JStr ''on'') then Some True else if v = Some (JStr ''off'') then Some False else None)"

definition config_direction :: "json option \<Rightarrow> bool option" where
  "config_direction v =
     (if v = Some (JStr ''input'') then Some False else if v = Some (JStr ''output'') then Some True else None)"

definition config_risk :: "json option \<Rightarrow> ConfigRisk" where
  "config_risk v = (case json_bool v of Some True \<Rightarrow> RiskConfirmation | Some False \<Rightarrow> RiskSafe | None \<Rightarrow> RiskUnknown)"

definition config_apply_state :: "string \<Rightarrow> ConfigApplyState" where
  "config_apply_state s =
     (if s = ''not_saved'' then NotSaved else if s = ''applied'' then Applied else if s = ''pending'' then Pending
      else if s = ''failed'' then Failed else ApplyUnknown)"

definition valueFor :: "string \<Rightarrow> json option \<Rightarrow> ConfigValue option" where
  "valueFor kind v =
     (if \<not> json_object v then None
      else if kind = ''power'' then map_option PowerValue (config_state (json_field ''state'' v))
      else if kind = ''switch'' then map_option SwitchValue (json_string (json_field ''route'' v))
      else if kind = ''gpio'' then
        (case (config_direction (json_field ''direction'' v), json_field ''value'' v) of
           (Some output, Some (JNum x)) \<Rightarrow>
             if js_eq x (Fin 0) then Some (GpioValue output False) else if js_eq x (Fin 1) then Some (GpioValue output True) else None
         | _ \<Rightarrow> None)
      else None)"

text \<open>A value that is \<open>null\<close>, or of the item's kind; the inner \<open>None\<close> is \<open>null\<close>.\<close>

definition saved_value :: "string \<Rightarrow> json \<Rightarrow> ConfigValue option option" where
  "saved_value kind v = (if v = JNull then Some None else map_option Some (valueFor kind (Some v)))"

definition item_kind :: "string \<Rightarrow> json \<Rightarrow> json \<Rightarrow> ConfigItemKind option" where
  "item_kind kind current saved =
     (if kind \<notin> {''power'', ''switch'', ''gpio''} then Some (UnknownItem kind)
      else case (saved_value kind current, saved_value kind saved) of
        (Some c, Some s) \<Rightarrow>
          if kind = ''power'' then Some (PowerItem (map_option (\<lambda>v. case v of PowerValue b \<Rightarrow> b | _ \<Rightarrow> False) c)
             (map_option (\<lambda>v. case v of PowerValue b \<Rightarrow> b | _ \<Rightarrow> False) s))
          else if kind = ''switch'' then Some (SwitchItem (map_option (\<lambda>v. case v of SwitchValue r \<Rightarrow> r | _ \<Rightarrow> []) c)
             (map_option (\<lambda>v. case v of SwitchValue r \<Rightarrow> r | _ \<Rightarrow> []) s))
          else Some (GpioItem (map_option (\<lambda>v. case v of GpioValue d b \<Rightarrow> (d, b) | _ \<Rightarrow> (False, False)) c)
             (map_option (\<lambda>v. case v of GpioValue d b \<Rightarrow> (d, b) | _ \<Rightarrow> (False, False)) s))
      | _ \<Rightarrow> None)"

definition config_item :: "json \<Rightarrow> PersistentConfigApiError + PersistentConfigItem" where
  "config_item v =
     (let invalid = Inl (invalid_response ''Invalid config item'')
      in case (json_string (json_get ''id'' v), json_string (json_get ''kind'' v)) of
        (Some i, Some kind) \<Rightarrow>
          (case (json_get ''current'' v, json_get ''saved'' v, json_bool (json_get ''selected'' v),
                 json_get ''requires_confirm'' v, json_string (json_get ''apply_state'' v)) of
             (Some current, Some saved, Some selected, Some confirm, Some apply) \<Rightarrow>
               if \<not> (json_bool (Some confirm) \<noteq> None \<or> confirm = JNull) then invalid
               else (case item_kind kind current saved of
                   None \<Rightarrow> invalid
                 | Some k \<Rightarrow> Inr \<lparr>itemId = i, itemSelected = selected, itemRisk = config_risk (Some confirm),
                     itemApplyState = config_apply_state apply, itemKind = k\<rparr>)
           | _ \<Rightarrow> invalid)
      | _ \<Rightarrow> invalid)"

subsection \<open>Answers\<close>

definition config_root :: "json option \<Rightarrow> string \<Rightarrow> PersistentConfigApiError + json" where
  "config_root v action =
     (case v of
        Some r \<Rightarrow>
          if json_get ''schema'' r = Some (JStr ''radxa-linkr-debugger.v1'') \<and> json_get ''ok'' r = Some (JBool True) \<and>
             json_get ''command'' r = Some (JStr ''config'') \<and> json_get ''action'' r = Some (JStr action)
          then Inr r else Inl (invalid_response ''Invalid config response'')
      | None \<Rightarrow> Inl (invalid_response ''Invalid config response''))"

text \<open>A stored snapshot has version 1, a missing one none.\<close>

definition valid_snapshot :: "json option \<Rightarrow> bool" where
  "valid_snapshot s =
     (json_object s \<and>
      (case json_bool (json_field ''present'' s) of
         Some True \<Rightarrow> json_field ''version'' s = Some (JNum (Fin 1))
       | Some False \<Rightarrow> json_field ''version'' s = Some JNull
       | None \<Rightarrow> False))"

definition parsePersistentConfigGet :: "json option \<Rightarrow> PersistentConfigApiError + PersistentConfig" where
  "parsePersistentConfigGet v =
     bindR (config_root v ''get'') (\<lambda>r.
       let backend = json_get ''backend'' r; snapshot = json_get ''snapshot'' r
       in case (json_bool (json_field ''available'' backend), json_string (json_field ''reason'' backend),
                config_count (json_get ''pending'' r), json_get ''items'' r) of
            (Some available, Some reason, Some pending, Some (JArr items)) \<Rightarrow>
              guardR (valid_snapshot snapshot) (invalid_response ''Invalid config response'') (
                bindR (foldR (\<lambda>acc x. bindR (config_item x) (\<lambda>i. Inr (acc @ [i]))) [] items) (\<lambda>parsed.
                Inr \<lparr>pcBackendAvailable = available, pcBackendReason = reason,
                  pcSnapshotPresent = (json_bool (json_field ''present'' snapshot) = Some True),
                  pcSnapshotVersion = config_count (json_field ''version'' snapshot), pcPending = pending, pcItems = parsed\<rparr>))
          | _ \<Rightarrow> Inl (invalid_response ''Invalid config response''))"

datatype config_mutation = SaveConfig | ClearConfig

definition parsePersistentConfigMutation :: "json option \<Rightarrow> config_mutation \<Rightarrow> PersistentConfigApiError + unit" where
  "parsePersistentConfigMutation v action =
     bindR (config_root v (case action of SaveConfig \<Rightarrow> ''save'' | ClearConfig \<Rightarrow> ''clear'')) (\<lambda>r.
       let complete = valid_snapshot (json_get ''snapshot'' r) \<and> config_count (json_get ''pending'' r) \<noteq> None
       in guardR
         (case action of
            SaveConfig \<Rightarrow> all_strings (json_get ''saved_items'' r) \<and> all_strings (json_get ''confirmation_items'' r) \<and>
              all_strings (json_get ''applied_items'' r) \<and> complete
          | ClearConfig \<Rightarrow> json_bool (json_get ''noop'' r) \<noteq> None \<and> complete)
         (invalid_response ''Invalid config response'') (Inr ()))"

definition parsePersistentConfigError :: "json option \<Rightarrow> string \<Rightarrow> string \<Rightarrow> PersistentConfigApiError" where
  "parsePersistentConfigError v fallback action =
     (case v of
        None \<Rightarrow> ConfigApiError (OtherError None) fallback
      | Some r \<Rightarrow>
          (case (json_string (json_field ''code'' (json_get ''error'' r)), json_string (json_field ''message'' (json_get ''error'' r))) of
             (Some c, Some message) \<Rightarrow>
               if \<not> (json_get ''schema'' r = Some (JStr ''radxa-linkr-debugger.v1'') \<and> json_get ''ok'' r = Some (JBool False) \<and>
                     json_get ''command'' r = Some (JStr ''config'') \<and> json_get ''action'' r = Some (JStr action))
               then invalid_response ''Invalid config error''
               else if c = ''confirmation_required'' \<and> all_strings (json_get ''dangerous_items'' r)
               then ConfigApiError (ConfirmationRequired (config_strings (json_get ''dangerous_items'' r))) message
               else if c = ''busy'' \<and> json_get ''activity'' r = Some (JStr ''capture'')
               then ConfigApiError (BusyWith ActivityCapture) message
               else if c = ''busy'' \<and> json_get ''activity'' r = Some (JStr ''ota'')
               then ConfigApiError (BusyWith ActivityOta) message
               else (case (c = ''apply_failed'' \<and> all_strings (json_get ''applied_items'' r) \<and> all_strings (json_get ''pending_items'' r),
                           json_string (json_get ''failed_item'' r)) of
                   (True, Some failed) \<Rightarrow>
                     ConfigApiError (ApplyFailed (config_strings (json_get ''applied_items'' r)) failed
                       (config_strings (json_get ''pending_items'' r))) message
                 | _ \<Rightarrow> if c \<in> {''confirmation_required'', ''busy'', ''apply_failed''}
                     then invalid_response ''Invalid config error'' else ConfigApiError (OtherError (Some c)) message)
           | _ \<Rightarrow> invalid_response ''Invalid config error''))"

record config_groups =
  powerItems :: "PersistentConfigItem list"
  switchItems :: "PersistentConfigItem list"
  gpioItems :: "PersistentConfigItem list"

definition groupPersistentConfigItems :: "PersistentConfigItem list \<Rightarrow> config_groups" where
  "groupPersistentConfigItems items =
     \<lparr>powerItems = filter (\<lambda>i. case itemKind i of PowerItem _ _ \<Rightarrow> True | _ \<Rightarrow> False) items,
      switchItems = filter (\<lambda>i. case itemKind i of SwitchItem _ _ \<Rightarrow> True | _ \<Rightarrow> False) items,
      gpioItems = filter (\<lambda>i. case itemKind i of GpioItem _ _ \<Rightarrow> True | _ \<Rightarrow> False) items\<rparr>"

subsection \<open>The key of the current state\<close>

text \<open>Outputs with their states, switches with their routes, pins with direction and value.\<close>

record PersistentConfigCurrentState =
  csPower :: "(string \<times> string) list"
  csSwitches :: "(string \<times> string) list"
  csGpios :: "(string \<times> string \<times> jsnum) list"

text \<open>\<open>Array.sort\<close> with \<open>compareName\<close>: stable, by the code units of the names.\<close>

definition sort_names :: "(string \<times> 'v) list \<Rightarrow> (string \<times> 'v) list" where
  "sort_names xs = sort_key fst xs"

definition named :: "string \<Rightarrow> string \<times> string \<Rightarrow> json" where
  "named property x = JObj [(''name'', JStr (fst x)), (property, JStr (snd x))]"

definition gpio_entry :: "string \<times> string \<times> jsnum \<Rightarrow> json" where
  "gpio_entry x = JObj [(''name'', JStr (fst x)), (''direction'', JStr (fst (snd x))), (''value'', JNum (snd (snd x)))]"

definition state_json :: "PersistentConfigCurrentState \<Rightarrow> json" where
  "state_json st = JObj [(''power'', JArr (map (named ''state'') (sort_names (csPower st)))),
     (''switches'', JArr (map (named ''route'') (sort_names (csSwitches st)))),
     (''gpios'', JArr (map gpio_entry (sort_names (csGpios st))))]"

definition persistentConfigCurrentStateKey ::
  "(rat \<Rightarrow> string) \<Rightarrow> PersistentConfigCurrentState option \<Rightarrow> string" where
  "persistentConfigCurrentStateKey digits_of st =
     (case st of None \<Rightarrow> ''unavailable'' | Some s \<Rightarrow> json_text digits_of (state_json s))"

definition names_distinct :: "PersistentConfigCurrentState \<Rightarrow> bool" where
  "names_distinct st \<longleftrightarrow> distinct (map fst (csPower st)) \<and> distinct (map fst (csSwitches st)) \<and> distinct (map fst (csGpios st))"

definition values_exact :: "PersistentConfigCurrentState \<Rightarrow> bool" where
  "values_exact st \<longleftrightarrow> list_all (\<lambda>x. json_exact (JNum (snd (snd x)))) (csGpios st)"

lemma sort_names_eq:
  assumes "distinct (map fst xs)" "distinct (map fst ys)"
  shows "sort_names xs = sort_names ys \<longleftrightarrow> set xs = set ys"
proof
  assume "sort_names xs = sort_names ys"
  then have "set (sort_names xs) = set (sort_names ys)" by simp
  then show "set xs = set ys" by (simp add: sort_names_def)
next
  assume same: "set xs = set ys"
  have "distinct xs" "distinct ys" using assms by (simp_all add: distinct_map)
  with same have "mset xs = mset (sort_key fst ys)" by (simp add: set_eq_iff_mset_eq_distinct)
  moreover have "inj_on fst (set xs)" using assms(1) by (simp add: distinct_map)
  ultimately have "sort_key fst xs = sort_key fst ys"
    by (rule sort_key_inj_key_eq) simp
  then show "sort_names xs = sort_names ys" by (simp add: sort_names_def)
qed

lemma state_json_exact: "values_exact st \<Longrightarrow> json_exact (state_json st)"
  by (auto simp: state_json_def values_exact_def named_def gpio_entry_def sort_names_def list_all_iff
      key_before_def index_key_def is_digit_def code_def split: option.splits)

lemma entries_inj: "inj (named p)" "inj gpio_entry"
  by (auto simp: inj_def named_def gpio_entry_def)

lemma state_json_eq:
  "state_json a = state_json b \<longleftrightarrow> sort_names (csPower a) = sort_names (csPower b) \<and>
     sort_names (csSwitches a) = sort_names (csSwitches b) \<and> sort_names (csGpios a) = sort_names (csGpios b)"
  using entries_inj by (auto simp: state_json_def inj_map_eq_map)

text \<open>
  C33: The key tells exactly whether the state the stored configuration refers to has changed: for
  two states in which no name occurs twice (and whose pin values are integers), the keys are equal if and only if
  the same outputs have the same states, the same switches the same routes and the same pins the
  same direction and value, in whatever order they are listed; and no state has the key of a board that is
  not there.
\<close>

theorem state_key_is_fingerprint:
  assumes "names_distinct a" "names_distinct b" "values_exact a" "values_exact b"
  shows "(persistentConfigCurrentStateKey digits_of (Some a) = persistentConfigCurrentStateKey digits_of (Some b) \<longleftrightarrow>
      set (csPower a) = set (csPower b) \<and> set (csSwitches a) = set (csSwitches b) \<and> set (csGpios a) = set (csGpios b)) \<and>
    persistentConfigCurrentStateKey digits_of (Some a) \<noteq> persistentConfigCurrentStateKey digits_of None"
proof -
  have "json_text digits_of (state_json a) = json_text digits_of (state_json b) \<longleftrightarrow> state_json a = state_json b"
    using json_parse_text [OF state_json_exact [OF assms(3)]] json_parse_text [OF state_json_exact [OF assms(4)]]
    by (metis option.inject)
  moreover have "json_text digits_of (state_json a) \<noteq> ''unavailable''" by (simp add: state_json_def)
  ultimately show ?thesis
    using assms(1,2) by (simp add: persistentConfigCurrentStateKey_def state_json_eq sort_names_eq names_distinct_def)
qed

definition state_example :: "bool \<Rightarrow> PersistentConfigCurrentState" where
  "state_example swapped = \<lparr>csPower = (if swapped then rev else id) [(''5v_out'', ''on''), (''12v_out'', ''off'')],
     csSwitches = [(''sd'', ''target'')], csGpios = [(''GP13'', ''output'', Fin 1)]\<rparr>"

theorem state_key_is_fingerprint_witness:
  "persistentConfigCurrentStateKey (\<lambda>_. []) (Some (state_example True)) =
     persistentConfigCurrentStateKey (\<lambda>_. []) (Some (state_example False)) \<and>
   persistentConfigCurrentStateKey (\<lambda>_. []) (Some (state_example True)) \<noteq>
     persistentConfigCurrentStateKey (\<lambda>_. []) (Some ((state_example True)\<lparr>csSwitches := [(''sd'', ''host'')]\<rparr>))"
  using state_key_is_fingerprint [of "state_example True" "state_example False" "\<lambda>_. []"]
    state_key_is_fingerprint [of "state_example True" "(state_example True)\<lparr>csSwitches := [(''sd'', ''host'')]\<rparr>" "\<lambda>_. []"]
  by (auto simp: state_example_def names_distinct_def values_exact_def)

end
