(* ===== verification/Config_Refresh.thy ===== *)
theory Config_Refresh
  imports Persistent_Config
begin

text \<open>
  The hook around the stored configuration (\<open>hooks/usePersistentConfig.ts\<close>) as a machine: refreshes
  are numbered, only the answer to the newest one counts, every call waits for an answer at least
  as new as itself, and changes of the configuration run one after the other. Its steps are the
  calls, the answers of the board, the effects React runs and the changes of the connection.
  Shown: no call is forgotten, each is settled once, and the changes finish in order.
\<close>

datatype lifecycle_code = CodeDisconnected | CodeUnsupported | CodeUnmounted

definition lifecycleError :: "lifecycle_code \<Rightarrow> PersistentConfigApiError" where
  "lifecycleError c =
     (case c of
        CodeDisconnected \<Rightarrow> ConfigApiError (OtherError (Some ''disconnected'')) ''Config board is disconnected''
      | CodeUnsupported \<Rightarrow> ConfigApiError (OtherError (Some ''unsupported'')) ''Config firmware is unsupported''
      | CodeUnmounted \<Rightarrow> ConfigApiError (OtherError (Some ''unmounted'')) ''Config hook is unmounted'')"

text \<open>What is thrown when a request fails; \<open>None\<close> is anything that is not an error of the configuration.\<close>

definition requestError :: "PersistentConfigApiError option \<Rightarrow> PersistentConfigApiError" where
  "requestError caught = (case caught of Some e \<Rightarrow> e | None \<Rightarrow> ConfigApiError (OtherError None) ''Config request failed'')"

text \<open>A change that runs: it operates, or waits for the refresh after it.\<close>

datatype mutation_phase = NoMutation | Operating nat config_mutation | Refreshing nat config_mutation nat

text \<open>
  The hook's states and refs. A waiter is named by the generation it requires, which no other call
  shares. \<open>settledWaiters\<close> records how each promise ended (\<open>None\<close> is resolved), \<open>answersDue\<close> the
  requests the board has not answered, \<open>effectDue\<close> that React still has to run the effect after
  \<open>setAuthority\<close>.
\<close>

record config_hook =
  authority :: "(PersistentConfig \<times> nat) option"
  hookError :: "PersistentConfigApiError option"
  hookLoading :: bool
  hookBusy :: "config_mutation option"
  latestGeneration :: nat
  acceptedGeneration :: nat
  authorityWaiters :: "nat list"
  settledWaiters :: "(nat \<times> PersistentConfigApiError option) list"
  answersDue :: "nat list"
  effectDue :: bool
  hookMounted :: bool
  hookConnected :: bool
  hookSupported :: bool
  mutationQueue :: "(nat \<times> config_mutation) list"
  mutationPhase :: mutation_phase
  mutationResults :: "(nat \<times> PersistentConfigApiError option) list"

definition init_hook :: "bool \<Rightarrow> bool \<Rightarrow> config_hook" where
  "init_hook isConnected supported =
     \<lparr>authority = None, hookError = None, hookLoading = False, hookBusy = None, latestGeneration = 0,
      acceptedGeneration = 0, authorityWaiters = [], settledWaiters = [], answersDue = [], effectDue = False,
      hookMounted = True, hookConnected = isConnected, hookSupported = supported, mutationQueue = [],
      mutationPhase = NoMutation, mutationResults = []\<rparr>"

text \<open>The waiters that \<open>go\<close> are settled in order, the others stay.\<close>

definition settle_waiters :: "(nat \<Rightarrow> bool) \<Rightarrow> PersistentConfigApiError option \<Rightarrow> config_hook \<Rightarrow> config_hook" where
  "settle_waiters go outcome s =
     s\<lparr>settledWaiters := settledWaiters s @ map (\<lambda>w. (w, outcome)) (filter go (authorityWaiters s)),
       authorityWaiters := filter (\<lambda>w. \<not> go w) (authorityWaiters s)\<rparr>"

definition rejectAllWaiters :: "PersistentConfigApiError \<Rightarrow> config_hook \<Rightarrow> config_hook" where
  "rejectAllWaiters e s = settle_waiters (\<lambda>_. True) (Some e) s"

definition rejectWaitersThrough :: "nat \<Rightarrow> PersistentConfigApiError \<Rightarrow> config_hook \<Rightarrow> config_hook" where
  "rejectWaitersThrough generation e s = settle_waiters (\<lambda>w. w \<le> generation) (Some e) s"

definition waitForAuthority :: "nat \<Rightarrow> config_hook \<Rightarrow> config_hook" where
  "waitForAuthority required s =
     (if acceptedGeneration s \<ge> required then s\<lparr>settledWaiters := settledWaiters s @ [(required, None)]\<rparr>
      else s\<lparr>authorityWaiters := authorityWaiters s @ [required]\<rparr>)"

definition availabilityError :: "config_hook \<Rightarrow> PersistentConfigApiError option" where
  "availabilityError s =
     (if \<not> hookMounted s then Some (lifecycleError CodeUnmounted)
      else if \<not> hookConnected s then Some (lifecycleError CodeDisconnected)
      else if \<not> hookSupported s then Some (lifecycleError CodeUnsupported)
      else None)"

definition authority_effect :: "config_hook \<Rightarrow> config_hook" where
  "authority_effect s =
     (if \<not> effectDue s then s
      else case authority s of
        None \<Rightarrow> s\<lparr>effectDue := False\<rparr>
      | Some (_, generation) \<Rightarrow>
          settle_waiters (\<lambda>w. w \<le> generation) None (s\<lparr>effectDue := False, acceptedGeneration := generation\<rparr>))"

text \<open>The generation the call waits for, or the error it is rejected with at once.\<close>

definition refresh :: "config_hook \<Rightarrow> (PersistentConfigApiError + nat) \<times> config_hook" where
  "refresh s =
     (case availabilityError s of
        Some e \<Rightarrow> (Inl e, s)
      | None \<Rightarrow>
          let generation = latestGeneration s + 1;
              s1 = waitForAuthority generation (s\<lparr>latestGeneration := generation, hookLoading := True\<rparr>)
          in (Inr generation, s1\<lparr>answersDue := answersDue s1 @ [generation]\<rparr>))"

definition answer_counts :: "nat \<Rightarrow> config_hook \<Rightarrow> bool" where
  "answer_counts generation s \<longleftrightarrow>
     hookMounted s \<and> hookConnected s \<and> hookSupported s \<and> generation = latestGeneration s"

definition answered :: "nat \<Rightarrow> PersistentConfigApiError option + PersistentConfig \<Rightarrow> config_hook \<Rightarrow> config_hook" where
  "answered generation answer s0 =
     (if generation \<notin> set (answersDue s0) then s0
      else let s = s0\<lparr>answersDue := remove1 generation (answersDue s0)\<rparr>
        in if \<not> answer_counts generation s then s
           else case answer of
             Inr next \<Rightarrow> s\<lparr>authority := Some (next, generation), effectDue := True, hookError := None, hookLoading := False\<rparr>
           | Inl caught \<Rightarrow> rejectWaitersThrough generation (requestError caught)
               (s\<lparr>hookError := Some (requestError caught), hookLoading := False\<rparr>))"

text \<open>The effect that runs when the connection, the summary or the key of the current state changed.\<close>

definition props_changed :: "bool \<Rightarrow> bool \<Rightarrow> config_hook \<Rightarrow> config_hook" where
  "props_changed isConnected supported s0 =
     (let s = s0\<lparr>hookConnected := isConnected, hookSupported := supported\<rparr>
      in if \<not> supported then
           (rejectAllWaiters (lifecycleError CodeUnsupported) (s\<lparr>latestGeneration := latestGeneration s + 1\<rparr>))
             \<lparr>hookLoading := False, hookError := None, authority := None, effectDue := False\<rparr>
         else if \<not> isConnected then
           (rejectAllWaiters (lifecycleError CodeDisconnected) (s\<lparr>latestGeneration := latestGeneration s + 1\<rparr>))
             \<lparr>hookLoading := False\<rparr>
         else snd (refresh s))"

definition unmounted :: "config_hook \<Rightarrow> config_hook" where
  "unmounted s = rejectAllWaiters (lifecycleError CodeUnmounted)
     (s\<lparr>hookMounted := False, latestGeneration := latestGeneration s + 1, effectDue := False\<rparr>)"

subsection \<open>Changes\<close>

text \<open>The end of \<open>run\<close>: its \<open>catch\<close> and \<open>finally\<close>.\<close>

definition finish_mutation :: "nat \<Rightarrow> PersistentConfigApiError option \<Rightarrow> config_hook \<Rightarrow> config_hook" where
  "finish_mutation i outcome s =
     (let s1 = (if hookMounted s \<and> outcome \<noteq> None then s\<lparr>hookError := outcome\<rparr> else s);
          s2 = (if hookMounted s1 then s1\<lparr>hookBusy := None\<rparr> else s1)
      in s2\<lparr>mutationPhase := NoMutation, mutationResults := mutationResults s2 @ [(i, outcome)]\<rparr>)"

text \<open>The next \<open>run\<close> of the queue starts when the one before has settled.\<close>

definition start_mutation :: "config_hook \<Rightarrow> config_hook" where
  "start_mutation s =
     (case (mutationPhase s, mutationQueue s) of
        (NoMutation, (i, activity) # queue) \<Rightarrow>
          (let s1 = s\<lparr>mutationQueue := queue\<rparr>
           in case availabilityError s1 of
                Some e \<Rightarrow> s1\<lparr>mutationResults := mutationResults s1 @ [(i, Some e)]\<rparr>
              | None \<Rightarrow> s1\<lparr>hookBusy := Some activity, hookError := None, mutationPhase := Operating i activity\<rparr>)
      | _ \<Rightarrow> s)"

definition operation_done :: "PersistentConfigApiError option + unit \<Rightarrow> config_hook \<Rightarrow> config_hook" where
  "operation_done outcome s =
     (case mutationPhase s of
        Operating i activity \<Rightarrow>
          (case outcome of
             Inl caught \<Rightarrow> finish_mutation i (Some (requestError caught)) s
           | Inr _ \<Rightarrow>
               (case refresh s of
                  (Inl e, s') \<Rightarrow> finish_mutation i (Some e) s'
                | (Inr generation, s') \<Rightarrow> s'\<lparr>mutationPhase := Refreshing i activity generation\<rparr>))
      | _ \<Rightarrow> s)"

text \<open>The change goes on once the promise of its refresh is settled.\<close>

definition resume_mutation :: "config_hook \<Rightarrow> config_hook" where
  "resume_mutation s =
     (case mutationPhase s of
        Refreshing i activity generation \<Rightarrow>
          (case map_of (settledWaiters s) generation of
             None \<Rightarrow> s
           | Some outcome \<Rightarrow> finish_mutation i outcome s)
      | _ \<Rightarrow> s)"

datatype hook_event =
    CallRefresh
  | CallMutate nat config_mutation
  | Answer nat "PersistentConfigApiError option + PersistentConfig"
  | RunEffect
  | PropsChanged bool bool
  | Unmount
  | StartMutation
  | OperationDone "PersistentConfigApiError option + unit"
  | ResumeMutation

fun hook_step :: "config_hook \<Rightarrow> hook_event \<Rightarrow> config_hook" where
  "hook_step s CallRefresh = snd (refresh s)"
| "hook_step s (CallMutate i activity) = s\<lparr>mutationQueue := mutationQueue s @ [(i, activity)]\<rparr>"
| "hook_step s (Answer generation answer) = answered generation answer s"
| "hook_step s RunEffect = authority_effect s"
| "hook_step s (PropsChanged isConnected supported) = props_changed isConnected supported s"
| "hook_step s Unmount = unmounted s"
| "hook_step s StartMutation = start_mutation s"
| "hook_step s (OperationDone outcome) = operation_done outcome s"
| "hook_step s ResumeMutation = resume_mutation s"

subsection \<open>No call is forgotten\<close>

text \<open>The calls that were made: they wait or are settled.\<close>

definition made_calls :: "config_hook \<Rightarrow> nat set" where
  "made_calls s = set (authorityWaiters s) \<union> fst ` set (settledWaiters s)"

text \<open>
  Whoever waits can count on an answer: the newest request is unanswered, or an answer at least as
  new as the call has come and React is about to run the effect.
\<close>

definition answer_coming :: "config_hook \<Rightarrow> bool" where
  "answer_coming s \<longleftrightarrow> latestGeneration s \<in> set (answersDue s) \<or>
     effectDue s \<and> (case authority s of None \<Rightarrow> False | Some (_, g) \<Rightarrow> \<forall>w \<in> set (authorityWaiters s). w \<le> g)"

definition hook_inv :: "config_hook \<Rightarrow> bool" where
  "hook_inv s \<longleftrightarrow>
     acceptedGeneration s \<le> latestGeneration s \<and>
     (\<forall>w \<in> set (authorityWaiters s). acceptedGeneration s < w \<and> w \<le> latestGeneration s) \<and>
     distinct (authorityWaiters s @ map fst (settledWaiters s)) \<and>
     (\<forall>x \<in> set (settledWaiters s). fst x \<le> latestGeneration s \<and> (snd x = None \<longrightarrow> fst x \<le> acceptedGeneration s)) \<and>
     distinct (answersDue s) \<and> (\<forall>g \<in> set (answersDue s). g \<le> latestGeneration s) \<and>
     (\<forall>c g. authority s = Some (c, g) \<longrightarrow> g \<le> latestGeneration s \<and> (effectDue s \<longrightarrow> acceptedGeneration s \<le> g)) \<and>
     (authorityWaiters s \<noteq> [] \<longrightarrow> availabilityError s = None \<and> answer_coming s)"

definition hook_le :: "config_hook \<Rightarrow> config_hook \<Rightarrow> bool" where
  "hook_le s t \<longleftrightarrow> latestGeneration s \<le> latestGeneration t \<and> acceptedGeneration s \<le> acceptedGeneration t \<and>
     made_calls s \<subseteq> made_calls t \<and> (\<exists>more. settledWaiters t = settledWaiters s @ more)"

definition hook_ok :: "config_hook \<Rightarrow> config_hook \<Rightarrow> bool" where
  "hook_ok s t \<longleftrightarrow> (hook_inv s \<longrightarrow> hook_inv t \<and> hook_le s t)"

lemma hook_le_refl: "hook_le s s"
  by (simp add: hook_le_def)

lemma hook_le_trans: "hook_le s t \<Longrightarrow> hook_le t u \<Longrightarrow> hook_le s u"
  unfolding hook_le_def by (metis append.assoc order.trans)

lemma hook_ok_trans: "hook_ok s t \<Longrightarrow> hook_ok t u \<Longrightarrow> hook_ok s u"
  unfolding hook_ok_def using hook_le_trans by blast

lemma hook_ok_refl: "hook_ok s s"
  by (simp add: hook_ok_def hook_le_refl)

lemma availability: "availabilityError s = None \<longleftrightarrow> hookMounted s \<and> hookConnected s \<and> hookSupported s"
  by (simp add: availabilityError_def)

lemma made_settle: "made_calls (settle_waiters go outcome s) = made_calls s"
  by (auto simp: made_calls_def settle_waiters_def image_Un image_image)

lemma hook_ok_refresh: "hook_ok s (snd (refresh s))"
proof (cases "availabilityError s")
  case None
  show ?thesis unfolding hook_ok_def
  proof
    assume inv: "hook_inv s"
    then have "\<not> latestGeneration s + 1 \<le> acceptedGeneration s" by (simp add: hook_inv_def)
    then have t: "snd (refresh s) = s\<lparr>latestGeneration := latestGeneration s + 1, hookLoading := True,
        authorityWaiters := authorityWaiters s @ [latestGeneration s + 1], answersDue := answersDue s @ [latestGeneration s + 1]\<rparr>"
      using None by (simp add: refresh_def Let_def waitForAuthority_def)
    have "latestGeneration s + 1 \<notin> set (answersDue s)" "latestGeneration s + 1 \<notin> set (authorityWaiters s)"
      "latestGeneration s + 1 \<notin> fst ` set (settledWaiters s)"
      using inv unfolding hook_inv_def by force+
    then have "hook_inv (snd (refresh s))"
      using inv None unfolding t by (force simp: hook_inv_def answer_coming_def availability)
    moreover have "hook_le s (snd (refresh s))" unfolding t by (auto simp: hook_le_def made_calls_def)
    ultimately show "hook_inv (snd (refresh s)) \<and> hook_le s (snd (refresh s))" by blast
  qed
qed (simp add: refresh_def hook_ok_refl)

text \<open>Every waiter is rejected, and the answers that are due count no longer.\<close>

definition dismissed :: "PersistentConfigApiError \<Rightarrow> config_hook \<Rightarrow> config_hook" where
  "dismissed e s = rejectAllWaiters e (s\<lparr>latestGeneration := latestGeneration s + 1\<rparr>)"

lemma dismissed_eq: "dismissed e s = s\<lparr>latestGeneration := latestGeneration s + 1,
    settledWaiters := settledWaiters s @ map (\<lambda>w. (w, Some e)) (authorityWaiters s), authorityWaiters := []\<rparr>"
  by (simp add: dismissed_def rejectAllWaiters_def settle_waiters_def)

lemma hook_ok_dismissed: "hook_ok s (dismissed e s)"
  unfolding hook_ok_def dismissed_eq
  by (auto simp: hook_inv_def hook_le_def made_calls_def comp_def image_image image_Un le_SucI)

lemma hook_ok_rejected: "hook_ok s (rejectAllWaiters e s)"
  unfolding hook_ok_def rejectAllWaiters_def settle_waiters_def
  by (auto simp: hook_inv_def hook_le_def made_calls_def comp_def image_image image_Un)

text \<open>What the invariant does not look at, once nobody waits.\<close>

lemma hook_ok_idle:
  assumes "hook_ok s t" "authorityWaiters t = []" "authority u = authority t \<or> authority u = None" "effectDue u \<longrightarrow> effectDue t"
    "latestGeneration u = latestGeneration t" "acceptedGeneration u = acceptedGeneration t"
    "authorityWaiters u = []" "settledWaiters u = settledWaiters t" "distinct (answersDue t) \<Longrightarrow> distinct (answersDue u)" "set (answersDue u) \<subseteq> set (answersDue t)"
  shows "hook_ok s u"
proof -
  have "hook_inv u" if inv: "hook_inv t"
  proof -
    have "distinct (answersDue u)" "\<forall>g \<in> set (answersDue u). g \<le> latestGeneration u"
      using inv assms(5,9,10) unfolding hook_inv_def by auto
    with inv assms(2-8) show ?thesis unfolding hook_inv_def by auto
  qed
  moreover have "hook_le s u = hook_le s t" using assms(2,7) by (simp only: hook_le_def made_calls_def assms(5,6,8))
  ultimately show ?thesis using assms(1) by (simp add: hook_ok_def)
qed

lemma dismissed_waiters: "authorityWaiters (dismissed e s) = []"
  by (simp add: dismissed_eq)

lemma hook_ok_same:
  assumes "hook_ok s t" "authority u = authority t" "effectDue u = effectDue t"
    "latestGeneration u = latestGeneration t" "acceptedGeneration u = acceptedGeneration t"
    "authorityWaiters u = authorityWaiters t" "settledWaiters u = settledWaiters t" "answersDue u = answersDue t"
    "availabilityError u = availabilityError t"
  shows "hook_ok s u"
proof -
  have "hook_inv u = hook_inv t" by (simp only: hook_inv_def answer_coming_def assms(2-))
  moreover have "hook_le s u = hook_le s t" by (simp only: hook_le_def made_calls_def assms(2-))
  ultimately show ?thesis using assms(1) by (simp add: hook_ok_def)
qed

lemma hook_ok_props: "hook_ok s (props_changed isConnected supported s)"
proof -
  define s1 where "s1 = s\<lparr>hookConnected := isConnected, hookSupported := supported\<rparr>"
  have gone: "hook_ok s (dismissed e s1)" for e
    by (rule hook_ok_idle [OF hook_ok_dismissed [of s e] dismissed_waiters])
      (simp_all add: dismissed_eq s1_def)
  show ?thesis
  proof (cases "supported \<and> isConnected")
    case True
    show ?thesis
    proof (cases "authorityWaiters s = [] \<or> availabilityError s = None")
      case True2: True
      then have "hook_ok s s1"
        using True by (auto simp: hook_ok_def hook_inv_def hook_le_def made_calls_def answer_coming_def s1_def availability split: option.splits)
      from hook_ok_trans [OF this hook_ok_refresh [of s1]] True show ?thesis
        by (simp add: props_changed_def s1_def Let_def)
    next
      case False
      then have "\<not> hook_inv s" by (auto simp: hook_inv_def)
      then show ?thesis by (simp add: hook_ok_def)
    qed
  next
    case False
    have "hook_ok s ((dismissed (lifecycleError CodeUnsupported) s1)\<lparr>hookLoading := False, hookError := None, authority := None, effectDue := False\<rparr>)"
      by (rule hook_ok_idle [OF gone [of "lifecycleError CodeUnsupported"] dismissed_waiters]) (simp_all add: dismissed_waiters)
    moreover have "hook_ok s ((dismissed (lifecycleError CodeDisconnected) s1)\<lparr>hookLoading := False\<rparr>)"
      by (rule hook_ok_idle [OF gone [of "lifecycleError CodeDisconnected"] dismissed_waiters]) (simp_all add: dismissed_waiters)
    ultimately show ?thesis using False
      by (auto simp: props_changed_def s1_def dismissed_def Let_def)
  qed
qed

lemma hook_ok_unmounted: "hook_ok s (unmounted s)"
proof -
  have "unmounted s = (dismissed (lifecycleError CodeUnmounted) s)\<lparr>hookMounted := False, effectDue := False\<rparr>"
    by (simp add: unmounted_def dismissed_eq rejectAllWaiters_def settle_waiters_def)
  then show ?thesis
    using hook_ok_idle [OF hook_ok_dismissed [of s "lifecycleError CodeUnmounted"] dismissed_waiters, of "unmounted s"]
    by (simp add: dismissed_waiters)
qed

lemma hook_ok_effect: "hook_ok s (authority_effect s)"
proof (cases "effectDue s")
  case True
  show ?thesis
  proof (cases "authority s")
    case None
    then show ?thesis using True by (auto simp: hook_ok_def hook_inv_def hook_le_def made_calls_def answer_coming_def
          availability authority_effect_def)
  next
    case (Some a)
    then obtain c g where a: "authority s = Some (c, g)" by (cases a) auto
    define t where "t = authority_effect s"
    have t: "t = s\<lparr>effectDue := False, acceptedGeneration := g,
        settledWaiters := settledWaiters s @ map (\<lambda>w. (w, None)) (filter (\<lambda>w. w \<le> g) (authorityWaiters s)),
        authorityWaiters := filter (\<lambda>w. \<not> w \<le> g) (authorityWaiters s)\<rparr>"
      using True a by (simp add: t_def authority_effect_def settle_waiters_def)
    show ?thesis unfolding hook_ok_def t_def [symmetric]
    proof
      assume inv: "hook_inv s"
      have "distinct (authorityWaiters t @ map fst (settledWaiters t))"
        using inv unfolding t hook_inv_def by (auto simp: comp_def)
      moreover have "authorityWaiters t \<noteq> [] \<longrightarrow> availabilityError t = None \<and> answer_coming t"
        using inv a unfolding t hook_inv_def answer_coming_def by (auto simp: availability filter_empty_conv)
      moreover have "\<forall>x \<in> set (settledWaiters t). fst x \<le> latestGeneration t \<and> (snd x = None \<longrightarrow> fst x \<le> acceptedGeneration t)"
        using inv True a unfolding t hook_inv_def by (auto intro: order_trans)
      ultimately have "hook_inv t" using inv True a unfolding hook_inv_def by (auto simp: t)
      moreover have "hook_le s t" using inv True a by (auto simp: t hook_le_def made_calls_def hook_inv_def image_image image_Un)
      ultimately show "hook_inv t \<and> hook_le s t" by blast
    qed
  qed
qed (simp add: authority_effect_def hook_ok_refl)

lemma hook_ok_answered: "hook_ok s (answered g answer s)"
proof (cases "g \<in> set (answersDue s)")
  case due: True
  define s1 where "s1 = s\<lparr>answersDue := remove1 g (answersDue s)\<rparr>"
  show ?thesis
  proof (cases "answer_counts g s1")
    case False
    have "hook_ok s s1"
      unfolding hook_ok_def
    proof
      assume inv: "hook_inv s"
      have "g = latestGeneration s \<Longrightarrow> availabilityError s \<noteq> None"
        using False by (auto simp: answer_counts_def s1_def availability)
      with inv due show "hook_inv s1 \<and> hook_le s s1"
        by (auto simp: hook_inv_def s1_def hook_le_def made_calls_def answer_coming_def availability dest: notin_set_remove1 split: option.splits)
    qed
    with False due show ?thesis by (simp add: answered_def s1_def Let_def)
  next
    case True
    then have g: "g = latestGeneration s" by (simp add: answer_counts_def s1_def)
    show ?thesis
    proof (cases answer)
      case (Inr new)
      have "answered g answer s = s1\<lparr>authority := Some (new, g), effectDue := True, hookError := None, hookLoading := False\<rparr>"
        using due True Inr by (simp add: answered_def s1_def Let_def)
      then show ?thesis unfolding hook_ok_def
        by (auto simp: hook_inv_def s1_def hook_le_def made_calls_def answer_coming_def availability g dest: notin_set_remove1)
    next
      case (Inl caught)
      define t where "t = answered g answer s"
      have t: "t = rejectWaitersThrough g (requestError caught) (s1\<lparr>hookError := Some (requestError caught), hookLoading := False\<rparr>)"
        using due True Inl by (simp add: t_def answered_def s1_def Let_def)
      have "hook_ok s t"
      proof (cases "hook_inv s")
        case inv: True
        then have "filter (\<lambda>w. w \<le> g) (authorityWaiters s) = authorityWaiters s" "filter (\<lambda>w. \<not> w \<le> g) (authorityWaiters s) = []"
          by (auto simp: hook_inv_def g filter_empty_conv)
        then have "settledWaiters t = settledWaiters (rejectAllWaiters (requestError caught) s)" "authorityWaiters t = []"
          unfolding t rejectWaitersThrough_def rejectAllWaiters_def settle_waiters_def s1_def by simp_all
        moreover have "authorityWaiters (rejectAllWaiters (requestError caught) s) = []"
          by (simp add: rejectAllWaiters_def settle_waiters_def)
        ultimately show ?thesis
          by (intro hook_ok_idle [OF hook_ok_rejected [of s "requestError caught"]])
            (use set_remove1_subset [of g "answersDue s"] in
              \<open>auto simp: t rejectWaitersThrough_def rejectAllWaiters_def settle_waiters_def s1_def\<close>)
      qed (simp add: hook_ok_def)
      then show ?thesis by (simp add: t_def)
    qed
  qed
qed (simp add: answered_def hook_ok_refl)

lemma hook_ok_finish:
  assumes "hook_ok s t"
  shows "hook_ok s (finish_mutation i outcome t)"
  by (rule hook_ok_same [OF assms]; cases "hookMounted t"; cases outcome)
    (simp_all add: finish_mutation_def Let_def availabilityError_def)

lemma hook_ok_start: "hook_ok s (start_mutation s)"
proof (cases "mutationPhase s = NoMutation \<and> mutationQueue s \<noteq> []")
  case True
  then obtain i activity queue where "mutationPhase s = NoMutation" "mutationQueue s = (i, activity) # queue"
    by (metis neq_Nil_conv prod.exhaust)
  then show ?thesis
    by (intro hook_ok_same [OF hook_ok_refl]) (auto simp: start_mutation_def Let_def availabilityError_def)
next
  case False
  then have "start_mutation s = s" by (auto simp: start_mutation_def split: mutation_phase.splits list.splits)
  then show ?thesis by (simp add: hook_ok_refl)
qed

lemma hook_ok_operation: "hook_ok s (operation_done outcome s)"
proof (cases "mutationPhase s")
  case (Operating i activity)
  show ?thesis
  proof (cases outcome)
    case (Inl caught)
    with Operating show ?thesis by (simp add: operation_done_def hook_ok_finish hook_ok_refl)
  next
    case (Inr ok)
    obtain r s' where r: "refresh s = (r, s')" by fastforce
    with hook_ok_refresh [of s] have ok: "hook_ok s s'" by simp
    have "hook_ok s (s'\<lparr>mutationPhase := Refreshing i activity g\<rparr>)" for g
      by (rule hook_ok_same [OF ok]) (simp_all add: availabilityError_def)
    with r Operating Inr hook_ok_finish [OF ok] show ?thesis by (cases r) (simp_all add: operation_done_def)
  qed
qed (simp_all add: operation_done_def hook_ok_refl)

lemma hook_ok_step: "hook_ok s (hook_step s e)"
proof (cases e)
  case (CallMutate i activity)
  then show ?thesis by (intro hook_ok_same [OF hook_ok_refl]) (simp_all add: availabilityError_def)
next
  case ResumeMutation
  then show ?thesis
    by (simp add: resume_mutation_def hook_ok_finish hook_ok_refl split: mutation_phase.split option.split)
qed (simp_all add: hook_ok_refresh hook_ok_answered hook_ok_effect hook_ok_props hook_ok_unmounted hook_ok_start hook_ok_operation)

interpretation hook_machine: guarded_machine hook_step hook_inv hook_le
  by unfold_locales (use hook_ok_step in \<open>auto simp: hook_ok_def intro: hook_le_refl hook_le_trans\<close>)

lemma hook_inv_init: "hook_inv (init_hook isConnected supported)"
  by (simp add: hook_inv_def init_hook_def)

lemma waiters_after_effect:
  "authorityWaiters s = [] \<Longrightarrow> authorityWaiters (authority_effect s) = []"
  by (auto simp: authority_effect_def settle_waiters_def split: option.split)

lemma answer_then_effect:
  assumes inv: "hook_inv s"
  shows "authorityWaiters (authority_effect (answered (latestGeneration s) answer s)) = []"
proof (cases "authorityWaiters s = []")
  case True
  then have "authorityWaiters (answered (latestGeneration s) answer s) = []"
    by (auto simp: answered_def Let_def rejectWaitersThrough_def settle_waiters_def split: sum.split)
  then show ?thesis by (rule waiters_after_effect)
next
  case False
  with inv have here: "availabilityError s = None" "answer_coming s" "\<forall>w \<in> set (authorityWaiters s). w \<le> latestGeneration s"
    by (auto simp: hook_inv_def)
  show ?thesis
  proof (cases "latestGeneration s \<in> set (answersDue s)")
    case due: True
    show ?thesis
    proof (cases answer)
      case (Inl caught)
      have "authorityWaiters (answered (latestGeneration s) answer s) = []"
        using due here(1,3) Inl by (simp add: answered_def Let_def answer_counts_def availability rejectWaitersThrough_def
            settle_waiters_def filter_empty_conv)
      then show ?thesis by (rule waiters_after_effect)
    next
      case (Inr new)
      then show ?thesis
        using due here(1,3) by (simp add: answered_def Let_def answer_counts_def availability authority_effect_def
            settle_waiters_def filter_empty_conv)
    qed
  next
    case False
    with here(2) show ?thesis
      by (auto simp: answered_def answer_coming_def authority_effect_def settle_waiters_def filter_empty_conv split: option.splits)
  qed
qed


subsection \<open>Changes run in order\<close>

definition phase_ids :: "mutation_phase \<Rightarrow> nat list" where
  "phase_ids p = (case p of NoMutation \<Rightarrow> [] | Operating i _ \<Rightarrow> [i] | Refreshing i _ _ \<Rightarrow> [i])"

definition phase_activity :: "mutation_phase \<Rightarrow> config_mutation option" where
  "phase_activity p = (case p of NoMutation \<Rightarrow> None | Operating _ a \<Rightarrow> Some a | Refreshing _ a _ \<Rightarrow> Some a)"

definition mutation_ids :: "config_hook \<Rightarrow> nat list" where
  "mutation_ids s = map fst (mutationResults s) @ phase_ids (mutationPhase s) @ map fst (mutationQueue s)"

fun called_mutations :: "hook_event list \<Rightarrow> nat list" where
  "called_mutations [] = []"
| "called_mutations (CallMutate i activity # es) = i # called_mutations es"
| "called_mutations (e # es) = called_mutations es"

definition mutation_ok :: "config_hook \<Rightarrow> bool" where
  "mutation_ok s \<longleftrightarrow>
     (hookMounted s \<longrightarrow> hookBusy s = phase_activity (mutationPhase s)) \<and>
     (case mutationPhase s of Refreshing _ _ g \<Rightarrow> g \<in> made_calls s | _ \<Rightarrow> True)"

text \<open>The parts of the state that belong to the changes.\<close>

definition mutation_part :: "config_hook \<Rightarrow> (nat \<times> config_mutation) list \<times> mutation_phase \<times>
    (nat \<times> PersistentConfigApiError option) list \<times> config_mutation option" where
  "mutation_part s = (mutationQueue s, mutationPhase s, mutationResults s, hookBusy s)"

lemma mutation_part_kept [simp]:
  "mutation_part (snd (refresh s)) = mutation_part s" "mutation_part (answered g answer s) = mutation_part s"
  "mutation_part (authority_effect s) = mutation_part s" "mutation_part (props_changed c p s) = mutation_part s"
  "mutation_part (unmounted s) = mutation_part s"
  by (auto simp: mutation_part_def refresh_def waitForAuthority_def Let_def answered_def rejectWaitersThrough_def
      settle_waiters_def authority_effect_def props_changed_def rejectAllWaiters_def unmounted_def split: option.split sum.split)

lemma mounted_kept:
  "hookMounted (snd (refresh s)) = hookMounted s" "hookMounted (answered g answer s) = hookMounted s"
  "hookMounted (authority_effect s) = hookMounted s" "hookMounted (props_changed c p s) = hookMounted s"
  "\<not> hookMounted (unmounted s)"
  by (auto simp: refresh_def waitForAuthority_def Let_def answered_def rejectWaitersThrough_def
      settle_waiters_def authority_effect_def props_changed_def rejectAllWaiters_def unmounted_def split: option.split sum.split)

lemma mutation_partD:
  assumes "mutation_part t = mutation_part s"
  shows "mutationQueue t = mutationQueue s" "mutationPhase t = mutationPhase s" "mutationResults t = mutationResults s"
    "hookBusy t = hookBusy s" "mutation_ids t = mutation_ids s"
  using assms by (simp_all add: mutation_part_def mutation_ids_def)

lemma refresh_made: "refresh s = (Inr g, s') \<Longrightarrow> g \<in> made_calls s'"
  by (auto simp: refresh_def made_calls_def waitForAuthority_def Let_def split: option.splits if_splits)

lemma finish_ids:
  "mutation_ids (finish_mutation i outcome s) = map fst (mutationResults s) @ [i] @ map fst (mutationQueue s)"
  by (simp add: finish_mutation_def Let_def mutation_ids_def phase_ids_def)

lemma mutation_ok_finish: "mutation_ok (finish_mutation i outcome s)"
  by (simp add: finish_mutation_def Let_def mutation_ok_def phase_activity_def)

lemma mutation_ok_kept:
  assumes "mutation_ok s" "mutation_part t = mutation_part s" "hookMounted t \<longrightarrow> hookMounted s" "made_calls s \<subseteq> made_calls t"
  shows "mutation_ok t"
  using assms mutation_partD [OF assms(2)] by (auto simp: mutation_ok_def split: mutation_phase.splits)

lemma start_mutation_ok:
  assumes "mutation_ok s"
  shows "mutation_ok (start_mutation s) \<and> mutation_ids (start_mutation s) = mutation_ids s"
proof (cases "mutationPhase s = NoMutation \<and> mutationQueue s \<noteq> []")
  case True
  then obtain i activity queue where q: "mutationPhase s = NoMutation" "mutationQueue s = (i, activity) # queue"
    by (metis neq_Nil_conv prod.exhaust)
  have "availabilityError (s\<lparr>mutationQueue := queue\<rparr>) = availabilityError s" by (simp add: availabilityError_def)
  with assms q show ?thesis
    by (cases "availabilityError s")
      (simp_all add: start_mutation_def Let_def mutation_ok_def phase_activity_def mutation_ids_def phase_ids_def)
next
  case False
  then have "start_mutation s = s" by (auto simp: start_mutation_def split: mutation_phase.splits list.splits)
  with assms show ?thesis by simp
qed

lemma operation_done_ok:
  assumes "mutation_ok s"
  shows "mutation_ok (operation_done outcome s) \<and> mutation_ids (operation_done outcome s) = mutation_ids s"
proof (cases "mutationPhase s")
  case (Operating i activity)
  then have ids: "mutation_ids s = map fst (mutationResults s) @ [i] @ map fst (mutationQueue s)"
    by (simp add: mutation_ids_def phase_ids_def)
  show ?thesis
  proof (cases outcome)
    case (Inl caught)
    with Operating ids show ?thesis by (simp add: operation_done_def finish_ids mutation_ok_finish)
  next
    case (Inr ok)
    obtain r s' where r: "refresh s = (r, s')" by fastforce
    with mutation_part_kept(1) [of s] have same: "mutation_part s' = mutation_part s" by simp
    from r mounted_kept(1) [of s] have mounted: "hookMounted s' = hookMounted s" by simp
    show ?thesis
    proof (cases r)
      case (Inl e)
      with r Operating Inr ids mutation_partD [OF same] show ?thesis
        by (simp add: operation_done_def finish_ids mutation_ok_finish)
    next
      case (Inr g)
      have "made_calls (s'\<lparr>mutationPhase := Refreshing i activity g\<rparr>) = made_calls s'" by (simp add: made_calls_def)
      with r Inr Operating \<open>outcome = Inr ok\<close> ids mutation_partD [OF same] refresh_made [of s g s'] assms mounted show ?thesis
        by (simp add: operation_done_def mutation_ok_def phase_activity_def mutation_ids_def phase_ids_def)
    qed
  qed
qed (use assms in \<open>simp_all add: operation_done_def\<close>)

lemma resume_mutation_ok:
  assumes "mutation_ok s"
  shows "mutation_ok (resume_mutation s) \<and> mutation_ids (resume_mutation s) = mutation_ids s"
proof (cases "mutationPhase s")
  case (Refreshing i activity g)
  then have "mutation_ids s = map fst (mutationResults s) @ [i] @ map fst (mutationQueue s)"
    by (simp add: mutation_ids_def phase_ids_def)
  with assms Refreshing show ?thesis
    by (simp add: resume_mutation_def finish_ids mutation_ok_finish split: option.split)
qed (use assms in \<open>simp_all add: resume_mutation_def\<close>)

lemma mutation_step:
  assumes "hook_inv s" "mutation_ok s"
  shows "mutation_ok (hook_step s e) \<and> mutation_ids (hook_step s e) = mutation_ids s @ called_mutations [e]"
proof -
  have made: "made_calls s \<subseteq> made_calls (hook_step s e)"
    using hook_ok_step [of s e] assms(1) by (simp add: hook_ok_def hook_le_def)
  have kept: "mutation_ok t \<and> mutation_ids t = mutation_ids s"
    if "t = hook_step s e" "mutation_part t = mutation_part s" "hookMounted t \<longrightarrow> hookMounted s" for t
    using mutation_ok_kept [OF assms(2) that(2,3)] made mutation_partD(5) [OF that(2)] that(1) by simp
  show ?thesis
  proof (cases e)
    case (CallMutate i activity)
    with assms(2) show ?thesis
      by (simp add: mutation_ok_def mutation_ids_def made_calls_def split: mutation_phase.splits)
  qed (use kept assms(2) in \<open>simp_all add: mounted_kept start_mutation_ok operation_done_ok resume_mutation_ok\<close>)
qed

lemma called_append: "called_mutations (xs @ ys) = called_mutations xs @ called_mutations ys"
  by (induction xs rule: called_mutations.induct) simp_all

text \<open>
  C24: Changes of the stored configuration run one at a time and in the order they were asked for. After
  any events, the changes that have finished, the one that runs and those that wait are, in this
  order, all that were asked for; while the page is there it shows as busy exactly the change that
  runs, and a change that waits for its refresh waits for a call that is open or settled, so that it
  can finish.
\<close>

theorem changes_run_in_order:
  "let s = foldl hook_step (init_hook isConnected supported) es in
     map fst (mutationResults s) @ phase_ids (mutationPhase s) @ map fst (mutationQueue s) = called_mutations es \<and>
     (if hookMounted s then hookBusy s = phase_activity (mutationPhase s) else True) \<and>
     (case mutationPhase s of
        Refreshing _ _ g \<Rightarrow> g \<in> set (authorityWaiters s) \<union> fst ` set (settledWaiters s)
      | _ \<Rightarrow> True)"
proof -
  define s where "s es = foldl hook_step (init_hook isConnected supported) es" for es
  have "mutation_ok (s es) \<and> mutation_ids (s es) = called_mutations es" for es
  proof (induction es rule: rev_induct)
    case Nil
    show ?case by (simp add: s_def init_hook_def mutation_ok_def phase_activity_def mutation_ids_def phase_ids_def)
  next
    case (snoc e es)
    have "hook_inv (s es)" unfolding s_def by (rule hook_machine.inv_run [OF hook_inv_init])
    with snoc mutation_step [of "s es" e] show ?case by (simp add: s_def called_append)
  qed
  from this [of es] show ?thesis
    by (simp add: s_def mutation_ok_def mutation_ids_def made_calls_def Let_def split: mutation_phase.splits)
qed

end
