(* ===== verification/Workflow_Editor.thy ===== *)
theory Workflow_Editor
  imports Test_Assertions "HOL-Library.Multiset"
begin

text \<open>
  The editor of workflows (\<open>components/WorkflowComposer.tsx\<close> and \<open>components/workflow\<close>): its edits,
  drag and drop, grouping, and the history for undo and redo, as a machine over the record
  \<open>editor\<close>. One event is one handler, after which React renders again. New ids come from a supply
  \<open>gen\<close>. Shown: every edit can be undone and every undo redone, no edit makes a workflow too long
  to run, and a drop moves one item and nothing else.
\<close>

subsection \<open>New items\<close>

text \<open>\<open>generateItemId\<close>: a prefix and random digits; the \<open>n\<close>-th id drawn is \<open>gen n\<close>.\<close>

definition item_id_of :: "char \<Rightarrow> (nat \<Rightarrow> string) \<Rightarrow> nat \<Rightarrow> string" where
  "item_id_of prefix gen n = prefix # gen n"

fun defaultStepParams :: "StepType \<Rightarrow> StepParams" where
  "defaultStepParams PowerOn = PowerOnParams ''5v_out''"
| "defaultStepParams PowerOff = PowerOffParams ''5v_out''"
| "defaultStepParams Delay = DelayParams (Fin 1000)"
| "defaultStepParams SerialWait = SerialWaitParams Uart0 ''login:'' (Fin 60000)"
| "defaultStepParams SerialSend = SerialSendParams Uart0 (''root'' @ [CHR 0x0A])"
| "defaultStepParams SerialExpect = SerialExpectParams Uart0 ''uname -a'' ''Linux'' (Fin 10000)"
| "defaultStepParams AdcRead = AdcReadParams ''5v_out''"
| "defaultStepParams GpioSet = GpioSetParams ''GP13'' (Some DirOutput) (Some 1)"
| "defaultStepParams GpioAssert = GpioAssertParams ''GP13'' DirOutput 1"
| "defaultStepParams SwitchRoute = SwitchRouteParams ''sd'' ''target''"
| "defaultStepParams Capture = CaptureParams ''5v_out'' TriggerManual (Fin 5000) (Some (Fin (1 / 10)))"

definition new_step :: "(nat \<Rightarrow> string) \<Rightarrow> nat \<Rightarrow> StepType \<Rightarrow> TestStep" where
  "new_step gen n type = \<lparr>stepId = item_id_of (CHR ''s'') gen n, stepParams = defaultStepParams type, stepAssert = None,
     stepContinueOnError = False\<rparr>"

definition createConditionCheck :: "(nat \<Rightarrow> string) \<Rightarrow> nat \<Rightarrow> StepType \<Rightarrow> TestStep" where
  "createConditionCheck gen n type =
     (let step = new_step gen n type
      in if type = AdcRead then step\<lparr>stepAssert := Some (empty_assertion\<lparr>asrCurrentRange := Some (Fin 0, Fin 3)\<rparr>)\<rparr> else step)"

text \<open>Cloning draws ids in the order the source makes the copies; the number returned is the next one.\<close>

definition cloneStep :: "(nat \<Rightarrow> string) \<Rightarrow> nat \<Rightarrow> TestStep \<Rightarrow> TestStep \<times> nat" where
  "cloneStep gen n step = (step\<lparr>stepId := item_id_of (CHR ''s'') gen n\<rparr>, n + 1)"

fun clone_steps :: "(nat \<Rightarrow> string) \<Rightarrow> nat \<Rightarrow> TestStep list \<Rightarrow> TestStep list \<times> nat" where
  "clone_steps gen n [] = ([], n)"
| "clone_steps gen n (s # ss) =
     (let (s', n1) = cloneStep gen n s; (ss', n2) = clone_steps gen n1 ss in (s' # ss', n2))"

fun cloneNestedItem :: "(nat \<Rightarrow> string) \<Rightarrow> nat \<Rightarrow> TestNestedItem \<Rightarrow> TestNestedItem \<times> nat"
  and clone_nested :: "(nat \<Rightarrow> string) \<Rightarrow> nat \<Rightarrow> TestNestedItem list \<Rightarrow> TestNestedItem list \<times> nat" where
  "cloneNestedItem gen n (Step s) = (let (s', n1) = cloneStep gen n s in (Step s', n1))"
| "cloneNestedItem gen n (Loop i reps steps unit) =
     (let (steps', n1) = clone_nested gen (n + 1) steps in (Loop (item_id_of (CHR ''l'') gen n) reps steps' unit, n1))"
| "clone_nested gen n [] = ([], n)"
| "clone_nested gen n (x # xs) =
     (let (x', n1) = cloneNestedItem gen n x; (xs', n2) = clone_nested gen n1 xs in (x' # xs', n2))"

definition cloneItem :: "(nat \<Rightarrow> string) \<Rightarrow> nat \<Rightarrow> TestScriptItem \<Rightarrow> TestScriptItem \<times> nat" where
  "cloneItem gen n item =
     (case item of
        Condition i check th el \<Rightarrow>
          (let (check', n1) = cloneStep gen (n + 1) check;
               (th', n2) = clone_nested gen n1 th;
               (el', n3) = clone_nested gen n2 el
           in (Condition (item_id_of (CHR ''c'') gen n) check' th' el', n3))
      | Item nested \<Rightarrow> (let (nested', n1) = cloneNestedItem gen n nested in (Item nested', n1)))"

record CustomUnitTemplate =
  templateId :: string
  templateName :: string
  templateSteps :: "TestStep list"

definition unitFromTemplate :: "(nat \<Rightarrow> string) \<Rightarrow> nat \<Rightarrow> CustomUnitTemplate \<Rightarrow> TestNestedItem \<times> nat" where
  "unitFromTemplate gen n template =
     (let (steps, n1) = clone_steps gen (n + 1) (templateSteps template)
      in (Loop (item_id_of (CHR ''l'') gen n) (Fin 1) (map Step steps) (Some (templateName template)), n1))"

text \<open>The primitive steps of the selected items; conditions and bare loops give none.\<close>

fun group_steps :: "TestScriptItem \<Rightarrow> TestStep list" where
  "group_steps (Item (Step s)) = [s]"
| "group_steps (Item (Loop _ _ steps (Some _))) = List.map_filter (\<lambda>n. case n of Step s \<Rightarrow> Some s | Loop _ _ _ _ \<Rightarrow> None) steps"
| "group_steps _ = []"

definition flattenGroupItems :: "(nat \<Rightarrow> string) \<Rightarrow> nat \<Rightarrow> TestScriptItem list \<Rightarrow> TestStep list \<times> nat" where
  "flattenGroupItems gen n items = clone_steps gen n (concat (map group_steps items))"

subsection \<open>History\<close>

definition MAX_HISTORY :: nat where "MAX_HISTORY = 60"

record 'd edit_history =
  past :: "'d list"
  future :: "'d list"

definition last_n :: "nat \<Rightarrow> 'a list \<Rightarrow> 'a list" where
  "last_n n xs = drop (length xs - n) xs"

definition push_history :: "'d \<Rightarrow> 'd edit_history \<Rightarrow> 'd edit_history" where
  "push_history snapshot h = \<lparr>past = last_n (MAX_HISTORY - 1) (past h) @ [snapshot], future = []\<rparr>"

definition undo :: "'d \<Rightarrow> 'd edit_history \<Rightarrow> ('d \<times> 'd edit_history) option" where
  "undo current h =
     (if past h = [] then None
      else Some (last (past h), \<lparr>past = butlast (past h), future = take MAX_HISTORY (current # future h)\<rparr>))"

definition redo :: "'d \<Rightarrow> 'd edit_history \<Rightarrow> ('d \<times> 'd edit_history) option" where
  "redo current h =
     (case future h of [] \<Rightarrow> None
      | next # rest \<Rightarrow> Some (next, \<lparr>past = last_n MAX_HISTORY (past h @ [current]), future = rest\<rparr>))"

subsection \<open>The editor\<close>

text \<open>The part of a script the editor changes: its name and its items.\<close>

record workflow =
  workflowName :: string
  workflowSteps :: "TestScriptItem list"

datatype DragPayload = PaletteDrag StepType | UnitDrag string | ItemDrag string

record DragState =
  dragPayload :: "DragPayload option"
  dragNestable :: bool
  dragOverIndex :: "nat option"
  dragNestedTarget :: "string option"

definition DRAG_INITIAL :: DragState where
  "DRAG_INITIAL = \<lparr>dragPayload = None, dragNestable = False, dragOverIndex = None, dragNestedTarget = None\<rparr>"

datatype DragAction = DragStart DragPayload "bool option" | DragOver nat | DragNested string | DragEnd

text \<open>\<open>active\<close>, \<open>kind\<close> and \<open>itemId\<close> of the source follow from the payload.\<close>

fun dragReducer :: "DragState \<Rightarrow> DragAction \<Rightarrow> DragState" where
  "dragReducer s (DragStart payload nestable) =
     \<lparr>dragPayload = Some payload,
      dragNestable = (case nestable of Some b \<Rightarrow> b | None \<Rightarrow> (case payload of ItemDrag _ \<Rightarrow> False | _ \<Rightarrow> True)),
      dragOverIndex = None, dragNestedTarget = None\<rparr>"
| "dragReducer s (DragOver index) = s\<lparr>dragOverIndex := Some index, dragNestedTarget := None\<rparr>"
| "dragReducer s (DragNested target) = s\<lparr>dragNestedTarget := Some target, dragOverIndex := None\<rparr>"
| "dragReducer s DragEnd = DRAG_INITIAL"

record editor =
  edDoc :: workflow
  edHistory :: "workflow edit_history"
  edSelected :: "string option"
  edGroup :: "string set"
  edUnitName :: string
  edMutationError :: "plan_error option"
  edImportError :: "plan_error option"
  edUnits :: "CustomUnitTemplate list"
  edNextId :: nat
  edNamePushed :: bool
  edDrag :: DragState

text \<open>
  \<open>attempt.error?.includes("exceeds 10000")\<close>: the error says that the plan is too long, or shows a
  name with these words.
\<close>

fun location_id :: "location \<Rightarrow> string" where
  "location_id (AtStep i) = i" | "location_id (AtUnit i) = i" | "location_id (AtLoop i) = i"
| "location_id (AtCondition i) = i" | "location_id (AtConditionCheck i) = i" | "location_id (AtConditionThen i) = i"
| "location_id (AtConditionElse i) = i"

fun shown_names :: "plan_error \<Rightarrow> string list" where
  "shown_names (DuplicateItemId i) = [i]" | "shown_names TooManySteps = [''exceeds 10000'']"
| "shown_names (DuplicateExecutionId i) = [i]" | "shown_names (DuplicateChildId l i) = [location_id l, i]"
| "shown_names (OnlyUnitsNested i) = [i]" | "shown_names (UnitCountNotOne i) = [i]" | "shown_names (UnitEmpty i) = [i]"
| "shown_names (UnitNestsUnit i) = [i]" | "shown_names (LoopCountRange i) = [i]" | "shown_names (LoopEmpty i) = [i]"
| "shown_names (SerialWaitPatternEmpty l) = [location_id l]" | "shown_names (UnsupportedCheckType l t) = [location_id l]"
| "shown_names (AdcCheckNeedsAssert l) = [location_id l]" | "shown_names (SerialExpectPatternEmpty l) = [location_id l]"

definition too_long :: "plan_error option \<Rightarrow> bool" where
  "too_long e = (case e of None \<Rightarrow> False | Some err \<Rightarrow> list_ex (\<lambda>s. includes_text s ''exceeds 10000'') (shown_names err))"

definition steps_too_long :: "TestScriptItem list \<Rightarrow> bool" where
  "steps_too_long steps = too_long (snd (tryBuildExecutionPlan steps))"

text \<open>\<open>commitSteps\<close>, with whether it was accepted.\<close>

definition commitSteps :: "TestScriptItem list \<Rightarrow> editor \<Rightarrow> bool \<times> editor" where
  "commitSteps steps s =
     (let error = snd (tryBuildExecutionPlan steps)
      in if too_long error then (False, s\<lparr>edMutationError := error\<rparr>)
         else (True, s\<lparr>edMutationError := None, edHistory := push_history (edDoc s) (edHistory s),
                 edDoc := (edDoc s)\<lparr>workflowSteps := steps\<rparr>\<rparr>))"

definition insert_at :: "nat \<Rightarrow> 'a \<Rightarrow> 'a list \<Rightarrow> 'a list" where
  "insert_at i x xs = take i xs @ x # drop i xs"

abbreviation steps_of :: "editor \<Rightarrow> TestScriptItem list" where
  "steps_of s \<equiv> workflowSteps (edDoc s)"

text \<open>Insert a new item and select it when that is accepted.\<close>

definition insert_item :: "nat \<Rightarrow> TestScriptItem \<Rightarrow> editor \<Rightarrow> editor" where
  "insert_item index item s =
     (case commitSteps (insert_at index item (steps_of s)) s of
        (True, s') \<Rightarrow> s'\<lparr>edSelected := Some (item_id item)\<rparr>
      | (False, s') \<Rightarrow> s')"

definition addStep :: "(nat \<Rightarrow> string) \<Rightarrow> StepType \<Rightarrow> nat option \<Rightarrow> editor \<Rightarrow> editor" where
  "addStep gen type index s =
     (if MAX_EXECUTION_STEPS \<le> length (fst (tryBuildExecutionPlan (steps_of s))) then s
      else insert_item (case index of Some i \<Rightarrow> i | None \<Rightarrow> length (steps_of s))
        (Item (Step (new_step gen (edNextId s) type))) (s\<lparr>edNextId := edNextId s + 1\<rparr>))"

definition addLoop :: "(nat \<Rightarrow> string) \<Rightarrow> nat option \<Rightarrow> editor \<Rightarrow> editor" where
  "addLoop gen index s =
     insert_item (case index of Some i \<Rightarrow> i | None \<Rightarrow> length (steps_of s))
       (Item (Loop (item_id_of (CHR ''l'') gen (edNextId s + 1)) (Fin 2) [Step (new_step gen (edNextId s) Delay)] None))
       (s\<lparr>edNextId := edNextId s + 2\<rparr>)"

definition addCondition :: "(nat \<Rightarrow> string) \<Rightarrow> nat option \<Rightarrow> editor \<Rightarrow> editor" where
  "addCondition gen index s =
     insert_item (case index of Some i \<Rightarrow> i | None \<Rightarrow> length (steps_of s))
       (Condition (item_id_of (CHR ''c'') gen (edNextId s)) (createConditionCheck gen (edNextId s + 1) SerialExpect)
         [Step (new_step gen (edNextId s + 2) Delay)] [])
       (s\<lparr>edNextId := edNextId s + 3\<rparr>)"

definition addCustomUnit :: "(nat \<Rightarrow> string) \<Rightarrow> CustomUnitTemplate \<Rightarrow> nat option \<Rightarrow> editor \<Rightarrow> editor" where
  "addCustomUnit gen template index s =
     (let (unit, n) = unitFromTemplate gen (edNextId s) template
      in insert_item (case index of Some i \<Rightarrow> i | None \<Rightarrow> length (steps_of s)) (Item unit) (s\<lparr>edNextId := n\<rparr>))"

text \<open>Take the item out and put it back at a place of the shorter list.\<close>

definition move_to :: "nat \<Rightarrow> nat \<Rightarrow> 'a list \<Rightarrow> 'a list" where
  "move_to index to xs = insert_at to (xs ! index) (remove_at index xs)"

definition moveItem :: "nat \<Rightarrow> int \<Rightarrow> editor \<Rightarrow> editor" where
  "moveItem index offset s =
     (let to = int index + offset
      in if length (steps_of s) \<le> index \<or> to < 0 \<or> int (length (steps_of s)) \<le> to then s
         else snd (commitSteps (move_to index (nat to) (steps_of s)) s))"

text \<open>The index is that of the selected item, so it is within the list.\<close>

definition updateItem :: "nat \<Rightarrow> TestScriptItem \<Rightarrow> editor \<Rightarrow> editor" where
  "updateItem index item s =
     (if length (steps_of s) \<le> index then s else snd (commitSteps ((steps_of s)[index := item]) s))"

definition deleteItem :: "nat \<Rightarrow> editor \<Rightarrow> editor" where
  "deleteItem index s =
     (if length (steps_of s) \<le> index then s
      else
        let item = steps_of s ! index;
            steps = remove_at index (steps_of s);
            s1 = snd (commitSteps steps s);
            s2 = s1\<lparr>edGroup := edGroup s1 - {item_id item}\<rparr>
        in if Some (item_id item) = edSelected s
           then s2\<lparr>edSelected := map_option item_id (nth_opt steps (min index (length steps - 1)))\<rparr> else s2)"

definition duplicateItem :: "(nat \<Rightarrow> string) \<Rightarrow> nat \<Rightarrow> editor \<Rightarrow> editor" where
  "duplicateItem gen index s =
     (if length (steps_of s) \<le> index then s
      else let (duplicate, n) = cloneItem gen (edNextId s) (steps_of s ! index)
           in insert_item (index + 1) duplicate (s\<lparr>edNextId := n\<rparr>))"

definition toggleGroupSelection :: "nat \<Rightarrow> editor \<Rightarrow> editor" where
  "toggleGroupSelection index s =
     (case nth_opt (steps_of s) index of
        None \<Rightarrow> s
      | Some item \<Rightarrow>
          if item_id item = [] then s
          else s\<lparr>edGroup := (if item_id item \<in> edGroup s then edGroup s - {item_id item} else insert (item_id item) (edGroup s))\<rparr>)"

definition selected_indexes :: "editor \<Rightarrow> nat list" where
  "selected_indexes s = filter (\<lambda>i. item_id (steps_of s ! i) \<in> edGroup s) [0..<length (steps_of s)]"

definition groupSelectionIsValid :: "editor \<Rightarrow> bool" where
  "groupSelectionIsValid s =
     (let is = selected_indexes s
      in is \<noteq> [] \<and> is = [hd is..<hd is + length is] \<and>
         list_all (\<lambda>i. let item = steps_of s ! i in \<not> isTestLoop item \<and> \<not> isTestCondition item \<or> isTestUnit item) is)"

text \<open>A new Unit also becomes a template; \<open>defaultName\<close> is the translated name of a Unit without one.\<close>

definition createGroup :: "(nat \<Rightarrow> string) \<Rightarrow> string \<Rightarrow> bool \<Rightarrow> editor \<Rightarrow> editor" where
  "createGroup gen defaultName asUnit s =
     (if \<not> groupSelectionIsValid s then s
      else
        let is = selected_indexes s;
            name = (if js_trim (edUnitName s) = [] then defaultName else js_trim (edUnitName s));
            (steps, n) = flattenGroupItems gen (edNextId s) (map ((!) (steps_of s)) is);
            group = Item (Loop (item_id_of (CHR ''l'') gen n) (Fin (if asUnit then 1 else 2)) (map Step steps)
              (if asUnit then Some name else None))
        in case commitSteps (take (hd is) (steps_of s) @ group # drop (hd is + length is) (steps_of s)) (s\<lparr>edNextId := n + 1\<rparr>) of
             (False, s') \<Rightarrow> s'
           | (True, s') \<Rightarrow>
               let s'' = (if asUnit
                  then let (copies, n') = clone_steps gen (edNextId s' + 1) steps
                    in s'\<lparr>edUnits := edUnits s' @ [\<lparr>templateId = item_id_of (CHR ''l'') gen (edNextId s'), templateName = name,
                         templateSteps = copies\<rparr>], edNextId := n'\<rparr>
                  else s')
               in s''\<lparr>edGroup := {}, edUnitName := [], edSelected := Some (item_id group)\<rparr>)"

definition ungroupSelected :: "editor \<Rightarrow> editor" where
  "ungroupSelected s =
     (case find_index (\<lambda>i. Some (item_id i) = edSelected s) (steps_of s) of
        None \<Rightarrow> s
      | Some index \<Rightarrow>
          (case steps_of s ! index of
             Item (Loop i reps children unit) \<Rightarrow>
               (case commitSteps (take index (steps_of s) @ map Item children @ drop (index + 1) (steps_of s)) s of
                  (True, s') \<Rightarrow> s'\<lparr>edSelected := map_option nested_id (nth_opt children 0)\<rparr>
                | (False, s') \<Rightarrow> s')
           | _ \<Rightarrow> s))"

definition removeNestedItem :: "string \<Rightarrow> TestNestedBranch \<Rightarrow> string \<Rightarrow> editor \<Rightarrow> editor" where
  "removeNestedItem containerId branch nestedItemId s =
     (case removeNestedItemFromScript (steps_of s) containerId branch nestedItemId of
        None \<Rightarrow> s
      | Some steps \<Rightarrow>
          (case commitSteps steps s of
             (True, s') \<Rightarrow> s'\<lparr>edSelected := Some containerId\<rparr>
           | (False, s') \<Rightarrow> s'))"

subsection \<open>Drag and drop\<close>

definition reorder_drop :: "string \<Rightarrow> nat \<Rightarrow> TestScriptItem list \<Rightarrow> TestScriptItem list option" where
  "reorder_drop draggedId insertIndex steps =
     (case find_index (\<lambda>item. item_id item = draggedId) steps of
        None \<Rightarrow> None
      | Some fromIndex \<Rightarrow>
          let targetIndex = (if fromIndex < insertIndex then insertIndex - 1 else insertIndex)
          in Some (move_to fromIndex (min targetIndex (length steps - 1)) steps))"

definition handleDrop :: "(nat \<Rightarrow> string) \<Rightarrow> DragPayload option \<Rightarrow> nat \<Rightarrow> editor \<Rightarrow> editor" where
  "handleDrop gen dropped insertIndex s0 =
     (let payload = (case dropped of Some p \<Rightarrow> Some p | None \<Rightarrow> dragPayload (edDrag s0));
          s = s0\<lparr>edDrag := dragReducer (edDrag s0) DragEnd\<rparr>
      in case payload of
           None \<Rightarrow> s
         | Some (PaletteDrag type) \<Rightarrow> addStep gen type (Some insertIndex) s
         | Some (UnitDrag i) \<Rightarrow>
             (case find (\<lambda>u. templateId u = i) (edUnits s) of
                None \<Rightarrow> s | Some template \<Rightarrow> addCustomUnit gen template (Some insertIndex) s)
         | Some (ItemDrag i) \<Rightarrow>
             (case reorder_drop i insertIndex (steps_of s) of
                None \<Rightarrow> s
              | Some steps \<Rightarrow>
                  (case commitSteps steps s of
                     (True, s') \<Rightarrow> s'\<lparr>edSelected := Some i\<rparr>
                   | (False, s') \<Rightarrow> s')))"

text \<open>What is nested, the id of the item it is moved from, and the next new id.\<close>

definition nested_drop :: "(nat \<Rightarrow> string) \<Rightarrow> DragPayload \<Rightarrow> editor \<Rightarrow> (TestNestedItem \<times> string option \<times> nat) option" where
  "nested_drop gen payload s =
     (case payload of
        PaletteDrag type \<Rightarrow> Some (Step (new_step gen (edNextId s) type), None, edNextId s + 1)
      | UnitDrag i \<Rightarrow>
          map_option (\<lambda>template. let (unit, n) = unitFromTemplate gen (edNextId s) template in (unit, None, n))
            (find (\<lambda>u. templateId u = i) (edUnits s))
      | ItemDrag i \<Rightarrow>
          (case find (\<lambda>item. item_id item = i) (steps_of s) of
             Some (Item nested) \<Rightarrow> if isNestableTestItem (Item nested) then Some (nested, Some (nested_id nested), edNextId s) else None
           | _ \<Rightarrow> None))"

definition handleNestedItemDrop ::
  "(nat \<Rightarrow> string) \<Rightarrow> DragPayload option \<Rightarrow> string \<Rightarrow> TestNestedBranch \<Rightarrow> editor \<Rightarrow> editor" where
  "handleNestedItemDrop gen dropped containerId branch s0 =
     (let payload = (case dropped of Some p \<Rightarrow> Some p | None \<Rightarrow> dragPayload (edDrag s0));
          s = s0\<lparr>edDrag := dragReducer (edDrag s0) DragEnd\<rparr>
      in case Option.bind payload (\<lambda>p. nested_drop gen p s) of
           None \<Rightarrow> s
         | Some (item, sourceItemId, n) \<Rightarrow>
             (case nestItemInScript (steps_of s) item containerId branch sourceItemId of
                None \<Rightarrow> s\<lparr>edNextId := n\<rparr>
              | Some steps \<Rightarrow>
                  (case commitSteps steps (s\<lparr>edNextId := n\<rparr>) of
                     (True, s') \<Rightarrow> s'\<lparr>edSelected := Some containerId\<rparr>
                   | (False, s') \<Rightarrow> s')))"

definition handleNodeDragStart :: "nat \<Rightarrow> editor \<Rightarrow> editor" where
  "handleNodeDragStart index s =
     (case nth_opt (steps_of s) index of
        None \<Rightarrow> s
      | Some item \<Rightarrow> s\<lparr>edDrag := dragReducer (edDrag s) (DragStart (ItemDrag (item_id item)) (Some (isNestableTestItem item)))\<rparr>)"

subsection \<open>Undo, redo, names and import\<close>

definition handleUndo :: "editor \<Rightarrow> editor" where
  "handleUndo s = (case undo (edDoc s) (edHistory s) of None \<Rightarrow> s | Some (doc, h) \<Rightarrow> s\<lparr>edDoc := doc, edHistory := h\<rparr>)"

definition handleRedo :: "editor \<Rightarrow> editor" where
  "handleRedo s = (case redo (edDoc s) (edHistory s) of None \<Rightarrow> s | Some (doc, h) \<Rightarrow> s\<lparr>edDoc := doc, edHistory := h\<rparr>)"

text \<open>Typing into the name field pushes one snapshot per visit of the field.\<close>

definition rename_workflow :: "string \<Rightarrow> editor \<Rightarrow> editor" where
  "rename_workflow name s =
     (let s1 = (if edNamePushed s then s else s\<lparr>edHistory := push_history (edDoc s) (edHistory s), edNamePushed := True\<rparr>)
      in s1\<lparr>edDoc := (edDoc s1)\<lparr>workflowName := name\<rparr>\<rparr>)"

text \<open>An import ends with the check of the whole plan, the last step of \<open>parseTestScript\<close>.\<close>

definition handleImport :: "plan_error + workflow \<Rightarrow> editor \<Rightarrow> editor" where
  "handleImport parsed s =
     (case bindR parsed (\<lambda>w. bindR (buildExecutionPlan (workflowSteps w)) (\<lambda>_. Inr w)) of
        Inl e \<Rightarrow> s\<lparr>edImportError := Some e\<rparr>
      | Inr imported \<Rightarrow>
          s\<lparr>edImportError := None, edMutationError := None, edGroup := {},
            edSelected := map_option item_id (nth_opt (workflowSteps imported) 0),
            edHistory := push_history (edDoc s) (edHistory s), edDoc := imported\<rparr>)"

text \<open>The effect that selects the first item when the selected one is gone.\<close>

definition sync_selection :: "editor \<Rightarrow> editor" where
  "sync_selection s =
     (case edSelected s of
        Some i \<Rightarrow> if i \<noteq> [] \<and> i \<notin> item_id ` set (steps_of s)
          then s\<lparr>edSelected := map_option item_id (nth_opt (steps_of s) 0)\<rparr> else s
      | None \<Rightarrow> s)"

datatype edit =
    AddStep StepType "nat option" | AddLoop "nat option" | AddCondition "nat option" | AddUnit CustomUnitTemplate "nat option"
  | MoveItem nat int | UpdateItem nat TestScriptItem | DeleteItem nat | DuplicateItem nat
  | CreateGroup bool | Ungroup | RemoveNested string TestNestedBranch string
  | Drop "DragPayload option" nat | NestedDrop "DragPayload option" string TestNestedBranch
  | Import "plan_error + workflow"

datatype editor_event =
    Edit edit | UndoEdit | RedoEdit | NameFocus | NameTyped string
  | SelectItem nat | ToggleSelection nat | UnitNameTyped string | RemoveTemplate string
  | DragStartNode nat | DragMove DragAction

fun apply_edit :: "(nat \<Rightarrow> string) \<Rightarrow> string \<Rightarrow> edit \<Rightarrow> editor \<Rightarrow> editor" where
  "apply_edit gen d (AddStep type index) s = addStep gen type index s"
| "apply_edit gen d (AddLoop index) s = addLoop gen index s"
| "apply_edit gen d (AddCondition index) s = addCondition gen index s"
| "apply_edit gen d (AddUnit template index) s = addCustomUnit gen template index s"
| "apply_edit gen d (MoveItem index offset) s = moveItem index offset s"
| "apply_edit gen d (UpdateItem index item) s = updateItem index item s"
| "apply_edit gen d (DeleteItem index) s = deleteItem index s"
| "apply_edit gen d (DuplicateItem index) s = duplicateItem gen index s"
| "apply_edit gen d (CreateGroup asUnit) s = createGroup gen d asUnit s"
| "apply_edit gen d Ungroup s = ungroupSelected s"
| "apply_edit gen d (RemoveNested container branch nested) s = removeNestedItem container branch nested s"
| "apply_edit gen d (Drop payload index) s = handleDrop gen payload index s"
| "apply_edit gen d (NestedDrop payload container branch) s = handleNestedItemDrop gen payload container branch s"
| "apply_edit gen d (Import parsed) s = handleImport parsed s"

fun handle_event :: "(nat \<Rightarrow> string) \<Rightarrow> string \<Rightarrow> editor \<Rightarrow> editor_event \<Rightarrow> editor" where
  "handle_event gen d s (Edit e) = apply_edit gen d e s"
| "handle_event gen d s UndoEdit = handleUndo s"
| "handle_event gen d s RedoEdit = handleRedo s"
| "handle_event gen d s NameFocus = s\<lparr>edNamePushed := False\<rparr>"
| "handle_event gen d s (NameTyped name) = rename_workflow name s"
| "handle_event gen d s (SelectItem index) = s\<lparr>edSelected := map_option item_id (nth_opt (steps_of s) index)\<rparr>"
| "handle_event gen d s (ToggleSelection index) = toggleGroupSelection index s"
| "handle_event gen d s (UnitNameTyped name) = s\<lparr>edUnitName := name\<rparr>"
| "handle_event gen d s (RemoveTemplate i) = s\<lparr>edUnits := filter (\<lambda>u. templateId u \<noteq> i) (edUnits s)\<rparr>"
| "handle_event gen d s (DragStartNode index) = handleNodeDragStart index s"
| "handle_event gen d s (DragMove action) = s\<lparr>edDrag := dragReducer (edDrag s) action\<rparr>"

definition editor_step :: "(nat \<Rightarrow> string) \<Rightarrow> string \<Rightarrow> editor \<Rightarrow> editor_event \<Rightarrow> editor" where
  "editor_step gen d s e = sync_selection (handle_event gen d s e)"

definition open_editor :: "workflow \<Rightarrow> CustomUnitTemplate list \<Rightarrow> editor" where
  "open_editor doc units =
     \<lparr>edDoc = doc, edHistory = \<lparr>past = [], future = []\<rparr>,
      edSelected = map_option item_id (nth_opt (workflowSteps doc) 0), edGroup = {}, edUnitName = [],
      edMutationError = None, edImportError = None, edUnits = units, edNextId = 0, edNamePushed = False, edDrag = DRAG_INITIAL\<rparr>"

subsection \<open>What an edit does to the document\<close>

definition doc_part :: "editor \<Rightarrow> workflow \<times> workflow edit_history" where
  "doc_part s = (edDoc s, edHistory s)"

text \<open>Either nothing, or the old document is pushed and the new one is not too long.\<close>

definition edited :: "editor \<Rightarrow> editor \<Rightarrow> bool" where
  "edited s t \<longleftrightarrow> doc_part t = doc_part s \<or>
     edHistory t = push_history (edDoc s) (edHistory s) \<and> \<not> steps_too_long (steps_of t)"

lemma edited_refl: "doc_part t = doc_part s \<Longrightarrow> edited s t"
  by (simp add: edited_def)

lemma edited_part:
  assumes "edited s t" "doc_part s' = doc_part s" "doc_part t' = doc_part t"
  shows "edited s' t'"
  using assms by (simp add: edited_def doc_part_def)

lemma edited_commit: "commitSteps steps s = (ok, s') \<Longrightarrow> edited s s'"
  by (auto simp: commitSteps_def Let_def edited_def doc_part_def steps_too_long_def split: if_splits)

lemma edited_commit_then:
  assumes "commitSteps steps s1 = (ok, s')" "doc_part s1 = doc_part s" "doc_part t = doc_part s'"
  shows "edited s t"
  using edited_part [OF edited_commit [OF assms(1)], of s t] assms(2,3) by simp

lemma edited_commit_snd: "edited s (snd (commitSteps steps s))"
  using edited_commit by (metis prod.collapse)

lemma edited_insert: "doc_part s1 = doc_part s \<Longrightarrow> edited s (insert_item index item s1)"
  unfolding insert_item_def
  by (cases "commitSteps (insert_at index item (steps_of s1)) s1")
    (auto split: bool.split intro: edited_commit_then simp: doc_part_def)

lemma edited_add:
  "doc_part s1 = doc_part s \<Longrightarrow> edited s (addStep gen type index s1)"
  "doc_part s1 = doc_part s \<Longrightarrow> edited s (addLoop gen index s1)"
  "doc_part s1 = doc_part s \<Longrightarrow> edited s (addCondition gen index s1)"
  "doc_part s1 = doc_part s \<Longrightarrow> edited s (addCustomUnit gen template index s1)"
  by (auto simp: addStep_def addLoop_def addCondition_def addCustomUnit_def Let_def doc_part_def edited_refl
      intro!: edited_insert split: prod.split)

lemma edited_change:
  "edited s (moveItem index offset s)" "edited s (updateItem index item s)" "edited s (duplicateItem gen index s)"
  by (auto simp: moveItem_def updateItem_def duplicateItem_def Let_def edited_refl edited_commit_snd doc_part_def
      intro!: edited_insert split: prod.split)

lemma edited_delete: "edited s (deleteItem index s)"
proof (cases "length (steps_of s) \<le> index")
  case False
  have "doc_part (deleteItem index s) = doc_part (snd (commitSteps (remove_at index (steps_of s)) s))"
    using False by (auto simp: deleteItem_def Let_def doc_part_def)
  then show ?thesis by (rule edited_part [OF edited_commit_snd refl])
qed (simp add: deleteItem_def edited_refl)

lemma edited_group: "edited s (createGroup gen d asUnit s)"
proof (cases "groupSelectionIsValid s")
  case True
  define chosen where "chosen = selected_indexes s"
  define name where "name = (if js_trim (edUnitName s) = [] then d else js_trim (edUnitName s))"
  obtain steps n where f: "flattenGroupItems gen (edNextId s) (map ((!) (steps_of s)) chosen) = (steps, n)" by fastforce
  define group where "group = Item (Loop (item_id_of (CHR ''l'') gen n) (Fin (if asUnit then 1 else 2)) (map Step steps)
      (if asUnit then Some name else None))"
  obtain ok s' where c: "commitSteps (take (hd chosen) (steps_of s) @ group # drop (hd chosen + length chosen) (steps_of s)) (s\<lparr>edNextId := n + 1\<rparr>) = (ok, s')"
    by fastforce
  obtain copies n' where copies: "clone_steps gen (edNextId s' + 1) steps = (copies, n')" by fastforce
  have "doc_part (createGroup gen d asUnit s) = doc_part s'"
    unfolding createGroup_def Let_def chosen_def [symmetric] name_def [symmetric]
    by (simp only: f prod.case group_def [symmetric] c) (simp add: True copies [simplified] doc_part_def split: bool.split)
  with c show ?thesis by (auto intro: edited_commit_then simp: doc_part_def)
qed (simp add: createGroup_def edited_refl)

lemma edited_ungroup: "edited s (ungroupSelected s)"
  unfolding ungroupSelected_def
  by (auto split: option.split TestScriptItem.split TestNestedItem.split prod.split bool.split
      intro: edited_commit_then simp: edited_refl doc_part_def)

lemma edited_remove_nested: "edited s (removeNestedItem container branch nested s)"
  unfolding removeNestedItem_def
  by (auto split: option.split prod.split bool.split intro: edited_commit_then simp: edited_refl doc_part_def)

lemma edited_drop: "edited s (handleDrop gen payload index s)"
  unfolding handleDrop_def Let_def
  by (auto split: option.split DragPayload.split prod.split bool.split
      intro: edited_commit_then edited_add simp: edited_refl doc_part_def)

lemma edited_nested_drop: "edited s (handleNestedItemDrop gen payload container branch s)"
  unfolding handleNestedItemDrop_def Let_def
  by (auto split: option.split prod.split bool.split intro: edited_commit_then simp: edited_refl doc_part_def)

lemma edited_import: "edited s (handleImport parsed s)"
proof (cases "bindR parsed (\<lambda>w. bindR (buildExecutionPlan (workflowSteps w)) (\<lambda>_. Inr w))")
  case (Inl e)
  then show ?thesis by (simp add: handleImport_def edited_refl doc_part_def)
next
  case (Inr w)
  then obtain plan where "buildExecutionPlan (workflowSteps w) = Inr plan" by (auto simp: bindR_Inr_iff)
  then have "\<not> steps_too_long (workflowSteps w)"
    by (simp add: steps_too_long_def tryBuildExecutionPlan_def too_long_def)
  with Inr show ?thesis by (simp add: handleImport_def edited_def)
qed

lemma edited_apply: "edited s (apply_edit gen d e s)"
  by (cases e) (simp_all add: edited_add edited_change edited_delete edited_group edited_ungroup edited_remove_nested
      edited_drop edited_nested_drop edited_import)

lemma sync_doc [simp]: "doc_part (sync_selection s) = doc_part s"
  by (simp add: sync_selection_def doc_part_def split: option.split)

subsection \<open>Undo and redo\<close>

definition history_ok :: "'d edit_history \<Rightarrow> bool" where
  "history_ok h \<longleftrightarrow> length (past h) + length (future h) \<le> MAX_HISTORY"

text \<open>Together the two lists never exceed the limit, so undo and redo never cut anything off.\<close>

lemma push_ok: "history_ok (push_history x h)"
  by (auto simp: history_ok_def push_history_def last_n_def MAX_HISTORY_def)

lemma undo_redo:
  assumes "history_ok h" "undo x h = Some (y, h')"
  shows "history_ok h'" "redo y h' = Some (x, h)"
proof -
  from assms have p: "past h \<noteq> []" "y = last (past h)" "h' = \<lparr>past = butlast (past h), future = take MAX_HISTORY (x # future h)\<rparr>"
    by (simp_all add: undo_def split: if_splits)
  have "0 < length (past h)" using p(1) by simp
  then have l: "length (x # future h) \<le> MAX_HISTORY" using assms(1) unfolding history_ok_def length_Cons by linarith
  have "butlast (past h) @ [y] = past h" using p by simp
  moreover have "length (past h) \<le> MAX_HISTORY" using assms(1) by (simp add: history_ok_def)
  ultimately show "redo y h' = Some (x, h)" using l by (simp add: p(3) redo_def last_n_def)
  show "history_ok h'" using l assms(1) \<open>0 < length (past h)\<close> by (simp add: p(3) history_ok_def)
qed

lemma redo_undo:
  assumes "history_ok h" "redo x h = Some (y, h')"
  shows "history_ok h'" "undo y h' = Some (x, h)"
proof -
  from assms(2) obtain rest where f: "future h = y # rest" "h' = \<lparr>past = last_n MAX_HISTORY (past h @ [x]), future = rest\<rparr>"
    by (auto simp: redo_def split: list.splits)
  then have l: "length (past h @ [x]) \<le> MAX_HISTORY" "length (y # rest) \<le> MAX_HISTORY"
    using assms(1) by (simp_all add: history_ok_def)
  then show "undo y h' = Some (x, h)" using f by (simp add: undo_def last_n_def)
  show "history_ok h'" using l f assms(1) by (simp add: history_ok_def last_n_def)
qed

lemma undo_push: "undo y (push_history x h) = Some (x, \<lparr>past = last_n (MAX_HISTORY - 1) (past h), future = [y]\<rparr>)"
  by (simp add: undo_def push_history_def MAX_HISTORY_def)

definition editor_ok :: "editor \<Rightarrow> bool" where
  "editor_ok s \<longleftrightarrow> history_ok (edHistory s) \<and>
     list_all (\<lambda>w. \<not> steps_too_long (workflowSteps w)) (edDoc s # past (edHistory s) @ future (edHistory s))"

lemma all_last_n: "list_all P xs \<Longrightarrow> list_all P (last_n n xs)"
  by (auto simp: list_all_iff last_n_def dest: in_set_dropD)

lemma edited_history: "edited s t \<Longrightarrow> history_ok (edHistory s) \<Longrightarrow> history_ok (edHistory t)"
  by (auto simp: edited_def doc_part_def push_ok)

lemma edited_ok: "edited s t \<Longrightarrow> editor_ok s \<Longrightarrow> editor_ok t"
  using push_ok [of "edDoc s" "edHistory s"]
  by (auto simp: edited_def editor_ok_def doc_part_def push_history_def all_last_n)

lemma doc_partD: "doc_part t = doc_part s \<Longrightarrow> edDoc t = edDoc s \<and> edHistory t = edHistory s"
  by (simp add: doc_part_def)

text \<open>Events other than edits, undo, redo and typing a name leave document and history alone.\<close>

lemma other_events:
  assumes "\<nexists>x. e = Edit x" "e \<noteq> UndoEdit" "e \<noteq> RedoEdit" "\<nexists>name. e = NameTyped name"
  shows "doc_part (handle_event gen d s e) = doc_part s"
  using assms by (cases e) (auto simp: doc_part_def toggleGroupSelection_def handleNodeDragStart_def split: option.split)

lemma history_step:
  assumes "history_ok (edHistory s)"
  shows "history_ok (edHistory (editor_step gen d s e))"
proof -
  have "history_ok (edHistory (handle_event gen d s e))"
  proof (cases "\<exists>x. e = Edit x")
    case True
    then show ?thesis using edited_history [OF edited_apply] assms by auto
  next
    case not_edit: False
    show ?thesis
    proof (cases "e = UndoEdit \<or> e = RedoEdit \<or> (\<exists>name. e = NameTyped name)")
      case True
      then show ?thesis using undo_redo(1) redo_undo(1) assms
        by (auto simp: handleUndo_def handleRedo_def rename_workflow_def push_ok Let_def split: option.split)
    next
      case False
      with not_edit doc_partD [OF other_events] assms show ?thesis by metis
    qed
  qed
  then show ?thesis using doc_partD [OF sync_doc [of "handle_event gen d s e"]] by (simp add: editor_step_def)
qed

lemma history_run: "history_ok (edHistory (foldl (editor_step gen d) (open_editor doc units) es))"
proof (induction es rule: rev_induct)
  case Nil
  show ?case by (simp add: open_editor_def history_ok_def)
next
  case (snoc e es)
  then show ?case by (simp add: history_step)
qed

lemma step_doc:
  "edDoc (editor_step gen d s e) = edDoc (handle_event gen d s e)"
  "edHistory (editor_step gen d s e) = edHistory (handle_event gen d s e)"
  using doc_partD [OF sync_doc [of "handle_event gen d s e"]] by (simp_all add: editor_step_def)


subsection \<open>No workflow becomes too long\<close>

lemma editor_ok_step:
  assumes "editor_ok s"
  shows "editor_ok (editor_step gen d s e)"
proof -
  have h: "history_ok (edHistory s)" using assms by (simp add: editor_ok_def)
  have "editor_ok (handle_event gen d s e)"
  proof (cases "\<exists>x. e = Edit x")
    case True
    then show ?thesis using edited_ok [OF edited_apply assms] by auto
  next
    case not_edit: False
    consider "e = UndoEdit" | "e = RedoEdit" | name where "e = NameTyped name"
      | "e \<noteq> UndoEdit" "e \<noteq> RedoEdit" "\<nexists>name. e = NameTyped name" by blast
    then show ?thesis
    proof cases
      case 1
      show ?thesis
      proof (cases "past (edHistory s) = []")
        case False
        then have "last (past (edHistory s)) \<in> set (past (edHistory s))" by simp
        with False assms 1 undo_redo(1) [OF h, of "edDoc s"] show ?thesis
          by (auto simp: editor_ok_def handleUndo_def undo_def list_all_iff dest!: in_set_takeD in_set_butlastD)
      qed (use assms 1 in \<open>simp add: handleUndo_def undo_def\<close>)
    next
      case 2
      with assms redo_undo(1) [OF h, of "edDoc s"] show ?thesis
        by (auto simp: editor_ok_def handleRedo_def redo_def list_all_iff last_n_def dest: in_set_dropD split: list.splits)
    next
      case 3
      with assms push_ok [of "edDoc s" "edHistory s"] show ?thesis
        by (auto simp: editor_ok_def rename_workflow_def Let_def push_history_def all_last_n)
    next
      case 4
      with not_edit doc_partD [OF other_events, of e gen d s] assms show ?thesis by (simp add: editor_ok_def)
    qed
  qed
  then show ?thesis by (simp add: editor_ok_def step_doc flip: editor_step_def)
qed

text \<open>
  C34: The editor never brings in a workflow that is too long to run: if the workflow it was opened with does
  not exceed 10000 steps, then after any edits, drops, groupings, imports, undos and redos neither
  the workflow shown nor any in the history is refused for exceeding them.
\<close>

theorem editor_never_exceeds_limit:
  assumes "\<not> steps_too_long (workflowSteps doc)"
  shows "let s = foldl (editor_step gen d) (open_editor doc units) es in
    list_all (\<lambda>w. snd (tryBuildExecutionPlan (workflowSteps w)) \<noteq> Some TooManySteps)
      (edDoc s # past (edHistory s) @ future (edHistory s))"
proof -
  have "editor_ok (foldl (editor_step gen d) (open_editor doc units) es)"
  proof (induction es rule: rev_induct)
    case Nil
    show ?case using assms by (simp add: editor_ok_def open_editor_def history_ok_def)
  qed (simp add: editor_ok_step)
  then have "list_all (\<lambda>w. \<not> steps_too_long (workflowSteps w))
      (edDoc s # past (edHistory s) @ future (edHistory s))"
    if "s = foldl (editor_step gen d) (open_editor doc units) es" for s
    using that by (simp add: editor_ok_def)
  moreover have "snd (tryBuildExecutionPlan x) \<noteq> Some TooManySteps" if "\<not> steps_too_long x" for x
  proof
    assume "snd (tryBuildExecutionPlan x) = Some TooManySteps"
    then have "steps_too_long x" by (simp add: steps_too_long_def too_long_def includes_text_iff) (metis append_Nil append_Nil2)
    with that show False by simp
  qed
  ultimately show ?thesis by (auto simp: list_all_iff Let_def)
qed

theorem editor_never_exceeds_limit_witness:
  "let s = foldl (editor_step (\<lambda>n. replicate n (CHR ''a'')) ''Unit'') (open_editor \<lparr>workflowName = ''w'', workflowSteps = []\<rparr> [])
      [Edit (AddStep Delay None), Edit (AddLoop None), Edit (MoveItem 0 1), UndoEdit] in
    list_all (\<lambda>w. snd (tryBuildExecutionPlan (workflowSteps w)) \<noteq> Some TooManySteps)
      (edDoc s # past (edHistory s) @ future (edHistory s))"
proof (rule editor_never_exceeds_limit)
  show "\<not> steps_too_long (workflowSteps \<lparr>workflowName = ''w'', workflowSteps = []\<rparr>)"
    by (simp add: steps_too_long_def tryBuildExecutionPlan_def buildExecutionPlan_def too_long_def)
qed

subsection \<open>A drop moves one item\<close>

lemma find_index_mid:
  assumes "\<forall>y \<in> set pre. \<not> P y" "P x"
  shows "find_index P (pre @ x # post) = Some (length pre)"
  using assms by (induction pre) simp_all

text \<open>
  Dropping a top-level item at the gap before position \<open>k\<close> puts it exactly there: the other items
  that stood before the gap stay before it, those after it stay after it, each in its order, and
  no item is lost or copied.
\<close>

lemma drop_moves_one_item:
  assumes "distinct (map item_id steps)" "x \<in> set steps"
  shows "reorder_drop (item_id x) k steps =
    Some (filter (\<lambda>y. item_id y \<noteq> item_id x) (take k steps) @ x # filter (\<lambda>y. item_id y \<noteq> item_id x) (drop k steps))"
proof -
  from assms(2) obtain pre post where st: "steps = pre @ x # post" by (metis split_list)
  have new: "item_id x \<notin> item_id ` (set pre \<union> set post)" using assms(1) by (simp add: st image_Un)
  then have others: "filter (\<lambda>y. item_id y \<noteq> item_id x) xs = xs" if "set xs \<subseteq> set pre \<union> set post" for xs
    using that by (intro filter_True) (metis imageI subsetD)
  have found: "find_index (\<lambda>item. item_id item = item_id x) steps = Some (length pre)"
    unfolding st by (rule find_index_mid) (use new in \<open>metis UnI1 imageI\<close>, rule refl)
  have out: "remove_at (length pre) steps = pre @ post" "steps ! length pre = x"
    by (simp_all add: st remove_at_def)
  show ?thesis
  proof (cases "length pre < k")
    case True
    define m where "m = k - Suc (length pre)"
    have m: "k = Suc (length pre + m)" using True by (simp add: m_def)
    have target: "min (k - 1) (length steps - 1) = length pre + min m (length post)" by (simp add: m st)
    have "take (min m (length post)) post = take m post" "drop (min m (length post)) post = drop m post"
      by (simp_all add: min_def)
    then have "reorder_drop (item_id x) k steps = Some (pre @ take m post @ x # drop m post)"
      unfolding reorder_drop_def found option.case Let_def move_to_def out if_P [OF True] target insert_at_def by simp
    moreover have "take k steps = pre @ x # take m post" "drop k steps = drop m post" by (simp_all add: m st)
    ultimately show ?thesis
      using others [of pre] others [OF le_supI2 [OF set_take_subset [of m post]]] others [OF le_supI2 [OF set_drop_subset [of m post]]]
      by simp
  next
    case False
    then have "reorder_drop (item_id x) k steps = Some (take k pre @ x # drop k pre @ post)"
      unfolding reorder_drop_def found option.case Let_def move_to_def out insert_at_def if_not_P [OF False] by (simp add: st)
    moreover have "take k steps = take k pre" "drop k steps = drop k pre @ x # post" using False by (simp_all add: st)
    ultimately show ?thesis
      using others [OF le_supI1 [OF set_take_subset [of k pre]]] others [OF le_supI1 [OF set_drop_subset [of k pre]]] others [of post]
      by simp
  qed
qed

definition three_delays :: "TestScriptItem list" where
  "three_delays = map (\<lambda>i. Item (Step (delay_step i))) [''a'', ''b'', ''c'']"

lemma drop_moves_one_item_witness:
  "map item_id (the (reorder_drop ''a'' 2 three_delays)) = [''b'', ''a'', ''c'']"
  using drop_moves_one_item [of three_delays "Item (Step (delay_step ''a''))" 2]
  by (simp add: three_delays_def delay_step_def)

end
