(* ===== verification/Spec2Isabelle.thy ===== *)
theory Spec2Isabelle
  imports Sigrok_Client Serial_Task Test_Runner Streaming_Capture Logic_Decoder Ota Task_Run Serial_Log Config_Refresh Workflow_Editor
begin

text \<open>
  Linkr's web client: a verification development.

  The repository holds a debug board's firmware, its host tools and the web application that
  drives the board from a browser. The development models the logic of the web application,
  \<open>web/src/lib\<close> and the stateful parts of \<open>web/src/hooks\<close> and \<open>web/src/components\<close>, the part that
  decides what the board is told, what the measurements mean and what is kept. Paths below are
  relative to \<open>web/src/lib\<close>; those with \<open>hooks\<close> or \<open>components\<close> to \<open>web/src\<close>.

  The parts and how they interact.

  \<^item> Logic analyzer. \<open>logicAnalyzer.ts\<close> normalises a configuration, decides whether the firmware
    supports it and builds a CONFIG request; \<open>sigrokClient.ts\<close> encodes it, sends it over a web
    socket, parses the frames that come back, matches them with the pending requests and decodes
    the samples; \<open>logicAnalyzer.ts\<close> assembles the frames of a bounded capture.
    \<^item> \<open>Sigrok_Config\<close>: the CONFIG payload, both versions, and the range checks.
    \<^item> \<open>Sigrok_Samples\<close>: the decoders of compressed samples (bit packing, single bits, palette,
      run lengths), each characterised against an encoder of its format.
    \<^item> \<open>Sigrok_Frames\<close>: building and parsing frames.
    \<^item> \<open>Sigrok_Client\<close>: \<open>class SigrokClient\<close> as a state machine over the record \<open>client\<close>; its
      steps are calls, socket events and timers, and every property holds after any sequence.
    \<^item> \<open>Logic_Analyzer\<close>: rates, pins, the capability rules, the CONFIG request.
    \<^item> \<open>Logic_Capture\<close>: sample indices, assembly, normalisation of captures.
    \<^item> \<open>Logic_Decoder\<close>: pins and requests of the protocol decoders (\<open>logicDecoder.ts\<close>), the checks
      of their answers and the lanes their annotations are drawn in.
  \<^item> Test workflows. \<open>testScript.ts\<close> holds scripts and expands them into execution plans;
    \<open>testRunner.ts\<close> executes a plan against the board and the serial ports, evaluates
    assertions (\<open>testAssertions.ts\<close>) and cleans up; \<open>serialTask.ts\<close> reads commands' results from
    a console; \<open>automationTask.ts\<close> keeps two automations from running at once.
    \<^item> \<open>Test_Script\<close>: data model, editing, \<open>buildExecutionPlan\<close> and its meaning.
    \<^item> \<open>Serial_Task\<close>: terminal control, login prompts, command envelopes, the automation lock.
    \<^item> \<open>Test_Assertions\<close>: \<open>evaluateAssertion\<close>.
    \<^item> \<open>Test_Runner\<close>: \<open>createTestRunner\<close>, from the preconditions to the summary.
  \<^item> Power captures. \<open>powerCapture.ts\<close> summarises and thins captures; \<open>powerCaptureStore.ts\<close>
    archives them in the browser's database under leases, recovers stale recordings and prunes.
    \<^item> \<open>Power_Capture\<close>: summaries, previews, windows.
    \<^item> \<open>Capture_Store\<close>: the database's two object stores and every transaction on them.
    \<^item> \<open>Streaming_Capture\<close>: a recording from arming to sealing (\<open>streamingCapture*.ts\<close>,
      \<open>powerCaptureStop.ts\<close>, \<open>hooks/useBoardCapture*.ts\<close>) as a machine over the record
      \<open>recorder\<close>: the session, the chain of writes, the stop handshake and the finalization.
  \<^item> Firmware update. \<open>ota.ts\<close> hashes an image, uploads it and reads the board's status.
    \<^item> \<open>Sha256\<close>: the fallback digest against the standard's definition.
    \<^item> \<open>Ota\<close>: status documents, permissions and the upload, settled by its first event.
  \<^item> Agent tasks. \<open>taskRequests.ts\<close> turns a script into raw requests and writes them as a blob,
    \<open>taskBlob.ts\<close> parses what the firmware stores, \<open>builtinTasks.ts\<close> the catalog of the
    firmware's own tasks, \<open>taskExecution.ts\<close> and \<open>taskRunner.ts\<close> choose a task and run it.
    \<^item> \<open>Task_Blob\<close>: requests, blobs, the parser with every limit, the schedule of a script.
    \<^item> \<open>Task_Limits\<close>: the character scan for nesting against the nesting of the parsed value.
    \<^item> \<open>Task_Roundtrip\<close>: the limits of what is parsed; what is built is read back.
    \<^item> \<open>Task_Run\<close>: list and catalog responses, the choice of a task, the run and its cleanup, with
      the actions (requests, sleeps, cleanup) in a trace.
  \<^item> The board. \<open>adc.ts\<close> and \<open>boardTelemetry.ts\<close> read measurements, \<open>boardSnapshot.ts\<close> keeps the state
    of the board from the HTTP status and live messages, \<open>gpioLayout.ts\<close> draws its pins,
    \<open>persistentConfig*.ts\<close> and \<open>hooks/usePersistentConfig.ts\<close> handle the configuration it stores.
    \<^item> \<open>Board_Telemetry\<close>: readings, samples of a recording, \<open>telemetryFrameScheduler.ts\<close>.
    \<^item> \<open>Board_Snapshot\<close>: \<open>mapBoardStatus\<close>, \<open>mergeBoardWsSnapshot\<close> and \<open>switches.ts\<close>.
    \<^item> \<open>Gpio_Layout\<close>: the pinout.
    \<^item> \<open>Persistent_Config\<close>: the answers of the firmware and the key of the current state.
    \<^item> \<open>Config_Refresh\<close>: the hook, as a machine over the record \<open>config_hook\<close>: numbered refreshes,
      the calls that wait for them, the queue of changes.
  \<^item> Serial logs. \<open>Serial_Log\<close>: \<open>serialLogCache.ts\<close>, the logs of the ports within 16 MiB of the
    browser's database, read in full or from its end.
  \<^item> The editor of workflows. \<open>Workflow_Editor\<close>: \<open>components/WorkflowComposer.tsx\<close> and
    \<open>components/workflow\<close> over the scripts of \<open>Test_Script\<close>: edits, drops, groups, undo and redo.
  \<^item> \<open>Json\<close>: values that come from \<open>JSON.parse\<close>. \<open>Json_Text\<close>: \<open>JSON.parse\<close> and
    \<open>JSON.stringify\<close> themselves, for the task blobs.
  \<^item> \<open>Linkr_Prelude\<close>: JavaScript numbers (\<open>jsnum\<close>: exact rationals, two infinities, NaN), the
    conversions of the bit operators, byte groups, the result type of code that throws
    (\<open>guardR\<close>, \<open>bindR\<close>, \<open>foldR\<close>) and two interfaces: \<open>guarded_machine\<close>, a step function with an
    invariant and an order its steps keep (the Sigrok client, the recorder and the hook of the
    configuration), and \<open>stream_consumer\<close>, a consumer that does not see
    how its input is cut (the Sigrok client). \<open>exclusive_lock\<close> of
    \<open>Serial_Task\<close> is the interface of a lock, interpreted by the automation lock.

  How the state corresponds. Classes and closures are records of their variables; a socket is
  named by the generation of the attempt that opened it; the listeners of the client and the
  calls of the test runner are events of a log or trace. An exception is \<open>Inl\<close> of the error;
  each message of the source is a constructor with the values it shows. An \<open>await\<close> of the test
  runner is numbered, and what the board answers and what happens meanwhile (text received, the
  abort button, a rejected write) are functions of that number, so a theorem for all such
  functions covers every interleaving. A database transaction is one step. \<open>Date.now()\<close> is an
  argument, or a clock that only moves forward by the delays the world chooses.

  What the lemmas show. Wire formats: encoders and decoders invert each other and decoders
  accept nothing else, whatever the chunking of the stream. Connection: no request outlives its
  socket, none is settled twice, an old socket's events do nothing. Configuration: what is built
  can be sent and means what was asked. Plans: the checked, growing construction equals plain
  expansion. Runs: results follow the plan, branches follow their checks, a run ends with the
  rails it switched off and the pins it set released, and serial waits neither lose nor repeat
  text. Captures: streamed summaries equal summaries in one pass. Archives: the counts kept in a
  record are those of its chunks after any sequence of operations, samples read back as they
  were written, a leased recording cannot be taken or pruned. Recordings: whatever the order of
  messages, writes and failures, the chunks written, the chunks waiting and the pending samples
  are the accepted samples, and a capture delivered as complete is all of them. Tasks: a script's
  task is stored, read back and run on the script's schedule; whatever is read or fetched, only
  requests within the firmware's limits are sent, and a run that does not succeed is cleaned up
  once. Board: what is shown is what is recorded, merging is idempotent, every pin is drawn once,
  the key of the current state is a fingerprint, no refresh is forgotten and changes of the
  configuration finish in order. Logs: the newest text is kept, within the limit. Editor: every edit
  is undone by one undo, and no workflow becomes too long to run.

  Termination and fuel. No definition uses fuel. Loops end by measures: the bytes left
  (\<open>feed_loop\<close>, the decoders), the time left (\<open>waitForCapture\<close>, because each round sleeps at
  least 100 ms), the keys left (\<open>iteratePowerCaptureChunks\<close>). \<open>appendPowerCapturePreview\<close> doubles
  its stride until the preview fits, which never happens when more samples than the maximum are
  marked as triggered or have offset 0; it is a \<open>partial_function (option)\<close> with the value
  \<open>None\<close> there, and \<open>Streaming_Capture\<close> shows that it returns for every recording.

  What is an argument. Regular expression engines (\<open>matchEnd\<close>, \<open>matches\<close>), the board and the
  serial ports (\<open>world\<close>, \<open>task_world\<close>), random run ids, the clock, \<open>JSON.parse\<close> outside the task
  blobs, the digits of a number that is not an integer (\<open>digits_of\<close>), the digest of the browser
  and the WebAssembly decoder. No law is assumed of them except where a
  statement says so.

  Not modelled. Rounding of double arithmetic in energies, averages and window times: they are
  exact rationals. Strings are Latin-1, and of the two letters whose upper case lies outside
  it \<open>toUpperCase\<close> leaves them as they are; a switch named \<open>__proto__\<close> is outside the model. Text for
  people (translations, formatted messages, CSV and zip files), rendering and the events of the
  DOM, hooks and components not named above, templates kept in local storage, the parsing of a
  script file (its result is an argument of the import), HTTP (\<open>api.ts\<close>), the capture protocol of older firmware, and
  the parts of the repository in other languages (firmware in C, host tools in Rust, packaging).
\<close>

end
